(* ===== verification/Prelude.thy ===== *)
theory Prelude
  imports Main "HOL-Library.Word"
begin

unbundle bit_operations_syntax

text \<open>
  The notions every component shares: the C integer types as words, little-endian loads and
  stores of words in byte buffers, \<^verbatim>\<open>memcpy\<close> and \<^verbatim>\<open>memset\<close> on buffers, the division of a
  buffer into blocks, rotations, and the lemma collections the component theories extend.

  Buffers are lists of bytes. A read or a write outside a buffer is never given a value by
  the definitions here: the loads return what the bytes in range say, and every component
  that can run past a buffer checks the length and returns \<^const>\<open>None\<close> or an error there.
\<close>

section \<open>Types\<close>

type_synonym u8 = "8 word"
type_synonym u16 = "16 word"
type_synonym u32 = "32 word"
type_synonym u64 = "64 word"
type_synonym bytes = "u8 list"

named_theorems length_simps \<open>lengths of the buffers the operations return\<close>
named_theorems xor_linear \<open>operations that distribute over exclusive or\<close>

section \<open>Exclusive or\<close>

lemma xor_cancel_left [simp]: "(a::'a::len word) XOR (a XOR b) = b"
  by (simp flip: xor.assoc)

lemma xor_cancel_right [simp]: "(b XOR (a::'a::len word)) XOR a = b"
  by (simp add: xor.assoc)

lemma xor_eq_zero_iff: "(a::'a::len word) XOR b = 0 \<longleftrightarrow> a = b"
  by (metis xor.left_neutral xor_cancel_left xor_self_eq)

definition xor_bytes :: "'a::len word list \<Rightarrow> 'a word list \<Rightarrow> 'a word list" where
  "xor_bytes xs ys = map2 (XOR) xs ys"

lemma length_xor_bytes [simp, length_simps]:
  "length (xor_bytes xs ys) = min (length xs) (length ys)"
  by (simp add: xor_bytes_def)

lemma xor_bytes_Nil [simp]: "xor_bytes [] ys = []" "xor_bytes xs [] = []"
  by (simp_all add: xor_bytes_def)

lemma xor_bytes_Cons [simp]: "xor_bytes (x # xs) (y # ys) = (x XOR y) # xor_bytes xs ys"
  by (simp add: xor_bytes_def)

lemma nth_xor_bytes:
  "i < length xs \<Longrightarrow> i < length ys \<Longrightarrow> xor_bytes xs ys ! i = xs ! i XOR ys ! i"
  by (simp add: xor_bytes_def)

lemma xor_bytes_cancel [simp]:
  "length xs = length ys \<Longrightarrow> xor_bytes (xor_bytes xs ys) ys = xs"
  by (induction xs ys rule: list_induct2) simp_all

lemma xor_bytes_commute: "xor_bytes xs ys = xor_bytes ys xs"
proof (induction xs arbitrary: ys)
  case (Cons x xs)
  then show ?case by (cases ys) (auto simp: xor.commute)
qed simp

lemma xor_bytes_assoc: "xor_bytes (xor_bytes xs ys) zs = xor_bytes xs (xor_bytes ys zs)"
proof (induction xs arbitrary: ys zs)
  case (Cons x xs)
  then show ?case by (cases ys; cases zs) (auto simp: xor.assoc)
qed simp

lemma xor_bytes_self [simp]: "xor_bytes xs xs = replicate (length xs) 0"
  by (induction xs) simp_all

lemma xor_bytes_append:
  "length xs = length us \<Longrightarrow> xor_bytes (xs @ ys) (us @ vs) = xor_bytes xs us @ xor_bytes ys vs"
  by (simp add: xor_bytes_def)

section \<open>Little-endian words\<close>

text \<open>
  \<^verbatim>\<open>*(u32*)p\<close> and \<^verbatim>\<open>memcpy(&v, p, 4)\<close> on the little-endian targets: the first byte is the
  least significant one. The width is that of the result type.
\<close>

primrec le_word :: "bytes \<Rightarrow> 'a::len word" where
  "le_word [] = 0"
| "le_word (b # bs) = ucast b OR push_bit 8 (le_word bs)"

primrec le_bytes :: "nat \<Rightarrow> 'a::len word \<Rightarrow> bytes" where
  "le_bytes 0 w = []"
| "le_bytes (Suc n) w = ucast w # le_bytes n (drop_bit 8 w)"

lemma length_le_bytes [simp, length_simps]: "length (le_bytes n w) = n"
  by (induction n arbitrary: w) simp_all

lemma bit_le_word:
  "bit (le_word bs :: 'a::len word) n \<longleftrightarrow>
     n < LENGTH('a) \<and> n div 8 < length bs \<and> bit (bs ! (n div 8)) (n mod 8)"
proof (induction bs arbitrary: n)
  case Nil
  then show ?case by simp
next
  case (Cons b bs)
  show ?case
  proof (cases "n < 8")
    case True
    then show ?thesis by (auto simp: bit_simps)
  next
    case False
    then obtain m where n: "n = 8 + m" using le_Suc_ex by fastforce
    have "\<not> bit b (8 + m)" using bit_imp_le_length [of b "8 + m"] by auto
    moreover have "(8 + m) div 8 = Suc (m div 8)" and "(8 + m) mod 8 = m mod 8" by simp_all
    ultimately show ?thesis using Cons.IH [of m] by (auto simp: bit_simps n)
  qed
qed

lemma bit_nth_le_bytes:
  "i < n \<Longrightarrow> bit (le_bytes n (w :: 'a::len word) ! i) j \<longleftrightarrow> j < 8 \<and> bit w (8 * i + j)"
proof (induction n arbitrary: w i)
  case (Suc n)
  show ?case
  proof (cases i)
    case 0
    then show ?thesis by (auto simp: bit_simps)
  next
    case (Suc k)
    then show ?thesis using Suc.IH [of k "drop_bit 8 w"] Suc.prems
      by (simp add: bit_simps algebra_simps)
  qed
qed simp

lemma le_word_le_bytes:
  assumes "LENGTH('a) \<le> 8 * n"
  shows "le_word (le_bytes n (w :: 'a::len word)) = w"
proof (rule bit_word_eqI)
  fix m assume m: "m < LENGTH('a)"
  then have "m div 8 < n" using assms by auto
  then show "bit (le_word (le_bytes n w) :: 'a word) m = bit w m"
    using m by (simp add: bit_le_word bit_nth_le_bytes)
qed

lemma le_bytes_le_word:
  assumes "length bs = n" and "8 * n \<le> LENGTH('a::len)"
  shows "le_bytes n (le_word bs :: 'a word) = bs"
proof (rule nth_equalityI)
  show "length (le_bytes n (le_word bs :: 'a word)) = length bs" using assms by simp
next
  fix i assume "i < length (le_bytes n (le_word bs :: 'a word))"
  then have i: "i < n" by simp
  show "le_bytes n (le_word bs :: 'a word) ! i = bs ! i"
  proof (rule bit_word_eqI)
    fix j assume "j < LENGTH(8)"
    then show "bit (le_bytes n (le_word bs :: 'a word) ! i) j = bit (bs ! i) j"
      using i assms by (auto simp: bit_le_word bit_nth_le_bytes)
  qed
qed

lemma le_word_xor:
  "length xs = length ys \<Longrightarrow>
   (le_word (xor_bytes xs ys) :: 'a::len word) = le_word xs XOR le_word ys"
  by (rule bit_word_eqI) (auto simp: bit_le_word bit_simps nth_xor_bytes)

lemma le_bytes_xor:
  "le_bytes n ((v :: 'a::len word) XOR w) = xor_bytes (le_bytes n v) (le_bytes n w)"
  by (induction n arbitrary: v w) (simp_all add: unsigned_xor_eq drop_bit_xor)

lemma ucast_of_nat_u64 [simp]:
  "n < 4294967296 \<Longrightarrow> (ucast (word_of_nat n :: u32) :: u64) = word_of_nat n"
  by (simp add: unsigned_of_nat take_bit_nat_eq_self)

lemma unat_word_small [simp]: "n < 4294967296 \<Longrightarrow> unat (word_of_nat n :: u32) = n"
  by (simp add: unat_of_nat take_bit_nat_eq_self)

lemma unat_word64_small [simp]:
  "n < 18446744073709551616 \<Longrightarrow> unat (word_of_nat n :: u64) = n"
  by (simp add: unat_of_nat take_bit_nat_eq_self)

section \<open>Buffers\<close>

text \<open>
  \<^verbatim>\<open>slice off n bs\<close> is what \<^verbatim>\<open>memcpy(dst, bs + off, n)\<close> reads and \<^verbatim>\<open>overlay off xs bs\<close> the
  buffer after \<^verbatim>\<open>memcpy(bs + off, xs, |xs|)\<close>.
\<close>

lemma nth_concat_uniform:
  assumes "\<And>x. length (f x) = c" and "0 < c" and "i < c * length xs"
  shows "concat (map f xs) ! i = f (xs ! (i div c)) ! (i mod c)"
  using assms(3)
proof (induction xs arbitrary: i)
  case (Cons x xs)
  show ?case
  proof (cases "i < c")
    case True
    then show ?thesis by (simp add: nth_append assms(1))
  next
    case False
    then have "i - c < c * length xs" using Cons.prems by simp
    moreover have "i div c = Suc ((i - c) div c)" "i mod c = (i - c) mod c"
      using False assms(2) by (simp_all add: le_div_geq le_mod_geq not_less)
    ultimately show ?thesis
      using False Cons.IH [of "i - c"] by (simp add: nth_append assms(1))
  qed
qed simp

lemma take_drop_split: "take n (drop m p) @ drop (m + n) p = drop m p"
  by (metis append_take_drop_id drop_drop add.commute)

definition slice :: "nat \<Rightarrow> nat \<Rightarrow> 'a list \<Rightarrow> 'a list" where
  "slice off n bs = take n (drop off bs)"

definition overlay :: "nat \<Rightarrow> 'a list \<Rightarrow> 'a list \<Rightarrow> 'a list" where
  "overlay off xs bs = take off bs @ xs @ drop (off + length xs) bs"

lemma length_slice [simp, length_simps]: "length (slice off n bs) = min n (length bs - off)"
  by (simp add: slice_def)

lemma length_overlay [length_simps]:
  "off + length xs \<le> length bs \<Longrightarrow> length (overlay off xs bs) = length bs"
  by (simp add: overlay_def)

lemma nth_slice: "i < n \<Longrightarrow> off + i < length bs \<Longrightarrow> slice off n bs ! i = bs ! (off + i)"
  by (simp add: slice_def)

lemma nth_overlay:
  assumes "off + length xs \<le> length bs" and "i < length bs"
  shows "overlay off xs bs ! i =
    (if off \<le> i \<and> i < off + length xs then xs ! (i - off) else bs ! i)"
  using assms by (auto simp: overlay_def nth_append min_def)

lemma slice_overlay_same [simp]:
  "off + length xs \<le> length bs \<Longrightarrow> slice off (length xs) (overlay off xs bs) = xs"
  by (simp add: slice_def overlay_def)

lemma slice_overlay_other:
  assumes "off + length xs \<le> length bs" and "o' + n \<le> off \<or> off + length xs \<le> o'"
    and "o' + n \<le> length bs"
  shows "slice o' n (overlay off xs bs) = slice o' n bs"
  by (rule nth_equalityI)
     (use assms in \<open>auto simp: length_overlay nth_slice nth_overlay\<close>)

lemma slice_all [simp]: "length bs \<le> n \<Longrightarrow> slice 0 n bs = bs"
  by (simp add: slice_def)

lemma overlay_slice_id: "off + n \<le> length bs \<Longrightarrow> overlay off (slice off n bs) bs = bs"
  by (rule nth_equalityI) (auto simp: length_overlay nth_overlay nth_slice)

lemma overlay_0 [simp]: "length xs = length bs \<Longrightarrow> overlay 0 xs bs = xs"
  by (simp add: overlay_def)

lemma overlay_Nil [simp]: "overlay off [] bs = bs"
  by (simp add: overlay_def)

text \<open>A buffer cut into consecutive blocks of \<open>n\<close> elements; a shorter rest is dropped.\<close>

function blocks :: "nat \<Rightarrow> 'a list \<Rightarrow> 'a list list" where
  "blocks n xs = (if n = 0 \<or> length xs < n then [] else take n xs # blocks n (drop n xs))"
  by pat_completeness auto
termination
  by (relation "measure (\<lambda>(n, xs). length xs)") auto

declare blocks.simps [simp del]

lemma blocks_Nil [simp]: "blocks n [] = []"
  by (subst blocks.simps) auto

lemma blocks_append:
  assumes "0 < n" and "length xs = n * k"
  shows "blocks n (xs @ ys) = blocks n xs @ blocks n ys"
  using assms(2)
proof (induction k arbitrary: xs)
  case 0
  then show ?case by simp
next
  case (Suc k)
  have "blocks n (drop n xs @ ys) = blocks n (drop n xs) @ blocks n ys"
    by (rule Suc.IH) (use Suc.prems in simp)
  then show ?case
    using Suc.prems assms(1) by (simp add: blocks.simps [of n xs] blocks.simps [of n "xs @ ys"])
qed

lemma blocks_single: "0 < n \<Longrightarrow> length xs = n \<Longrightarrow> blocks n xs = [xs]"
  by (simp add: blocks.simps [of n xs])

lemma in_blocks_length: "x \<in> set (blocks n xs) \<Longrightarrow> length x = n"
proof (induction n xs rule: blocks.induct)
  case (1 n xs)
  then show ?case by (subst (asm) (2) blocks.simps) (auto split: if_splits)
qed

lemma concat_blocks:
  assumes "0 < n" and "length xs = n * k"
  shows "concat (blocks n xs) = xs"
  using assms(2)
proof (induction k arbitrary: xs)
  case (Suc k)
  then show ?case using assms(1) by (subst blocks.simps) simp
qed simp

lemma length_blocks:
  assumes "0 < n" and "length xs = n * k"
  shows "length (blocks n xs) = k"
  using assms(2)
proof (induction k arbitrary: xs)
  case (Suc k)
  then show ?case using assms(1) by (subst blocks.simps) simp
qed simp

section \<open>Rotations\<close>

definition rol :: "nat \<Rightarrow> 'a::len word \<Rightarrow> 'a word" where
  "rol n w = push_bit n w OR drop_bit (LENGTH('a) - n) w"

definition ror :: "nat \<Rightarrow> 'a::len word \<Rightarrow> 'a word" where
  "ror n w = drop_bit n w OR push_bit (LENGTH('a) - n) w"

lemma bit_rol:
  assumes "n \<le> LENGTH('a)" and "m < LENGTH('a)"
  shows "bit (rol n (w :: 'a::len word)) m \<longleftrightarrow>
    (if n \<le> m then bit w (m - n) else bit w (m + LENGTH('a) - n))"
proof -
  have "\<not> bit w (LENGTH('a) - n + m)" if "n \<le> m"
    using that assms by (intro notI) (drule bit_imp_le_length, simp)
  then show ?thesis using assms by (auto simp: rol_def bit_simps algebra_simps)
qed

lemma bit_ror:
  assumes "n \<le> LENGTH('a)" and "m < LENGTH('a)"
  shows "bit (ror n (w :: 'a::len word)) m \<longleftrightarrow>
    (if m + n < LENGTH('a) then bit w (m + n) else bit w (m + n - LENGTH('a)))"
proof -
  have "\<not> bit w (n + m)" if "\<not> m + n < LENGTH('a)"
    using that by (intro notI) (drule bit_imp_le_length, simp)
  then show ?thesis using assms by (auto simp: ror_def bit_simps algebra_simps)
qed

lemma ror_rol [simp]: "n \<le> LENGTH('a) \<Longrightarrow> ror n (rol n (w :: 'a::len word)) = w"
  by (rule bit_word_eqI) (auto simp: bit_ror bit_rol)

lemma rol_ror [simp]: "n \<le> LENGTH('a) \<Longrightarrow> rol n (ror n (w :: 'a::len word)) = w"
  by (rule bit_word_eqI) (auto simp: bit_ror bit_rol)

lemma rol_eq_ror: "n \<le> LENGTH('a) \<Longrightarrow> rol n (w :: 'a::len word) = ror (LENGTH('a) - n) w"
  by (rule bit_word_eqI) (auto simp: bit_ror bit_rol algebra_simps)

section \<open>Tables of linear functions\<close>

text \<open>
  A function that distributes over exclusive or is determined by its values at the powers of
  two; \<open>xor_table\<close> builds its table from those by doubling.
\<close>

primrec xor_table :: "('a::len word \<Rightarrow> 'b::len word) \<Rightarrow> nat \<Rightarrow> 'b word list" where
  "xor_table f 0 = [f 0]"
| "xor_table f (Suc k) = xor_table f k @ map ((XOR) (f (2 ^ k))) (xor_table f k)"

lemma two_power_xor_less:
  assumes "i < 2 ^ k"
  shows "(word_of_nat (2 ^ k + i) :: 'a::len word) = 2 ^ k XOR word_of_nat i"
proof -
  have dis: "\<not> (bit (2 ^ k :: 'a word) n \<and> bit (word_of_nat i :: 'a word) n)" for n
  proof
    assume "bit (2 ^ k :: 'a word) n \<and> bit (word_of_nat i :: 'a word) n"
    then have "n = k" and "bit i n" by (auto simp: bit_exp_iff bit_simps)
    then show False using assms by (simp add: bit_iff_odd)
  qed
  have "(2 ^ k :: 'a word) + word_of_nat i = 2 ^ k OR word_of_nat i"
    by (rule disjunctive_add) (use dis in auto)
  also have "\<dots> = 2 ^ k XOR word_of_nat i"
    by (rule bit_word_eqI) (use dis in \<open>auto simp: bit_simps\<close>)
  finally show ?thesis by simp
qed

lemma xor_table_linear:
  assumes "\<And>a b. f (a XOR b) = f a XOR f b"
  shows "xor_table f k = map (\<lambda>i. f (word_of_nat i)) [0..<2 ^ k]"
proof (induction k)
  case (Suc k)
  have "[0..<2 ^ k + 2 ^ k] = [0..<2 ^ k] @ [2 ^ k..<2 ^ k + 2 ^ k]"
    by (rule upt_add_eq_append) simp
  then have "[0..<2 ^ Suc k] = [0..<2 ^ k] @ map (\<lambda>i. i + 2 ^ k) [0..<2 ^ k]"
    by (simp only: map_add_upt power_Suc mult_2)
  moreover have "f (2 ^ k XOR word_of_nat i) = f (word_of_nat (i + 2 ^ k))" if "i < 2 ^ k" for i
    using that by (simp only: two_power_xor_less add.commute [of i])
  ultimately show ?case
    by (simp only: xor_table.simps Suc.IH map_append map_map o_def)
       (auto simp flip: assms)
qed simp
lemma xor_table_8:
  "xor_table f 8 = xor_table f (Suc (Suc (Suc (Suc (Suc (Suc (Suc (Suc 0))))))))"
  by (rule arg_cong) simp

lemma nth_xor_table8:
  fixes f :: "u8 \<Rightarrow> 'b::len word"
  assumes "\<And>a b. f (a XOR b) = f a XOR f b"
  shows "xor_table f 8 ! unat y = f y"
proof -
  have "unat y < 2 ^ LENGTH(8)" by (rule unsigned_less)
  then have "unat y < 256" by simp
  then show ?thesis by (simp add: xor_table_linear [OF assms])
qed

lemma funpow_numeral:
  "(f ^^ 2) x = f (f x)" "(f ^^ 3) x = f (f (f x))" "(f ^^ 4) x = f (f (f (f x)))"
  "(f ^^ 5) x = f (f (f (f (f x))))" "(f ^^ 6) x = f (f (f (f (f (f x)))))"
  "(f ^^ 7) x = f (f (f (f (f (f (f x))))))"
  by (simp_all add: eval_nat_numeral)

lemma word_xor_induct:
  assumes zero: "P 0"
    and xor: "\<And>a b. P a \<Longrightarrow> P b \<Longrightarrow> P (a XOR b)"
    and exp: "\<And>k. k < LENGTH('a) \<Longrightarrow> P (2 ^ k)"
  shows "P (w :: 'a::len word)"
proof -
  have "n \<le> LENGTH('a) \<Longrightarrow> P (take_bit n w)" for n
  proof (induction n)
    case 0
    then show ?case by (simp add: zero)
  next
    case (Suc n)
    have "take_bit (Suc n) w = take_bit n w XOR (if bit w n then 2 ^ n else 0)"
      by (rule bit_word_eqI) (auto simp: bit_simps less_Suc_eq)
    then show ?case using Suc by (simp add: xor exp zero)
  qed
  from this [of "LENGTH('a)"] show ?thesis by simp
qed

section \<open>Rounding\<close>

text \<open>\<^verbatim>\<open>ROUND_TO_FULL_SECTORS(len, bps)\<close> of \<^verbatim>\<open>volume_header.h\<close>, on the numbers the words hold.\<close>

definition round_up :: "nat \<Rightarrow> nat \<Rightarrow> nat" where
  "round_up len bps = ((len + bps - 1) div bps) * bps"

lemma round_up_bounds:
  assumes "0 < bps"
  shows "len \<le> round_up len bps \<and> round_up len bps < len + bps"
proof -
  have "(len + bps - 1) mod bps < bps" using assms by simp
  moreover have "round_up len bps + (len + bps - 1) mod bps = len + bps - 1"
    unfolding round_up_def by (rule div_mult_mod_eq)
  ultimately show ?thesis using assms by linarith
qed

lemmas round_up_ge = round_up_bounds [THEN conjunct1]
lemmas round_up_less = round_up_bounds [THEN conjunct2]

lemma round_up_dvd: "bps dvd round_up len bps"
  by (simp add: round_up_def)

lemma round_up_exact:
  assumes "0 < bps" and "bps dvd len"
  shows "round_up len bps = len"
proof -
  have "bps dvd round_up len bps - len"
    using assms(2) round_up_dvd by (rule dvd_diff_nat [rotated])
  moreover have "round_up len bps - len < bps"
    using round_up_bounds [OF assms(1), of len] by linarith
  ultimately have "round_up len bps - len = 0"
    using dvd_imp_le by fastforce
  then show ?thesis using round_up_ge [OF assms(1), of len] by simp
qed

text \<open>
  A loop that rewrites a buffer chunk by chunk, each new chunk computed from the old one at the same place.
\<close>

lemma fold_overlay_chunks:
  assumes "\<And>i x. length (F i x) = c" and "c * n \<le> length b"
  shows "fold (\<lambda>i b. overlay (c * i) (F i (slice (c * i) c b)) b) [0..<n] b =
    concat (map (\<lambda>i. F i (slice (c * i) c b)) [0..<n]) @ drop (c * n) b"
  using assms(2)
proof (induction n)
  case (Suc n)
  define pre where "pre = concat (map (\<lambda>i. F i (slice (c * i) c b)) [0..<n])"
  have len: "length pre = c * n" unfolding pre_def by (induction n) (simp_all add: assms(1))
  have "slice (c * n) c (pre @ drop (c * n) b) = slice (c * n) c b" by (simp add: slice_def len)
  moreover have "drop (c * n + c) b = drop (c + c * n) b" by (simp add: add.commute)
  ultimately show ?case using Suc by (simp add: overlay_def len assms(1) pre_def [symmetric])
qed simp

lemma concat_xor_chunks:
  "c * n \<le> length a \<Longrightarrow> c * n \<le> length b \<Longrightarrow>
   concat (map (\<lambda>i. xor_bytes (slice (c * i) c a) (slice (c * i) c b)) [0..<n]) = xor_bytes (take (c * n) a) (take (c * n) b)"
proof (induction n)
  case (Suc n)
  have "take (c * Suc n) xs = take (c * n) xs @ slice (c * n) c xs" for xs :: "'a word list"
    using take_add [of "c * n" c xs] by (simp add: slice_def add.commute)
  then show ?case using Suc by (simp add: xor_bytes_append)
qed simp

end
