(* ===== verification/Crc32.thy ===== *)
theory Crc32
  imports Prelude
begin

unbundle bit_operations_syntax

text \<open>
  \<^verbatim>\<open>crypto_lib/crc32.c\<close>: the table-driven CRC-32 and \<^verbatim>\<open>crc32_combine\<close>, which the header code uses to
  checksum a key slot and its descriptor without putting them side by side.

  The theorems: the table-driven loop computes the bit-serial CRC of the reflected polynomial
  \<^verbatim>\<open>0xEDB88320\<close>; the multiplication loop of \<^verbatim>\<open>multmodp\<close>, which has no exit for a zero first
  operand, returns on every call \<^verbatim>\<open>crc32_combine\<close> makes; and combining the CRCs of two buffers
  gives the CRC of their concatenation.
\<close>

section \<open>The code\<close>

definition crc32_tab :: "u32 list" where
  "crc32_tab =
    [0x00000000, 0x77073096, 0xEE0E612C, 0x990951BA, 0x076DC419, 0x706AF48F, 0xE963A535, 0x9E6495A3,
     0x0EDB8832, 0x79DCB8A4, 0xE0D5E91E, 0x97D2D988, 0x09B64C2B, 0x7EB17CBD, 0xE7B82D07, 0x90BF1D91,
     0x1DB71064, 0x6AB020F2, 0xF3B97148, 0x84BE41DE, 0x1ADAD47D, 0x6DDDE4EB, 0xF4D4B551, 0x83D385C7,
     0x136C9856, 0x646BA8C0, 0xFD62F97A, 0x8A65C9EC, 0x14015C4F, 0x63066CD9, 0xFA0F3D63, 0x8D080DF5,
     0x3B6E20C8, 0x4C69105E, 0xD56041E4, 0xA2677172, 0x3C03E4D1, 0x4B04D447, 0xD20D85FD, 0xA50AB56B,
     0x35B5A8FA, 0x42B2986C, 0xDBBBC9D6, 0xACBCF940, 0x32D86CE3, 0x45DF5C75, 0xDCD60DCF, 0xABD13D59,
     0x26D930AC, 0x51DE003A, 0xC8D75180, 0xBFD06116, 0x21B4F4B5, 0x56B3C423, 0xCFBA9599, 0xB8BDA50F,
     0x2802B89E, 0x5F058808, 0xC60CD9B2, 0xB10BE924, 0x2F6F7C87, 0x58684C11, 0xC1611DAB, 0xB6662D3D,
     0x76DC4190, 0x01DB7106, 0x98D220BC, 0xEFD5102A, 0x71B18589, 0x06B6B51F, 0x9FBFE4A5, 0xE8B8D433,
     0x7807C9A2, 0x0F00F934, 0x9609A88E, 0xE10E9818, 0x7F6A0DBB, 0x086D3D2D, 0x91646C97, 0xE6635C01,
     0x6B6B51F4, 0x1C6C6162, 0x856530D8, 0xF262004E, 0x6C0695ED, 0x1B01A57B, 0x8208F4C1, 0xF50FC457,
     0x65B0D9C6, 0x12B7E950, 0x8BBEB8EA, 0xFCB9887C, 0x62DD1DDF, 0x15DA2D49, 0x8CD37CF3, 0xFBD44C65,
     0x4DB26158, 0x3AB551CE, 0xA3BC0074, 0xD4BB30E2, 0x4ADFA541, 0x3DD895D7, 0xA4D1C46D, 0xD3D6F4FB,
     0x4369E96A, 0x346ED9FC, 0xAD678846, 0xDA60B8D0, 0x44042D73, 0x33031DE5, 0xAA0A4C5F, 0xDD0D7CC9,
     0x5005713C, 0x270241AA, 0xBE0B1010, 0xC90C2086, 0x5768B525, 0x206F85B3, 0xB966D409, 0xCE61E49F,
     0x5EDEF90E, 0x29D9C998, 0xB0D09822, 0xC7D7A8B4, 0x59B33D17, 0x2EB40D81, 0xB7BD5C3B, 0xC0BA6CAD,
     0xEDB88320, 0x9ABFB3B6, 0x03B6E20C, 0x74B1D29A, 0xEAD54739, 0x9DD277AF, 0x04DB2615, 0x73DC1683,
     0xE3630B12, 0x94643B84, 0x0D6D6A3E, 0x7A6A5AA8, 0xE40ECF0B, 0x9309FF9D, 0x0A00AE27, 0x7D079EB1,
     0xF00F9344, 0x8708A3D2, 0x1E01F268, 0x6906C2FE, 0xF762575D, 0x806567CB, 0x196C3671, 0x6E6B06E7,
     0xFED41B76, 0x89D32BE0, 0x10DA7A5A, 0x67DD4ACC, 0xF9B9DF6F, 0x8EBEEFF9, 0x17B7BE43, 0x60B08ED5,
     0xD6D6A3E8, 0xA1D1937E, 0x38D8C2C4, 0x4FDFF252, 0xD1BB67F1, 0xA6BC5767, 0x3FB506DD, 0x48B2364B,
     0xD80D2BDA, 0xAF0A1B4C, 0x36034AF6, 0x41047A60, 0xDF60EFC3, 0xA867DF55, 0x316E8EEF, 0x4669BE79,
     0xCB61B38C, 0xBC66831A, 0x256FD2A0, 0x5268E236, 0xCC0C7795, 0xBB0B4703, 0x220216B9, 0x5505262F,
     0xC5BA3BBE, 0xB2BD0B28, 0x2BB45A92, 0x5CB36A04, 0xC2D7FFA7, 0xB5D0CF31, 0x2CD99E8B, 0x5BDEAE1D,
     0x9B64C2B0, 0xEC63F226, 0x756AA39C, 0x026D930A, 0x9C0906A9, 0xEB0E363F, 0x72076785, 0x05005713,
     0x95BF4A82, 0xE2B87A14, 0x7BB12BAE, 0x0CB61B38, 0x92D28E9B, 0xE5D5BE0D, 0x7CDCEFB7, 0x0BDBDF21,
     0x86D3D2D4, 0xF1D4E242, 0x68DDB3F8, 0x1FDA836E, 0x81BE16CD, 0xF6B9265B, 0x6FB077E1, 0x18B74777,
     0x88085AE6, 0xFF0F6A70, 0x66063BCA, 0x11010B5C, 0x8F659EFF, 0xF862AE69, 0x616BFFD3, 0x166CCF45,
     0xA00AE278, 0xD70DD2EE, 0x4E048354, 0x3903B3C2, 0xA7672661, 0xD06016F7, 0x4969474D, 0x3E6E77DB,
     0xAED16A4A, 0xD9D65ADC, 0x40DF0B66, 0x37D83BF0, 0xA9BCAE53, 0xDEBB9EC5, 0x47B2CF7F, 0x30B5FFE9,
     0xBDBDF21C, 0xCABAC28A, 0x53B39330, 0x24B4A3A6, 0xBAD03605, 0xCDD70693, 0x54DE5729, 0x23D967BF,
     0xB3667A2E, 0xC4614AB8, 0x5D681B02, 0x2A6F2B94, 0xB40BBE37, 0xC30C8EA1, 0x5A05DF1B, 0x2D02EF8D]"

definition crc32_update :: "u32 \<Rightarrow> u8 \<Rightarrow> u32" where
  "crc32_update crc b = crc32_tab ! unat ((crc XOR ucast b) AND 0xFF) XOR drop_bit 8 crc"

definition crc32 :: "bytes \<Rightarrow> u32" where
  "crc32 p = foldl crc32_update 0xFFFFFFFF p XOR 0xFFFFFFFF"

text \<open>
  The \<^verbatim>\<open>for (;;)\<close> loop of \<^verbatim>\<open>multmodp\<close>. Its only exit is under \<^verbatim>\<open>a & m\<close>; with \<open>a = 0\<close> it runs
  forever, which is the value \<^const>\<open>None\<close>.
\<close>

definition x_step :: "u32 \<Rightarrow> u32" where
  "x_step b = (if b AND 1 \<noteq> 0 then drop_bit 1 b XOR 0xEDB88320 else drop_bit 1 b)"

partial_function (option) multmodp_loop :: "u32 \<Rightarrow> u32 \<Rightarrow> u32 \<Rightarrow> u32 \<Rightarrow> u32 option" where
  "multmodp_loop a m p b =
     (if a AND m \<noteq> 0
      then (if a AND (m - 1) = 0 then Some (p XOR b)
            else multmodp_loop a (drop_bit 1 m) (p XOR b) (x_step b))
      else multmodp_loop a (drop_bit 1 m) p (x_step b))"

definition multmodp :: "u32 \<Rightarrow> u32 \<Rightarrow> u32 option" where
  "multmodp a b = multmodp_loop a 0x80000000 0 b"

primrec x2nmodp_square :: "nat \<Rightarrow> u32 \<Rightarrow> u32 option" where
  "x2nmodp_square 0 x = Some x"
| "x2nmodp_square (Suc k) x = Option.bind (multmodp x x) (x2nmodp_square k)"

text \<open>The \<^verbatim>\<open>while (n)\<close> loop of \<^verbatim>\<open>x2nmodp\<close>; \<open>n\<close> is a 64-bit word.\<close>

partial_function (option) x2nmodp_loop :: "u64 \<Rightarrow> u32 \<Rightarrow> u32 \<Rightarrow> u32 option" where
  "x2nmodp_loop n x p =
     (if n = 0 then Some p
      else Option.bind (if n AND 1 \<noteq> 0 then multmodp x p else Some p)
             (\<lambda>p'. Option.bind (multmodp x x) (\<lambda>x'. x2nmodp_loop (drop_bit 1 n) x' p')))"

definition x2nmodp :: "u64 \<Rightarrow> nat \<Rightarrow> u32 option" where
  "x2nmodp n k = Option.bind (x2nmodp_square k 0x40000000) (\<lambda>x. x2nmodp_loop n x 0x80000000)"

definition crc32_combine :: "u32 \<Rightarrow> u32 \<Rightarrow> u32 \<Rightarrow> u32 option" where
  "crc32_combine crc1 crc2 len2 =
     (if len2 = 0 then Some crc1
      else Option.bind (x2nmodp (ucast len2) 3)
             (\<lambda>x. Option.bind (multmodp x crc1) (\<lambda>y. Some (y XOR crc2))))"

section \<open>The bit-serial reference\<close>

text \<open>
  The register advances by one bit at a time: multiplication by \<open>x\<close> modulo the reflected
  polynomial. \<^verbatim>\<open>crc_bits\<close> is the textbook shift register.
\<close>

definition crc_byte :: "u32 \<Rightarrow> u8 \<Rightarrow> u32" where
  "crc_byte crc b = (x_step ^^ 8) (crc XOR ucast b)"

definition crc32_ref :: "bytes \<Rightarrow> u32" where
  "crc32_ref p = foldl crc_byte 0xFFFFFFFF p XOR 0xFFFFFFFF"

section \<open>Linearity of the register\<close>

lemma odd_word_iff_and_1: "(b :: 'a::len word) AND 1 \<noteq> 0 \<longleftrightarrow> bit b 0"
  by (simp add: and_one_eq odd_iff_mod_2_eq_one bit_0)

lemma x_step_bit: "x_step b = (if bit b 0 then drop_bit 1 b XOR 0xEDB88320 else drop_bit 1 b)"
  by (simp add: x_step_def odd_word_iff_and_1)

lemma x_step_xor [xor_linear]: "x_step (a XOR b) = x_step a XOR x_step b"
  by (auto simp: x_step_bit bit_xor_iff drop_bit_xor ac_simps)

lemma x_step_0 [simp]: "x_step 0 = 0"
  by (simp add: x_step_def)

lemma x_step_pow_xor [xor_linear]: "(x_step ^^ n) (a XOR b) = (x_step ^^ n) a XOR (x_step ^^ n) b"
  by (induction n) (simp_all add: xor_linear)

lemma x_step_pow_0 [simp]: "(x_step ^^ n) 0 = 0"
  by (induction n) simp_all

lemma x_step_eq_0: "x_step b = 0 \<longleftrightarrow> b = 0"
proof
  assume eq: "x_step b = 0"
  have "\<not> bit b 0"
  proof
    assume "bit b 0"
    then have "drop_bit 1 b XOR 0xEDB88320 = 0" using eq by (simp add: x_step_bit)
    then have "bit (drop_bit 1 b) 31 = bit (0xEDB88320 :: u32) 31"
      by (simp only: xor_eq_zero_iff)
    then show False by (auto simp: bit_simps dest: bit_imp_le_length)
  qed
  then have "drop_bit 1 b = 0" using eq by (simp add: x_step_bit)
  show "b = 0"
  proof (rule bit_word_eqI)
    fix n assume "n < LENGTH(32)"
    have "bit (drop_bit 1 b) (n - 1) = False" using \<open>drop_bit 1 b = 0\<close> by simp
    then show "bit b n = bit 0 n" using \<open>\<not> bit b 0\<close> by (cases n) (auto simp: bit_simps)
  qed
qed simp

lemma x_step_pow_eq_0: "(x_step ^^ n) b = 0 \<longleftrightarrow> b = 0"
  by (induction n) (simp_all add: x_step_eq_0)

section \<open>The table\<close>

lemma x_step_8:
  "(x_step ^^ 8) b = x_step (x_step (x_step (x_step (x_step (x_step (x_step (x_step b)))))))"
  by (simp add: eval_nat_numeral)

lemma x_step_8_basis:
  "(x_step ^^ 8) 0 = 0" "(x_step ^^ 8) 1 = 0x77073096" "(x_step ^^ 8) 2 = 0xEE0E612C"
  "(x_step ^^ 8) 4 = 0x076DC419" "(x_step ^^ 8) 8 = 0x0EDB8832" "(x_step ^^ 8) 16 = 0x1DB71064"
  "(x_step ^^ 8) 32 = 0x3B6E20C8" "(x_step ^^ 8) 64 = 0x76DC4190" "(x_step ^^ 8) 128 = 0xEDB88320"
  by (simp_all add: x_step_8 x_step_def)

lemma crc32_tab_eq: "crc32_tab = map (\<lambda>i. (x_step ^^ 8) (word_of_nat i)) [0..<256]"
proof -
  have "xor_table (x_step ^^ 8) 8 = crc32_tab"
    by (simp add: xor_table_8 x_step_8_basis crc32_tab_def)
  then show ?thesis
    using xor_table_linear [of "x_step ^^ 8" 8] by (simp add: xor_linear)
qed

lemma nth_crc32_tab:
  assumes "w < 256"
  shows "crc32_tab ! unat w = (x_step ^^ 8) w"
proof -
  have "unat w < 256" using assms by (simp add: word_less_nat_alt)
  then show ?thesis by (simp add: crc32_tab_eq)
qed

lemma x_step_pow_high:
  assumes "\<forall>i < n. \<not> bit b i"
  shows "(x_step ^^ n) b = drop_bit n b"
  using assms
proof (induction n)
  case (Suc n)
  then have "(x_step ^^ n) b = drop_bit n b" by simp
  moreover have "\<not> bit (drop_bit n b) 0" using Suc.prems by (simp add: bit_simps)
  ultimately show ?case by (simp add: x_step_bit [of "drop_bit n b"])
qed simp

lemma crc32_update_eq: "crc32_update crc b = crc_byte crc b"
proof -
  let ?c = "crc XOR ucast b"
  have ff: "0xFF = (mask 8 :: u32)" by (simp add: mask_eq_exp_minus_1)
  have split: "?c = (?c AND 0xFF) XOR (?c AND NOT 0xFF)"
    by (rule bit_word_eqI) (auto simp: bit_simps)
  have low: "crc32_tab ! unat (?c AND 0xFF) = (x_step ^^ 8) (?c AND 0xFF)"
    by (rule nth_crc32_tab) (rule le_less_trans [OF word_and_le1], simp)
  have "(x_step ^^ 8) (?c AND NOT 0xFF) = drop_bit 8 (?c AND NOT 0xFF)"
    by (rule x_step_pow_high) (auto simp: bit_simps ff)
  also have "\<dots> = drop_bit 8 crc"
    by (rule bit_word_eqI) (auto simp: bit_simps ff dest: bit_imp_le_length)
  finally have high: "(x_step ^^ 8) (?c AND NOT 0xFF) = drop_bit 8 crc" .
  show ?thesis
    unfolding crc_byte_def crc32_update_def low
    by (subst (2) split) (simp only: xor_linear high)
qed

section \<open>Multiplication in the quotient ring\<close>

text \<open>
  Bit \<open>31 - i\<close> of a register is the coefficient of \<open>x ^ i\<close>, so the product of \<open>a\<close> and \<open>b\<close> is the
  exclusive or of \<open>x ^ i * b\<close> over the bits of \<open>a\<close>. \<open>pm n\<close> sums the first \<open>n\<close> of these.
\<close>

definition ring_one :: u32 where
  "ring_one = 0x80000000"

primrec pm :: "nat \<Rightarrow> u32 \<Rightarrow> u32 \<Rightarrow> u32" where
  "pm 0 a b = 0"
| "pm (Suc n) a b = pm n a b XOR (if bit a (31 - n) then (x_step ^^ n) b else 0)"

lemma pm_xor_left [xor_linear]: "pm n (a XOR c) b = pm n a b XOR pm n c b"
  by (induction n) (auto simp: bit_xor_iff ac_simps)

lemma pm_xor_right [xor_linear]: "pm n a (b XOR c) = pm n a b XOR pm n a c"
  by (induction n) (auto simp: xor_linear ac_simps)

lemma pm_0_left [simp]: "pm n 0 b = 0"
  by (induction n) simp_all

lemma pm_0_right [simp]: "pm n a 0 = 0"
  by (induction n) simp_all

lemma pm_x_step: "pm n a (x_step b) = x_step (pm n a b)"
  by (induction n) (auto simp: xor_linear funpow_swap1)

lemma pm_x_step_pow: "pm n a ((x_step ^^ k) b) = (x_step ^^ k) (pm n a b)"
  by (induction k) (simp_all add: pm_x_step)

lemma pm_exp:
  "k < 32 \<Longrightarrow> n \<le> 32 \<Longrightarrow> pm n (2 ^ k) b = (if 31 - k < n then (x_step ^^ (31 - k)) b else 0)"
  by (induction n) (auto simp: bit_exp_iff less_Suc_eq)

lemma funpow_commute_pow: "(f ^^ m) ((f ^^ n) x) = (f ^^ n) ((f ^^ m) x)"
  by (simp add: add.commute flip: funpow_add o_apply [of "f ^^ m"] o_apply [of "f ^^ n"])

lemma x_step_pow_one: "k \<le> 31 \<Longrightarrow> (x_step ^^ k) ring_one = 2 ^ (31 - k)"
proof (induction k)
  case (Suc k)
  then have "(x_step ^^ Suc k) ring_one = x_step (2 ^ (31 - k))" by simp
  also have "\<dots> = drop_bit 1 (2 ^ (31 - k))"
    using Suc.prems by (simp add: x_step_bit bit_exp_iff)
  also have "\<dots> = 2 ^ (31 - Suc k)"
    by (rule bit_word_eqI) (use Suc.prems in \<open>auto simp: bit_simps bit_exp_iff\<close>)
  finally show ?case .
qed (simp add: ring_one_def)

lemma x_step_32: "(x_step ^^ 32) b = x_step ((x_step ^^ 31) b)"
proof -
  have "(32::nat) = Suc 31" by simp
  then show ?thesis by (simp only: funpow.simps o_apply)
qed

lemma pm_one_right: "pm 32 a ring_one = a"
proof (rule word_xor_induct [of "\<lambda>a. pm 32 a ring_one = a"])
  fix k :: nat assume "k < LENGTH(32)"
  then show "pm 32 (2 ^ k) ring_one = 2 ^ k" by (auto simp: pm_exp x_step_pow_one)
qed (simp_all add: xor_linear)

lemma pm_poly: "pm 32 0xEDB88320 b = (x_step ^^ 32) b"
proof (rule word_xor_induct [of "\<lambda>b. pm 32 0xEDB88320 b = (x_step ^^ 32) b"])
  have "(x_step ^^ 32) ring_one = x_step 1"
    unfolding x_step_32 by (subst x_step_pow_one) simp_all
  also have "\<dots> = 0xEDB88320" by (simp add: x_step_def)
  finally have one: "pm 32 0xEDB88320 ring_one = (x_step ^^ 32) ring_one"
    by (simp add: pm_one_right)
  fix k :: nat assume "k < LENGTH(32)"
  then have "(2 ^ k :: u32) = (x_step ^^ (31 - k)) ring_one"
    by (subst x_step_pow_one) simp_all
  then show "pm 32 0xEDB88320 (2 ^ k) = (x_step ^^ 32) (2 ^ k)"
    by (simp only: pm_x_step_pow one funpow_commute_pow)
next
  show "pm 32 0xEDB88320 0 = (x_step ^^ 32) 0" by simp
qed (simp add: xor_linear)

lemma pm_drop: "n \<le> 31 \<Longrightarrow> pm (Suc n) (drop_bit 1 a) b = x_step (pm n a b)"
proof (induction n)
  case 0
  then show ?case by (auto simp: bit_simps dest: bit_imp_le_length)
next
  case (Suc n)
  then have "31 - n = Suc (31 - Suc n)" by simp
  then have "bit (drop_bit 1 a) (31 - Suc n) = bit a (31 - n)" by (simp add: bit_simps)
  moreover have "pm (Suc n) (drop_bit 1 a) b = x_step (pm n a b)" using Suc by simp
  ultimately show ?case
    by (simp only: pm.simps(2) [of "Suc n"] pm.simps(2) [of n a] xor_linear) simp
qed

lemma pm_x_step_left: "pm 32 (x_step a) b = x_step (pm 32 a b)"
proof -
  have drop: "pm 32 (drop_bit 1 a) b = x_step (pm 31 a b)"
    using pm_drop [of 31 a b] by simp
  have step: "pm 32 a b = pm 31 a b XOR (if bit a 0 then (x_step ^^ 31) b else 0)"
    using pm.simps(2) [of 31 a b] by simp
  show ?thesis
    unfolding step by (simp add: x_step_bit [of a] xor_linear drop [simplified] pm_poly x_step_32)
qed

lemma pm_pow_left: "pm 32 ((x_step ^^ k) ring_one) b = (x_step ^^ k) b"
proof (induction k)
  case 0
  then show ?case using pm_exp [of 31 32 b] by (simp add: ring_one_def)
qed (simp add: pm_x_step_left)

section \<open>The multiplication loop\<close>

lemma pm_low_zero:
  assumes "\<forall>k < 31 - n. \<not> bit a k" and "n \<le> m" and "m < 32"
  shows "pm (Suc m) a b = pm (Suc n) a b"
  using assms(2,3)
proof (induction m)
  case (Suc m)
  show ?case
  proof (cases "n = Suc m")
    case False
    then have "31 - Suc m < 31 - n" using Suc.prems by simp
    then have "\<not> bit a (31 - Suc m)" using assms(1) by blast
    then show ?thesis using Suc False by (simp add: pm.simps(2) [of "Suc m"] del: pm.simps)
  qed simp
qed simp

lemma drop_bit_1_exp: "0 < k \<Longrightarrow> k < 32 \<Longrightarrow> drop_bit 1 (2 ^ k :: u32) = 2 ^ (k - 1)"
  by (rule bit_word_eqI) (auto simp: bit_simps bit_exp_iff)

lemma and_exp_iff_bit: "(a :: 'a::len word) AND 2 ^ k \<noteq> 0 \<longleftrightarrow> bit a k"
  by (simp add: and_exp_eq_0_iff_not_bit)

lemma and_exp_minus_1_eq_0:
  "(a :: 'a::len word) AND (2 ^ k - 1) = 0 \<longleftrightarrow> (\<forall>i < k. \<not> bit a i)"
proof -
  have "a AND (2 ^ k - 1) = take_bit k a" by (simp add: take_bit_eq_mask mask_eq_exp_minus_1)
  moreover have "take_bit k a = 0 \<longleftrightarrow> (\<forall>i < k. \<not> bit a i)"
    by (auto simp: bit_eq_iff bit_take_bit_iff dest: bit_imp_le_length)
  ultimately show ?thesis by simp
qed

lemma multmodp_loop_eq:
  assumes "n < 32" and "\<exists>k \<le> 31 - n. bit a k"
  shows "multmodp_loop a (2 ^ (31 - n)) (pm n a b) ((x_step ^^ n) b) = Some (pm 32 a b)"
  using assms
proof (induction "31 - n" arbitrary: n)
  case 0
  then have n: "n = 31" and "bit a 0" by auto
  then show ?case using pm.simps(2) [of 31 a b]
    by (subst multmodp_loop.simps) (simp add: and_one_eq odd_iff_mod_2_eq_one bit_0)
next
  case (Suc l)
  have l: "31 - Suc n = l" "n < 31" using Suc.hyps(2) by simp_all
  have next_m: "drop_bit 1 (2 ^ (31 - n) :: u32) = 2 ^ (31 - Suc n)"
    using Suc.hyps(2) by (subst drop_bit_1_exp) auto
  show ?case
  proof (cases "\<forall>i < 31 - n. \<not> bit a i")
    case True
    then have "bit a (31 - n)" using Suc.prems by (metis le_neq_implies_less)
    moreover have "pm 32 a b = pm (Suc n) a b"
      using pm_low_zero [OF True, of 31] l by simp
    ultimately show ?thesis
      by (subst multmodp_loop.simps) (use True in \<open>simp add: and_exp_iff_bit and_exp_minus_1_eq_0\<close>)
  next
    case False
    then have "\<exists>k \<le> 31 - Suc n. bit a k"
      using l by (metis Suc_diff_Suc less_Suc_eq_le)
    then have IH: "multmodp_loop a (2 ^ (31 - Suc n)) (pm (Suc n) a b) ((x_step ^^ Suc n) b)
      = Some (pm 32 a b)"
      using Suc.hyps(1) [of "Suc n"] l by simp
    show ?thesis
      using IH False
      by (subst multmodp_loop.simps)
         (simp only: and_exp_iff_bit and_exp_minus_1_eq_0 next_m pm.simps funpow.simps o_apply
           if_True if_False xor.right_neutral split: if_split, auto)
  qed
qed

lemma multmodp_eq:
  assumes "a \<noteq> 0"
  shows "multmodp a b = Some (pm 32 a b)"
proof -
  have "\<exists>k. bit a k" using assms by (auto simp: bit_eq_iff)
  then obtain k where "bit a k" ..
  moreover from this have "k \<le> 31" using bit_imp_le_length [of a k] by simp
  ultimately have "\<exists>k \<le> 31. bit a k" by blast
  then show ?thesis using multmodp_loop_eq [of 0 a b] by (simp add: multmodp_def)
qed

abbreviation x_pow :: "nat \<Rightarrow> u32" where
  "x_pow k \<equiv> (x_step ^^ k) ring_one"

lemma multmodp_x_pow: "multmodp (x_pow m) b = Some ((x_step ^^ m) b)"
  by (subst multmodp_eq) (simp_all add: x_step_pow_eq_0 pm_pow_left, simp add: ring_one_def)

lemma x2nmodp_square_eq: "x2nmodp_square k (x_pow m) = Some (x_pow (m * 2 ^ k))"
proof (induction k arbitrary: m)
  case (Suc k)
  have "multmodp (x_pow m) (x_pow m) = Some (x_pow (m + m))"
    by (simp add: multmodp_x_pow funpow_add)
  then show ?case by (simp add: Suc.IH mult.assoc flip: mult_2_right)
qed simp

lemma x2nmodp_loop_eq: "x2nmodp_loop n (x_pow m) (x_pow q) = Some (x_pow (q + m * unat n))"
proof (induction "unat n" arbitrary: n m q rule: less_induct)
  case less
  show ?case
  proof (cases "n = 0")
    case True
    then show ?thesis by (subst x2nmodp_loop.simps) simp
  next
    case False
    have half: "unat (drop_bit 1 n) = unat n div 2"
      unfolding unat_drop_bit_eq by (simp add: drop_bit_eq_div)
    have "unat n \<noteq> 0" using False by (simp add: unat_eq_zero)
    then have lt: "unat (drop_bit 1 n) < unat n" using half by simp
    have sq: "multmodp (x_pow m) (x_pow m) = Some (x_pow (m + m))"
      by (simp add: multmodp_x_pow funpow_add)
    have odd: "n AND 1 \<noteq> 0 \<longleftrightarrow> unat n mod 2 = 1"
    proof -
      have "bit n 0 \<longleftrightarrow> bit (unat n) 0" by (simp add: bit_unsigned_iff)
      also have "\<dots> \<longleftrightarrow> unat n mod 2 = 1" by (simp only: bit_0 odd_iff_mod_2_eq_one)
      finally show ?thesis by (simp only: odd_word_iff_and_1)
    qed
    have p: "(if n AND 1 \<noteq> 0 then multmodp (x_pow m) (x_pow q) else Some (x_pow q))
      = Some (x_pow (q + m * (unat n mod 2)))"
      unfolding odd by (simp add: multmodp_x_pow funpow_add funpow_commute_pow)
    have "q + m * (unat n mod 2) + (m + m) * (unat n div 2)
        = q + m * (unat n div 2 * 2 + unat n mod 2)"
      by (simp only: algebra_simps mult_2_right)
    then have exps: "q + m * (unat n mod 2) + (m + m) * (unat n div 2) = q + m * unat n"
      by (simp only: div_mult_mod_eq)
    show ?thesis
      using less [OF lt, of "m + m" "q + m * (unat n mod 2)"] False
      by (subst x2nmodp_loop.simps) (simp only: p sq if_False bind.simps half exps)
  qed
qed

lemma x2nmodp_eq: "x2nmodp n k = Some (x_pow (2 ^ k * unat n))"
proof -
  have "0x40000000 = x_pow 1" and "0x80000000 = x_pow 0"
    by (simp_all add: ring_one_def x_step_def)
  then show ?thesis
    by (simp only: x2nmodp_def x2nmodp_square_eq bind.simps x2nmodp_loop_eq) simp
qed

section \<open>Concatenation\<close>

lemma foldl_crc_byte_xor:
  "foldl crc_byte (c XOR d) bs = foldl crc_byte c bs XOR (x_step ^^ (8 * length bs)) d"
proof (induction bs arbitrary: c d)
  case (Cons b bs)
  have "crc_byte (c XOR d) b = crc_byte c b XOR (x_step ^^ 8) d"
    by (simp add: crc_byte_def xor_linear ac_simps)
  then show ?case by (simp only: foldl_Cons Cons.IH) (simp add: funpow_add funpow_commute_pow)
qed simp

lemma crc32_eq_ref: "crc32 p = crc32_ref p"
proof -
  have "crc32_update = crc_byte" by (intro ext crc32_update_eq)
  then show ?thesis by (simp add: crc32_def crc32_ref_def)
qed

lemma crc32_append: "crc32 (p @ q) = (x_step ^^ (8 * length q)) (crc32 p) XOR crc32 q"
proof -
  let ?F = "foldl crc_byte 0xFFFFFFFF"
  have "?F p = 0xFFFFFFFF XOR crc32_ref p" by (simp add: crc32_ref_def xor.commute)
  then have "?F (p @ q) = ?F q XOR (x_step ^^ (8 * length q)) (crc32_ref p)"
    by (simp only: foldl_append foldl_crc_byte_xor)
  then show ?thesis by (simp only: crc32_eq_ref crc32_ref_def [of "p @ q"] crc32_ref_def [of q] ac_simps)
qed

lemma crc32_combine_eq:
  assumes "length q < 2 ^ 32"
  shows "crc32_combine (crc32 p) (crc32 q) (word_of_nat (length q)) = Some (crc32 (p @ q))"
proof (cases "q = []")
  case True
  then show ?thesis by (simp add: crc32_combine_def)
next
  case False
  have len: "unat (word_of_nat (length q) :: u32) = length q"
    using assms by (simp add: unat_of_nat)
  then have "(word_of_nat (length q) :: u32) \<noteq> 0" using False by auto
  moreover have "unat (ucast (word_of_nat (length q) :: u32) :: u64) = length q"
    using len assms by (simp add: unsigned_ucast_eq take_bit_nat_eq_self)
  ultimately show ?thesis
    by (simp add: crc32_combine_def x2nmodp_eq multmodp_x_pow crc32_append)
qed

section \<open>Properties\<close>

text \<open>
  The table-driven \<^verbatim>\<open>crc32\<close> computes, for every buffer, the bit-serial CRC-32 of the reflected
  polynomial \<^verbatim>\<open>0xEDB88320\<close>: all 256 table entries are right and the lookup advances the register
  by eight bits.
\<close>

theorem crc32_table_correct: "crc32 p = crc32_ref p"
  by (rule crc32_eq_ref)

text \<open>
  C35 (functional): \<^verbatim>\<open>crc32_combine\<close> returns (its inner loops end) and yields the CRC of the concatenation of the
  two buffers, for every second buffer whose length fits the 32-bit length argument.
\<close>

theorem crc32_combine_correct:
  assumes "length q < 2 ^ 32"
  shows "crc32_combine (crc32 p) (crc32 q) (word_of_nat (length q)) = Some (crc32 (p @ q))"
  using assms by (rule crc32_combine_eq)

theorem crc32_combine_correct_witness:
  "crc32_combine (crc32 [1, 2]) (crc32 [3, 4, 5]) 3 = Some (crc32 [1, 2, 3, 4, 5])"
  using crc32_combine_correct [of "[3, 4, 5]" "[1, 2]"] by simp

end
