(* ===== verification/Sha512.thy ===== *)
theory Sha512
  imports Prelude
begin

unbundle bit_operations_syntax

text \<open>
  \<^verbatim>\<open>crypto_lib/sha512.c\<close>: the context, the compression function with its eight rounds unrolled over
  rotating registers, and the streaming interface \<^verbatim>\<open>sha512_init\<close>, \<^verbatim>\<open>sha512_hash\<close>, \<^verbatim>\<open>sha512_done\<close>.

  The reference is FIPS 180-4: the working variables shift by one each round, the schedule is
  the recurrence of the standard, the padding carries a 128-bit length.  The round constants and the
  four sigma functions are written once, for the code and for the reference. The theorems show that the
  unrolled compression is the standard's, and that any way of feeding a message in pieces gives
  its SHA-512 digest. The locale \<open>stream_hash\<close> states that contract for the components that
  hash: HMAC, the key derivation and the keyfile mixer rest on its interpretation here.
\<close>

section \<open>The code\<close>

text \<open>The constants, grouped by the eight rounds of one pass of the round loop.\<close>

definition K :: "u64 list" where
  "K = concat
    [[0x428a2f98d728ae22, 0x7137449123ef65cd, 0xb5c0fbcfec4d3b2f, 0xe9b5dba58189dbbc,
      0x3956c25bf348b538, 0x59f111f1b605d019, 0x923f82a4af194f9b, 0xab1c5ed5da6d8118],
     [0xd807aa98a3030242, 0x12835b0145706fbe, 0x243185be4ee4b28c, 0x550c7dc3d5ffb4e2,
      0x72be5d74f27b896f, 0x80deb1fe3b1696b1, 0x9bdc06a725c71235, 0xc19bf174cf692694],
     [0xe49b69c19ef14ad2, 0xefbe4786384f25e3, 0x0fc19dc68b8cd5b5, 0x240ca1cc77ac9c65,
      0x2de92c6f592b0275, 0x4a7484aa6ea6e483, 0x5cb0a9dcbd41fbd4, 0x76f988da831153b5],
     [0x983e5152ee66dfab, 0xa831c66d2db43210, 0xb00327c898fb213f, 0xbf597fc7beef0ee4,
      0xc6e00bf33da88fc2, 0xd5a79147930aa725, 0x06ca6351e003826f, 0x142929670a0e6e70],
     [0x27b70a8546d22ffc, 0x2e1b21385c26c926, 0x4d2c6dfc5ac42aed, 0x53380d139d95b3df,
      0x650a73548baf63de, 0x766a0abb3c77b2a8, 0x81c2c92e47edaee6, 0x92722c851482353b],
     [0xa2bfe8a14cf10364, 0xa81a664bbc423001, 0xc24b8b70d0f89791, 0xc76c51a30654be30,
      0xd192e819d6ef5218, 0xd69906245565a910, 0xf40e35855771202a, 0x106aa07032bbd1b8],
     [0x19a4c116b8d2d0c8, 0x1e376c085141ab53, 0x2748774cdf8eeb99, 0x34b0bcb5e19b48a8,
      0x391c0cb3c5c95a63, 0x4ed8aa4ae3418acb, 0x5b9cca4f7763e373, 0x682e6ff3d6b2b8a3],
     [0x748f82ee5defb2fc, 0x78a5636f43172f60, 0x84c87814a1f0ab72, 0x8cc702081a6439ec,
      0x90befffa23631e28, 0xa4506cebde82bde9, 0xbef9a3f7b2c67915, 0xc67178f2e372532b],
     [0xca273eceea26619c, 0xd186b8c721c0c207, 0xeada7dd6cde0eb1e, 0xf57d4f7fee6ed178,
      0x06f067aa72176fba, 0x0a637dc5a2c898a6, 0x113f9804bef90dae, 0x1b710b35131c471b],
     [0x28db77f523047d84, 0x32caab7b40c72493, 0x3c9ebe0a15c9bebc, 0x431d67c49c100d4c,
      0x4cc5d4becb3e42b6, 0x597f299cfc657e2a, 0x5fcb6fab3ad6faec, 0x6c44198c4a475817]]"

definition Ch :: "u64 \<Rightarrow> u64 \<Rightarrow> u64 \<Rightarrow> u64" where
  "Ch x y z = z XOR (x AND (y XOR z))"

definition Maj :: "u64 \<Rightarrow> u64 \<Rightarrow> u64 \<Rightarrow> u64" where
  "Maj x y z = ((x OR y) AND z) OR (x AND y)"

definition Sigma0 :: "u64 \<Rightarrow> u64" where
  "Sigma0 x = ror 28 x XOR ror 34 x XOR ror 39 x"

definition Sigma1 :: "u64 \<Rightarrow> u64" where
  "Sigma1 x = ror 14 x XOR ror 18 x XOR ror 41 x"

definition Gamma0 :: "u64 \<Rightarrow> u64" where
  "Gamma0 x = ror 1 x XOR ror 8 x XOR drop_bit 7 x"

definition Gamma1 :: "u64 \<Rightarrow> u64" where
  "Gamma1 x = ror 19 x XOR ror 61 x XOR drop_bit 6 x"

text \<open>\<^verbatim>\<open>SHA512_BLOCK_SIZE\<close> is 128, \<^verbatim>\<open>SHA512_DIGEST_SIZE\<close> is 64.\<close>

record sha512_ctx =
  sha_hash :: "u64 list"
  sha_length :: u64
  sha_curlen :: u32
  sha_buf :: bytes

text \<open>\<^verbatim>\<open>_byteswap_uint64\<close>.\<close>

definition byteswap_uint64 :: "u64 \<Rightarrow> u64" where
  "byteswap_uint64 w = le_word (rev (le_bytes 8 w))"

definition sha512_load :: "bytes \<Rightarrow> u64 list" where
  "sha512_load buf = map (\<lambda>i. byteswap_uint64 (le_word (slice (8 * i) 8 buf))) [0..<16]"

definition sha512_extend :: "u64 list \<Rightarrow> nat \<Rightarrow> u64 list" where
  "sha512_extend W i =
     W @ [Gamma1 (W ! (i - 2)) + W ! (i - 7) + Gamma0 (W ! (i - 15)) + W ! (i - 16)]"

definition sha512_schedule :: "bytes \<Rightarrow> u64 list" where
  "sha512_schedule buf = foldl sha512_extend (sha512_load buf) [16..<80]"

text \<open>
  The macro \<^verbatim>\<open>RND(a,b,c,d,e,f,g,h,i)\<close>: its register arguments are the positions in \<open>S\<close>; \<open>d\<close> and
  \<open>h\<close> are written.
\<close>

definition RND :: "u64 list \<Rightarrow> nat \<Rightarrow> nat \<Rightarrow> nat \<Rightarrow> nat \<Rightarrow> nat \<Rightarrow> nat \<Rightarrow> nat \<Rightarrow> nat \<Rightarrow> nat
    \<Rightarrow> u64 list \<Rightarrow> u64 list" where
  "RND W a b c d e f g h i S =
     (let t0 = S ! h + Sigma1 (S ! e) + Ch (S ! e) (S ! f) (S ! g) + K ! i + W ! i;
          t1 = Sigma0 (S ! a) + Maj (S ! a) (S ! b) (S ! c)
      in S[d := S ! d + t0, h := t0 + t1])"

definition sha512_rounds8 :: "u64 list \<Rightarrow> u64 list \<Rightarrow> nat \<Rightarrow> u64 list" where
  "sha512_rounds8 W S i =
     RND W 1 2 3 4 5 6 7 0 (i + 7)
    (RND W 2 3 4 5 6 7 0 1 (i + 6)
    (RND W 3 4 5 6 7 0 1 2 (i + 5)
    (RND W 4 5 6 7 0 1 2 3 (i + 4)
    (RND W 5 6 7 0 1 2 3 4 (i + 3)
    (RND W 6 7 0 1 2 3 4 5 (i + 2)
    (RND W 7 0 1 2 3 4 5 6 (i + 1)
    (RND W 0 1 2 3 4 5 6 7 (i + 0) S)))))))"

definition sha512_compress :: "sha512_ctx \<Rightarrow> bytes \<Rightarrow> sha512_ctx" where
  "sha512_compress ctx buf =
     (let W = sha512_schedule buf;
          S = foldl (sha512_rounds8 W) (sha_hash ctx) [0, 8, 16, 24, 32, 40, 48, 56, 64, 72]
      in ctx\<lparr>sha_hash := map2 (+) (sha_hash ctx) S\<rparr>)"

definition sha512_init :: "sha512_ctx \<Rightarrow> sha512_ctx" where
  "sha512_init ctx = ctx\<lparr>sha_curlen := 0, sha_length := 0, sha_hash :=
     [0x6a09e667f3bcc908, 0xbb67ae8584caa73b, 0x3c6ef372fe94f82b, 0xa54ff53a5f1d36f1,
      0x510e527fade682d1, 0x9b05688c2b3e6c1f, 0x1f83d9abfb41bd6b, 0x5be0cd19137e2179]\<rparr>"

text \<open>
  The \<^verbatim>\<open>while (inlen > 0)\<close> loop; the input list is the \<open>inlen\<close> bytes at \<^verbatim>\<open>in\<close>. The subtraction
  \<^verbatim>\<open>SHA512_BLOCK_SIZE - ctx->curlen\<close> is on 32-bit words, as in the code.
\<close>

function sha512_hash :: "sha512_ctx \<Rightarrow> bytes \<Rightarrow> sha512_ctx" where
  "sha512_hash ctx inp =
     (if inp = [] then ctx
      else if sha_curlen ctx = 0 \<and> 128 \<le> length inp
      then sha512_hash
             ((sha512_compress ctx (take 128 inp))\<lparr>sha_length := sha_length ctx + 1024\<rparr>)
             (drop 128 inp)
      else
        (let n = min (unat (128 - sha_curlen ctx)) (length inp);
             ctx1 = ctx\<lparr>sha_buf := overlay (unat (sha_curlen ctx)) (take n inp) (sha_buf ctx),
                        sha_curlen := sha_curlen ctx + word_of_nat n\<rparr>;
             ctx2 = (if sha_curlen ctx1 = 128
                     then (sha512_compress ctx1 (sha_buf ctx1))
                            \<lparr>sha_length := sha_length ctx1 + 1024, sha_curlen := 0\<rparr>
                     else ctx1)
         in sha512_hash ctx2 (drop n inp)))"
  by pat_completeness auto

text \<open>\<^verbatim>\<open>while (ctx->curlen < lim) ctx->buf[ctx->curlen++] = 0\<close>.\<close>

definition sha512_zero_to :: "u32 \<Rightarrow> sha512_ctx \<Rightarrow> sha512_ctx" where
  "sha512_zero_to lim ctx =
     (if sha_curlen ctx < lim
      then ctx\<lparr>sha_buf := overlay (unat (sha_curlen ctx))
                 (replicate (unat lim - unat (sha_curlen ctx)) 0) (sha_buf ctx),
               sha_curlen := lim\<rparr>
      else ctx)"

definition sha512_done :: "sha512_ctx \<Rightarrow> sha512_ctx \<times> bytes" where
  "sha512_done ctx =
     (let ctx1 = ctx\<lparr>sha_length := sha_length ctx + ucast (sha_curlen ctx * 8)\<rparr>;
          ctx2 = ctx1\<lparr>sha_buf := overlay (unat (sha_curlen ctx1)) [0x80] (sha_buf ctx1),
                      sha_curlen := sha_curlen ctx1 + 1\<rparr>;
          ctx3 = (if 112 < sha_curlen ctx2
                  then let c = sha512_zero_to 128 ctx2
                       in (sha512_compress c (sha_buf c))\<lparr>sha_curlen := 0\<rparr>
                  else ctx2);
          ctx4 = sha512_zero_to 120 ctx3;
          ctx5 = ctx4\<lparr>sha_buf := overlay 120 (le_bytes 8 (byteswap_uint64 (sha_length ctx4)))
                                   (sha_buf ctx4)\<rparr>;
          ctx6 = sha512_compress ctx5 (sha_buf ctx5)
      in (ctx6, concat (map (\<lambda>h. le_bytes 8 (byteswap_uint64 h)) (sha_hash ctx6))))"

section \<open>FIPS 180-4\<close>

definition be_word :: "bytes \<Rightarrow> 'a::len word" where
  "be_word bs = le_word (rev bs)"

definition be_bytes :: "nat \<Rightarrow> 'a::len word \<Rightarrow> bytes" where
  "be_bytes n w = rev (le_bytes n w)"

definition fips_Ch :: "u64 \<Rightarrow> u64 \<Rightarrow> u64 \<Rightarrow> u64" where
  "fips_Ch x y z = (x AND y) XOR (NOT x AND z)"

definition fips_Maj :: "u64 \<Rightarrow> u64 \<Rightarrow> u64 \<Rightarrow> u64" where
  "fips_Maj x y z = (x AND y) XOR (x AND z) XOR (y AND z)"

fun fips_W :: "bytes \<Rightarrow> nat \<Rightarrow> u64" where
  "fips_W blk t =
     (if t < 16 then be_word (slice (8 * t) 8 blk)
      else Gamma1 (fips_W blk (t - 2)) + fips_W blk (t - 7)
           + Gamma0 (fips_W blk (t - 15)) + fips_W blk (t - 16))"

declare fips_W.simps [simp del]

text \<open>The working variables \<open>a\<close> to \<open>h\<close>, as a list of eight.\<close>

fun fips_round :: "u64 \<Rightarrow> u64 \<Rightarrow> u64 list \<Rightarrow> u64 list" where
  "fips_round k w [a, b, c, d, e, f, g, h] =
     (let t1 = h + Sigma1 e + fips_Ch e f g + k + w;
          t2 = Sigma0 a + fips_Maj a b c
      in [t1 + t2, a, b, c, d + t1, e, f, g])"
| "fips_round k w S = S"

definition fips_compress :: "u64 list \<Rightarrow> bytes \<Rightarrow> u64 list" where
  "fips_compress H blk =
     map2 (+) H (foldl (\<lambda>S t. fips_round (K ! t) (fips_W blk t) S) H [0..<80])"

definition fips_H0 :: "u64 list" where
  "fips_H0 =
     [0x6a09e667f3bcc908, 0xbb67ae8584caa73b, 0x3c6ef372fe94f82b, 0xa54ff53a5f1d36f1,
      0x510e527fade682d1, 0x9b05688c2b3e6c1f, 0x1f83d9abfb41bd6b, 0x5be0cd19137e2179]"

text \<open>Padding: a one bit, the least number of zeros, the length in bits as a 128-bit number.\<close>

definition fips_pad :: "bytes \<Rightarrow> bytes" where
  "fips_pad m = m @ [0x80] @ replicate ((239 - length m mod 128) mod 128) 0
                  @ be_bytes 16 (word_of_nat (8 * length m) :: 128 word)"

definition SHA512 :: "bytes \<Rightarrow> bytes" where
  "SHA512 m = concat (map (be_bytes 8) (foldl fips_compress fips_H0 (blocks 128 (fips_pad m))))"

section \<open>Termination of the input loop\<close>

termination sha512_hash
proof (relation "measure (\<lambda>(ctx, inp). 2 * length inp + (if sha_curlen ctx = 128 then 1 else 0))",
    goal_cases)
  case (3 ctx inp n ctx1 ctx2)
  show ?case
  proof (cases "sha_curlen ctx = 128")
    case True
    then show ?thesis using 3 by (auto simp: sha512_compress_def Let_def)
  next
    case False
    then have "128 - sha_curlen ctx \<noteq> 0" by simp
    then have "0 < n" using 3 by (simp add: unat_gt_0)
    then show ?thesis using 3 False by (auto simp: sha512_compress_def Let_def min_def)
  qed
qed (auto simp: sha512_compress_def Let_def)

declare sha512_hash.simps [simp del]

section \<open>Byte order\<close>

lemma length_be_bytes [simp, length_simps]: "length (be_bytes n w) = n"
  by (simp add: be_bytes_def)

lemma byteswap_le_word: "length bs = 8 \<Longrightarrow> byteswap_uint64 (le_word bs) = be_word bs"
  by (simp add: byteswap_uint64_def be_word_def le_bytes_le_word)

lemma le_bytes_byteswap: "le_bytes 8 (byteswap_uint64 w) = be_bytes 8 w"
  by (simp add: byteswap_uint64_def be_bytes_def le_bytes_le_word)

section \<open>The compression function\<close>

lemma Ch_eq: "Ch x y z = fips_Ch x y z"
  unfolding Ch_def fips_Ch_def by (rule bit_word_eqI) (auto simp: bit_simps)

lemma Maj_eq: "Maj x y z = fips_Maj x y z"
  unfolding Maj_def fips_Maj_def by (rule bit_word_eqI) (auto simp: bit_simps)

lemma sha512_load_nth:
  "length buf = 128 \<Longrightarrow> t < 16 \<Longrightarrow> sha512_load buf ! t = fips_W buf t"
  by (simp add: sha512_load_def byteswap_le_word fips_W.simps [of buf t])

lemma sha512_schedule_prefix:
  assumes "length buf = 128" and "16 \<le> n"
  shows "foldl sha512_extend (sha512_load buf) [16..<n] = map (fips_W buf) [0..<n]"
  using assms(2)
proof (induction n rule: dec_induct)
  case base
  have "length (sha512_load buf) = 16" by (simp add: sha512_load_def)
  then show ?case by (auto intro!: nth_equalityI simp: sha512_load_nth assms(1))
next
  case (step n)
  then show ?case by (simp add: sha512_extend_def fips_W.simps [of buf n])
qed

lemma sha512_schedule_eq:
  "length buf = 128 \<Longrightarrow> sha512_schedule buf = map (fips_W buf) [0..<80]"
  unfolding sha512_schedule_def by (rule sha512_schedule_prefix) simp_all

lemma length_8_cases:
  assumes "length S = 8"
  obtains a b c d e f g h where "S = [a, b, c, d, e, f, g, h]"
  using assms by (auto simp: length_Suc_conv numeral_eq_Suc)

text \<open>
  The unrolled code leaves the registers in place and rotates the roles; the standard shifts the
  variables. After \<open>j\<close> rounds the array is the standard's state rotated by \<open>j\<close>.
\<close>

lemma RND_rotated:
  assumes "length F = 8"
  defines "G \<equiv> \<lambda>W i. fips_round (K ! i) (W ! i) F"
  shows "RND W 0 1 2 3 4 5 6 7 i F = drop 1 (G W i) @ take 1 (G W i)"
    and "RND W 7 0 1 2 3 4 5 6 i (drop 1 F @ take 1 F) = drop 2 (G W i) @ take 2 (G W i)"
    and "RND W 6 7 0 1 2 3 4 5 i (drop 2 F @ take 2 F) = drop 3 (G W i) @ take 3 (G W i)"
    and "RND W 5 6 7 0 1 2 3 4 i (drop 3 F @ take 3 F) = drop 4 (G W i) @ take 4 (G W i)"
    and "RND W 4 5 6 7 0 1 2 3 i (drop 4 F @ take 4 F) = drop 5 (G W i) @ take 5 (G W i)"
    and "RND W 3 4 5 6 7 0 1 2 i (drop 5 F @ take 5 F) = drop 6 (G W i) @ take 6 (G W i)"
    and "RND W 2 3 4 5 6 7 0 1 i (drop 6 F @ take 6 F) = drop 7 (G W i) @ take 7 (G W i)"
    and "RND W 1 2 3 4 5 6 7 0 i (drop 7 F @ take 7 F) = G W i"
  unfolding G_def
  by (rule length_8_cases [OF assms(1)], simp add: RND_def Let_def Ch_eq Maj_eq)+

lemma length_fips_round [simp]: "length S = 8 \<Longrightarrow> length (fips_round k w S) = 8"
  by (rule length_8_cases [of S]) (simp_all add: Let_def)

lemma sha512_rounds8_eq:
  assumes "length S = 8"
  shows "sha512_rounds8 W S i = foldl (\<lambda>S t. fips_round (K ! t) (W ! t) S) S [i..<i + 8]"
proof -
  have "[i..<i + 8] = [i, i + 1, i + 2, i + 3, i + 4, i + 5, i + 6, i + 7]"
    by (simp add: upt_rec numeral_eq_Suc)
  then show ?thesis
    using assms by (simp add: sha512_rounds8_def RND_rotated del: One_nat_def)
qed

lemma length_foldl_fips_round [simp]:
  "length S = 8 \<Longrightarrow> length (foldl (\<lambda>S t. fips_round (f t) (g t) S) S ts) = 8"
  by (induction ts arbitrary: S) simp_all

lemma foldl_sha512_rounds8:
  assumes "length S = 8"
  shows "foldl (sha512_rounds8 W) S (map ((*) 8) [0..<n])
    = foldl (\<lambda>S t. fips_round (K ! t) (W ! t) S) S [0..<8 * n]"
proof (induction n)
  case (Suc n)
  have "[0..<8 * Suc n] = [0..<8 * n] @ [8 * n..<8 * n + 8]"
    using upt_add_eq_append [of 0 "8 * n" 8] by (simp add: add.commute)
  then show ?case using Suc assms by (simp add: sha512_rounds8_eq)
qed simp

lemma foldl_cong_set:
  "(\<And>a x. x \<in> set xs \<Longrightarrow> f a x = g a x) \<Longrightarrow> foldl f a xs = foldl g a xs"
  by (induction xs arbitrary: a) simp_all

lemma sha512_compress_eq:
  assumes "length (sha_hash ctx) = 8" and "length buf = 128"
  shows "sha512_compress ctx buf = ctx\<lparr>sha_hash := fips_compress (sha_hash ctx) buf\<rparr>"
proof -
  have "[0, 8, 16, 24, 32, 40, 48, 56, 64, 72] = map ((*) 8) [0..<10::nat]"
    by (simp add: upt_rec numeral_eq_Suc)
  then have "foldl (sha512_rounds8 (sha512_schedule buf)) (sha_hash ctx)
      [0, 8, 16, 24, 32, 40, 48, 56, 64, 72]
    = foldl (\<lambda>S t. fips_round (K ! t) (map (fips_W buf) [0..<80] ! t) S) (sha_hash ctx) [0..<80]"
    using foldl_sha512_rounds8 [OF assms(1), of _ 10] by (simp add: sha512_schedule_eq assms(2))
  also have "\<dots> = foldl (\<lambda>S t. fips_round (K ! t) (fips_W buf t) S) (sha_hash ctx) [0..<80]"
    by (rule foldl_cong_set) simp
  finally show ?thesis by (simp add: sha512_compress_def fips_compress_def Let_def)
qed

lemma length_fips_compress [simp]: "length H = 8 \<Longrightarrow> length (fips_compress H blk) = 8"
  by (simp add: fips_compress_def)

lemma length_foldl_fips_compress [simp]: "length H = 8 \<Longrightarrow> length (foldl fips_compress H bs) = 8"
  by (induction bs arbitrary: H) simp_all

section \<open>What a context has absorbed\<close>

definition sha512_absorbed :: "sha512_ctx \<Rightarrow> bytes \<Rightarrow> bool" where
  "sha512_absorbed ctx m \<longleftrightarrow>
     sha_hash ctx = foldl fips_compress fips_H0 (blocks 128 m) \<and>
     sha_curlen ctx = word_of_nat (length m mod 128) \<and>
     length (sha_buf ctx) = 128 \<and>
     take (length m mod 128) (sha_buf ctx) = drop (128 * (length m div 128)) m \<and>
     sha_length ctx = word_of_nat (1024 * (length m div 128))"

lemma blocks_short [simp]: "length xs < n \<Longrightarrow> blocks n xs = []"
  by (subst blocks.simps) simp

lemma sha512_absorbed_split:
  assumes "length m1 = 128 * q" and "length m2 < 128"
  shows "sha512_absorbed ctx (m1 @ m2) \<longleftrightarrow>
     sha_hash ctx = foldl fips_compress fips_H0 (blocks 128 m1) \<and>
     sha_curlen ctx = word_of_nat (length m2) \<and> length (sha_buf ctx) = 128 \<and>
     take (length m2) (sha_buf ctx) = m2 \<and> sha_length ctx = word_of_nat (1024 * q)"
  using assms by (simp add: sha512_absorbed_def blocks_append)

lemma split_blocks:
  obtains m1 m2 where "m = m1 @ m2" "length m1 = 128 * (length m div 128)" "length m2 < (128::nat)"
proof
  show "m = take (128 * (length m div 128)) m @ drop (128 * (length m div 128)) m" by simp
  show "length (take (128 * (length m div 128)) m) = 128 * (length m div 128)" by simp
  show "length (drop (128 * (length m div 128)) m) < 128"
    using mod_less_divisor [of 128 "length m"] minus_mult_div_eq_mod [of "length m" 128] by simp
qed

lemma sha512_absorbed_init: "length (sha_buf ctx) = 128 \<Longrightarrow> sha512_absorbed (sha512_init ctx) []"
  by (simp add: sha512_absorbed_def sha512_init_def fips_H0_def)

lemma length_fips_H0 [simp]: "length fips_H0 = 8"
  by (simp add: fips_H0_def)

lemma sha512_absorbed_block:
  assumes "sha512_absorbed ctx m" and "sha_curlen ctx = 0" and b: "length b = 128"
  shows "sha512_absorbed ((sha512_compress ctx b)\<lparr>sha_length := sha_length ctx + 1024\<rparr>) (m @ b)"
proof -
  obtain m1 m2 where m: "m = m1 @ m2" "length m1 = 128 * (length m div 128)" "length m2 < 128"
    by (rule split_blocks)
  note abs = assms(1) [unfolded sha512_absorbed_split [OF m(2,3), folded m(1)]]
  have "unat (word_of_nat (length m2) :: u32) = 0" using abs assms(2) by simp
  then have m2: "m2 = []" using m(3) by simp
  have len: "length (m1 @ b) = 128 * Suc (length m div 128)" using m(2) b by simp
  have "blocks 128 (m1 @ b) = blocks 128 m1 @ [b]"
    using m(2) b by (simp add: blocks_append [of 128 m1] blocks_single)
  then show ?thesis
    using abs m2 m(1) b sha512_absorbed_split [OF len, of "[]"]
    by (simp add: sha512_compress_eq algebra_simps)
qed

lemma sha512_absorbed_fill:
  assumes "sha512_absorbed ctx m" and "length m2 < 128" and "length m1 = 128 * q" and "m = m1 @ m2"
    and "length m2 + length b \<le> 128"
  defines "ctx1 \<equiv> ctx\<lparr>sha_buf := overlay (unat (sha_curlen ctx)) b (sha_buf ctx),
                       sha_curlen := sha_curlen ctx + word_of_nat (length b)\<rparr>"
  shows "sha_hash ctx1 = foldl fips_compress fips_H0 (blocks 128 m1)"
    and "sha_curlen ctx1 = word_of_nat (length (m2 @ b))" and "length (sha_buf ctx1) = 128"
    and "take (length (m2 @ b)) (sha_buf ctx1) = m2 @ b"
    and "sha_length ctx1 = word_of_nat (1024 * q)"
proof -
  note abs = assms(1) [unfolded assms(4) sha512_absorbed_split [OF assms(3,2)]]
  have cur: "unat (sha_curlen ctx) = length m2" using abs assms(2) by simp
  show "sha_hash ctx1 = foldl fips_compress fips_H0 (blocks 128 m1)"
    and "sha_length ctx1 = word_of_nat (1024 * q)"
    and "sha_curlen ctx1 = word_of_nat (length (m2 @ b))"
    using abs by (simp_all add: ctx1_def)
  show "length (sha_buf ctx1) = 128"
    using abs assms(5) by (simp add: ctx1_def length_overlay cur)
  show "take (length (m2 @ b)) (sha_buf ctx1) = m2 @ b"
    using abs assms(5) by (simp add: ctx1_def cur overlay_def)
qed

lemma sha512_hash_absorbed:
  "sha512_absorbed ctx m \<Longrightarrow> sha512_absorbed (sha512_hash ctx inp) (m @ inp)"
proof (induction ctx inp arbitrary: m rule: sha512_hash.induct)
  case (1 ctx inp)
  consider (empty) "inp = []" | (block) "inp \<noteq> []" "sha_curlen ctx = 0" "128 \<le> length inp"
    | (fill) "inp \<noteq> []" "\<not> (sha_curlen ctx = 0 \<and> 128 \<le> length inp)" by blast
  then show ?case
  proof cases
    case empty
    then show ?thesis using 1 by (simp add: sha512_hash.simps)
  next
    case block
    have "sha512_absorbed ((sha512_compress ctx (take 128 inp))\<lparr>sha_length := sha_length ctx + 1024\<rparr>)
        (m @ take 128 inp)"
      by (rule sha512_absorbed_block) (use 1 block in auto)
    from 1(1) [OF block(1) _ this] block
    show ?thesis by (simp add: sha512_hash.simps [of ctx inp])
  next
    case fill
    obtain m1 m2 where m: "m = m1 @ m2" "length m1 = 128 * (length m div 128)" "length m2 < 128"
      by (rule split_blocks)
    note abs = 1(3) [unfolded sha512_absorbed_split [OF m(2,3), folded m(1)]]
    define n where "n = min (unat (128 - sha_curlen ctx)) (length inp)"
    define ctx1 where "ctx1 = ctx\<lparr>sha_buf := overlay (unat (sha_curlen ctx)) (take n inp) (sha_buf ctx),
                        sha_curlen := sha_curlen ctx + word_of_nat n\<rparr>"
    define ctx2 where "ctx2 = (if sha_curlen ctx1 = 128
                     then (sha512_compress ctx1 (sha_buf ctx1))
                            \<lparr>sha_length := sha_length ctx1 + 1024, sha_curlen := 0\<rparr>
                     else ctx1)"
    have cur: "unat (sha_curlen ctx) = length m2" using abs m(3) by simp
    then have "unat (128 - sha_curlen ctx) = 128 - length m2"
      using m(3) by (simp add: unat_sub word_le_nat_alt)
    then have n: "n = min (128 - length m2) (length inp)" by (simp add: n_def)
    then have len: "length (take n inp) = n" by simp
    have room: "length m2 + length (take n inp) \<le> 128" using n m(3) by simp
    note filled = sha512_absorbed_fill [OF 1(3) m(3,2,1) room, unfolded len, folded ctx1_def]
    have "sha512_absorbed ctx2 (m @ take n inp)"
    proof (cases "length m2 + n = 128")
      case True
      let ?b = "m2 @ take n inp"
      have "length (m1 @ ?b) = 128 * Suc (length m div 128)" using m(2) True len by simp
      note sp = sha512_absorbed_split [OF this, of "[]"]
      have "blocks 128 (m1 @ ?b) = blocks 128 m1 @ [?b]"
        using m(2) True len by (simp add: blocks_append [of 128 m1] blocks_single)
      moreover have "sha_buf ctx1 = ?b" using filled(3,4) True len by simp
      moreover have "sha_curlen ctx1 = word_of_nat 128"
        unfolding filled(2) by (rule arg_cong [of _ _ word_of_nat]) (use True len in simp)
      ultimately show ?thesis
        using sp filled(1,3,5) True len m(1) by (simp add: ctx2_def sha512_compress_eq)
    next
      case False
      then have lt: "length m2 + n < 128" using room len by simp
      then have "unat (sha_curlen ctx1) = length m2 + n"
        unfolding filled(2) length_append len by (intro unat_word_small) simp
      then have "sha_curlen ctx1 \<noteq> 128" using lt by auto
      with lt show ?thesis
        using sha512_absorbed_split [OF m(2), of "m2 @ take n inp" ctx1] filled len m(1)
        by (simp add: ctx2_def)
    qed
    from 1(2) [OF fill n_def ctx1_def ctx2_def this]
    have "sha512_absorbed (sha512_hash ctx2 (drop n inp)) (m @ inp)" by simp
    moreover have "sha512_hash ctx inp = sha512_hash ctx2 (drop n inp)"
      using fill by (subst sha512_hash.simps) (simp only: if_False Let_def n_def ctx1_def ctx2_def)
    ultimately show ?thesis by simp
  qed
qed

section \<open>Padding\<close>

lemma sha512_zero_to:
  assumes "sha_curlen ctx = word_of_nat (length x)" and "take (length x) (sha_buf ctx) = x"
    and "length (sha_buf ctx) = 128" and "length x \<le> lim" and "lim \<le> 128"
  shows "sha_curlen (sha512_zero_to (word_of_nat lim) ctx) = word_of_nat lim"
    and "take lim (sha_buf (sha512_zero_to (word_of_nat lim) ctx)) = x @ replicate (lim - length x) 0"
    and "length (sha_buf (sha512_zero_to (word_of_nat lim) ctx)) = 128"
    and "sha_hash (sha512_zero_to (word_of_nat lim) ctx) = sha_hash ctx"
    and "sha_length (sha512_zero_to (word_of_nat lim) ctx) = sha_length ctx"
proof -
  have cur: "unat (sha_curlen ctx) = length x" using assms by simp
  have lim: "unat (word_of_nat lim :: u32) = lim" using assms(5) by simp
  show "sha_curlen (sha512_zero_to (word_of_nat lim) ctx) = word_of_nat lim"
    using assms by (auto simp: sha512_zero_to_def word_less_nat_alt)
  show "take lim (sha_buf (sha512_zero_to (word_of_nat lim) ctx)) = x @ replicate (lim - length x) 0"
    using assms by (auto simp: sha512_zero_to_def cur lim word_less_nat_alt overlay_def)
  show "length (sha_buf (sha512_zero_to (word_of_nat lim) ctx)) = 128"
    using assms by (auto simp: sha512_zero_to_def cur lim word_less_nat_alt length_overlay)
qed (simp_all add: sha512_zero_to_def)

lemma be_bytes_16_small:
  assumes "n < 2 ^ 64"
  shows "be_bytes 16 (word_of_nat n :: 128 word) = replicate 8 0 @ be_bytes 8 (word_of_nat n :: u64)"
proof -
  have "le_bytes 16 (word_of_nat n :: 128 word) = le_bytes 8 (word_of_nat n :: u64) @ replicate 8 0"
  proof (rule nth_equalityI)
    fix i assume "i < length (le_bytes 16 (word_of_nat n :: 128 word))"
    then have i: "i < 16" by simp
    show "le_bytes 16 (word_of_nat n :: 128 word) ! i
      = (le_bytes 8 (word_of_nat n :: u64) @ replicate 8 0) ! i"
    proof (rule bit_word_eqI)
      fix j assume j: "j < LENGTH(8)"
      have "\<not> bit n k" if "64 \<le> k" for k
        using assms that by (metis bit_take_bit_iff not_le take_bit_nat_eq_self)
      then show "bit (le_bytes 16 (word_of_nat n :: 128 word) ! i) j
        = bit ((le_bytes 8 (word_of_nat n :: u64) @ replicate 8 0) ! i) j"
        using i j by (auto simp: bit_nth_le_bytes nth_append bit_simps)
    qed
  qed simp
  then show ?thesis by (simp add: be_bytes_def)
qed

text \<open>The last one or two blocks of the padded message.\<close>

lemma fips_pad_blocks:
  fixes m :: bytes
  assumes m: "m = m1 @ m2" "length m1 = 128 * q" "length m2 < 128" and "8 * length m < 2 ^ 64"
  defines "len \<equiv> be_bytes 8 (word_of_nat (8 * length m) :: u64)"
  shows "blocks 128 (fips_pad m) = blocks 128 m1 @
    (if length m2 < 112 then [m2 @ 0x80 # replicate (119 - length m2) 0 @ len]
     else [m2 @ 0x80 # replicate (127 - length m2) 0, replicate 120 0 @ len])"
proof -
  let ?t = "m2 @ 0x80 # replicate ((239 - length m2) mod 128) 0 @ replicate 8 0 @ len"
  have mod: "length m mod 128 = length m2" using m by simp
  have "fips_pad m = m1 @ ?t"
    unfolding fips_pad_def mod len_def be_bytes_16_small [OF assms(4)] using m(1) by simp
  then have *: "blocks 128 (fips_pad m) = blocks 128 m1 @ blocks 128 ?t"
    using m(2) by (simp add: blocks_append)
  show ?thesis
  proof (cases "length m2 < 112")
    case True
    then have "(239 - length m2) mod 128 = 111 - length m2" by (simp add: mod_if)
    then have t: "?t = m2 @ 0x80 # replicate (119 - length m2) 0 @ len"
      using True by (simp add: replicate_add [symmetric] append_assoc [symmetric] del: append_assoc)
    show ?thesis unfolding * t using True by (simp add: blocks_single len_def)
  next
    case False
    then have "(239 - length m2) mod 128 = 239 - length m2" using m(3) by (simp add: mod_if)
    moreover have "replicate (239 - length m2) (0::u8) = replicate (127 - length m2) 0 @ replicate 112 0"
      using False m(3) by (simp add: replicate_add [symmetric])
    moreover have "replicate 112 (0::u8) @ replicate 8 0 = replicate 120 0"
      by (simp add: replicate_add [symmetric])
    ultimately have t: "?t = (m2 @ 0x80 # replicate (127 - length m2) 0) @ replicate 120 0 @ len"
      by simp
    have "blocks 128 ?t = [m2 @ 0x80 # replicate (127 - length m2) 0, replicate 120 0 @ len]"
      unfolding t using False m(3) by (subst blocks_append [of 128 _ 1]) (simp_all add: blocks_single len_def)
    then show ?thesis using * False by simp
  qed
qed

lemma sha512_done_absorbed:
  assumes abs: "sha512_absorbed ctx m" and small: "8 * length m < 2 ^ 64"
  shows "snd (sha512_done ctx) = SHA512 m"
proof -
  obtain m1 m2 where m: "m = m1 @ m2" "length m1 = 128 * (length m div 128)" "length m2 < 128"
    by (rule split_blocks)
  let ?r = "length m2" and ?H = "foldl fips_compress fips_H0 (blocks 128 m1)"
  let ?len = "be_bytes 8 (word_of_nat (8 * length m) :: u64)"
  note abs' = abs [unfolded sha512_absorbed_split [OF m(2,3), folded m(1)]]
  have cur: "unat (sha_curlen ctx) = ?r" using abs' m(3) by simp
  define ctx1 where "ctx1 = ctx\<lparr>sha_length := sha_length ctx + ucast (sha_curlen ctx * 8)\<rparr>"
  define ctx2 where "ctx2 = ctx1\<lparr>sha_buf := overlay (unat (sha_curlen ctx1)) [0x80] (sha_buf ctx1),
                      sha_curlen := sha_curlen ctx1 + 1\<rparr>"
  define ctx3 where "ctx3 = (if 112 < sha_curlen ctx2
                  then let c = sha512_zero_to 128 ctx2
                       in (sha512_compress c (sha_buf c))\<lparr>sha_curlen := 0\<rparr>
                  else ctx2)"
  define ctx4 where "ctx4 = sha512_zero_to 120 ctx3"
  define ctx5 where "ctx5 = ctx4\<lparr>sha_buf := overlay 120 (le_bytes 8 (byteswap_uint64 (sha_length ctx4)))
                                   (sha_buf ctx4)\<rparr>"
  have "sha_curlen ctx * 8 = word_of_nat (8 * ?r)" using abs' by simp
  then have "ucast (sha_curlen ctx * 8) = (word_of_nat (8 * ?r) :: u64)"
    using m(3) by (simp only: ucast_of_nat_u64)
  moreover have "8 * length m = 1024 * (length m div 128) + 8 * ?r"
    using arg_cong [OF m(1), of length] m(2) by (simp only: length_append)
  moreover have "sha_length ctx1 = sha_length ctx + ucast (sha_curlen ctx * 8)"
    by (simp add: ctx1_def)
  ultimately have l1: "sha_length ctx1 = word_of_nat (8 * length m)"
    using abs' by (simp only: of_nat_add [symmetric])
  have h2: "sha_curlen ctx2 = word_of_nat (length (m2 @ [0x80]))" "length (sha_buf ctx2) = 128"
    "take (length (m2 @ [0x80])) (sha_buf ctx2) = m2 @ [0x80]" "sha_hash ctx2 = ?H"
    "sha_length ctx2 = word_of_nat (8 * length m)"
    using abs' l1 m(3) by (simp_all add: ctx2_def ctx1_def cur length_overlay overlay_def)
  have cur2: "unat (sha_curlen ctx2) = Suc ?r"
    unfolding h2(1) by (subst unat_word_small) (use m(3) in simp_all)
  have "\<exists>x. sha_curlen ctx3 = word_of_nat (length x) \<and> take (length x) (sha_buf ctx3) = x \<and>
    length (sha_buf ctx3) = 128 \<and> length x \<le> 120 \<and> length (sha_hash ctx3) = 8 \<and>
    sha_length ctx3 = word_of_nat (8 * length m) \<and>
    fips_compress (sha_hash ctx3) (x @ replicate (120 - length x) 0 @ ?len)
      = foldl fips_compress fips_H0 (blocks 128 (fips_pad m))"
  proof (cases "?r < 112")
    case True
    then have "\<not> 112 < sha_curlen ctx2" by (simp add: word_less_nat_alt cur2)
    then have "ctx3 = ctx2" by (simp add: ctx3_def)
    then show ?thesis
      using h2 True fips_pad_blocks [OF m small]
      by (intro exI [of _ "m2 @ [0x80]"]) simp
  next
    case False
    then have "112 < sha_curlen ctx2" by (simp add: word_less_nat_alt cur2)
    then have c3: "ctx3 = (let c = sha512_zero_to 128 ctx2
                       in (sha512_compress c (sha_buf c))\<lparr>sha_curlen := 0\<rparr>)" by (simp add: ctx3_def)
    note z = sha512_zero_to [OF h2(1,3,2), of 128, simplified]
    have "sha_buf (sha512_zero_to 128 ctx2) = m2 @ 0x80 # replicate (127 - ?r) 0"
      using z m(3) by simp
    then show ?thesis
      using h2 z False m(3) fips_pad_blocks [OF m small]
      by (intro exI [of _ "[]"]) (simp add: c3 Let_def sha512_compress_eq)
  qed
  then obtain x where x: "sha_curlen ctx3 = word_of_nat (length x)" "take (length x) (sha_buf ctx3) = x"
    "length (sha_buf ctx3) = 128" "length x \<le> 120" "length (sha_hash ctx3) = 8"
    "sha_length ctx3 = word_of_nat (8 * length m)"
    and last: "fips_compress (sha_hash ctx3) (x @ replicate (120 - length x) 0 @ ?len)
      = foldl fips_compress fips_H0 (blocks 128 (fips_pad m))" by blast
  note z = sha512_zero_to [OF x(1,2,3,4), simplified, folded ctx4_def]
  have "sha_buf ctx5 = x @ replicate (120 - length x) 0 @ ?len"
    using z x(6) by (simp add: ctx5_def overlay_def le_bytes_byteswap)
  then have "sha_hash (sha512_compress ctx5 (sha_buf ctx5))
    = foldl fips_compress fips_H0 (blocks 128 (fips_pad m))"
    using z x(4,5) last by (simp add: sha512_compress_eq ctx5_def)
  moreover have "snd (sha512_done ctx) = concat (map (\<lambda>h. le_bytes 8 (byteswap_uint64 h))
      (sha_hash (sha512_compress ctx5 (sha_buf ctx5))))"
    by (simp only: sha512_done_def Let_def ctx1_def ctx2_def ctx3_def ctx4_def ctx5_def snd_conv)
  ultimately show ?thesis by (simp add: SHA512_def le_bytes_byteswap)
qed

lemma length_SHA512 [simp, length_simps]: "length (SHA512 m) = 64"
proof -
  have "length (concat (map (be_bytes 8) (H :: u64 list))) = 8 * length H" for H
    by (induction H) simp_all
  then show ?thesis by (simp add: SHA512_def)
qed

section \<open>The streaming interface\<close>

text \<open>
  What a client of an incremental hash relies on. \<open>ready\<close> is the state a context must be in
  before it is initialised, \<open>absorbed c m\<close> that \<open>c\<close> has taken in exactly \<open>m\<close>, \<open>limit\<close> the length
  from which the length counter no longer holds the message length.
\<close>

locale stream_hash =
  fixes ready :: "'ctx \<Rightarrow> bool"
    and init :: "'ctx \<Rightarrow> 'ctx"
    and update :: "'ctx \<Rightarrow> bytes \<Rightarrow> 'ctx"
    and finish :: "'ctx \<Rightarrow> 'ctx \<times> bytes"
    and H :: "bytes \<Rightarrow> bytes"
    and absorbed :: "'ctx \<Rightarrow> bytes \<Rightarrow> bool"
    and limit :: nat
  assumes absorbed_init: "ready c \<Longrightarrow> absorbed (init c) []"
    and absorbed_update: "absorbed c m \<Longrightarrow> absorbed (update c x) (m @ x)"
    and absorbed_ready: "absorbed c m \<Longrightarrow> ready c"
    and finish_ready: "absorbed c m \<Longrightarrow> ready (fst (finish c))"
    and finish_digest: "absorbed c m \<Longrightarrow> length m < limit \<Longrightarrow> snd (finish c) = H m"
begin

lemma absorbed_updates: "absorbed c m \<Longrightarrow> absorbed (foldl update c xs) (m @ concat xs)"
proof (induction xs arbitrary: c m)
  case (Cons x xs)
  from Cons.IH [OF absorbed_update [OF Cons.prems, of x]] show ?case by simp
qed simp

lemma digest_pieces:
  "ready c \<Longrightarrow> length (concat xs) < limit \<Longrightarrow> snd (finish (foldl update (init c) xs)) = H (concat xs)"
  using absorbed_updates [OF absorbed_init, of c xs] finish_digest by simp

lemma digest_1: "ready c \<Longrightarrow> length x < limit \<Longrightarrow> snd (finish (update (init c) x)) = H x"
  using digest_pieces [of c "[x]"] by simp

lemma digest_independent_of_pieces:
  assumes "ready c" and "ready c'" and "concat xs = concat ys" and "length (concat xs) < limit"
  shows "snd (finish (foldl update (init c) xs)) = snd (finish (foldl update (init c') ys))"
  using digest_pieces [OF assms(1), of xs] digest_pieces [OF assms(2), of ys] assms by simp

end

definition sha512_ready :: "sha512_ctx \<Rightarrow> bool" where
  "sha512_ready ctx \<longleftrightarrow> length (sha_buf ctx) = 128"

lemma sha512_done_ready:
  assumes "sha512_absorbed ctx m"
  shows "sha512_ready (fst (sha512_done ctx))"
proof -
  have buf: "length (sha_buf ctx) = 128" and "unat (sha_curlen ctx) < 128"
    using assms by (simp_all add: sha512_absorbed_def)
  then have "unat (sha_curlen ctx + 1) \<le> 128" by unat_arith
  moreover have "length (sha_buf (sha512_zero_to lim c)) = 128"
    if "length (sha_buf c) = 128" and "unat lim \<le> 128" for lim c
    using that by (auto simp: sha512_zero_to_def length_overlay word_less_nat_alt)
  ultimately show ?thesis using buf \<open>unat (sha_curlen ctx) < 128\<close>
    by (simp add: sha512_ready_def sha512_done_def sha512_compress_def Let_def length_overlay)
qed

interpretation sha: stream_hash sha512_ready sha512_init sha512_hash sha512_done SHA512
  sha512_absorbed "2 ^ 61"
proof
  show "snd (sha512_done c) = SHA512 m" if "sha512_absorbed c m" and "length m < 2 ^ 61" for c m
    by (rule sha512_done_absorbed) (use that in simp_all)
qed (simp_all add: sha512_ready_def sha512_absorbed_init sha512_hash_absorbed
    sha512_done_ready [unfolded sha512_ready_def], simp add: sha512_absorbed_def)

section \<open>Properties\<close>

text \<open>
  The compression function of the code, eight rounds unrolled over registers that stay in
  place and the rewritten \<^verbatim>\<open>Ch\<close> and \<^verbatim>\<open>Maj\<close>, is the FIPS 180-4 compression of the block.
\<close>

theorem sha512_compress_correct:
  assumes "length (sha_hash ctx) = 8" and "length buf = 128"
  shows "sha512_compress ctx buf = ctx\<lparr>sha_hash := fips_compress (sha_hash ctx) buf\<rparr>"
  using assms by (rule sha512_compress_eq)

theorem sha512_compress_correct_witness:
  "sha512_compress \<lparr>sha_hash = replicate 8 1, sha_length = 0, sha_curlen = 0, sha_buf = []\<rparr>
     (replicate 128 0)
   = \<lparr>sha_hash = fips_compress (replicate 8 1) (replicate 128 0), sha_length = 0, sha_curlen = 0,
      sha_buf = []\<rparr>"
  using sha512_compress_correct
    [of "\<lparr>sha_hash = replicate 8 1, sha_length = 0, sha_curlen = 0, sha_buf = []\<rparr>"
        "replicate 128 0"] by simp

text \<open>
  C24 (functional): Initialising a context, feeding it a message in any sequence of pieces and finishing it
  yields the FIPS 180-4 SHA-512 digest of the whole message, whatever the buffer held before.
\<close>

theorem sha512_streaming_correct:
  assumes "length (sha_buf ctx) = 128" and "length (concat pieces) < 2 ^ 61"
  shows "snd (sha512_done (foldl sha512_hash (sha512_init ctx) pieces)) = SHA512 (concat pieces)"
  using sha.digest_pieces [of ctx pieces] assms by (simp add: sha512_ready_def)

theorem sha512_streaming_correct_witness:
  "snd (sha512_done (foldl sha512_hash
      (sha512_init \<lparr>sha_hash = [], sha_length = 9, sha_curlen = 5, sha_buf = replicate 128 7\<rparr>)
      [replicate 100 1, [], replicate 60 2]))
   = SHA512 (replicate 100 1 @ replicate 60 2)"
  using sha512_streaming_correct
    [of "\<lparr>sha_hash = [], sha_length = 9, sha_curlen = 5, sha_buf = replicate 128 7\<rparr>"
        "[replicate 100 1, [], replicate 60 2]"] by simp

end
