(* ===== verification/Hmac.thy ===== *)
theory Hmac
  imports Sha512
begin

unbundle bit_operations_syntax

text \<open>
  \<^verbatim>\<open>crypto_lib/sha512_hmac.c\<close>. The context keeps the padded key beside the running hash. The reference
  is HMAC of RFC 2104 over the SHA-512 of the previous theory. HMAC under a fixed key is itself
  an incremental hash, so its contract is another interpretation of \<open>stream_hash\<close>.
\<close>

section \<open>The code\<close>

record sha512_hmac_ctx =
  hmac_hash :: sha512_ctx
  hmac_padded_key :: bytes

definition sha512_hmac_init :: "sha512_hmac_ctx \<Rightarrow> bytes \<Rightarrow> sha512_hmac_ctx" where
  "sha512_hmac_init ctx key =
     (let (h, padded) =
        (if 128 < length key
         then let (h, digest) = sha512_done (sha512_hash (sha512_init (hmac_hash ctx)) key)
              in (h, digest @ replicate (128 - 64) 0)
         else (hmac_hash ctx, key @ replicate (128 - length key) 0));
          block = map (\<lambda>b. b XOR 0x36) padded
      in \<lparr>hmac_hash = sha512_hash (sha512_init h) block, hmac_padded_key = padded\<rparr>)"

definition sha512_hmac_hash :: "sha512_hmac_ctx \<Rightarrow> bytes \<Rightarrow> sha512_hmac_ctx" where
  "sha512_hmac_hash ctx p = ctx\<lparr>hmac_hash := sha512_hash (hmac_hash ctx) p\<rparr>"

definition sha512_hmac_done :: "sha512_hmac_ctx \<Rightarrow> sha512_hmac_ctx \<times> bytes" where
  "sha512_hmac_done ctx =
     (let (h, inner) = sha512_done (hmac_hash ctx);
          block = map (\<lambda>b. b XOR 0x5C) (hmac_padded_key ctx);
          (h', out) = sha512_done (sha512_hash (sha512_hash (sha512_init h) block) inner)
      in (ctx\<lparr>hmac_hash := h'\<rparr>, out))"

text \<open>
  A context on the stack. Its contents before initialisation do not matter (the theorems below
  hold for every context with a buffer of 128 bytes); this is one of them.
\<close>

definition hmac_ctx_storage :: sha512_hmac_ctx where
  "hmac_ctx_storage =
     \<lparr>hmac_hash = \<lparr>sha_hash = replicate 8 0, sha_length = 0, sha_curlen = 0,
                   sha_buf = replicate 128 0\<rparr>,
      hmac_padded_key = replicate 128 0\<rparr>"

definition sha512_hmac :: "bytes \<Rightarrow> bytes \<Rightarrow> bytes" where
  "sha512_hmac k d =
     snd (sha512_hmac_done (sha512_hmac_hash (sha512_hmac_init hmac_ctx_storage k) d))"

section \<open>RFC 2104\<close>

definition hmac_K0 :: "bytes \<Rightarrow> bytes" where
  "hmac_K0 k = (if length k \<le> 128 then k @ replicate (128 - length k) 0
                else SHA512 k @ replicate 64 0)"

definition HMAC :: "bytes \<Rightarrow> bytes \<Rightarrow> bytes" where
  "HMAC k m = SHA512 (map (\<lambda>b. b XOR 0x5C) (hmac_K0 k) @
                SHA512 (map (\<lambda>b. b XOR 0x36) (hmac_K0 k) @ m))"

lemma length_hmac_K0 [simp, length_simps]: "length (hmac_K0 k) = 128"
  by (simp add: hmac_K0_def)

lemma length_HMAC [simp, length_simps]: "length (HMAC k m) = 64"
  by (simp add: HMAC_def)

section \<open>The contract\<close>

definition hmac_ready :: "bytes \<Rightarrow> sha512_hmac_ctx \<Rightarrow> bool" where
  "hmac_ready key ctx \<longleftrightarrow> sha512_ready (hmac_hash ctx) \<and> length key < 2 ^ 61"

definition hmac_absorbed :: "bytes \<Rightarrow> sha512_hmac_ctx \<Rightarrow> bytes \<Rightarrow> bool" where
  "hmac_absorbed key ctx m \<longleftrightarrow>
     sha512_absorbed (hmac_hash ctx) (map (\<lambda>b. b XOR 0x36) (hmac_K0 key) @ m) \<and>
     hmac_padded_key ctx = hmac_K0 key \<and> length key < 2 ^ 61"

lemma hmac_absorbed_init:
  assumes "hmac_ready key ctx"
  shows "hmac_absorbed key (sha512_hmac_init ctx key) []"
proof -
  have ready: "sha512_ready (hmac_hash ctx)" and len: "length key < 2 ^ 61"
    using assms by (simp_all add: hmac_ready_def)
  let ?c = "sha512_hash (sha512_init (hmac_hash ctx)) key"
  have abs: "sha512_absorbed ?c key"
    using sha.absorbed_update [OF sha.absorbed_init [OF ready], of key] by simp
  have start: "sha512_absorbed (sha512_hash (sha512_init h) b) b" if "sha512_ready h" for h b
    using sha.absorbed_update [OF sha.absorbed_init [OF that], of b] by simp
  show ?thesis
    using ready len sha.finish_digest [OF abs len] sha.finish_ready [OF abs]
    by (auto simp: hmac_absorbed_def sha512_hmac_init_def hmac_K0_def Let_def start case_prod_beta)
qed

lemma hmac_done_eq:
  assumes "hmac_absorbed key ctx m" and "length m < 2 ^ 61 - 128"
  shows "snd (sha512_hmac_done ctx) = HMAC key m"
    and "hmac_ready key (fst (sha512_hmac_done ctx))"
proof -
  let ?i = "map (\<lambda>b. b XOR 0x36) (hmac_K0 key) @ m"
  let ?o = "map (\<lambda>b. b XOR 0x5C) (hmac_K0 key)"
  obtain h inner where d: "sha512_done (hmac_hash ctx) = (h, inner)" by fastforce
  have abs: "sha512_absorbed (hmac_hash ctx) ?i" and pk: "hmac_padded_key ctx = hmac_K0 key"
    and len: "length key < 2 ^ 61"
    using assms(1) by (simp_all add: hmac_absorbed_def)
  have inner: "inner = SHA512 ?i" and ready: "sha512_ready h"
    using sha.finish_digest [OF abs] sha.finish_ready [OF abs] assms(2) d by simp_all
  let ?c = "sha512_hash (sha512_hash (sha512_init h) ?o) inner"
  have outer: "sha512_absorbed ?c (?o @ inner)"
    using sha.absorbed_updates [OF sha.absorbed_init [OF ready], of "[?o, inner]"] by simp
  then have "snd (sha512_done ?c) = SHA512 (?o @ inner)"
    by (rule sha.finish_digest) (simp add: inner)
  moreover have "sha512_ready (fst (sha512_done ?c))" using outer by (rule sha.finish_ready)
  ultimately show "snd (sha512_hmac_done ctx) = HMAC key m"
    and "hmac_ready key (fst (sha512_hmac_done ctx))"
    using len by (simp_all add: sha512_hmac_done_def d pk HMAC_def inner hmac_ready_def
        case_prod_beta Let_def)
qed

lemma hmac_done_ready:
  assumes "hmac_absorbed key ctx m"
  shows "hmac_ready key (fst (sha512_hmac_done ctx))"
proof -
  obtain h inner where d: "sha512_done (hmac_hash ctx) = (h, inner)" by fastforce
  have "sha512_ready h" and len: "length key < 2 ^ 61"
    using assms sha.finish_ready d by (fastforce simp: hmac_absorbed_def)+
  then have "sha512_ready (fst (sha512_done (sha512_hash (sha512_hash (sha512_init h) x) y)))" for x y
    by (intro sha.finish_ready [OF sha.absorbed_update [OF sha.absorbed_update [OF sha.absorbed_init]]])
  then show ?thesis
    using len by (simp add: sha512_hmac_done_def d hmac_ready_def case_prod_beta Let_def)
qed

interpretation hmac: stream_hash "hmac_ready key" "\<lambda>c. sha512_hmac_init c key" sha512_hmac_hash
  sha512_hmac_done "HMAC key" "hmac_absorbed key" "2 ^ 61 - 128" for key
proof
  show "hmac_absorbed key (sha512_hmac_hash c x) (m @ x)" if "hmac_absorbed key c m" for c m x
    using that sha.absorbed_update by (fastforce simp: hmac_absorbed_def sha512_hmac_hash_def)
  show "hmac_ready key c" if "hmac_absorbed key c m" for c m
    using that sha.absorbed_ready by (auto simp: hmac_absorbed_def hmac_ready_def)
qed (simp_all add: hmac_absorbed_init hmac_done_eq hmac_done_ready)

lemma hmac_ready_storage [simp]: "length key < 2 ^ 61 \<Longrightarrow> hmac_ready key hmac_ctx_storage"
  by (simp add: hmac_ready_def hmac_ctx_storage_def sha512_ready_def)

lemma sha512_hmac_eq:
  "length k < 2 ^ 61 \<Longrightarrow> length d < 2 ^ 61 - 128 \<Longrightarrow> sha512_hmac k d = HMAC k d"
  using hmac.digest_1 [of k hmac_ctx_storage d] by (simp add: sha512_hmac_def)

section \<open>Properties\<close>

text \<open>
  C25 (functional): Starting an HMAC context with any key, feeding a message in any pieces and finishing gives
  the RFC 2104 HMAC-SHA-512 of the message, and finishing leaves a context that can be started
  again; keys longer than a block are replaced by their digest.
\<close>

theorem sha512_hmac_streaming_correct:
  assumes "length (sha_buf (hmac_hash ctx)) = 128" and "length key < 2 ^ 61"
    and "length (concat pieces) < 2 ^ 61 - 128"
  shows "snd (sha512_hmac_done (foldl sha512_hmac_hash (sha512_hmac_init ctx key) pieces))
    = HMAC key (concat pieces)"
  using hmac.digest_pieces [of key ctx pieces] assms by (simp add: hmac_ready_def sha512_ready_def)

theorem sha512_hmac_streaming_correct_witness:
  "snd (sha512_hmac_done (foldl sha512_hmac_hash
     (sha512_hmac_init hmac_ctx_storage (replicate 200 3)) [[1, 2], [3]]))
   = HMAC (replicate 200 3) [1, 2, 3]"
  using sha512_hmac_streaming_correct [of hmac_ctx_storage "replicate 200 3" "[[1, 2], [3]]"]
  by (simp add: hmac_ctx_storage_def)

end
