(* ===== verification/Drbg.thy ===== *)
theory Drbg
  imports Hmac
begin

unbundle bit_operations_syntax

text \<open>
  \<^verbatim>\<open>crypto_lib/sha512_hmac_drbg.c\<close>: the HMAC-DRBG of NIST SP 800-90A over SHA-512. A NULL pointer
  argument is \<^const>\<open>None\<close>; the return code is 0 or \<open>-1\<close>, and on \<open>-1\<close> the context is unchanged.
  The context, and the output buffer of a request, are values here: the tests of these two pointers against
  NULL are left out, the tests of the optional inputs are not.

  The theorems: the update function is that of the standard, the generated bytes are the ones it
  prescribes, and a generator serves exactly 128 requests between seedings.
\<close>

section \<open>The code\<close>

record sha512_hmac_drbg_ctx =
  drbg_key :: bytes
  drbg_val :: bytes
  drbg_reseed_counter :: u32

text \<open>
  \<^verbatim>\<open>drbg_part\<close>: a pointer that may be NULL and a length. \<open>part_bytes\<close> is what the second loop of
  \<^verbatim>\<open>drbg_update\<close> hashes for a part.
\<close>

type_synonym drbg_part = "bytes option"

definition parts_total :: "drbg_part list \<Rightarrow> nat" where
  "parts_total parts = sum_list (map (\<lambda>p. case p of None \<Rightarrow> 0 | Some bs \<Rightarrow> length bs) parts)"

definition hash_part :: "sha512_hmac_ctx \<Rightarrow> drbg_part \<Rightarrow> sha512_hmac_ctx" where
  "hash_part hctx p =
     (case p of None \<Rightarrow> hctx
      | Some bs \<Rightarrow> if bs = [] then hctx else sha512_hmac_hash hctx bs)"

definition drbg_round :: "u8 \<Rightarrow> drbg_part list \<Rightarrow> sha512_hmac_drbg_ctx \<Rightarrow> sha512_hmac_drbg_ctx" where
  "drbg_round sep parts ctx =
     (let hctx = sha512_hmac_init hmac_ctx_storage (drbg_key ctx);
          hctx = sha512_hmac_hash hctx (drbg_val ctx);
          hctx = sha512_hmac_hash hctx [sep];
          hctx = foldl hash_part hctx parts;
          key = snd (sha512_hmac_done hctx)
      in ctx\<lparr>drbg_key := key, drbg_val := sha512_hmac key (drbg_val ctx)\<rparr>)"

text \<open>The loop over \<open>round\<close> runs for 0 and 1; it breaks after the first turn when \<open>total\<close> is 0.\<close>

definition drbg_update :: "sha512_hmac_drbg_ctx \<Rightarrow> drbg_part list \<Rightarrow> sha512_hmac_drbg_ctx" where
  "drbg_update ctx parts =
     (let ctx0 = drbg_round 0 parts ctx
      in if parts_total parts = 0 then ctx0 else drbg_round 1 parts ctx0)"

definition drbg_min_entropy :: nat where "drbg_min_entropy = 256 div 8"
definition drbg_max_entropy :: nat where "drbg_max_entropy = 2 ^ 35 div 8"
definition drbg_max_personal :: nat where "drbg_max_personal = 2 ^ 35 div 8"
definition drbg_max_additional :: nat where "drbg_max_additional = 2 ^ 35 div 8"
definition drbg_max_generated :: nat where "drbg_max_generated = 2 ^ 19 div 8"
definition drbg_reseed_interval :: u32 where "drbg_reseed_interval = 128"

definition opt_len :: "bytes option \<Rightarrow> nat" where
  "opt_len p = (case p of None \<Rightarrow> 0 | Some bs \<Rightarrow> length bs)"

definition sha512_hmac_drbg_instantiate ::
  "sha512_hmac_drbg_ctx \<Rightarrow> bytes option \<Rightarrow> bytes option \<Rightarrow> int \<times> sha512_hmac_drbg_ctx" where
  "sha512_hmac_drbg_instantiate ctx entropy personal =
     (if entropy = None then (-1, ctx)
      else if opt_len entropy < drbg_min_entropy then (-1, ctx)
      else if drbg_max_entropy < opt_len entropy then (-1, ctx)
      else if personal \<noteq> None \<and> drbg_max_personal < opt_len personal then (-1, ctx)
      else (0, (drbg_update (ctx\<lparr>drbg_key := replicate 64 0, drbg_val := replicate 64 1\<rparr>)
                  [entropy, personal])\<lparr>drbg_reseed_counter := 1\<rparr>))"

definition sha512_hmac_drbg_reseed ::
  "sha512_hmac_drbg_ctx \<Rightarrow> bytes option \<Rightarrow> bytes option \<Rightarrow> int \<times> sha512_hmac_drbg_ctx" where
  "sha512_hmac_drbg_reseed ctx entropy additional =
     (if entropy = None then (-1, ctx)
      else if opt_len entropy < drbg_min_entropy then (-1, ctx)
      else if drbg_max_entropy < opt_len entropy then (-1, ctx)
      else if additional \<noteq> None \<and> drbg_max_additional < opt_len additional then (-1, ctx)
      else (0, (drbg_update ctx [entropy, additional])\<lparr>drbg_reseed_counter := 1\<rparr>))"

text \<open>The \<^verbatim>\<open>while (output_len != 0)\<close> loop: the bytes written and the last \<open>V\<close>.\<close>

function drbg_output :: "bytes \<Rightarrow> bytes \<Rightarrow> nat \<Rightarrow> bytes \<times> bytes" where
  "drbg_output key val output_len =
     (if output_len = 0 then ([], val)
      else let val' = sha512_hmac key val; n = min output_len 64;
               (out, v) = drbg_output key val' (output_len - n)
           in (take n val' @ out, v))"
  by pat_completeness auto
termination
  by (relation "measure (\<lambda>(key, val, output_len). output_len)") auto

declare drbg_output.simps [simp del]

definition sha512_hmac_drbg_generate ::
  "sha512_hmac_drbg_ctx \<Rightarrow> bytes option \<Rightarrow> nat \<Rightarrow> int \<times> sha512_hmac_drbg_ctx \<times> bytes" where
  "sha512_hmac_drbg_generate ctx additional output_len =
     (if drbg_max_generated < output_len then (-1, ctx, [])
      else if additional \<noteq> None \<and> drbg_max_additional < opt_len additional then (-1, ctx, [])
      else if drbg_reseed_interval < drbg_reseed_counter ctx then (-1, ctx, [])
      else
        (let ctx1 = (if opt_len additional \<noteq> 0 then drbg_update ctx [additional] else ctx);
             (out, v) = drbg_output (drbg_key ctx1) (drbg_val ctx1) output_len;
             ctx2 = drbg_update (ctx1\<lparr>drbg_val := v\<rparr>) [additional]
         in (0, ctx2\<lparr>drbg_reseed_counter := drbg_reseed_counter ctx2 + 1\<rparr>, out)))"

section \<open>SP 800-90A\<close>

text \<open>Section 10.1.2.2, the update of \<open>(K, V)\<close> with the provided data.\<close>

definition hmac_drbg_update :: "bytes \<Rightarrow> bytes \<times> bytes \<Rightarrow> bytes \<times> bytes" where
  "hmac_drbg_update provided = (\<lambda>(k, v).
     let k1 = HMAC k (v @ [0] @ provided); v1 = HMAC k1 v
     in if provided = [] then (k1, v1)
        else let k2 = HMAC k1 (v1 @ [1] @ provided) in (k2, HMAC k2 v1))"

text \<open>Section 10.1.2.5, step 4: blocks of \<open>V\<close>, each the HMAC of the one before.\<close>

primrec hmac_drbg_V :: "bytes \<Rightarrow> bytes \<Rightarrow> nat \<Rightarrow> bytes" where
  "hmac_drbg_V k v 0 = v"
| "hmac_drbg_V k v (Suc n) = HMAC k (hmac_drbg_V k v n)"

definition hmac_drbg_blocks :: "bytes \<Rightarrow> bytes \<Rightarrow> nat \<Rightarrow> bytes" where
  "hmac_drbg_blocks k v n = concat (map (\<lambda>i. hmac_drbg_V k v (Suc i)) [0..<n])"

definition hmac_drbg_generate :: "bytes \<Rightarrow> nat \<Rightarrow> bytes \<times> bytes \<Rightarrow> (bytes \<times> bytes) \<times> bytes" where
  "hmac_drbg_generate additional n kv =
     (let (k, v) = (if additional = [] then kv else hmac_drbg_update additional kv);
          q = (n + 63) div 64
      in (hmac_drbg_update additional (k, hmac_drbg_V k v q), take n (hmac_drbg_blocks k v q)))"

section \<open>The update\<close>

definition part_data :: "drbg_part list \<Rightarrow> bytes" where
  "part_data parts = concat (map (\<lambda>p. case p of None \<Rightarrow> [] | Some bs \<Rightarrow> bs) parts)"

definition drbg_kv :: "sha512_hmac_drbg_ctx \<Rightarrow> bytes \<times> bytes" where
  "drbg_kv ctx = (drbg_key ctx, drbg_val ctx)"

definition drbg_wf :: "sha512_hmac_drbg_ctx \<Rightarrow> bool" where
  "drbg_wf ctx \<longleftrightarrow> length (drbg_key ctx) = 64 \<and> length (drbg_val ctx) = 64"

lemma parts_total_eq: "parts_total parts = length (part_data parts)"
  by (induction parts) (auto simp: parts_total_def part_data_def split: option.splits)

lemma foldl_hash_part:
  "hmac_absorbed key c m \<Longrightarrow> hmac_absorbed key (foldl hash_part c parts) (m @ part_data parts)"
proof (induction parts arbitrary: c m)
  case (Cons p parts)
  have "hmac_absorbed key (hash_part c p) (m @ (case p of None \<Rightarrow> [] | Some bs \<Rightarrow> bs))"
    using Cons.prems hmac.absorbed_update by (auto simp: hash_part_def split: option.splits)
  from Cons.IH [OF this] show ?case by (simp add: part_data_def)
qed (simp add: part_data_def)

lemma drbg_round_eq:
  assumes "drbg_wf ctx" and "length (part_data parts) < 2 ^ 60"
  shows "drbg_kv (drbg_round sep parts ctx) =
    (let k = HMAC (drbg_key ctx) (drbg_val ctx @ [sep] @ part_data parts)
     in (k, HMAC k (drbg_val ctx)))"
proof -
  let ?k = "drbg_key ctx"
  let ?c = "sha512_hmac_hash (sha512_hmac_hash (sha512_hmac_init hmac_ctx_storage ?k) (drbg_val ctx)) [sep]"
  have "hmac_absorbed ?k ?c (drbg_val ctx @ [sep])"
    using hmac.absorbed_updates [OF hmac.absorbed_init, of ?k hmac_ctx_storage "[drbg_val ctx, [sep]]"]
      assms(1) by (simp add: drbg_wf_def)
  then have "hmac_absorbed ?k (foldl hash_part ?c parts) (drbg_val ctx @ [sep] @ part_data parts)"
    using foldl_hash_part by fastforce
  then have "snd (sha512_hmac_done (foldl hash_part ?c parts))
    = HMAC ?k (drbg_val ctx @ [sep] @ part_data parts)"
    by (rule hmac.finish_digest) (use assms in \<open>simp add: drbg_wf_def\<close>)
  then show ?thesis
    using assms by (simp add: drbg_round_def drbg_kv_def Let_def sha512_hmac_eq drbg_wf_def)
qed

lemma drbg_update_eq:
  assumes "drbg_wf ctx" and "length (part_data parts) < 2 ^ 60"
  shows "drbg_kv (drbg_update ctx parts) = hmac_drbg_update (part_data parts) (drbg_kv ctx)"
    and "drbg_wf (drbg_update ctx parts)"
proof -
  have wf: "drbg_wf c" if "drbg_kv c = (HMAC a b, HMAC d e)" for c a b d e
    using that by (simp add: drbg_wf_def drbg_kv_def)
  note r0 = drbg_round_eq [OF assms, of 0]
  have wf0: "drbg_wf (drbg_round 0 parts ctx)" using r0 by (intro wf) (simp add: Let_def)
  note r1 = drbg_round_eq [OF wf0 assms(2), of 1]
  show "drbg_kv (drbg_update ctx parts) = hmac_drbg_update (part_data parts) (drbg_kv ctx)"
    using r0 r1 by (simp add: drbg_update_def parts_total_eq hmac_drbg_update_def drbg_kv_def Let_def)
  show "drbg_wf (drbg_update ctx parts)"
    using wf0 wf [OF r1 [unfolded Let_def]] by (simp add: drbg_update_def Let_def)
qed

lemma drbg_update_counter [simp]:
  "drbg_reseed_counter (drbg_update ctx parts) = drbg_reseed_counter ctx"
  by (simp add: drbg_update_def drbg_round_def Let_def)

section \<open>The output\<close>

lemma length_hmac_drbg_V [simp]: "length v = 64 \<Longrightarrow> length (hmac_drbg_V k v n) = 64"
  by (cases n) simp_all

lemma hmac_drbg_V_Suc: "hmac_drbg_V k v (Suc n) = hmac_drbg_V k (HMAC k v) n"
  by (induction n) simp_all

lemma hmac_drbg_blocks_Suc:
  "hmac_drbg_blocks k v (Suc n) = HMAC k v @ hmac_drbg_blocks k (HMAC k v) n"
proof -
  have "[0..<Suc n] = 0 # map Suc [0..<n]" by (simp only: upt_conv_Cons map_Suc_upt zero_less_Suc)
  then show ?thesis
    unfolding hmac_drbg_blocks_def
    by (simp only: list.map map_map o_def concat.simps hmac_drbg_V_Suc [of k v]) simp
qed

lemma drbg_output_eq:
  assumes "length k = 64" and "length v = 64"
  shows "drbg_output k v n = (take n (hmac_drbg_blocks k v ((n + 63) div 64)),
                              hmac_drbg_V k v ((n + 63) div 64))"
  using assms(2)
proof (induction n arbitrary: v rule: less_induct)
  case (less n)
  show ?case
  proof (cases "n = 0")
    case True
    then show ?thesis by (simp add: drbg_output.simps)
  next
    case False
    have q: "(n + 63) div 64 = Suc ((n - min n 64 + 63) div 64)"
      using False by (cases "n \<le> 64") (auto simp: min_def)
    have v': "sha512_hmac k v = HMAC k v" using assms(1) less.prems by (simp add: sha512_hmac_eq)
    show ?thesis
      using less.IH [of "n - min n 64" "HMAC k v"] False
      by (subst drbg_output.simps)
         (simp add: Let_def v' q hmac_drbg_V_Suc hmac_drbg_blocks_Suc min_def del: hmac_drbg_V.simps)
  qed
qed

lemma length_hmac_drbg_blocks [simp]: "length v = 64 \<Longrightarrow> length (hmac_drbg_blocks k v q) = 64 * q"
  by (induction q) (simp_all add: hmac_drbg_blocks_def)

text \<open>What one successful request does; \<open>opt_bytes\<close> is the additional input, empty for NULL.\<close>

definition opt_bytes :: "bytes option \<Rightarrow> bytes" where
  "opt_bytes p = (case p of None \<Rightarrow> [] | Some bs \<Rightarrow> bs)"

lemma opt_len_eq: "opt_len p = length (opt_bytes p)"
  by (simp add: opt_len_def opt_bytes_def split: option.splits)

lemma part_data_single [simp]: "part_data [p] = opt_bytes p" "part_data [p, q] = opt_bytes p @ opt_bytes q"
  by (simp_all add: part_data_def opt_bytes_def)

lemma generate_ok:
  assumes "drbg_wf ctx" and "n \<le> drbg_max_generated" and "opt_len additional \<le> drbg_max_additional"
    and "drbg_reseed_counter ctx \<le> drbg_reseed_interval"
  shows "\<exists>ctx'. sha512_hmac_drbg_generate ctx additional n =
      (0, ctx', snd (hmac_drbg_generate (opt_bytes additional) n (drbg_kv ctx)))
    \<and> drbg_kv ctx' = fst (hmac_drbg_generate (opt_bytes additional) n (drbg_kv ctx))
    \<and> drbg_wf ctx' \<and> drbg_reseed_counter ctx' = drbg_reseed_counter ctx + 1"
proof -
  let ?a = "opt_bytes additional"
  have small: "length (part_data [additional]) < 2 ^ 60"
    using assms(3) by (simp add: opt_len_eq drbg_max_additional_def)
  define ctx1 where "ctx1 = (if opt_len additional \<noteq> 0 then drbg_update ctx [additional] else ctx)"
  have wf1: "drbg_wf ctx1" and c1: "drbg_reseed_counter ctx1 = drbg_reseed_counter ctx"
    and kv1: "drbg_kv ctx1 = (if ?a = [] then drbg_kv ctx else hmac_drbg_update ?a (drbg_kv ctx))"
    using assms(1) drbg_update_eq [OF assms(1) small] by (simp_all add: ctx1_def opt_len_eq)
  let ?q = "(n + 63) div 64" and ?k = "drbg_key ctx1" and ?v = "drbg_val ctx1"
  let ?ctx1' = "ctx1\<lparr>drbg_val := hmac_drbg_V ?k ?v ?q\<rparr>"
  have out: "drbg_output ?k ?v n = (take n (hmac_drbg_blocks ?k ?v ?q), hmac_drbg_V ?k ?v ?q)"
    using wf1 by (intro drbg_output_eq) (simp_all add: drbg_wf_def)
  have wf1': "drbg_wf ?ctx1'" using wf1 by (simp add: drbg_wf_def)
  note u = drbg_update_eq [OF wf1' small]
  have gen: "sha512_hmac_drbg_generate ctx additional n =
    (0, (drbg_update ?ctx1' [additional])\<lparr>drbg_reseed_counter := drbg_reseed_counter ctx + 1\<rparr>,
     take n (hmac_drbg_blocks ?k ?v ?q))"
    unfolding sha512_hmac_drbg_generate_def Let_def ctx1_def [symmetric]
    using assms(2,3,4) c1 by (simp add: out not_less [THEN iffD2])
  have spec: "hmac_drbg_generate ?a n (drbg_kv ctx) =
    (hmac_drbg_update ?a (?k, hmac_drbg_V ?k ?v ?q), take n (hmac_drbg_blocks ?k ?v ?q))"
    using kv1 by (simp add: hmac_drbg_generate_def drbg_kv_def [of ctx1] Let_def flip: kv1)
  show ?thesis
    using u gen spec by (simp add: drbg_kv_def drbg_wf_def)
qed

section \<open>Seeding and the reseed interval\<close>

lemma instantiate_ok:
  assumes "sha512_hmac_drbg_instantiate ctx entropy personal = (0, ctx')"
  shows "drbg_wf ctx'" and "drbg_reseed_counter ctx' = 1"
    and "drbg_kv ctx' = hmac_drbg_update (opt_bytes entropy @ opt_bytes personal)
                          (replicate 64 0, replicate 64 1)"
proof -
  let ?c = "ctx\<lparr>drbg_key := replicate 64 0, drbg_val := replicate 64 1\<rparr>"
  have "drbg_wf ?c" by (simp add: drbg_wf_def)
  moreover have "length (part_data [entropy, personal]) < 2 ^ 60"
    using assms
    by (auto simp: sha512_hmac_drbg_instantiate_def opt_len_eq drbg_max_entropy_def
        drbg_max_personal_def opt_bytes_def split: if_splits option.splits)
  ultimately have "drbg_wf (drbg_update ?c [entropy, personal])"
    and "drbg_kv (drbg_update ?c [entropy, personal])
      = hmac_drbg_update (opt_bytes entropy @ opt_bytes personal) (replicate 64 0, replicate 64 1)"
    by (simp_all add: drbg_update_eq drbg_kv_def [of "ctx\<lparr>drbg_key := _, drbg_val := _\<rparr>"])
  then show "drbg_wf ctx'" and "drbg_reseed_counter ctx' = 1"
    and "drbg_kv ctx' = hmac_drbg_update (opt_bytes entropy @ opt_bytes personal)
                          (replicate 64 0, replicate 64 1)"
    using assms by (auto simp: sha512_hmac_drbg_instantiate_def drbg_wf_def drbg_kv_def split: if_splits)
qed

text \<open>
  A sequence of requests, all with no additional input: the return codes and the last context.  The reseed
  counter goes up in the same way with additional input, as the theorem on a single request shows.
\<close>

primrec drbg_run :: "sha512_hmac_drbg_ctx \<Rightarrow> nat list \<Rightarrow> int list \<times> sha512_hmac_drbg_ctx" where
  "drbg_run ctx [] = ([], ctx)"
| "drbg_run ctx (n # ns) =
     (let (r, ctx', out) = sha512_hmac_drbg_generate ctx None n;
          (rs, ctx'') = drbg_run ctx' ns
      in (r # rs, ctx''))"

lemma generate_exhausted:
  "drbg_reseed_interval < drbg_reseed_counter ctx \<Longrightarrow>
   sha512_hmac_drbg_generate ctx additional n = (-1, ctx, [])"
  by (simp add: sha512_hmac_drbg_generate_def)

lemma drbg_run_exhausted:
  "drbg_reseed_interval < drbg_reseed_counter ctx \<Longrightarrow>
   drbg_run ctx ns = (replicate (length ns) (-1), ctx)"
  by (induction ns) (simp_all add: generate_exhausted)

lemma drbg_run_codes:
  assumes "drbg_wf ctx" and "drbg_reseed_counter ctx = word_of_nat k" and "k \<le> 129"
    and "\<forall>n \<in> set ns. n \<le> drbg_max_generated"
  shows "fst (drbg_run ctx ns) =
    replicate (min (length ns) (129 - k)) 0 @ replicate (length ns - (129 - k)) (-1)"
  using assms
proof (induction ns arbitrary: ctx k)
  case (Cons n ns)
  show ?case
  proof (cases "k = 129")
    case True
    then show ?thesis
      using Cons.prems(2) drbg_run_exhausted [of ctx "n # ns"] by (simp add: drbg_reseed_interval_def)
  next
    case False
    then have "drbg_reseed_counter ctx \<le> drbg_reseed_interval"
      using Cons.prems(2,3) by (simp add: drbg_reseed_interval_def word_le_nat_alt)
    then obtain ctx' out where g: "sha512_hmac_drbg_generate ctx None n = (0, ctx', out)"
      and wf: "drbg_wf ctx'" and c: "drbg_reseed_counter ctx' = drbg_reseed_counter ctx + 1"
      using generate_ok [of ctx n None] Cons.prems by (auto simp: opt_len_def)
    have "fst (drbg_run ctx' ns) =
      replicate (min (length ns) (129 - Suc k)) 0 @ replicate (length ns - (129 - Suc k)) (-1)"
      by (rule Cons.IH) (use wf c Cons.prems False in auto)
    moreover have "129 - k = Suc (129 - Suc k)" using False Cons.prems(3) by simp
    ultimately show ?thesis by (simp add: g case_prod_beta Let_def)
  qed
qed simp

section \<open>Properties\<close>

text \<open>
  C27 (refinement): A request the checks admit succeeds: it returns the bytes the SP 800-90A generate function
  prescribes for the state \<open>(K, V)\<close>, leaves the state it prescribes, keeps the context well formed
  and counts the request.
\<close>

theorem drbg_generate_correct:
  assumes "drbg_wf ctx" and "n \<le> drbg_max_generated" and "opt_len additional \<le> drbg_max_additional"
    and "drbg_reseed_counter ctx \<le> drbg_reseed_interval"
  shows "\<exists>ctx'. sha512_hmac_drbg_generate ctx additional n =
      (0, ctx', snd (hmac_drbg_generate (opt_bytes additional) n (drbg_kv ctx)))
    \<and> drbg_kv ctx' = fst (hmac_drbg_generate (opt_bytes additional) n (drbg_kv ctx))
    \<and> drbg_wf ctx' \<and> drbg_reseed_counter ctx' = drbg_reseed_counter ctx + 1"
  using assms by (rule generate_ok)

theorem drbg_generate_correct_witness:
  "\<exists>ctx'. sha512_hmac_drbg_generate
        \<lparr>drbg_key = replicate 64 5, drbg_val = replicate 64 6, drbg_reseed_counter = 7\<rparr> (Some [1]) 100 =
      (0, ctx', snd (hmac_drbg_generate [1] 100 (replicate 64 5, replicate 64 6)))
    \<and> drbg_kv ctx' = fst (hmac_drbg_generate [1] 100 (replicate 64 5, replicate 64 6))
    \<and> drbg_wf ctx' \<and> drbg_reseed_counter ctx' = 8"
  using drbg_generate_correct
    [of "\<lparr>drbg_key = replicate 64 5, drbg_val = replicate 64 6, drbg_reseed_counter = 7\<rparr>" 100 "Some [1]"]
  by (simp add: drbg_wf_def drbg_max_generated_def drbg_max_additional_def opt_len_def opt_bytes_def
      drbg_kv_def drbg_reseed_interval_def)

text \<open>
  C30 (safety): After a successful instantiation the generator serves exactly 128 requests: of any sequence
  of requests of admissible size the first 128 succeed and every later one is refused, so a
  caller that never reseeds cannot draw output beyond the reseed interval.
\<close>

theorem drbg_reseed_interval_enforced:
  assumes "sha512_hmac_drbg_instantiate ctx0 entropy personal = (0, ctx)"
    and "\<forall>n \<in> set ns. n \<le> drbg_max_generated"
  shows "fst (drbg_run ctx ns) =
    replicate (min (length ns) 128) 0 @ replicate (length ns - 128) (-1)"
  using drbg_run_codes [of ctx 1 ns] instantiate_ok [OF assms(1)] assms(2) by simp

theorem drbg_reseed_interval_enforced_witness:
  "fst (drbg_run (snd (sha512_hmac_drbg_instantiate
      \<lparr>drbg_key = [], drbg_val = [], drbg_reseed_counter = 0\<rparr> (Some (replicate 32 9)) None))
     (replicate 130 16)) = replicate 128 0 @ [-1, -1]"
proof -
  let ?i = "sha512_hmac_drbg_instantiate
      \<lparr>drbg_key = [], drbg_val = [], drbg_reseed_counter = 0\<rparr> (Some (replicate 32 9)) None"
  have "fst ?i = 0"
    by (simp add: sha512_hmac_drbg_instantiate_def opt_len_def drbg_min_entropy_def drbg_max_entropy_def)
  then have "?i = (0, snd ?i)" by (simp add: prod_eq_iff)
  from drbg_reseed_interval_enforced [OF this, of "replicate 130 16"] show ?thesis
    by (simp add: drbg_max_generated_def) (simp add: numeral_2_eq_2)
qed

end
