(* ===== verification/Pkcs5.thy ===== *)
theory Pkcs5
  imports Hmac
begin

unbundle bit_operations_syntax

text \<open>
  \<^verbatim>\<open>crypto_lib/sha512_pkcs5_2.c\<close>: PBKDF2-HMAC-SHA-512, the legacy password KDF. The code starts the
  HMAC context once and copies it for each call; the reference is RFC 8018, section 5.2.
\<close>

section \<open>The code\<close>

definition pkcs5_counter :: "u32 \<Rightarrow> bytes" where
  "pkcs5_counter block =
     [ucast (drop_bit 24 block), ucast (drop_bit 16 block), ucast (drop_bit 8 block), ucast block]"

text \<open>The loop \<^verbatim>\<open>for (j = 1; j < i_count; j++)\<close>; its number of turns is the first argument.\<close>

primrec pkcs5_iterate :: "nat \<Rightarrow> sha512_hmac_ctx \<Rightarrow> bytes \<Rightarrow> bytes \<Rightarrow> bytes" where
  "pkcs5_iterate 0 base u t = t"
| "pkcs5_iterate (Suc j) base u t =
     (let u' = snd (sha512_hmac_done (sha512_hmac_hash base u))
      in pkcs5_iterate j base u' (xor_bytes t u'))"

definition pkcs5_block :: "int \<Rightarrow> sha512_hmac_ctx \<Rightarrow> bytes \<Rightarrow> u32 \<Rightarrow> bytes" where
  "pkcs5_block i_count base salt block =
     (let u = snd (sha512_hmac_done
                (sha512_hmac_hash (sha512_hmac_hash base salt) (pkcs5_counter block)))
      in pkcs5_iterate (nat (i_count - 1)) base u u)"

text \<open>The loop \<^verbatim>\<open>for (block = 1; dklen != 0; block++)\<close>.\<close>

function pkcs5_blocks :: "int \<Rightarrow> sha512_hmac_ctx \<Rightarrow> bytes \<Rightarrow> u32 \<Rightarrow> nat \<Rightarrow> bytes" where
  "pkcs5_blocks i_count base salt block dklen =
     (if dklen = 0 then []
      else let t = pkcs5_block i_count base salt block; n = min dklen 64
           in take n t @ pkcs5_blocks i_count base salt (block + 1) (dklen - n))"
  by pat_completeness auto
termination
  by (relation "measure (\<lambda>(i_count, base, salt, block, dklen). dklen)") auto

declare pkcs5_blocks.simps [simp del]

definition sha512_pkcs5_2 :: "int \<Rightarrow> bytes \<Rightarrow> bytes \<Rightarrow> nat \<Rightarrow> bytes" where
  "sha512_pkcs5_2 i_count pwd salt dklen =
     pkcs5_blocks i_count (sha512_hmac_init hmac_ctx_storage pwd) salt 1 dklen"

section \<open>RFC 8018\<close>

primrec pbkdf2_U :: "bytes \<Rightarrow> bytes \<Rightarrow> u32 \<Rightarrow> nat \<Rightarrow> bytes" where
  "pbkdf2_U P S i 0 = HMAC P (S @ be_bytes 4 i)"
| "pbkdf2_U P S i (Suc n) = HMAC P (pbkdf2_U P S i n)"

primrec pbkdf2_xor :: "bytes \<Rightarrow> bytes \<Rightarrow> u32 \<Rightarrow> nat \<Rightarrow> bytes" where
  "pbkdf2_xor P S i 0 = pbkdf2_U P S i 0"
| "pbkdf2_xor P S i (Suc n) = xor_bytes (pbkdf2_xor P S i n) (pbkdf2_U P S i (Suc n))"

definition pbkdf2_F :: "bytes \<Rightarrow> bytes \<Rightarrow> nat \<Rightarrow> nat \<Rightarrow> bytes" where
  "pbkdf2_F P S c i = pbkdf2_xor P S (word_of_nat i) (c - 1)"

definition PBKDF2 :: "bytes \<Rightarrow> bytes \<Rightarrow> nat \<Rightarrow> nat \<Rightarrow> bytes" where
  "PBKDF2 P S c dkLen = take dkLen (concat (map (pbkdf2_F P S c) [1..<Suc ((dkLen + 63) div 64)]))"

section \<open>Correctness\<close>

lemma length_pbkdf2_U [simp]: "length (pbkdf2_U P S i n) = 64"
  by (cases n) simp_all

lemma length_pbkdf2_xor [simp]: "length (pbkdf2_xor P S i n) = 64"
  by (induction n) simp_all

lemma pkcs5_counter_eq: "pkcs5_counter block = be_bytes 4 block"
  by (simp add: pkcs5_counter_def be_bytes_def numeral_eq_Suc)

lemma hmac_base_call:
  assumes "hmac_absorbed P base []" and "length (concat xs) < 2 ^ 61 - 128"
  shows "snd (sha512_hmac_done (foldl sha512_hmac_hash base xs)) = HMAC P (concat xs)"
  using hmac.absorbed_updates [OF assms(1), of xs] hmac.finish_digest assms(2) by simp

lemma pkcs5_iterate_eq:
  assumes "hmac_absorbed P base []"
  shows "pkcs5_iterate j base (pbkdf2_U P S i n) (pbkdf2_xor P S i n) = pbkdf2_xor P S i (n + j)"
proof (induction j arbitrary: n)
  case (Suc j)
  have "snd (sha512_hmac_done (sha512_hmac_hash base (pbkdf2_U P S i n))) = pbkdf2_U P S i (Suc n)"
    using hmac_base_call [OF assms, of "[pbkdf2_U P S i n]"] by simp
  then show ?case using Suc.IH [of "Suc n"] by simp
qed simp

lemma pkcs5_block_eq:
  assumes "hmac_absorbed P base []" and "1 \<le> c" and "length S < 2 ^ 60"
  shows "pkcs5_block c base S (word_of_nat i) = pbkdf2_F P S (nat c) i"
proof -
  have "snd (sha512_hmac_done (sha512_hmac_hash (sha512_hmac_hash base S) (pkcs5_counter (word_of_nat i))))
    = pbkdf2_U P S (word_of_nat i) 0"
    using hmac_base_call [OF assms(1), of "[S, pkcs5_counter (word_of_nat i)]"] assms(3)
    by (simp add: pkcs5_counter_eq)
  then show ?thesis
    using pkcs5_iterate_eq [OF assms(1), of "nat (c - 1)" S "word_of_nat i" 0] assms(2)
    by (simp add: pkcs5_block_def pbkdf2_F_def nat_diff_distrib)
qed

lemma length_pbkdf2_F [simp]: "length (pbkdf2_F P S c i) = 64"
  by (simp add: pbkdf2_F_def)

lemma pkcs5_blocks_eq:
  assumes "hmac_absorbed P base []" and "1 \<le> c" and "length S < 2 ^ 60"
  shows "pkcs5_blocks c base S (word_of_nat i) dklen
    = take dklen (concat (map (pbkdf2_F P S (nat c)) [i..<i + (dklen + 63) div 64]))"
proof (induction dklen arbitrary: i rule: less_induct)
  case (less d)
  show ?case
  proof (cases "d = 0")
    case True
    then show ?thesis by (simp add: pkcs5_blocks.simps)
  next
    case False
    have blk: "pkcs5_block c base S (word_of_nat i) = pbkdf2_F P S (nat c) i"
      using assms by (rule pkcs5_block_eq)
    have "(d + 63) div 64 = Suc ((d - min d 64 + 63) div 64)"
      using False by (cases "d \<le> 64") (auto simp: min_def)
    then have "[i..<i + (d + 63) div 64] = i # [Suc i..<Suc i + (d - min d 64 + 63) div 64]"
      by (simp add: upt_rec [of i])
    moreover have "pkcs5_blocks c base S (word_of_nat i + 1) (d - min d 64)
      = take (d - min d 64) (concat (map (pbkdf2_F P S (nat c))
          [Suc i..<Suc i + (d - min d 64 + 63) div 64]))"
      using less [of "d - min d 64" "Suc i"] False by (simp add: add.commute)
    ultimately show ?thesis
      using False by (subst pkcs5_blocks.simps) (simp add: blk Let_def min_def)
  qed
qed

lemma sha512_pkcs5_2_eq:
  assumes "1 \<le> c" and "length P < 2 ^ 61" and "length S < 2 ^ 60"
  shows "sha512_pkcs5_2 c P S dklen = PBKDF2 P S (nat c) dklen"
proof -
  have "hmac_absorbed P (sha512_hmac_init hmac_ctx_storage P) []"
    using assms(2) by (intro hmac.absorbed_init) simp
  from pkcs5_blocks_eq [OF this assms(1,3), of 1 dklen] show ?thesis
    by (simp add: sha512_pkcs5_2_def PBKDF2_def)
qed

lemma length_PBKDF2 [simp, length_simps]: "length (PBKDF2 P S c dkLen) = dkLen"
proof -
  have "length (concat (map (pbkdf2_F P S c) is)) = 64 * length is" for "is"
    by (induction "is") simp_all
  moreover have "dkLen \<le> 64 * ((dkLen + 63) div 64)" by linarith
  ultimately show ?thesis by (simp add: PBKDF2_def del: upt_Suc)
qed

section \<open>Properties\<close>

text \<open>
  C26 (functional): \<^verbatim>\<open>sha512_pkcs5_2\<close> computes PBKDF2 of RFC 8018 with HMAC-SHA-512, for every iteration count from
  one on and every output length, and fills exactly the requested number of bytes.
\<close>

theorem sha512_pkcs5_2_correct:
  assumes "1 \<le> i_count" and "length pwd < 2 ^ 61" and "length salt < 2 ^ 60"
  shows "sha512_pkcs5_2 i_count pwd salt dklen = PBKDF2 pwd salt (nat i_count) dklen
    \<and> length (sha512_pkcs5_2 i_count pwd salt dklen) = dklen"
  using sha512_pkcs5_2_eq [OF assms] by simp

theorem sha512_pkcs5_2_correct_witness:
  "sha512_pkcs5_2 1000 [112, 119] (replicate 64 1) 192 = PBKDF2 [112, 119] (replicate 64 1) 1000 192
   \<and> length (sha512_pkcs5_2 1000 [112, 119] (replicate 64 1) 192) = 192"
  using sha512_pkcs5_2_correct [of 1000 "[112, 119]" "replicate 64 1" 192] by simp

end
