(* ===== verification/Cipher.thy ===== *)
theory Cipher
  imports Prelude
begin

text \<open>
  The contract every block cipher of the library offers to the modes of operation that call it
  (\<^verbatim>\<open>DCrypt/crypto_lib\<close>): on a key schedule accepted by \<open>valid\<close>, encryption and decryption map
  16-byte blocks to 16-byte blocks and are inverse to each other.  Serpent and Twofish interpret the
  contract on their own models; the XTS mode is verified once against it.
\<close>

definition block_size :: nat where
  "block_size = 16"

lemma block_size_simp [simp]: "block_size = 16"
  by (simp add: block_size_def)

locale block_cipher =
  fixes valid :: "'k \<Rightarrow> bool"
    and enc :: "'k \<Rightarrow> bytes \<Rightarrow> bytes"
    and dec :: "'k \<Rightarrow> bytes \<Rightarrow> bytes"
  assumes length_enc: "valid k \<Longrightarrow> length b = 16 \<Longrightarrow> length (enc k b) = 16"
    and length_dec: "valid k \<Longrightarrow> length b = 16 \<Longrightarrow> length (dec k b) = 16"
    and dec_enc: "valid k \<Longrightarrow> length b = 16 \<Longrightarrow> dec k (enc k b) = b"
begin

lemma enc_inj:
  assumes "valid k" "length b = 16" "length c = 16" "enc k b = enc k c"
  shows "b = c"
  using dec_enc [OF assms(1,2)] dec_enc [OF assms(1,3)] assms(4) by metis

end

text \<open>A cipher whose decryption is also undone by encryption: a permutation of the blocks.\<close>

locale block_permutation = block_cipher +
  assumes enc_dec: "valid k \<Longrightarrow> length b = 16 \<Longrightarrow> enc k (dec k b) = b"
begin

lemma enc_bij: "valid k \<Longrightarrow> bij_betw (enc k) {b. length b = 16} {b. length b = 16}"
  by (rule bij_betw_byWitness [where f' = "dec k"]) (auto simp: dec_enc enc_dec length_enc length_dec)

end

text \<open>A block as four little-endian 32-bit words, the way the word-oriented cores load it.\<close>

definition block_load :: "bytes \<Rightarrow> u32 \<times> u32 \<times> u32 \<times> u32" where
  "block_load p = (le_word (slice 0 4 p), le_word (slice 4 4 p), le_word (slice 8 4 p), le_word (slice 12 4 p))"

definition block_store :: "u32 \<times> u32 \<times> u32 \<times> u32 \<Rightarrow> bytes" where
  "block_store = (\<lambda>(x0, x1, x2, x3). le_bytes 4 x0 @ le_bytes 4 x1 @ le_bytes 4 x2 @ le_bytes 4 x3)"

lemma block_load_store [simp]: "block_load (block_store q) = q"
  by (cases q) (simp add: block_load_def block_store_def slice_def le_word_le_bytes)

lemma block_store_load [simp]: "length p = 16 \<Longrightarrow> block_store (block_load p) = p"
  using take_drop_split [of 4 8 p] take_drop_split [of 4 4 p] append_take_drop_id [of 4 p]
  by (simp add: block_load_def block_store_def slice_def le_bytes_le_word)

lemma length_block_store [simp, length_simps]: "length (block_store q) = 16"
  by (cases q) (simp add: block_store_def)

end
