(* ===== verification/Serpent.thy ===== *)
theory Serpent
  imports Cipher
begin

text \<open>
  Serpent-256 (\<^verbatim>\<open>DCrypt/crypto_lib/serpent.c\<close>, \<^verbatim>\<open>serpent_sboxes.h\<close>).  The macros of
  \<^verbatim>\<open>serpent_sboxes.h\<close> are gate sequences over four registers, parametric in the word type
  (\<^verbatim>\<open>SB_T\<close>: one 32-bit word here, a SIMD register in the vector cores); they become functions on
  quadruples of words of any width.  The theory shows that the sequences compute the eight S-box
  tables of the cipher in every bit lane and that the inverse sequences invert them, that the unrolled
  key schedule and rounds are the iterated ones of the specification, and that decryption inverts
  encryption; it ends in the interpretation of the block cipher contract.
\<close>

unbundle bit_operations_syntax

type_synonym 'a quad = "'a \<times> 'a \<times> 'a \<times> 'a"

section \<open>S-boxes and linear transform (\<^verbatim>\<open>serpent_sboxes.h\<close>)\<close>

fun sE1 :: "'a::len word quad \<Rightarrow> 'a word quad" where
  "sE1 (B0, B1, B2, B3) =
     (let tt = B1; B3 = B3 XOR B0; B1 = B1 AND B3; tt = tt XOR B2; B1 = B1 XOR B0;
          B0 = B0 OR B3; B0 = B0 XOR tt; tt = tt XOR B3; B3 = B3 XOR B2; B2 = B2 OR B1;
          B2 = B2 XOR tt; tt = NOT tt; tt = tt OR B1; B1 = B1 XOR B3; B1 = B1 XOR tt;
          B3 = B3 OR B0; B1 = B1 XOR B3; tt = tt XOR B3; B3 = B0; B0 = B1; B1 = tt
      in (B0, B1, B2, B3))"

fun sE2 :: "'a::len word quad \<Rightarrow> 'a word quad" where
  "sE2 (B0, B1, B2, B3) =
     (let B0 = NOT B0; B2 = NOT B2; tt = B0; B0 = B0 AND B1; B2 = B2 XOR B0;
          B0 = B0 OR B3; B3 = B3 XOR B2; B1 = B1 XOR B0; B0 = B0 XOR tt; tt = tt OR B1;
          B1 = B1 XOR B3; B2 = B2 OR B0; B2 = B2 AND tt; B0 = B0 XOR B1; B1 = B1 AND B2;
          B1 = B1 XOR B0; B0 = B0 AND B2; tt = tt XOR B0; B0 = B2; B2 = B3; B3 = B1;
          B1 = tt
      in (B0, B1, B2, B3))"

fun sE3 :: "'a::len word quad \<Rightarrow> 'a word quad" where
  "sE3 (B0, B1, B2, B3) =
     (let tt = B0; B0 = B0 AND B2; B0 = B0 XOR B3; B2 = B2 XOR B1; B2 = B2 XOR B0;
          B3 = B3 OR tt; B3 = B3 XOR B1; tt = tt XOR B2; B1 = B3; B3 = B3 OR tt;
          B3 = B3 XOR B0; B0 = B0 AND B1; tt = tt XOR B0; B1 = B1 XOR B3; B1 = B1 XOR tt;
          B0 = B2; B2 = B1; B1 = B3; B3 = NOT tt
      in (B0, B1, B2, B3))"

fun sE4 :: "'a::len word quad \<Rightarrow> 'a word quad" where
  "sE4 (B0, B1, B2, B3) =
     (let tt = B0; B0 = B0 OR B3; B3 = B3 XOR B1; B1 = B1 AND tt; tt = tt XOR B2;
          B2 = B2 XOR B3; B3 = B3 AND B0; tt = tt OR B1; B3 = B3 XOR tt; B0 = B0 XOR B1;
          tt = tt AND B0; B1 = B1 XOR B3; tt = tt XOR B2; B1 = B1 OR B0; B1 = B1 XOR B2;
          B0 = B0 XOR B3; B2 = B1; B1 = B1 OR B3; B0 = B0 XOR B1; B1 = B2; B2 = B3;
          B3 = tt
      in (B0, B1, B2, B3))"

fun sE5 :: "'a::len word quad \<Rightarrow> 'a word quad" where
  "sE5 (B0, B1, B2, B3) =
     (let B1 = B1 XOR B3; B3 = NOT B3; B2 = B2 XOR B3; B3 = B3 XOR B0; tt = B1;
          B1 = B1 AND B3; B1 = B1 XOR B2; tt = tt XOR B3; B0 = B0 XOR tt; B2 = B2 AND tt;
          B2 = B2 XOR B0; B0 = B0 AND B1; B3 = B3 XOR B0; tt = tt OR B1; tt = tt XOR B0;
          B0 = B0 OR B3; B0 = B0 XOR B2; B2 = B2 AND B3; B0 = NOT B0; tt = tt XOR B2;
          B2 = B0; B0 = B1; B1 = tt
      in (B0, B1, B2, B3))"

fun sE6 :: "'a::len word quad \<Rightarrow> 'a word quad" where
  "sE6 (B0, B1, B2, B3) =
     (let B0 = B0 XOR B1; B1 = B1 XOR B3; B3 = NOT B3; tt = B1; B1 = B1 AND B0;
          B2 = B2 XOR B3; B1 = B1 XOR B2; B2 = B2 OR tt; tt = tt XOR B3; B3 = B3 AND B1;
          B3 = B3 XOR B0; tt = tt XOR B1; tt = tt XOR B2; B2 = B2 XOR B0; B0 = B0 AND B3;
          B2 = NOT B2; B0 = B0 XOR tt; tt = tt OR B3; tt = tt XOR B2; B2 = B0; B0 = B1;
          B1 = B3; B3 = tt
      in (B0, B1, B2, B3))"

fun sE7 :: "'a::len word quad \<Rightarrow> 'a word quad" where
  "sE7 (B0, B1, B2, B3) =
     (let B2 = NOT B2; tt = B3; B3 = B3 AND B0; B0 = B0 XOR tt; B3 = B3 XOR B2;
          B2 = B2 OR tt; B1 = B1 XOR B3; B2 = B2 XOR B0; B0 = B0 OR B1; B2 = B2 XOR B1;
          tt = tt XOR B0; B0 = B0 OR B3; B0 = B0 XOR B2; tt = tt XOR B3; tt = tt XOR B0;
          B3 = NOT B3; B2 = B2 AND tt; B3 = B3 XOR B2; B2 = tt
      in (B0, B1, B2, B3))"

fun sE8 :: "'a::len word quad \<Rightarrow> 'a word quad" where
  "sE8 (B0, B1, B2, B3) =
     (let tt = B1; B1 = B1 OR B2; B1 = B1 XOR B3; tt = tt XOR B2; B2 = B2 XOR B1;
          B3 = B3 OR tt; B3 = B3 AND B0; tt = tt XOR B2; B3 = B3 XOR B1; B1 = B1 OR tt;
          B1 = B1 XOR B0; B0 = B0 OR tt; B0 = B0 XOR B2; B1 = B1 XOR tt; B2 = B2 XOR B1;
          B1 = B1 AND B0; B1 = B1 XOR tt; B2 = NOT B2; B2 = B2 OR B0; tt = tt XOR B2;
          B2 = B1; B1 = B3; B3 = B0; B0 = tt
      in (B0, B1, B2, B3))"

fun sD1 :: "'a::len word quad \<Rightarrow> 'a word quad" where
  "sD1 (B0, B1, B2, B3) =
     (let tt = B1; B2 = NOT B2; B1 = B1 OR B0; tt = NOT tt; B1 = B1 XOR B2;
          B2 = B2 OR tt; B1 = B1 XOR B3; B0 = B0 XOR tt; B2 = B2 XOR B0; B0 = B0 AND B3;
          tt = tt XOR B0; B0 = B0 OR B1; B0 = B0 XOR B2; B3 = B3 XOR tt; B2 = B2 XOR B1;
          B3 = B3 XOR B0; B3 = B3 XOR B1; B2 = B2 AND B3; tt = tt XOR B2; B2 = B1;
          B1 = tt
      in (B0, B1, B2, B3))"

fun sD2 :: "'a::len word quad \<Rightarrow> 'a word quad" where
  "sD2 (B0, B1, B2, B3) =
     (let tt = B1; B1 = B1 XOR B3; B3 = B3 AND B1; tt = tt XOR B2; B3 = B3 XOR B0;
          B0 = B0 OR B1; B2 = B2 XOR B3; B0 = B0 XOR tt; B0 = B0 OR B2; B1 = B1 XOR B3;
          B0 = B0 XOR B1; B1 = B1 OR B3; B1 = B1 XOR B0; tt = NOT tt; tt = tt XOR B1;
          B1 = B1 OR B0; B1 = B1 XOR B0; B1 = B1 OR tt; B3 = B3 XOR B1; B1 = B0; B0 = tt;
          tt = B2; B2 = B3; B3 = tt
      in (B0, B1, B2, B3))"

fun sD3 :: "'a::len word quad \<Rightarrow> 'a word quad" where
  "sD3 (B0, B1, B2, B3) =
     (let B2 = B2 XOR B3; B3 = B3 XOR B0; tt = B3; B3 = B3 AND B2; B3 = B3 XOR B1;
          B1 = B1 OR B2; B1 = B1 XOR tt; tt = tt AND B3; B2 = B2 XOR B3; tt = tt AND B0;
          tt = tt XOR B2; B2 = B2 AND B1; B2 = B2 OR B0; B3 = NOT B3; B2 = B2 XOR B3;
          B0 = B0 XOR B3; B0 = B0 AND B1; B3 = B3 XOR tt; B3 = B3 XOR B0; B0 = B1;
          B1 = tt
      in (B0, B1, B2, B3))"

fun sD4 :: "'a::len word quad \<Rightarrow> 'a word quad" where
  "sD4 (B0, B1, B2, B3) =
     (let tt = B2; B2 = B2 XOR B1; B0 = B0 XOR B2; tt = tt AND B2; tt = tt XOR B0;
          B0 = B0 AND B1; B1 = B1 XOR B3; B3 = B3 OR tt; B2 = B2 XOR B3; B0 = B0 XOR B3;
          B1 = B1 XOR tt; B3 = B3 AND B2; B3 = B3 XOR B1; B1 = B1 XOR B0; B1 = B1 OR B2;
          B0 = B0 XOR B3; B1 = B1 XOR tt; B0 = B0 XOR B1; tt = B0; B0 = B2; B2 = B3;
          B3 = tt
      in (B0, B1, B2, B3))"

fun sD5 :: "'a::len word quad \<Rightarrow> 'a word quad" where
  "sD5 (B0, B1, B2, B3) =
     (let tt = B2; B2 = B2 AND B3; B2 = B2 XOR B1; B1 = B1 OR B3; B1 = B1 AND B0;
          tt = tt XOR B2; tt = tt XOR B1; B1 = B1 AND B2; B0 = NOT B0; B3 = B3 XOR tt;
          B1 = B1 XOR B3; B3 = B3 AND B0; B3 = B3 XOR B2; B0 = B0 XOR B1; B2 = B2 AND B0;
          B3 = B3 XOR B0; B2 = B2 XOR tt; B2 = B2 OR B3; B3 = B3 XOR B0; B2 = B2 XOR B1;
          B1 = B3; B3 = tt
      in (B0, B1, B2, B3))"

fun sD6 :: "'a::len word quad \<Rightarrow> 'a word quad" where
  "sD6 (B0, B1, B2, B3) =
     (let tt = B3; B1 = NOT B1; B2 = B2 XOR B1; B3 = B3 OR B0; B3 = B3 XOR B2;
          B2 = B2 OR B1; B2 = B2 AND B0; tt = tt XOR B3; B2 = B2 XOR tt; tt = tt OR B0;
          tt = tt XOR B1; B1 = B1 AND B2; B1 = B1 XOR B3; tt = tt XOR B2; B3 = B3 AND tt;
          tt = tt XOR B1; B3 = B3 XOR tt; tt = NOT tt; B3 = B3 XOR B0; B0 = B1; B1 = tt;
          tt = B3; B3 = B2; B2 = tt
      in (B0, B1, B2, B3))"

fun sD7 :: "'a::len word quad \<Rightarrow> 'a word quad" where
  "sD7 (B0, B1, B2, B3) =
     (let tt = B2; B0 = B0 XOR B2; B2 = B2 AND B0; tt = tt XOR B3; B2 = NOT B2;
          B3 = B3 XOR B1; B2 = B2 XOR B3; tt = tt OR B0; B0 = B0 XOR B2; B3 = B3 XOR tt;
          tt = tt XOR B1; B1 = B1 AND B3; B1 = B1 XOR B0; B0 = B0 XOR B3; B0 = B0 OR B2;
          B3 = B3 XOR B1; tt = tt XOR B0; B0 = B1; B1 = B2; B2 = tt
      in (B0, B1, B2, B3))"

fun sD8 :: "'a::len word quad \<Rightarrow> 'a word quad" where
  "sD8 (B0, B1, B2, B3) =
     (let tt = B2; B2 = B2 XOR B0; B0 = B0 AND B3; tt = tt OR B3; B2 = NOT B2;
          B3 = B3 XOR B1; B1 = B1 OR B0; B0 = B0 XOR B2; B2 = B2 AND tt; B3 = B3 AND tt;
          B1 = B1 XOR B2; B2 = B2 XOR B0; B0 = B0 OR B2; tt = tt XOR B1; B0 = B0 XOR B3;
          B3 = B3 XOR tt; tt = tt OR B0; B3 = B3 XOR B2; tt = tt XOR B2; B2 = B1;
          B1 = B0; B0 = B3; B3 = tt
      in (B0, B1, B2, B3))"

fun SB_LT :: "u32 quad \<Rightarrow> u32 quad" where
  "SB_LT (B0, B1, B2, B3) =
     (let B0 = rol 13 B0; B2 = rol 3 B2; B1 = B1 XOR B0; B1 = B1 XOR B2; B3 = B3 XOR B2;
          B3 = B3 XOR push_bit 3 B0; B1 = rol 1 B1; B3 = rol 7 B3; B0 = B0 XOR B1;
          B0 = B0 XOR B3; B2 = B2 XOR B3; B2 = B2 XOR push_bit 7 B1; B0 = rol 5 B0;
          B2 = rol 22 B2
      in (B0, B1, B2, B3))"

fun SB_ILT :: "u32 quad \<Rightarrow> u32 quad" where
  "SB_ILT (B0, B1, B2, B3) =
     (let B2 = rol 10 B2; B0 = rol 27 B0; B2 = B2 XOR B3; B2 = B2 XOR push_bit 7 B1;
          B0 = B0 XOR B1; B0 = B0 XOR B3; B3 = rol 25 B3; B1 = rol 31 B1; B3 = B3 XOR B2;
          B3 = B3 XOR push_bit 3 B0; B1 = B1 XOR B0; B1 = B1 XOR B2; B2 = rol 29 B2;
          B0 = rol 19 B0
      in (B0, B1, B2, B3))"


section \<open>Key schedule and block transforms (\<^verbatim>\<open>serpent.c\<close>)\<close>

definition SERPENT_EXPKEY_WORDS :: nat where
  "SERPENT_EXPKEY_WORDS = 132"

definition PHI :: u32 where
  "PHI = 0x9e3779b9"

definition serpent_load :: "bytes \<Rightarrow> u32 quad" where
  "serpent_load p = (le_word (slice 0 4 p), le_word (slice 4 4 p), le_word (slice 8 4 p), le_word (slice 12 4 p))"

definition serpent_store :: "u32 quad \<Rightarrow> bytes" where
  "serpent_store = (\<lambda>(x0, x1, x2, x3). le_bytes 4 x0 @ le_bytes 4 x1 @ le_bytes 4 x2 @ le_bytes 4 x3)"

definition KX :: "u32 list \<Rightarrow> nat \<Rightarrow> u32 quad \<Rightarrow> u32 quad" where
  "KX k r = (\<lambda>(x0, x1, x2, x3).
     (x0 XOR k ! (4 * r + 0), x1 XOR k ! (4 * r + 1), x2 XOR k ! (4 * r + 2), x3 XOR k ! (4 * r + 3)))"

definition prekey_step :: "nat \<Rightarrow> u32 list \<Rightarrow> u32 list" where
  "prekey_step i ws = ws @ [rol 11 (ws ! i XOR ws ! (i + 3) XOR ws ! (i + 5) XOR ws ! (i + 7) XOR PHI XOR of_nat i)]"

definition serpent_prekey :: "bytes \<Rightarrow> u32 list" where
  "serpent_prekey key =
     fold prekey_step [0..<SERPENT_EXPKEY_WORDS]
       (map (\<lambda>i. le_word (slice (4 * i) 4 key)) [0..<8])"

definition serpent_key_sbox :: "nat \<Rightarrow> u32 quad \<Rightarrow> u32 quad" where
  "serpent_key_sbox i =
     (if i mod 8 = 0 then sE4 else if i mod 8 = 1 then sE3 else if i mod 8 = 2 then sE2
      else if i mod 8 = 3 then sE1 else if i mod 8 = 4 then sE8 else if i mod 8 = 5 then sE7
      else if i mod 8 = 6 then sE6 else sE5)"

definition quad_list :: "'a quad \<Rightarrow> 'a list" where
  "quad_list = (\<lambda>(a, b, c, d). [a, b, c, d])"

definition serpent256_set_key :: "bytes \<Rightarrow> u32 list" where
  "serpent256_set_key key =
     (let ws = serpent_prekey key
      in concat (map (\<lambda>i. quad_list (serpent_key_sbox i
           (ws ! (8 + i * 4 + 0), ws ! (8 + i * 4 + 1), ws ! (8 + i * 4 + 2), ws ! (8 + i * 4 + 3))))
           [0..<SERPENT_EXPKEY_WORDS div 4]))"

definition ENC_ROUND :: "u32 list \<Rightarrow> nat \<Rightarrow> (u32 quad \<Rightarrow> u32 quad) \<Rightarrow> u32 quad \<Rightarrow> u32 quad" where
  "ENC_ROUND k r sb x = SB_LT (sb (KX k r x))"

definition DEC_ROUND :: "u32 list \<Rightarrow> nat \<Rightarrow> (u32 quad \<Rightarrow> u32 quad) \<Rightarrow> u32 quad \<Rightarrow> u32 quad" where
  "DEC_ROUND k r sb x = KX k r (sb (SB_ILT x))"

definition serpent256_encrypt :: "u32 list \<Rightarrow> bytes \<Rightarrow> bytes" where
  "serpent256_encrypt k inp =
     (let x = serpent_load inp;
          x = ENC_ROUND k 0 sE1 x; x = ENC_ROUND k 1 sE2 x; x = ENC_ROUND k 2 sE3 x;
          x = ENC_ROUND k 3 sE4 x; x = ENC_ROUND k 4 sE5 x; x = ENC_ROUND k 5 sE6 x;
          x = ENC_ROUND k 6 sE7 x; x = ENC_ROUND k 7 sE8 x; x = ENC_ROUND k 8 sE1 x;
          x = ENC_ROUND k 9 sE2 x; x = ENC_ROUND k 10 sE3 x; x = ENC_ROUND k 11 sE4 x;
          x = ENC_ROUND k 12 sE5 x; x = ENC_ROUND k 13 sE6 x; x = ENC_ROUND k 14 sE7 x;
          x = ENC_ROUND k 15 sE8 x; x = ENC_ROUND k 16 sE1 x; x = ENC_ROUND k 17 sE2 x;
          x = ENC_ROUND k 18 sE3 x; x = ENC_ROUND k 19 sE4 x; x = ENC_ROUND k 20 sE5 x;
          x = ENC_ROUND k 21 sE6 x; x = ENC_ROUND k 22 sE7 x; x = ENC_ROUND k 23 sE8 x;
          x = ENC_ROUND k 24 sE1 x; x = ENC_ROUND k 25 sE2 x; x = ENC_ROUND k 26 sE3 x;
          x = ENC_ROUND k 27 sE4 x; x = ENC_ROUND k 28 sE5 x; x = ENC_ROUND k 29 sE6 x;
          x = ENC_ROUND k 30 sE7 x;
          x = KX k 31 x; x = sE8 x; x = KX k 32 x
      in serpent_store x)"

definition serpent256_decrypt :: "u32 list \<Rightarrow> bytes \<Rightarrow> bytes" where
  "serpent256_decrypt k inp =
     (let x = serpent_load inp;
          x = KX k 32 x; x = sD8 x; x = KX k 31 x;
          x = DEC_ROUND k 30 sD7 x; x = DEC_ROUND k 29 sD6 x; x = DEC_ROUND k 28 sD5 x;
          x = DEC_ROUND k 27 sD4 x; x = DEC_ROUND k 26 sD3 x; x = DEC_ROUND k 25 sD2 x;
          x = DEC_ROUND k 24 sD1 x; x = DEC_ROUND k 23 sD8 x; x = DEC_ROUND k 22 sD7 x;
          x = DEC_ROUND k 21 sD6 x; x = DEC_ROUND k 20 sD5 x; x = DEC_ROUND k 19 sD4 x;
          x = DEC_ROUND k 18 sD3 x; x = DEC_ROUND k 17 sD2 x; x = DEC_ROUND k 16 sD1 x;
          x = DEC_ROUND k 15 sD8 x; x = DEC_ROUND k 14 sD7 x; x = DEC_ROUND k 13 sD6 x;
          x = DEC_ROUND k 12 sD5 x; x = DEC_ROUND k 11 sD4 x; x = DEC_ROUND k 10 sD3 x;
          x = DEC_ROUND k 9 sD2 x; x = DEC_ROUND k 8 sD1 x; x = DEC_ROUND k 7 sD8 x;
          x = DEC_ROUND k 6 sD7 x; x = DEC_ROUND k 5 sD6 x; x = DEC_ROUND k 4 sD5 x;
          x = DEC_ROUND k 3 sD4 x; x = DEC_ROUND k 2 sD3 x; x = DEC_ROUND k 1 sD2 x;
          x = DEC_ROUND k 0 sD1 x
      in serpent_store x)"

section \<open>The specification\<close>

definition serpent_S :: "nat list list" where
  "serpent_S =
    [[3, 8, 15, 1, 10, 6, 5, 11, 14, 13, 4, 2, 7, 0, 9, 12],
     [15, 12, 2, 7, 9, 0, 5, 10, 1, 11, 14, 8, 6, 13, 3, 4],
     [8, 6, 7, 9, 3, 12, 10, 15, 13, 1, 14, 4, 0, 11, 5, 2],
     [0, 15, 11, 8, 12, 9, 6, 3, 13, 1, 2, 4, 10, 7, 5, 14],
     [1, 15, 8, 3, 12, 0, 11, 6, 2, 5, 4, 10, 9, 14, 7, 13],
     [15, 5, 2, 11, 4, 10, 9, 12, 0, 3, 14, 8, 13, 6, 7, 1],
     [7, 2, 12, 5, 8, 4, 6, 11, 14, 9, 1, 15, 13, 3, 10, 0],
     [1, 13, 15, 0, 14, 8, 2, 11, 7, 4, 12, 10, 9, 3, 5, 6]]"

definition nibble :: "nat \<Rightarrow> 'a::len word quad \<Rightarrow> nat" where
  "nibble n = (\<lambda>(a, b, c, d). of_bool (bit a n) + 2 * of_bool (bit b n) + 4 * of_bool (bit c n) + 8 * of_bool (bit d n))"

text \<open>The S-box layer in bitslice form: lane \<open>n\<close> of the result is the table entry at lane \<open>n\<close>.\<close>

definition lanes :: "(nat \<Rightarrow> nat) \<Rightarrow> nat \<Rightarrow> u32" where
  "lanes f j = horner_sum of_bool 2 (map (\<lambda>n. bit (f n) j) [0..<32])"

definition spec_sbox :: "nat \<Rightarrow> u32 quad \<Rightarrow> u32 quad" where
  "spec_sbox s q =
     (let f = (\<lambda>n. serpent_S ! s ! nibble n q) in (lanes f 0, lanes f 1, lanes f 2, lanes f 3))"

fun spec_prekey :: "bytes \<Rightarrow> nat \<Rightarrow> u32" where
  "spec_prekey key i =
     (if i < 8 then le_word (slice (4 * i) 4 key)
      else word_rotl 11 (spec_prekey key (i - 8) XOR spec_prekey key (i - 5) XOR spec_prekey key (i - 3)
             XOR spec_prekey key (i - 1) XOR 0x9e3779b9 XOR of_nat (i - 8)))"

declare spec_prekey.simps [simp del]

definition spec_round_key :: "bytes \<Rightarrow> nat \<Rightarrow> u32 quad" where
  "spec_round_key key i =
     (let w = (\<lambda>j. spec_prekey key (8 + 4 * i + j)) in spec_sbox ((35 - i) mod 8) (w 0, w 1, w 2, w 3))"

definition quad_xor :: "u32 quad \<Rightarrow> u32 quad \<Rightarrow> u32 quad" where
  "quad_xor = (\<lambda>(a, b, c, d) (e, f, g, h). (a XOR e, b XOR f, c XOR g, d XOR h))"

text \<open>
  The linear transformation of the cipher's definition, with the rotation of the word library and its own
  distances.
\<close>

fun spec_LT :: "u32 quad \<Rightarrow> u32 quad" where
  "spec_LT (x0, x1, x2, x3) =
     (let a = word_rotl 13 x0; c = word_rotl 3 x2;
          b = word_rotl 1 (x1 XOR a XOR c); d = word_rotl 7 (x3 XOR c XOR push_bit 3 a)
      in (word_rotl 5 (a XOR b XOR d), b, word_rotl 22 (c XOR d XOR push_bit 7 b), d))"

definition spec_round :: "bytes \<Rightarrow> nat \<Rightarrow> u32 quad \<Rightarrow> u32 quad" where
  "spec_round key i x = spec_LT (spec_sbox (i mod 8) (quad_xor x (spec_round_key key i)))"

definition spec_serpent256 :: "bytes \<Rightarrow> bytes \<Rightarrow> bytes" where
  "spec_serpent256 key inp =
     (let x = fold (spec_round key) [0..<31] (serpent_load inp);
          x = spec_sbox 7 (quad_xor x (spec_round_key key 31))
      in serpent_store (quad_xor x (spec_round_key key 32)))"

section \<open>The S-box circuits, lane by lane\<close>

text \<open>One lane of a register as a one-bit word; every gate commutes with it.\<close>

definition lane :: "nat \<Rightarrow> 'a::len word \<Rightarrow> 1 word" where
  "lane n w = of_bool (bit w n)"

definition lane_quad :: "nat \<Rightarrow> 'a::len word quad \<Rightarrow> 1 word quad" where
  "lane_quad n = (\<lambda>(a, b, c, d). (lane n a, lane n b, lane n c, lane n d))"

lemma neg1_one_bit: "(-1 :: 1 word) = 1"
  by (rule bit_word_eqI) (simp add: bit_simps)

lemma lane_gates:
  "lane n (a XOR b) = lane n a XOR lane n b"
  "lane n (a AND b) = lane n a AND lane n b"
  "lane n (a OR b) = lane n a OR lane n b"
  "n < LENGTH('a) \<Longrightarrow> lane n (NOT a) = NOT (lane n (a :: 'a::len word))"
  by (simp_all add: lane_def bit_simps neg1_one_bit)

lemma one_bit_cases: "w = 0 \<or> w = (1 :: 1 word)"
  by (cases "bit w 0") (auto intro!: bit_word_eqI simp: bit_simps)

lemma lane_sE:
  fixes q :: "'a::len word quad"
  assumes "n < LENGTH('a)"
  shows "lane_quad n (sE1 q) = sE1 (lane_quad n q)" "lane_quad n (sE2 q) = sE2 (lane_quad n q)"
    "lane_quad n (sE3 q) = sE3 (lane_quad n q)" "lane_quad n (sE4 q) = sE4 (lane_quad n q)"
    "lane_quad n (sE5 q) = sE5 (lane_quad n q)" "lane_quad n (sE6 q) = sE6 (lane_quad n q)"
    "lane_quad n (sE7 q) = sE7 (lane_quad n q)" "lane_quad n (sE8 q) = sE8 (lane_quad n q)"
  by (cases q; simp add: lane_quad_def Let_def lane_gates assms)+

lemma lane_sD:
  fixes q :: "'a::len word quad"
  assumes "n < LENGTH('a)"
  shows "lane_quad n (sD1 q) = sD1 (lane_quad n q)" "lane_quad n (sD2 q) = sD2 (lane_quad n q)"
    "lane_quad n (sD3 q) = sD3 (lane_quad n q)" "lane_quad n (sD4 q) = sD4 (lane_quad n q)"
    "lane_quad n (sD5 q) = sD5 (lane_quad n q)" "lane_quad n (sD6 q) = sD6 (lane_quad n q)"
    "lane_quad n (sD7 q) = sD7 (lane_quad n q)" "lane_quad n (sD8 q) = sD8 (lane_quad n q)"
  by (cases q; simp add: lane_quad_def Let_def lane_gates assms)+

text \<open>Two registers agree as soon as all their lanes do; a lane has sixteen values.\<close>

lemma lane_quad_eqI:
  fixes p q :: "'a::len word quad"
  assumes "\<And>n. n < LENGTH('a) \<Longrightarrow> lane_quad n p = lane_quad n q"
  shows "p = q"
proof -
  obtain a b c d where p: "p = (a, b, c, d)" by (cases p)
  obtain e f g h where q: "q = (e, f, g, h)" by (cases q)
  have "(bit a n = bit e n) \<and> (bit b n = bit f n) \<and> (bit c n = bit g n) \<and> (bit d n = bit h n)"
    if "n < LENGTH('a)" for n
    using assms [OF that] by (simp add: p q lane_quad_def lane_def of_bool_def split: if_splits)
  then show ?thesis
    by (auto simp: p q intro!: bit_word_eqI)
qed

lemma one_bit_quad_cases:
  fixes q :: "1 word quad"
  assumes "\<And>a b c d. a \<in> {0, 1} \<Longrightarrow> b \<in> {0, 1} \<Longrightarrow> c \<in> {0, 1} \<Longrightarrow> d \<in> {0, 1} \<Longrightarrow> P (a, b, c, d)"
  shows "P q"
  using assms one_bit_cases by (cases q) auto

lemma sD_sE_bit:
  fixes q :: "1 word quad"
  shows "sD1 (sE1 q) = q" "sD2 (sE2 q) = q" "sD3 (sE3 q) = q" "sD4 (sE4 q) = q"
    "sD5 (sE5 q) = q" "sD6 (sE6 q) = q" "sD7 (sE7 q) = q" "sD8 (sE8 q) = q"
  by (rule one_bit_quad_cases; elim insertE emptyE; simp add: neg1_one_bit)+

lemma sE_sD_bit:
  fixes q :: "1 word quad"
  shows "sE1 (sD1 q) = q" "sE2 (sD2 q) = q" "sE3 (sD3 q) = q" "sE4 (sD4 q) = q"
    "sE5 (sD5 q) = q" "sE6 (sD6 q) = q" "sE7 (sD7 q) = q" "sE8 (sD8 q) = q"
  by (rule one_bit_quad_cases; elim insertE emptyE; simp add: neg1_one_bit)+

lemma sD_sE [simp]:
  fixes q :: "'a::len word quad"
  shows "sD1 (sE1 q) = q" "sD2 (sE2 q) = q" "sD3 (sE3 q) = q" "sD4 (sE4 q) = q"
    "sD5 (sE5 q) = q" "sD6 (sE6 q) = q" "sD7 (sE7 q) = q" "sD8 (sE8 q) = q"
  by (rule lane_quad_eqI; simp add: lane_sE lane_sD sD_sE_bit)+

lemma sE_sD [simp]:
  fixes q :: "'a::len word quad"
  shows "sE1 (sD1 q) = q" "sE2 (sD2 q) = q" "sE3 (sD3 q) = q" "sE4 (sD4 q) = q"
    "sE5 (sD5 q) = q" "sE6 (sD6 q) = q" "sE7 (sD7 q) = q" "sE8 (sD8 q) = q"
  by (rule lane_quad_eqI; simp add: lane_sE lane_sD sE_sD_bit)+

lemma nibble_lane: "nibble n q = nibble 0 (lane_quad n q)"
  by (cases q) (simp add: nibble_def lane_quad_def lane_def)

lemma nibble_quad:
  "nibble n (a, b, c, d) = of_bool (bit a n) + 2 * of_bool (bit b n) + 4 * of_bool (bit c n) + 8 * of_bool (bit d n)"
  by (simp add: nibble_def)

lemma nibble_less: "nibble n q < 16"
  by (cases q) (simp add: nibble_def of_bool_def)

lemma sE_table_bit:
  fixes q :: "1 word quad"
  shows "nibble 0 (sE1 q) = serpent_S ! 0 ! nibble 0 q" "nibble 0 (sE2 q) = serpent_S ! 1 ! nibble 0 q"
    "nibble 0 (sE3 q) = serpent_S ! 2 ! nibble 0 q" "nibble 0 (sE4 q) = serpent_S ! 3 ! nibble 0 q"
    "nibble 0 (sE5 q) = serpent_S ! 4 ! nibble 0 q" "nibble 0 (sE6 q) = serpent_S ! 5 ! nibble 0 q"
    "nibble 0 (sE7 q) = serpent_S ! 6 ! nibble 0 q" "nibble 0 (sE8 q) = serpent_S ! 7 ! nibble 0 q"
  by (rule one_bit_quad_cases; elim insertE emptyE; simp add: neg1_one_bit nibble_def serpent_S_def)+

lemma sE_table:
  fixes q :: "'a::len word quad"
  assumes "n < LENGTH('a)"
  shows "nibble n (sE1 q) = serpent_S ! 0 ! nibble n q" "nibble n (sE2 q) = serpent_S ! 1 ! nibble n q"
    "nibble n (sE3 q) = serpent_S ! 2 ! nibble n q" "nibble n (sE4 q) = serpent_S ! 3 ! nibble n q"
    "nibble n (sE5 q) = serpent_S ! 4 ! nibble n q" "nibble n (sE6 q) = serpent_S ! 5 ! nibble n q"
    "nibble n (sE7 q) = serpent_S ! 6 ! nibble n q" "nibble n (sE8 q) = serpent_S ! 7 ! nibble n q"
  using assms by (simp_all only: nibble_lane [of n] lane_sE sE_table_bit)

lemma nibble_inj:
  fixes a b c d e f g h :: bool
  assumes "of_bool a + 2 * of_bool b + 4 * of_bool c + 8 * of_bool d =
    (of_bool e + 2 * of_bool f + 4 * of_bool g + 8 * of_bool h :: nat)"
  shows "a = e" "b = f" "c = g" "d = h"
  using assms by (cases a; cases b; cases c; cases d; cases e; cases f; cases g; cases h; simp)+

lemma nibble_bits:
  assumes "nibble n p = nibble n q"
  shows "lane_quad n p = lane_quad n q"
proof -
  obtain a b c d where p: "p = (a, b, c, d)" by (cases p)
  obtain e f g h where q: "q = (e, f, g, h)" by (cases q)
  note eqs = nibble_inj [OF assms [unfolded p q nibble_def prod.case]]
  show ?thesis
    by (simp only: p q lane_quad_def lane_def prod.case eqs)
qed

lemma nibble_eqI:
  fixes p q :: "'a::len word quad"
  assumes "\<And>n. n < LENGTH('a) \<Longrightarrow> nibble n p = nibble n q"
  shows "p = q"
  by (rule lane_quad_eqI, rule nibble_bits, rule assms)

lemma bit_lanes: "n < 32 \<Longrightarrow> bit (lanes f j) n = bit (f n) j"
  by (simp add: lanes_def bit_horner_sum_bit_iff)

lemma bits4:
  assumes "m < 16"
  shows "of_bool (bit m 0) + 2 * of_bool (bit m 1) + 4 * of_bool (bit m 2) + 8 * of_bool (bit m 3) = (m :: nat)"
proof -
  have "take_bit 4 m = m" using assms by (simp add: take_bit_nat_eq_self)
  moreover have "take_bit 4 m = horner_sum of_bool 2 (map (bit m) [0..<4])"
    by (rule horner_sum_bit_eq_take_bit [symmetric])
  moreover have "[0..<4] = [0, 1, 2, 3 :: nat]"
    by (simp add: upt_conv_Cons)
  ultimately have "of_bool (bit m 0) + 2 * (of_bool (bit m 1) + 2 * (of_bool (bit m 2) + 2 * (of_bool (bit m 3) + 2 * 0))) = m"
    by (simp only: list.map horner_sum_simps)
  moreover have "a + 2 * (b + 2 * (c + 2 * (d + 2 * 0))) = a + 2 * b + 4 * c + 8 * d" for a b c d :: nat
    by simp
  ultimately show ?thesis by (simp only:)
qed

lemma serpent_S_entries: "\<forall>S \<in> set serpent_S. length S = 16 \<and> (\<forall>v \<in> set S. v < 16)"
  by (simp add: serpent_S_def)

lemma map_serpent_S: "map f serpent_S = map (\<lambda>i. f (serpent_S ! i)) [0, 1, 2, 3, 4, 5, 6, 7]"
  by (simp add: serpent_S_def)

lemma nibble_spec_sbox:
  assumes "s < 8" "n < 32"
  shows "nibble n (spec_sbox s q) = serpent_S ! s ! nibble n q"
proof -
  have "length serpent_S = 8" by (simp add: serpent_S_def)
  then have "serpent_S ! s ! nibble n q < 16"
    using serpent_S_entries assms(1) nibble_less [of n q] by (metis nth_mem)
  then show ?thesis
    using assms(2) by (simp only: spec_sbox_def Let_def nibble_quad bit_lanes bits4)
qed

lemma spec_sbox_sE:
  "spec_sbox 0 = sE1" "spec_sbox 1 = sE2" "spec_sbox 2 = sE3" "spec_sbox 3 = sE4"
  "spec_sbox 4 = sE5" "spec_sbox 5 = sE6" "spec_sbox 6 = sE7" "spec_sbox 7 = sE8"
  by (rule ext, rule nibble_eqI, simp add: nibble_spec_sbox sE_table)+

section \<open>Rounds\<close>

lemma rol_inverse: "n \<le> 32 \<Longrightarrow> m = 32 - n \<Longrightarrow> rol m (rol n (w :: u32)) = w"
  using rol_eq_ror [of m "rol n w"] by simp

lemma rol_rotl: "n < 32 \<Longrightarrow> rol n (w :: u32) = word_rotl n w"
  by (rule bit_word_eqI) (auto simp: bit_rol bit_word_rotl_iff mod_if)

lemma SB_LT_spec: "SB_LT q = spec_LT q"
  by (cases q) (simp add: Let_def rol_rotl ac_simps)

lemma ILT_LT [simp]: "SB_ILT (SB_LT q) = q"
  by (cases q) (simp add: Let_def rol_inverse ac_simps)

lemma LT_ILT [simp]: "SB_LT (SB_ILT q) = q"
  by (cases q) (simp add: Let_def rol_inverse ac_simps)

lemma KX_KX [simp]: "KX k r (KX k r q) = q"
  by (cases q) (simp add: KX_def)

declare SB_LT.simps [simp del] SB_ILT.simps [simp del] spec_LT.simps [simp del]
declare sE1.simps [simp del] sE2.simps [simp del] sE3.simps [simp del] sE4.simps [simp del]
  sE5.simps [simp del] sE6.simps [simp del] sE7.simps [simp del] sE8.simps [simp del]
declare sD1.simps [simp del] sD2.simps [simp del] sD3.simps [simp del] sD4.simps [simp del]
  sD5.simps [simp del] sD6.simps [simp del] sD7.simps [simp del] sD8.simps [simp del]

lemma load_store [simp]: "serpent_load (serpent_store q) = q"
  by (cases q) (simp add: serpent_load_def serpent_store_def slice_def le_word_le_bytes)

lemma store_load [simp]: "length p = 16 \<Longrightarrow> serpent_store (serpent_load p) = p"
  using take_drop_split [of 4 8 p] take_drop_split [of 4 4 p] append_take_drop_id [of 4 p]
  by (simp add: serpent_load_def serpent_store_def slice_def le_bytes_le_word)

lemma length_serpent_store [simp]: "length (serpent_store q) = 16"
  by (cases q) (simp add: serpent_store_def)

lemma serpent256_decrypt_encrypt:
  "length p = 16 \<Longrightarrow> serpent256_decrypt k (serpent256_encrypt k p) = p"
  by (simp add: serpent256_decrypt_def serpent256_encrypt_def Let_def ENC_ROUND_def DEC_ROUND_def)

lemma serpent256_encrypt_decrypt:
  "length p = 16 \<Longrightarrow> serpent256_encrypt k (serpent256_decrypt k p) = p"
  by (simp add: serpent256_decrypt_def serpent256_encrypt_def Let_def ENC_ROUND_def DEC_ROUND_def)

section \<open>The key schedule is the specified one\<close>

lemma prekey_fold:
  "fold prekey_step [0..<n] (map (\<lambda>i. le_word (slice (4 * i) 4 key)) [0..<8]) = map (spec_prekey key) [0..<8 + n]"
proof (induction n)
  case 0
  show ?case by (simp add: spec_prekey.simps)
next
  case (Suc n)
  have "spec_prekey key (8 + n) = rol 11 (spec_prekey key n XOR spec_prekey key (n + 3)
      XOR spec_prekey key (n + 5) XOR spec_prekey key (n + 7) XOR PHI XOR of_nat n)"
    by (subst spec_prekey.simps) (simp add: add.commute rol_rotl PHI_def)
  then have "prekey_step n (map (spec_prekey key) [0..<8 + n]) = map (spec_prekey key) [0..<8 + Suc n]"
    by (simp only: prekey_step_def add_Suc_right upt_Suc_append [OF le0] map_append list.map) simp
  then show ?case
    using Suc.IH by simp
qed

lemma serpent_prekey_eq: "serpent_prekey key = map (spec_prekey key) [0..<140]"
  using prekey_fold [of 132 key]
  by (simp add: serpent_prekey_def SERPENT_EXPKEY_WORDS_def)

lemma serpent_key_sbox_eq: "i < 33 \<Longrightarrow> serpent_key_sbox i = spec_sbox ((35 - i) mod 8)"
proof -
  have "\<forall>i \<in> set [0..<33]. serpent_key_sbox i = spec_sbox ((35 - i) mod 8)"
    by (simp add: upt_conv_Cons serpent_key_sbox_def spec_sbox_sE del: One_nat_def)
  then show "i < 33 \<Longrightarrow> ?thesis" by simp
qed

lemma nth_concat_quads:
  "i < n \<Longrightarrow> j < 4 \<Longrightarrow> concat (map (\<lambda>i. quad_list (f i)) [0..<n]) ! (4 * i + j) = quad_list (f i) ! j"
proof (induction n)
  case (Suc n)
  have len: "length (quad_list q) = 4" for q :: "'b quad" by (cases q) (simp add: quad_list_def)
  have "length (concat (map (\<lambda>i. quad_list (f i)) [0..<n])) = 4 * n"
    by (simp add: length_concat comp_def len sum_list_triv)
  with Suc show ?case
    by (cases "i = n") (auto simp: nth_append)
qed simp

lemma serpent256_set_key_eq:
  "serpent256_set_key key = concat (map (\<lambda>i. quad_list (spec_round_key key i)) [0..<33])"
proof -
  have "map (\<lambda>i. quad_list (serpent_key_sbox i (serpent_prekey key ! (8 + i * 4 + 0), serpent_prekey key ! (8 + i * 4 + 1),
          serpent_prekey key ! (8 + i * 4 + 2), serpent_prekey key ! (8 + i * 4 + 3)))) [0..<33]
      = map (\<lambda>i. quad_list (spec_round_key key i)) [0..<33]"
    by (simp add: serpent_prekey_eq spec_round_key_def Let_def serpent_key_sbox_eq mult.commute)
  moreover have "132 div 4 = (33 :: nat)" by simp
  ultimately show ?thesis
    by (simp only: serpent256_set_key_def SERPENT_EXPKEY_WORDS_def Let_def)
qed

lemma KX_set_key:
  assumes "r < 33"
  shows "KX (serpent256_set_key key) r q = quad_xor q (spec_round_key key r)"
proof -
  have "serpent256_set_key key ! (4 * r + j) = quad_list (spec_round_key key r) ! j" if "j < 4" for j
    unfolding serpent256_set_key_eq using assms that by (rule nth_concat_quads)
  from this [of 0] this [of 1] this [of 2] this [of 3] show ?thesis
    by (cases q; cases "spec_round_key key r") (simp add: KX_def quad_xor_def quad_list_def numeral_3_eq_3)
qed

lemma serpent256_encrypt_eq: "serpent256_encrypt (serpent256_set_key key) inp = spec_serpent256 key inp"
proof -
  have "[0..<31] = [0, 1, 2, 3, 4, 5, 6, 7, 8, 9, 10, 11, 12, 13, 14, 15, 16, 17, 18, 19, 20, 21, 22, 23, 24,
      25, 26, 27, 28, 29, 30 :: nat]"
    by (simp add: upt_conv_Cons)
  then show ?thesis
    by (simp add: serpent256_encrypt_def spec_serpent256_def ENC_ROUND_def Let_def KX_set_key spec_round_def
        spec_sbox_sE SB_LT_spec del: One_nat_def)
qed

interpretation serpent: block_permutation "\<lambda>_. True" serpent256_encrypt serpent256_decrypt
  by unfold_locales
    (simp_all add: serpent256_decrypt_encrypt serpent256_encrypt_decrypt, simp_all add: serpent256_encrypt_def serpent256_decrypt_def Let_def)

section \<open>Properties\<close>

text \<open>
  The eight forward gate sequences compute the eight S-box tables of Serpent: in every bit lane of
  registers of any width, the nibble formed by the four output bits is the table entry selected by the
  nibble of the four input bits.
\<close>

theorem serpent_sboxes_compute_tables:
  fixes q :: "'a::len word quad"
  assumes "n < LENGTH('a)"
  shows "map (\<lambda>sb. nibble n (sb q)) [sE1, sE2, sE3, sE4, sE5, sE6, sE7, sE8] = map (\<lambda>S. S ! nibble n q) serpent_S"
proof -
  have "map (\<lambda>S. S ! nibble n q) serpent_S = map (\<lambda>i. serpent_S ! i ! nibble n q) [0, 1, 2, 3, 4, 5, 6, 7]"
    by (rule map_serpent_S)
  then show ?thesis
    by (simp only: list.map sE_table [OF assms])
qed

theorem serpent_sboxes_compute_tables_witness:
  "map (\<lambda>sb. nibble 31 (sb (0x80000000 :: u32, 0, 0x80000001, 0))) [sE1, sE2, sE3, sE4, sE5, sE6, sE7, sE8]
     = [6, 0, 12, 9, 0, 10, 4, 8]"
proof -
  have "nibble 31 (0x80000000 :: u32, 0, 0x80000001, 0) = 5"
    by (simp add: nibble_def bit_numeral_rec)
  then show ?thesis
    by (subst serpent_sboxes_compute_tables) (simp_all add: serpent_S_def)
qed

text \<open>
  C31 (equivalence): Serpent-256 as coded is Serpent-256 as specified: the expanded key laid out in an array of 132
  words and the 32 unrolled gate-level rounds give, for every key and every block, the value of the
  iterated specification with table S-boxes, its own linear transformation and recursively defined prekeys.
\<close>

theorem serpent256_encrypt_correct:
  "serpent256_encrypt (serpent256_set_key key) inp = spec_serpent256 key inp"
  by (rule serpent256_encrypt_eq)

text \<open>
  Serpent decryption and encryption are inverse to each other on every 16-byte block, for every
  expanded key.
\<close>

theorem serpent256_roundtrip:
  assumes "length b = 16"
  shows "serpent256_decrypt k (serpent256_encrypt k b) = b \<and> serpent256_encrypt k (serpent256_decrypt k b) = b"
  using assms by (simp add: serpent.dec_enc serpent.enc_dec)

theorem serpent256_roundtrip_witness:
  "serpent256_decrypt (serpent256_set_key (replicate 32 7)) (serpent256_encrypt (serpent256_set_key (replicate 32 7)) (replicate 16 0xAA))
     = replicate 16 0xAA"
  using serpent256_roundtrip [of "replicate 16 0xAA" "serpent256_set_key (replicate 32 7)"] by simp

end
