(* ===== verification/Gf256.thy ===== *)
theory Gf256
  imports Prelude
begin

text \<open>
  The fields \<open>GF(2^8)\<close> behind the tables and matrices of Twofish (\<^verbatim>\<open>twofish.c\<close>: polynomials 0x14D and
  0x169) and AES (\<^verbatim>\<open>aes_key.c\<close>: 0x11B).  This is the reference arithmetic: \<open>gf_mul p a b\<close> is the sum
  of the multiples \<open>x^n * a\<close> over the bits \<open>n\<close> of \<open>b\<close>, \<open>p\<close> being the low byte of the reduction
  polynomial.  The shift-and-add loops of the two C files are shown equal to it in their own theories.
\<close>

unbundle bit_operations_syntax

definition gf_xtime :: "u8 \<Rightarrow> u8 \<Rightarrow> u8" where
  "gf_xtime p w = push_bit 1 w XOR (if bit w 7 then p else 0)"

primrec gf_sum :: "nat \<Rightarrow> u8 \<Rightarrow> u8 \<Rightarrow> u8 \<Rightarrow> u8" where
  "gf_sum 0 p a b = 0"
| "gf_sum (Suc n) p a b = gf_sum n p a b XOR (if bit b n then (gf_xtime p ^^ n) a else 0)"

definition gf_mul :: "u8 \<Rightarrow> u8 \<Rightarrow> u8 \<Rightarrow> u8" where
  "gf_mul p a b = gf_sum 8 p a b"

lemma push_bit_xor_word: "push_bit n (a XOR b) = push_bit n a XOR push_bit n (b :: 'a::len word)"
  by (rule bit_word_eqI) (auto simp: bit_simps)

lemma gf_xtime_xor [xor_linear]: "gf_xtime p (a XOR b) = gf_xtime p a XOR gf_xtime p b"
  by (rule bit_word_eqI) (auto simp: gf_xtime_def bit_simps)

lemma gf_xtime_pow_xor: "(gf_xtime p ^^ n) (a XOR b) = (gf_xtime p ^^ n) a XOR (gf_xtime p ^^ n) b"
  by (induction n) (simp_all add: gf_xtime_xor)

lemma gf_sum_xor_left: "gf_sum n p (a XOR b) c = gf_sum n p a c XOR gf_sum n p b c"
  by (induction n) (simp_all add: gf_xtime_pow_xor ac_simps)

lemma gf_sum_xor_right: "gf_sum n p a (b XOR c) = gf_sum n p a b XOR gf_sum n p a c"
  by (induction n) (simp_all add: bit_simps ac_simps)

lemma gf_mul_xor_left [xor_linear]: "gf_mul p (a XOR b) c = gf_mul p a c XOR gf_mul p b c"
  by (simp add: gf_mul_def gf_sum_xor_left)

lemma gf_mul_xor_right [xor_linear]: "gf_mul p a (b XOR c) = gf_mul p a b XOR gf_mul p a c"
  by (simp add: gf_mul_def gf_sum_xor_right)

lemma gf_sum_zero_right [simp]: "gf_sum n p a 0 = 0"
  by (induction n) simp_all

lemma gf_mul_zero_right [simp]: "gf_mul p a 0 = 0"
  by (simp add: gf_mul_def)

lemma gf_sum_shift:
  "gf_sum (Suc n) p a b = (if bit b 0 then a else 0) XOR gf_sum n p (gf_xtime p a) (drop_bit 1 b)"
proof (induction n)
  case (Suc n)
  have "gf_sum (Suc (Suc n)) p a b = gf_sum (Suc n) p a b XOR (if bit b (Suc n) then (gf_xtime p ^^ Suc n) a else 0)"
    by simp
  also have "\<dots> = (if bit b 0 then a else 0) XOR (gf_sum n p (gf_xtime p a) (drop_bit 1 b)
      XOR (if bit b (Suc n) then (gf_xtime p ^^ Suc n) a else 0))"
    by (simp only: Suc.IH ac_simps)
  also have "\<dots> = (if bit b 0 then a else 0) XOR gf_sum (Suc n) p (gf_xtime p a) (drop_bit 1 b)"
    by (simp add: funpow_swap1 bit_simps)
  finally show ?case .
qed simp

text \<open>The recursion of a shift-and-add loop: one step consumes the lowest bit of the second factor.\<close>

lemma gf_mul_step: "gf_mul p a b = (if bit b 0 then a else 0) XOR gf_mul p (gf_xtime p a) (drop_bit 1 b)"
proof -
  have "\<not> bit (drop_bit 1 b) 7" using bit_imp_le_length [of b 8] by (auto simp: bit_simps)
  moreover have "gf_sum (Suc 7) p (gf_xtime p a) (drop_bit 1 b) = gf_sum 7 p (gf_xtime p a) (drop_bit 1 b)
      XOR (if bit (drop_bit 1 b) 7 then (gf_xtime p ^^ 7) (gf_xtime p a) else 0)"
    by (rule gf_sum.simps)
  ultimately have "gf_sum (Suc 7) p (gf_xtime p a) (drop_bit 1 b) = gf_sum 7 p (gf_xtime p a) (drop_bit 1 b)"
    by (simp only: if_False xor.right_neutral)
  with gf_sum_shift [of 7 p a b] show ?thesis
    by (simp add: gf_mul_def)
qed

lemma gf_mul_exp: "k < 8 \<Longrightarrow> gf_mul p a (2 ^ k) = (gf_xtime p ^^ k) a"
proof -
  assume k: "k < 8"
  have "gf_sum n p a (2 ^ k) = (if k < n then (gf_xtime p ^^ k) a else 0)" if "n \<le> 8" for n
    using that k by (induction n) (auto simp: bit_exp_iff less_Suc_eq)
  then show "gf_mul p a (2 ^ k) = (gf_xtime p ^^ k) a"
    using k by (simp add: gf_mul_def)
qed

lemma unat_drop_bit_1_less: "b \<noteq> 0 \<Longrightarrow> unat (drop_bit 1 b) < unat (b :: 'a::len word)"
proof -
  assume "b \<noteq> 0"
  then have "0 < unat b" by (simp add: unat_gt_0)
  moreover have "unat (drop_bit 1 b) = unat b div 2"
    by (simp only: unat_drop_bit_eq) (simp add: drop_bit_eq_div)
  ultimately show ?thesis by simp
qed

end
