(* ===== verification/Twofish.thy ===== *)
theory Twofish
  imports Cipher TwofishTables
begin

text \<open>
  Twofish-256 (\<^verbatim>\<open>DCrypt/crypto_lib/twofish.c\<close>) over the tables of the previous theory: the
  Reed-Solomon key digest, the key schedule with its key-dependent S-boxes folded into the MDS tables,
  and the unrolled Feistel network.  The specification has its own q permutations, MDS product and key words;
  it shares the Reed-Solomon matrix with the code.  The theory shows that the folded round function computes the specified one and the unrolled network the
  iterated one, and that decryption inverts encryption.
\<close>

unbundle bit_operations_syntax

section \<open>Constants\<close>

definition RS :: "u8 list list" where
  "RS =
    [[0x01, 0xA4, 0x55, 0x87, 0x5A, 0x58, 0xDB, 0x9E],
     [0xA4, 0x56, 0x82, 0xF3, 0x1E, 0xC6, 0x68, 0xE5],
     [0x02, 0xA1, 0xFC, 0xC1, 0x47, 0xAE, 0x3D, 0x19],
     [0xA4, 0x55, 0x87, 0x5A, 0x58, 0xDB, 0x9E, 0x03]]"

definition RS_POLY :: u32 where
  "RS_POLY = 0x14D"

definition BYTE :: "u32 \<Rightarrow> nat \<Rightarrow> u8" where
  "BYTE x n = ucast (drop_bit (8 * n) x)"

section \<open>Key schedule\<close>

function gf_mul_rs_loop :: "u32 \<Rightarrow> u32 \<Rightarrow> u32 \<Rightarrow> u32" where
  "gf_mul_rs_loop a b r =
     (if b = 0 then r
      else let r = (if b AND 1 \<noteq> 0 then r XOR a else r);
               b = drop_bit 1 b;
               a = push_bit 1 a;
               a = (if a AND 0x100 \<noteq> 0 then a XOR RS_POLY else a)
           in gf_mul_rs_loop a b r)"
  by pat_completeness auto

termination
  by (relation "measure (\<lambda>(a, b, r). unat b)") (simp_all only: in_measure wf_measure prod.case unat_drop_bit_1_less not_False_eq_True)

declare gf_mul_rs_loop.simps [simp del]

definition gf_mul_rs :: "u32 \<Rightarrow> u32 \<Rightarrow> u8" where
  "gf_mul_rs a b = ucast (gf_mul_rs_loop a b 0 AND 0xFF)"

text \<open>The four byte lanes of \<^verbatim>\<open>h_k4\<close>; the loop filling the S-boxes in \<^verbatim>\<open>twofish256_set_key\<close> repeats them.\<close>

definition h_lanes :: "u32 list \<Rightarrow> u8 \<times> u8 \<times> u8 \<times> u8 \<Rightarrow> u8 \<times> u8 \<times> u8 \<times> u8" where
  "h_lanes L = (\<lambda>(y0, y1, y2, y3).
     (let y0 = q1 ! unat y0 XOR BYTE (L ! 3) 0;
          y1 = q0 ! unat y1 XOR BYTE (L ! 3) 1;
          y2 = q0 ! unat y2 XOR BYTE (L ! 3) 2;
          y3 = q1 ! unat y3 XOR BYTE (L ! 3) 3;
          y0 = q1 ! unat y0 XOR BYTE (L ! 2) 0;
          y1 = q1 ! unat y1 XOR BYTE (L ! 2) 1;
          y2 = q0 ! unat y2 XOR BYTE (L ! 2) 2;
          y3 = q0 ! unat y3 XOR BYTE (L ! 2) 3;
          y0 = q1 ! unat (q0 ! unat (q0 ! unat y0 XOR BYTE (L ! 1) 0) XOR BYTE (L ! 0) 0);
          y1 = q0 ! unat (q0 ! unat (q1 ! unat y1 XOR BYTE (L ! 1) 1) XOR BYTE (L ! 0) 1);
          y2 = q1 ! unat (q1 ! unat (q0 ! unat y2 XOR BYTE (L ! 1) 2) XOR BYTE (L ! 0) 2);
          y3 = q0 ! unat (q1 ! unat (q1 ! unat y3 XOR BYTE (L ! 1) 3) XOR BYTE (L ! 0) 3)
      in (y0, y1, y2, y3)))"

definition h_k4 :: "u32 \<Rightarrow> u32 list \<Rightarrow> u32" where
  "h_k4 x L =
     (case h_lanes L (BYTE x 0, BYTE x 1, BYTE x 2, BYTE x 3) of
        (y0, y1, y2, y3) \<Rightarrow> mds0 ! unat y0 XOR mds1 ! unat y1 XOR mds2 ! unat y2 XOR mds3 ! unat y3)"

record twofish256_key =
  tf_s :: "u32 list list"
  tf_w :: "u32 list"
  tf_k :: "u32 list"

text \<open>Word \<open>S\<^sub>i\<close> of the S-box key material: the Reed-Solomon digest of key bytes \<open>8 * i\<close> to \<open>8 * i + 7\<close>.\<close>

definition twofish_rs :: "bytes \<Rightarrow> nat \<Rightarrow> u32" where
  "twofish_rs key i =
     fold (\<lambda>r s. s OR push_bit (8 * r) (ucast
         (fold (\<lambda>j acc. acc XOR gf_mul_rs (ucast (RS ! r ! j)) (ucast (key ! (i * 8 + j)))) [0..<8] (0 :: u8))))
       [0..<4] 0"

definition twofish_sv :: "bytes \<Rightarrow> u32 list" where
  "twofish_sv key = fold (\<lambda>i Sv. Sv[3 - i := twofish_rs key i]) [0..<4] (replicate 4 0)"

definition twofish_sboxes :: "u32 list \<Rightarrow> u32 list list" where
  "twofish_sboxes Sv =
     (let y = map (\<lambda>i. h_lanes Sv (of_nat i, of_nat i, of_nat i, of_nat i)) [0..<256]
      in [map (\<lambda>(y0, y1, y2, y3). mds0 ! unat y0) y, map (\<lambda>(y0, y1, y2, y3). mds1 ! unat y1) y,
          map (\<lambda>(y0, y1, y2, y3). mds2 ! unat y2) y, map (\<lambda>(y0, y1, y2, y3). mds3 ! unat y3) y])"

definition twofish_subkey_pair :: "u32 list \<Rightarrow> u32 list \<Rightarrow> nat \<Rightarrow> u32 list" where
  "twofish_subkey_pair Me Mo i =
     (let a = h_k4 (0x01010101 * of_nat (2 * i)) Me;
          b = rol 8 (h_k4 (0x01010101 * of_nat (2 * i + 1)) Mo)
      in [a + b, rol 9 (a + 2 * b)])"

definition twofish256_set_key :: "bytes \<Rightarrow> twofish256_key" where
  "twofish256_set_key key =
     (let M = map (\<lambda>i. le_word (slice (i * 4) 4 key)) [0..<8];
          Me = map (\<lambda>i. M ! (i * 2)) [0..<4];
          Mo = map (\<lambda>i. M ! (i * 2 + 1)) [0..<4];
          Sv = twofish_sv key
      in \<lparr>tf_s = twofish_sboxes Sv,
          tf_w = concat (map (twofish_subkey_pair Me Mo) [0..<4]),
          tf_k = concat (map (twofish_subkey_pair Me Mo) [4..<20])\<rparr>)"

section \<open>Block transforms\<close>

definition G1 :: "u32 list list \<Rightarrow> u32 \<Rightarrow> u32" where
  "G1 s x = s ! 0 ! unat (BYTE x 0) XOR s ! 1 ! unat (BYTE x 1) XOR s ! 2 ! unat (BYTE x 2) XOR s ! 3 ! unat (BYTE x 3)"

definition G2 :: "u32 list list \<Rightarrow> u32 \<Rightarrow> u32" where
  "G2 s x = s ! 0 ! unat (BYTE x 3) XOR s ! 1 ! unat (BYTE x 0) XOR s ! 2 ! unat (BYTE x 1) XOR s ! 3 ! unat (BYTE x 2)"

text \<open>The round macros read the pair \<open>(a, b)\<close> and update the pair \<open>(c, d)\<close>.\<close>

definition TF_ENC_ROUND :: "twofish256_key \<Rightarrow> nat \<Rightarrow> u32 \<times> u32 \<Rightarrow> u32 \<times> u32 \<Rightarrow> u32 \<times> u32" where
  "TF_ENC_ROUND key n = (\<lambda>(a, b) (c, d).
     (let x = G1 (tf_s key) a;
          y = G2 (tf_s key) b;
          x = x + y;
          y = y + (x + tf_k key ! (2 * n + 1));
          x = x + tf_k key ! (2 * n);
          c = c XOR x;
          c = ror 1 c;
          d = rol 1 d;
          d = d XOR y
      in (c, d)))"

definition TF_DEC_ROUND :: "twofish256_key \<Rightarrow> nat \<Rightarrow> u32 \<times> u32 \<Rightarrow> u32 \<times> u32 \<Rightarrow> u32 \<times> u32" where
  "TF_DEC_ROUND key n = (\<lambda>(a, b) (c, d).
     (let x = G1 (tf_s key) a;
          y = G2 (tf_s key) b;
          x = x + y;
          y = y + (x + tf_k key ! (2 * n + 1));
          x = x + tf_k key ! (2 * n);
          d = d XOR y;
          d = ror 1 d;
          c = rol 1 c;
          c = c XOR x
      in (c, d)))"

text \<open>One line of the unrolled network: round \<open>n\<close> updates \<open>(c, d)\<close>, round \<open>n + 1\<close> updates \<open>(a, b)\<close>;
  decryption runs the two in the opposite order.\<close>

definition TF_ENC_PAIR :: "twofish256_key \<Rightarrow> nat \<Rightarrow> (u32 \<times> u32) \<times> (u32 \<times> u32) \<Rightarrow> (u32 \<times> u32) \<times> (u32 \<times> u32)" where
  "TF_ENC_PAIR key n = (\<lambda>(ab, cd).
     (let cd = TF_ENC_ROUND key n ab cd; ab = TF_ENC_ROUND key (n + 1) cd ab in (ab, cd)))"

definition TF_DEC_PAIR :: "twofish256_key \<Rightarrow> nat \<Rightarrow> (u32 \<times> u32) \<times> (u32 \<times> u32) \<Rightarrow> (u32 \<times> u32) \<times> (u32 \<times> u32)" where
  "TF_DEC_PAIR key n = (\<lambda>(ab, cd).
     (let ab = TF_DEC_ROUND key (n + 1) cd ab; cd = TF_DEC_ROUND key n ab cd in (ab, cd)))"

definition twofish_load :: "bytes \<Rightarrow> nat \<Rightarrow> u32" where
  "twofish_load p i = le_word (slice (4 * i) 4 p)"

definition twofish256_encrypt :: "twofish256_key \<Rightarrow> bytes \<Rightarrow> bytes" where
  "twofish256_encrypt key inp =
     (let w = tf_w key;
          a = twofish_load inp 0 XOR w ! 0;
          b = twofish_load inp 1 XOR w ! 1;
          c = twofish_load inp 2 XOR w ! 2;
          d = twofish_load inp 3 XOR w ! 3;
          st = ((a, b), (c, d));
          st = TF_ENC_PAIR key 0 st; st = TF_ENC_PAIR key 2 st; st = TF_ENC_PAIR key 4 st;
          st = TF_ENC_PAIR key 6 st; st = TF_ENC_PAIR key 8 st; st = TF_ENC_PAIR key 10 st;
          st = TF_ENC_PAIR key 12 st; st = TF_ENC_PAIR key 14 st
      in case st of ((a, b), (c, d)) \<Rightarrow>
           le_bytes 4 (c XOR w ! 4) @ le_bytes 4 (d XOR w ! 5) @ le_bytes 4 (a XOR w ! 6) @ le_bytes 4 (b XOR w ! 7))"

definition twofish256_decrypt :: "twofish256_key \<Rightarrow> bytes \<Rightarrow> bytes" where
  "twofish256_decrypt key inp =
     (let w = tf_w key;
          c = twofish_load inp 0 XOR w ! 4;
          d = twofish_load inp 1 XOR w ! 5;
          a = twofish_load inp 2 XOR w ! 6;
          b = twofish_load inp 3 XOR w ! 7;
          st = ((a, b), (c, d));
          st = TF_DEC_PAIR key 14 st; st = TF_DEC_PAIR key 12 st; st = TF_DEC_PAIR key 10 st;
          st = TF_DEC_PAIR key 8 st; st = TF_DEC_PAIR key 6 st; st = TF_DEC_PAIR key 4 st;
          st = TF_DEC_PAIR key 2 st; st = TF_DEC_PAIR key 0 st
      in case st of ((a, b), (c, d)) \<Rightarrow>
           le_bytes 4 (a XOR w ! 0) @ le_bytes 4 (b XOR w ! 1) @ le_bytes 4 (c XOR w ! 2) @ le_bytes 4 (d XOR w ! 3))"

section \<open>The specification\<close>

definition spec_h :: "u32 \<Rightarrow> u32 list \<Rightarrow> u32" where
  "spec_h x L =
     (let l = (\<lambda>i j. BYTE (L ! i) j);
          y0 = spec_q1 (spec_q0 (spec_q0 (spec_q1 (spec_q1 (BYTE x 0) XOR l 3 0) XOR l 2 0) XOR l 1 0) XOR l 0 0);
          y1 = spec_q0 (spec_q0 (spec_q1 (spec_q1 (spec_q0 (BYTE x 1) XOR l 3 1) XOR l 2 1) XOR l 1 1) XOR l 0 1);
          y2 = spec_q1 (spec_q1 (spec_q0 (spec_q0 (spec_q0 (BYTE x 2) XOR l 3 2) XOR l 2 2) XOR l 1 2) XOR l 0 2);
          y3 = spec_q0 (spec_q1 (spec_q1 (spec_q0 (spec_q1 (BYTE x 3) XOR l 3 3) XOR l 2 3) XOR l 1 3) XOR l 0 3)
      in spec_mds_column 0 y0 XOR spec_mds_column 1 y1 XOR spec_mds_column 2 y2 XOR spec_mds_column 3 y3)"

definition spec_RS_word :: "bytes \<Rightarrow> nat \<Rightarrow> u32" where
  "spec_RS_word key i =
     le_word (map (\<lambda>row. foldr (XOR) (map (\<lambda>j. gf_mul 0x4D (row ! j) (key ! (8 * i + j))) [0..<8]) 0) RS)"

definition spec_M :: "bytes \<Rightarrow> nat \<Rightarrow> u32" where
  "spec_M key i = le_word (slice (4 * i) 4 key)"

definition spec_K :: "bytes \<Rightarrow> nat \<Rightarrow> u32" where
  "spec_K key n =
     (let i = n div 2;
          A = spec_h (0x01010101 * of_nat (2 * i)) (map (spec_M key) [0, 2, 4, 6]);
          B = rol 8 (spec_h (0x01010101 * of_nat (2 * i + 1)) (map (spec_M key) [1, 3, 5, 7]))
      in if even n then A + B else rol 9 (A + 2 * B))"

definition spec_g :: "bytes \<Rightarrow> u32 \<Rightarrow> u32" where
  "spec_g key x = spec_h x (map (spec_RS_word key) [3, 2, 1, 0])"

definition spec_tf_round :: "bytes \<Rightarrow> nat \<Rightarrow> u32 \<times> u32 \<times> u32 \<times> u32 \<Rightarrow> u32 \<times> u32 \<times> u32 \<times> u32" where
  "spec_tf_round key r = (\<lambda>(R0, R1, R2, R3).
     (let T0 = spec_g key R0;
          T1 = spec_g key (rol 8 R1);
          F0 = T0 + T1 + spec_K key (2 * r + 8);
          F1 = T0 + 2 * T1 + spec_K key (2 * r + 9)
      in (ror 1 (R2 XOR F0), rol 1 R3 XOR F1, R0, R1)))"

definition spec_twofish256 :: "bytes \<Rightarrow> bytes \<Rightarrow> bytes" where
  "spec_twofish256 key inp =
     (let P = (\<lambda>i. le_word (slice (4 * i) 4 inp) XOR spec_K key i)
      in case fold (spec_tf_round key) [0..<16] (P 0, P 1, P 2, P 3) of (R0, R1, R2, R3) \<Rightarrow>
           le_bytes 4 (R2 XOR spec_K key 4) @ le_bytes 4 (R3 XOR spec_K key 5) @
           le_bytes 4 (R0 XOR spec_K key 6) @ le_bytes 4 (R1 XOR spec_K key 7))"

section \<open>Round trip\<close>

lemma TF_round_inverse [simp]:
  "TF_DEC_ROUND key n ab (TF_ENC_ROUND key n ab cd) = cd"
  "TF_ENC_ROUND key n ab (TF_DEC_ROUND key n ab cd) = cd"
  by (cases ab; cases cd; simp add: TF_DEC_ROUND_def TF_ENC_ROUND_def Let_def)+

lemma TF_pair_inverse [simp]:
  "TF_DEC_PAIR key n (TF_ENC_PAIR key n st) = st"
  "TF_ENC_PAIR key n (TF_DEC_PAIR key n st) = st"
  by (cases st; simp add: TF_DEC_PAIR_def TF_ENC_PAIR_def Let_def)+

lemma twofish_load_store [simp]:
  "twofish_load (le_bytes 4 x0 @ le_bytes 4 x1 @ le_bytes 4 x2 @ le_bytes 4 x3) 0 = x0"
  "twofish_load (le_bytes 4 x0 @ le_bytes 4 x1 @ le_bytes 4 x2 @ le_bytes 4 x3) (Suc 0) = x1"
  "twofish_load (le_bytes 4 x0 @ le_bytes 4 x1 @ le_bytes 4 x2 @ le_bytes 4 x3) 2 = x2"
  "twofish_load (le_bytes 4 x0 @ le_bytes 4 x1 @ le_bytes 4 x2 @ le_bytes 4 x3) 3 = x3"
  by (simp_all add: twofish_load_def slice_def le_word_le_bytes)

lemma twofish_store_load:
  assumes "length p = 16"
  shows "le_bytes 4 (twofish_load p 0) @ le_bytes 4 (twofish_load p 1) @ le_bytes 4 (twofish_load p 2)
    @ le_bytes 4 (twofish_load p 3) = p"
  using assms take_drop_split [of 4 8 p] take_drop_split [of 4 4 p] append_take_drop_id [of 4 p]
  by (simp add: twofish_load_def slice_def le_bytes_le_word)

text \<open>The whole network, between whitening and whitening.\<close>

definition tf_enc_net :: "twofish256_key \<Rightarrow> (u32 \<times> u32) \<times> (u32 \<times> u32) \<Rightarrow> (u32 \<times> u32) \<times> (u32 \<times> u32)" where
  "tf_enc_net key = fold (\<lambda>n. TF_ENC_PAIR key n) [0, 2, 4, 6, 8, 10, 12, 14]"

definition tf_dec_net :: "twofish256_key \<Rightarrow> (u32 \<times> u32) \<times> (u32 \<times> u32) \<Rightarrow> (u32 \<times> u32) \<times> (u32 \<times> u32)" where
  "tf_dec_net key = fold (\<lambda>n. TF_DEC_PAIR key n) [14, 12, 10, 8, 6, 4, 2, 0]"

lemma tf_net_inverse [simp]: "tf_dec_net key (tf_enc_net key st) = st" "tf_enc_net key (tf_dec_net key st) = st"
  by (simp_all add: tf_enc_net_def tf_dec_net_def)

lemma twofish256_encrypt_net:
  "twofish256_encrypt key inp =
     (case tf_enc_net key ((twofish_load inp 0 XOR tf_w key ! 0, twofish_load inp 1 XOR tf_w key ! 1),
          (twofish_load inp 2 XOR tf_w key ! 2, twofish_load inp 3 XOR tf_w key ! 3)) of ((a, b), (c, d)) \<Rightarrow>
        le_bytes 4 (c XOR tf_w key ! 4) @ le_bytes 4 (d XOR tf_w key ! 5) @
        le_bytes 4 (a XOR tf_w key ! 6) @ le_bytes 4 (b XOR tf_w key ! 7))"
  by (simp only: twofish256_encrypt_def tf_enc_net_def Let_def fold.simps comp_def id_def)

lemma twofish256_decrypt_net:
  "twofish256_decrypt key inp =
     (case tf_dec_net key ((twofish_load inp 2 XOR tf_w key ! 6, twofish_load inp 3 XOR tf_w key ! 7),
          (twofish_load inp 0 XOR tf_w key ! 4, twofish_load inp 1 XOR tf_w key ! 5)) of ((a, b), (c, d)) \<Rightarrow>
        le_bytes 4 (a XOR tf_w key ! 0) @ le_bytes 4 (b XOR tf_w key ! 1) @
        le_bytes 4 (c XOR tf_w key ! 2) @ le_bytes 4 (d XOR tf_w key ! 3))"
  by (simp only: twofish256_decrypt_def tf_dec_net_def Let_def fold.simps comp_def id_def)

lemma twofish256_decrypt_encrypt:
  assumes "length p = 16"
  shows "twofish256_decrypt key (twofish256_encrypt key p) = p"
proof -
  define st where "st = ((twofish_load p 0 XOR tf_w key ! 0, twofish_load p 1 XOR tf_w key ! 1),
     (twofish_load p 2 XOR tf_w key ! 2, twofish_load p 3 XOR tf_w key ! 3))"
  obtain a b c d where net: "tf_enc_net key st = ((a, b), (c, d))"
    by (metis surj_pair)
  then have "tf_dec_net key ((a, b), (c, d)) = st"
    by (metis tf_net_inverse(1))
  then show ?thesis
    using net twofish_store_load [OF assms]
    by (simp add: twofish256_decrypt_net twofish256_encrypt_net st_def [symmetric])
       (simp add: st_def)
qed

lemma twofish256_encrypt_decrypt:
  assumes "length p = 16"
  shows "twofish256_encrypt key (twofish256_decrypt key p) = p"
proof -
  define st where "st = ((twofish_load p 2 XOR tf_w key ! 6, twofish_load p 3 XOR tf_w key ! 7),
     (twofish_load p 0 XOR tf_w key ! 4, twofish_load p 1 XOR tf_w key ! 5))"
  obtain a b c d where net: "tf_dec_net key st = ((a, b), (c, d))"
    by (metis surj_pair)
  then have "tf_enc_net key ((a, b), (c, d)) = st"
    by (metis tf_net_inverse(2))
  then show ?thesis
    using net twofish_store_load [OF assms]
    by (simp add: twofish256_decrypt_net twofish256_encrypt_net st_def [symmetric])
       (simp add: st_def)
qed

lemma length_twofish256 [simp, length_simps]:
  "length (twofish256_encrypt key p) = 16" "length (twofish256_decrypt key p) = 16"
  by (simp_all add: twofish256_encrypt_net twofish256_decrypt_net split: prod.split)

interpretation twofish: block_permutation "\<lambda>_. True" twofish256_encrypt twofish256_decrypt
  by unfold_locales (simp_all add: twofish256_decrypt_encrypt twofish256_encrypt_decrypt)

section \<open>Key schedule and rounds are the specified ones\<close>

lemma h_k4_eq: "h_k4 x L = spec_h x L"
  by (simp add: h_k4_def h_lanes_def spec_h_def Let_def nth_q nth_mds0 nth_mds1 nth_mds2 nth_mds3)

text \<open>The folded S-boxes: \<open>G1\<close> is \<open>h\<close> keyed with the S-box material, \<open>G2\<close> the same after a rotation.\<close>

lemma h_lanes_single:
  "h_lanes L (y0, y1, y2, y3) =
     (fst (h_lanes L (y0, y0, y0, y0)), fst (snd (h_lanes L (y1, y1, y1, y1))),
      fst (snd (snd (h_lanes L (y2, y2, y2, y2)))), snd (snd (snd (h_lanes L (y3, y3, y3, y3)))))"
  by (simp add: h_lanes_def Let_def)

lemma h_k4_lanes:
  "h_k4 x L = mds0 ! unat (fst (h_lanes L (BYTE x 0, BYTE x 0, BYTE x 0, BYTE x 0)))
     XOR mds1 ! unat (fst (snd (h_lanes L (BYTE x 1, BYTE x 1, BYTE x 1, BYTE x 1))))
     XOR mds2 ! unat (fst (snd (snd (h_lanes L (BYTE x 2, BYTE x 2, BYTE x 2, BYTE x 2)))))
     XOR mds3 ! unat (snd (snd (snd (h_lanes L (BYTE x 3, BYTE x 3, BYTE x 3, BYTE x 3)))))"
  unfolding h_k4_def by (subst h_lanes_single) (simp only: prod.case)

lemma G1_eq: "G1 (twofish_sboxes Sv) x = h_k4 x Sv"
proof -
  have "unat y < 256" for y :: u8
  proof -
    have "unat y < 2 ^ LENGTH(8)" by (rule unsigned_less)
    then show ?thesis by simp
  qed
  then show ?thesis
    by (simp add: G1_def twofish_sboxes_def h_k4_lanes Let_def case_prod_beta)
qed

lemma BYTE_rol:
  "BYTE (rol 8 x) 0 = BYTE x 3" "BYTE (rol 8 x) (Suc 0) = BYTE x 0"
  "BYTE (rol 8 x) 2 = BYTE x (Suc 0)" "BYTE (rol 8 x) 3 = BYTE x 2"
  by (rule bit_word_eqI; simp add: BYTE_def bit_simps bit_rol)+

lemma G2_eq: "G2 s x = G1 s (rol 8 x)"
  by (simp add: G1_def G2_def BYTE_rol)

lemma xtime_rs:
  "(if push_bit 1 (ucast (a :: u8)) AND 0x100 \<noteq> (0 :: u32) then push_bit 1 (ucast a) XOR RS_POLY else push_bit 1 (ucast a))
     = ucast (gf_xtime 0x4D a)" (is "?f a = _")
proof (induction a rule: word_xor_induct)
  case 1
  show ?case by (simp add: gf_xtime_def)
next
  case (2 a b)
  have bit8: "(push_bit 1 (ucast (a :: u8)) AND 0x100 \<noteq> (0 :: u32)) = bit a 7" for a :: u8
  proof -
    have "(0x100 :: u32) = 2 ^ 8" by simp
    then show ?thesis
      by (simp only: and_exp_eq_0_iff_not_bit not_not bit_push_bit_iff) (simp add: bit_simps)
  qed
  have "?f (a XOR b) = ?f a XOR ?f b"
    by (simp only: bit8 bit_xor_iff) (simp add: unsigned_xor_eq push_bit_xor_word ac_simps)
  then show ?case
    by (simp only: 2 gf_xtime_xor unsigned_xor_eq)
next
  case (3 k)
  then have "k \<in> {0, 1, 2, 3, 4, 5, 6, 7}" by auto
  then show ?case
    by (elim insertE emptyE; simp add: gf_xtime_def RS_POLY_def)
qed

lemma ucast_u8_u32_eq_0: "(ucast (b :: u8) :: u32) = 0 \<longleftrightarrow> b = 0"
proof
  assume z: "(ucast b :: u32) = 0"
  show "b = 0"
  proof (rule bit_word_eqI)
    fix n assume "n < LENGTH(8)"
    then have "bit b n = bit (ucast b :: u32) n" by (simp add: bit_simps)
    then show "bit b n = bit 0 n" by (simp add: z)
  qed
qed simp

lemma gf_mul_rs_loop_eq: "gf_mul_rs_loop (ucast a) (ucast b) (ucast r) = ucast (r XOR gf_mul 0x4D a (b :: u8))"
proof (induction "unat b" arbitrary: a b r rule: less_induct)
  case less
  show ?case
  proof (cases "b = 0")
    case True
    then show ?thesis by (simp add: gf_mul_rs_loop.simps)
  next
    case False
    have nz: "(ucast b :: u32) \<noteq> 0" using False by (simp add: ucast_u8_u32_eq_0)
    have odd: "((ucast b :: u32) AND 1 \<noteq> 0) = bit b 0"
      using and_exp_eq_0_iff_not_bit [of "ucast b :: u32" 0] by (simp only: power_0 not_not bit_unsigned_iff) (simp add: bit_simps)
    have shift: "drop_bit 1 (ucast b :: u32) = ucast (drop_bit 1 b)"
      by (rule bit_word_eqI) (auto simp: bit_simps dest: bit_imp_le_length)
    have "gf_mul_rs_loop (ucast a) (ucast b) (ucast r) =
        gf_mul_rs_loop (ucast (gf_xtime 0x4D a)) (ucast (drop_bit 1 b)) (ucast (if bit b 0 then r XOR a else r))"
      by (subst gf_mul_rs_loop.simps) (simp only: nz odd shift if_False Let_def xtime_rs if_distrib [of ucast] unsigned_xor_eq)
    also have "\<dots> = ucast ((if bit b 0 then r XOR a else r) XOR gf_mul 0x4D (gf_xtime 0x4D a) (drop_bit 1 b))"
      by (rule less) (rule unat_drop_bit_1_less [OF False])
    also have "\<dots> = ucast (r XOR gf_mul 0x4D a b)"
      by (subst (2) gf_mul_step) (simp add: ac_simps)
    finally show ?thesis .
  qed
qed

lemma gf_mul_rs_eq: "gf_mul_rs (ucast a) (ucast b) = gf_mul 0x4D a b"
proof -
  have "(ucast w :: u32) AND 0xFF = ucast w" for w :: u8
  proof -
    have "(ucast w :: u32) AND mask 8 = ucast w"
      by (rule bit_word_eqI) (auto simp: bit_simps dest: bit_imp_le_length)
    then show ?thesis by (simp add: mask_eq_exp_minus_1)
  qed
  moreover have "ucast (ucast w :: u32) = w" for w :: u8
    by (rule bit_word_eqI) (simp add: bit_simps)
  ultimately show ?thesis
    using gf_mul_rs_loop_eq [of a b 0] by (simp add: gf_mul_rs_def)
qed

lemma fold_xor_foldr:
  fixes f :: "'b \<Rightarrow> 'a::len word"
  shows "fold (\<lambda>j acc. acc XOR f j) xs acc = acc XOR foldr (XOR) (map f xs) 0"
  by (induction xs arbitrary: acc) (simp_all add: ac_simps)

lemma twofish_rs_eq: "twofish_rs key i = spec_RS_word key i"
proof -
  define row where "row r = foldr (XOR) (map (\<lambda>j. gf_mul 0x4D (RS ! r ! j) (key ! (8 * i + j))) [0..<8]) 0" for r
  have "twofish_rs key i = fold (\<lambda>r s. s OR push_bit (8 * r) (ucast (row r))) [0..<4] 0"
    by (simp only: twofish_rs_def row_def gf_mul_rs_eq fold_xor_foldr xor.left_neutral mult.commute [of i])
  also have "\<dots> = le_word (map row [0..<4])"
    by (simp add: upt_conv_Cons or.assoc push_bit_or)
  also have "map row [0..<4] = map (\<lambda>R. foldr (XOR) (map (\<lambda>j. gf_mul 0x4D (R ! j) (key ! (8 * i + j))) [0..<8]) 0) RS"
  proof -
    have "map f RS = map (\<lambda>r. f (RS ! r)) [0..<4]" for f :: "u8 list \<Rightarrow> u8"
      by (simp add: RS_def upt_conv_Cons)
    then show ?thesis by (simp only: row_def [abs_def])
  qed
  finally show ?thesis by (simp only: spec_RS_word_def)
qed

lemma twofish_sv_eq: "twofish_sv key = map (spec_RS_word key) [3, 2, 1, 0]"
  by (simp add: twofish_sv_def twofish_rs_eq upt_conv_Cons eval_nat_numeral)

lemma length_twofish_subkey_pair: "length (twofish_subkey_pair Me Mo i) = 2"
  by (simp add: twofish_subkey_pair_def Let_def)

lemma subkey_pair_eq:
  "twofish_subkey_pair (map (spec_M key) [0, 2, 4, 6]) (map (spec_M key) [1, 3, 5, 7]) (n div 2) ! (n mod 2) = spec_K key n"
  by (simp only: twofish_subkey_pair_def spec_K_def h_k4_eq Let_def even_iff_mod_2_eq_zero)
     (cases "n mod 2 = 0"; simp only: nth_Cons_0 if_True if_False not_mod_2_eq_0_eq_1 One_nat_def nth_Cons_Suc; simp)

lemma set_key_eq:
  "twofish256_set_key key =
     (let Me = map (spec_M key) [0, 2, 4, 6]; Mo = map (spec_M key) [1, 3, 5, 7]
      in \<lparr>tf_s = twofish_sboxes (map (spec_RS_word key) [3, 2, 1, 0]),
          tf_w = concat (map (twofish_subkey_pair Me Mo) [0..<4]),
          tf_k = concat (map (twofish_subkey_pair Me Mo) [4..<20])\<rparr>)"
proof -
  have "map (\<lambda>i. map (\<lambda>i. le_word (slice (i * 4) 4 key)) [0..<8] ! (i * 2)) [0..<4] = map (spec_M key) [0, 2, 4, 6]"
    by (simp add: upt_conv_Cons spec_M_def)
  moreover have "map (\<lambda>i. map (\<lambda>i. le_word (slice (i * 4) 4 key)) [0..<8] ! (i * 2 + 1)) [0..<4] = map (spec_M key) [1, 3, 5, 7]"
    by (simp add: upt_conv_Cons spec_M_def)
  ultimately show ?thesis
    by (simp only: twofish256_set_key_def twofish_sv_eq Let_def)
qed

lemma nth_subkeys:
  assumes "n < 2 * (hi - lo)"
  shows "concat (map (twofish_subkey_pair (map (spec_M key) [0, 2, 4, 6]) (map (spec_M key) [1, 3, 5, 7])) [lo..<hi]) ! n
    = spec_K key (n + 2 * lo)"
proof -
  have "n div 2 < hi - lo" using assms by auto
  then have "[lo..<hi] ! (n div 2) = (n + 2 * lo) div 2" by simp
  moreover have "n mod 2 = (n + 2 * lo) mod 2" by simp
  ultimately show ?thesis
    using assms by (subst nth_concat_uniform [OF length_twofish_subkey_pair])
      (simp_all only: length_upt subkey_pair_eq zero_less_numeral)
qed

lemma tf_w_nth: "n < 8 \<Longrightarrow> tf_w (twofish256_set_key key) ! n = spec_K key n"
  using nth_subkeys [of n 4 0 key] by (simp only: set_key_eq Let_def twofish256_key.simps) simp

lemma tf_k_nth: "n < 32 \<Longrightarrow> tf_k (twofish256_set_key key) ! n = spec_K key (n + 8)"
  using nth_subkeys [of n 20 4 key] by (simp only: set_key_eq Let_def twofish256_key.simps) simp

lemma TF_ENC_ROUND_eq:
  assumes "r < 16"
  shows "TF_ENC_ROUND (twofish256_set_key key) r (a, b) (c, d) =
    (case spec_tf_round key r (a, b, c, d) of (c', d', _, _) \<Rightarrow> (c', d'))"
proof -
  have "G1 (tf_s (twofish256_set_key key)) x = spec_g key x" for x
    by (simp add: set_key_eq Let_def G1_eq h_k4_eq spec_g_def)
  then show ?thesis
    using assms by (simp add: TF_ENC_ROUND_def spec_tf_round_def Let_def G2_eq tf_k_nth algebra_simps)
qed

definition flat :: "(u32 \<times> u32) \<times> (u32 \<times> u32) \<Rightarrow> u32 \<times> u32 \<times> u32 \<times> u32" where
  "flat = (\<lambda>((a, b), (c, d)). (a, b, c, d))"

lemma flat_simp: "flat ((a, b), (c, d)) = (a, b, c, d)"
  by (simp add: flat_def)

lemma TF_ENC_PAIR_eq:
  assumes "n + 1 < 16"
  shows "flat (TF_ENC_PAIR (twofish256_set_key key) n ((a, b), (c, d))) =
    spec_tf_round key (n + 1) (spec_tf_round key n (a, b, c, d))"
proof -
  obtain c' d' where 1: "spec_tf_round key n (a, b, c, d) = (c', d', a, b)"
    by (simp add: spec_tf_round_def Let_def)
  obtain a' b' where 2: "spec_tf_round key (n + 1) (c', d', a, b) = (a', b', c', d')"
    by (simp add: spec_tf_round_def Let_def)
  show ?thesis
    using assms by (simp add: TF_ENC_PAIR_def Let_def TF_ENC_ROUND_eq flat_def 1 2 [simplified])
qed

lemma flat_enc_pair:
  assumes "n + 1 < 16"
  shows "flat (TF_ENC_PAIR (twofish256_set_key key) n st) = spec_tf_round key (n + 1) (spec_tf_round key n (flat st))"
proof -
  obtain a b c d where "st = ((a, b), (c, d))" by (metis surj_pair)
  then show ?thesis using TF_ENC_PAIR_eq [OF assms, of key a b c d] by (simp only: flat_simp)
qed

lemma flat_enc_net: "flat (tf_enc_net (twofish256_set_key key) st) = fold (spec_tf_round key) [0..<16] (flat st)"
proof -
  have "[0..<16] = [0, 1, 2, 3, 4, 5, 6, 7, 8, 9, 10, 11, 12, 13, 14, 15 :: nat]"
    by (simp add: upt_conv_Cons)
  then show ?thesis
    by (simp add: tf_enc_net_def flat_enc_pair)
qed

lemma twofish256_encrypt_eq: "twofish256_encrypt (twofish256_set_key key) inp = spec_twofish256 key inp"
proof -
  define st where "st = ((twofish_load inp 0 XOR spec_K key 0, twofish_load inp 1 XOR spec_K key 1),
     (twofish_load inp 2 XOR spec_K key 2, twofish_load inp 3 XOR spec_K key 3))"
  obtain a b c d where net: "tf_enc_net (twofish256_set_key key) st = ((a, b), (c, d))"
    by (metis surj_pair)
  then have "fold (spec_tf_round key) [0..<16] (flat st) = (a, b, c, d)"
    using flat_enc_net [of key st] by (simp add: flat_def)
  then show ?thesis
    using net by (simp add: twofish256_encrypt_net tf_w_nth spec_twofish256_def twofish_load_def st_def flat_def Let_def
        del: upt_Suc)
qed

section \<open>Properties\<close>

text \<open>
  C32 (equivalence): Twofish-256 as coded is Twofish-256 as specified: the key schedule with its folded key-dependent
  tables and the unrolled network give, for every key and block, the value of the iterated
  specification, in which the round function is computed from the permutations, the MDS matrix and the
  Reed-Solomon digest of the key in \<open>GF(2^8)\<close>.
\<close>

theorem twofish256_encrypt_correct:
  "twofish256_encrypt (twofish256_set_key key) inp = spec_twofish256 key inp"
  by (rule twofish256_encrypt_eq)

text \<open>
  Twofish decryption and encryption are inverse to each other on every 16-byte block, for every
  expanded key.
\<close>

theorem twofish256_roundtrip:
  assumes "length b = 16"
  shows "twofish256_decrypt k (twofish256_encrypt k b) = b \<and> twofish256_encrypt k (twofish256_decrypt k b) = b"
  using assms by (simp add: twofish.dec_enc twofish.enc_dec)

theorem twofish256_roundtrip_witness:
  "twofish256_decrypt (twofish256_set_key (replicate 32 7)) (twofish256_encrypt (twofish256_set_key (replicate 32 7)) (replicate 16 0xAA))
     = replicate 16 0xAA"
  using twofish256_roundtrip [of "replicate 16 0xAA" "twofish256_set_key (replicate 32 7)"] by simp

end
