(* ===== verification/XtsMode.thy ===== *)
theory XtsMode
  imports Cipher
begin

text \<open>
  The scalar XTS template of \<^verbatim>\<open>DCrypt/crypto_lib/xts_fast.c\<close> (\<^verbatim>\<open>DEF_XTS_PROC\<close>): one sector at a time, the
  tweak derived by encrypting the sector number, 32 blocks per sector, the tweak doubled between blocks.
  The template is instantiated in the source by textual substitution of the tweak and block functions;
  here these are parameters.  The model returns \<^const>\<open>None\<close> where the loop would read past the input
  buffer.  Verified against any cipher that meets the block cipher contract.
\<close>

unbundle bit_operations_syntax

section \<open>The code\<close>

definition XTS_SECTOR_SIZE :: nat where "XTS_SECTOR_SIZE = 512"
definition XTS_BLOCK_SIZE :: nat where "XTS_BLOCK_SIZE = 16"
definition XTS_BLOCKS_IN_SECTOR :: nat where "XTS_BLOCKS_IN_SECTOR = XTS_SECTOR_SIZE div XTS_BLOCK_SIZE"

type_synonym tweak = "u64 \<times> u64"

definition tweak_next :: "tweak \<Rightarrow> tweak" where
  "tweak_next = (\<lambda>(t0, t1).
     (let cf = drop_bit 63 t1 * 135;
          t1 = push_bit 1 t1 OR drop_bit 63 t0;
          t0 = push_bit 1 t0 XOR cf
      in (t0, t1)))"

definition xor_tweak :: "tweak \<Rightarrow> bytes \<Rightarrow> bytes" where
  "xor_tweak = (\<lambda>(t0, t1) b. le_bytes 8 (le_word (slice 0 8 b) XOR t0) @ le_bytes 8 (le_word (slice 8 8 b) XOR t1))"

definition xts_block :: "(bytes \<Rightarrow> bytes) \<Rightarrow> tweak \<Rightarrow> bytes \<Rightarrow> bytes" where
  "xts_block crypt_fn t b = xor_tweak t (crypt_fn (xor_tweak t b))"

primrec xts_blocks :: "(bytes \<Rightarrow> bytes) \<Rightarrow> nat \<Rightarrow> tweak \<Rightarrow> bytes \<Rightarrow> bytes" where
  "xts_blocks crypt_fn 0 t inp = []"
| "xts_blocks crypt_fn (Suc n) t inp =
     xts_block crypt_fn t (take XTS_BLOCK_SIZE inp) @ xts_blocks crypt_fn n (tweak_next t) (drop XTS_BLOCK_SIZE inp)"

definition sector_tweak :: "(bytes \<Rightarrow> bytes) \<Rightarrow> u64 \<Rightarrow> tweak" where
  "sector_tweak tweak_fn sector =
     (let tw = tweak_fn (le_bytes 8 sector @ le_bytes 8 (0 :: u64)) in (le_word (slice 0 8 tw), le_word (slice 8 8 tw)))"

definition xts_sector :: "(bytes \<Rightarrow> bytes) \<Rightarrow> (bytes \<Rightarrow> bytes) \<Rightarrow> u64 \<Rightarrow> bytes \<Rightarrow> bytes" where
  "xts_sector tweak_fn crypt_fn sector inp = xts_blocks crypt_fn XTS_BLOCKS_IN_SECTOR (sector_tweak tweak_fn sector) inp"

function xts_loop :: "(bytes \<Rightarrow> bytes) \<Rightarrow> (bytes \<Rightarrow> bytes) \<Rightarrow> u64 \<Rightarrow> bytes \<Rightarrow> u64 \<Rightarrow> bytes option" where
  "xts_loop tweak_fn crypt_fn sector inp len =
     (if length inp < XTS_SECTOR_SIZE then None
      else let sector = sector + 1;
               out = xts_sector tweak_fn crypt_fn sector (take XTS_SECTOR_SIZE inp);
               len = len - of_nat XTS_SECTOR_SIZE
           in if len = 0 then Some out
              else map_option (\<lambda>rest. out @ rest) (xts_loop tweak_fn crypt_fn sector (drop XTS_SECTOR_SIZE inp) len))"
  by pat_completeness auto

termination
  by (relation "measure (\<lambda>(_, _, _, inp, _). length inp)") (auto simp: XTS_SECTOR_SIZE_def)

declare xts_loop.simps [simp del]

definition DEF_XTS_PROC :: "(bytes \<Rightarrow> bytes) \<Rightarrow> (bytes \<Rightarrow> bytes) \<Rightarrow> bytes \<Rightarrow> u64 \<Rightarrow> u64 \<Rightarrow> bytes option" where
  "DEF_XTS_PROC tweak_fn crypt_fn inp len offset = xts_loop tweak_fn crypt_fn (offset div of_nat XTS_SECTOR_SIZE) inp len"

section \<open>The specification\<close>

text \<open>
  XTS over 128-bit tweaks: block \<open>j\<close> of data unit \<open>n\<close> is masked, before and after the cipher, with the
  encrypted unit number times \<open>alpha^j\<close> in \<open>GF(2^128)\<close>.  Sector \<open>i\<close> of a volume is data unit \<open>i + 1\<close>.
\<close>

definition alpha_mul :: "128 word \<Rightarrow> 128 word" where
  "alpha_mul t = push_bit 1 t XOR (if bit t 127 then 0x87 else 0)"

definition spec_tweak :: "(bytes \<Rightarrow> bytes) \<Rightarrow> nat \<Rightarrow> nat \<Rightarrow> 128 word" where
  "spec_tweak tweak_fn n j = (alpha_mul ^^ j) (le_word (tweak_fn (le_bytes 16 (of_nat n :: 128 word))))"

definition spec_xts_block :: "(bytes \<Rightarrow> bytes) \<Rightarrow> 128 word \<Rightarrow> bytes \<Rightarrow> bytes" where
  "spec_xts_block crypt_fn T b = xor_bytes (crypt_fn (xor_bytes b (le_bytes 16 T))) (le_bytes 16 T)"

definition spec_xts_unit :: "(bytes \<Rightarrow> bytes) \<Rightarrow> (bytes \<Rightarrow> bytes) \<Rightarrow> nat \<Rightarrow> bytes \<Rightarrow> bytes" where
  "spec_xts_unit tweak_fn crypt_fn n inp =
     concat (map (\<lambda>j. spec_xts_block crypt_fn (spec_tweak tweak_fn n j) (slice (16 * j) 16 inp)) [0..<32])"

definition spec_xts :: "(bytes \<Rightarrow> bytes) \<Rightarrow> (bytes \<Rightarrow> bytes) \<Rightarrow> nat \<Rightarrow> bytes \<Rightarrow> bytes" where
  "spec_xts tweak_fn crypt_fn offset inp =
     concat (map (\<lambda>i. spec_xts_unit tweak_fn crypt_fn (offset div 512 + i + 1) (slice (512 * i) 512 inp))
       [0..<length inp div 512])"

lemmas xts_consts = XTS_SECTOR_SIZE_def XTS_BLOCK_SIZE_def XTS_BLOCKS_IN_SECTOR_def

section \<open>Blocks and sectors\<close>

lemma length_xor_tweak [simp, length_simps]: "length (xor_tweak t b) = 16"
  by (cases t) (simp add: xor_tweak_def)

lemma xor_tweak_involution [simp]: "length b = 16 \<Longrightarrow> xor_tweak t (xor_tweak t b) = b"
  using append_take_drop_id [of 8 b]
  by (cases t) (simp add: xor_tweak_def slice_def le_word_le_bytes le_bytes_le_word)

lemma length_xts_block [simp, length_simps]: "length (xts_block f t b) = 16"
  by (simp add: xts_block_def)

lemma length_xts_blocks [simp, length_simps]: "length (xts_blocks f n t inp) = 16 * n"
  by (induction n arbitrary: t inp) simp_all

lemma length_xts_sector [simp, length_simps]: "length (xts_sector tw f s inp) = 512"
  by (simp add: xts_sector_def xts_consts)

lemma xts_blocks_inverse:
  assumes inv: "\<And>b. length b = 16 \<Longrightarrow> length (f b) = 16 \<and> g (f b) = b"
  shows "length inp = 16 * n \<Longrightarrow> xts_blocks g n t (xts_blocks f n t inp) = inp"
proof (induction n arbitrary: t inp)
  case (Suc n)
  have "xts_block g t (xts_block f t (take 16 inp)) = take 16 inp"
    using Suc.prems inv [of "xor_tweak t (take 16 inp)"] by (simp add: xts_block_def)
  then show ?case
    using Suc by (simp add: xts_consts)
qed simp

lemma xts_sector_inverse:
  assumes "\<And>b. length b = 16 \<Longrightarrow> length (f b) = 16 \<and> g (f b) = b" and "length inp = 512"
  shows "xts_sector tw g s (xts_sector tw f s inp) = inp"
  unfolding xts_sector_def by (rule xts_blocks_inverse) (use assms in \<open>simp_all add: xts_consts\<close>)

section \<open>The loop\<close>

text \<open>When the loop leaves the buffer alone: a positive multiple of the sector size that the buffer holds.\<close>

definition xts_len_ok :: "bytes \<Rightarrow> u64 \<Rightarrow> bool" where
  "xts_len_ok inp len \<longleftrightarrow> 0 < unat len \<and> 512 dvd unat len \<and> unat len \<le> length inp"

lemma unat_minus_512: "512 \<le> unat (len :: u64) \<Longrightarrow> unat (len - 512) = unat len - 512"
  by (simp add: unat_sub word_le_nat_alt)

lemma xts_loop_result:
  "0 < m \<Longrightarrow> unat len = 512 * m \<Longrightarrow> 512 * m \<le> length inp \<Longrightarrow>
   xts_loop tw f s inp len = Some (concat (map (\<lambda>i. xts_sector tw f (s + of_nat i + 1) (slice (512 * i) 512 inp)) [0..<m]))"
proof (induction m arbitrary: s inp len)
  case (Suc m)
  have len': "unat (len - 512) = 512 * m"
    using Suc.prems by (simp add: unat_minus_512)
  have first: "\<not> length inp < 512" using Suc.prems by simp
  show ?case
  proof (cases "m = 0")
    case True
    then have "len - 512 = 0" using len' by (simp add: unat_eq_0)
    with first True show ?thesis
      by (subst xts_loop.simps) (simp add: xts_consts slice_def)
  next
    case False
    then have "len - 512 \<noteq> 0" using len' by (metis mult_eq_0_iff unat_0 zero_neq_numeral)
    moreover have "xts_loop tw f (s + 1) (drop 512 inp) (len - 512) =
        Some (concat (map (\<lambda>i. xts_sector tw f (s + 1 + of_nat i + 1) (slice (512 * i) 512 (drop 512 inp))) [0..<m]))"
      using Suc.prems False len' by (intro Suc.IH) auto
    moreover have "[0..<Suc m] = 0 # map Suc [0..<m]"
      by (simp add: map_Suc_upt upt_conv_Cons)
    ultimately show ?thesis
      using first by (subst xts_loop.simps) (simp add: xts_consts slice_def comp_def algebra_simps del: upt_Suc)
  qed
qed simp

lemma xts_loop_ok:
  assumes "xts_len_ok inp len"
  shows "xts_loop tw f s inp len =
    Some (concat (map (\<lambda>i. xts_sector tw f (s + of_nat i + 1) (slice (512 * i) 512 inp)) [0..<unat len div 512]))"
  using assms by (intro xts_loop_result) (auto simp: xts_len_ok_def elim!: dvdE)

lemma xts_loop_SomeD:
  assumes "length inp < 2 ^ 64" and "xts_loop tw f s inp len = Some out"
  shows "xts_len_ok inp len"
  using assms
proof (induction tw f s inp len arbitrary: out rule: xts_loop.induct)
  case (1 tw f s inp len)
  have big: "512 \<le> length inp"
    using "1.prems"(2) by (subst (asm) xts_loop.simps) (auto simp: xts_consts split: if_splits)
  show ?case
  proof (cases "len - 512 = 0")
    case True
    then have "len = 512" by simp
    then show ?thesis using big by (simp add: xts_len_ok_def)
  next
    case False
    with "1.prems"(2) big obtain rest where "xts_loop tw f (s + 1) (drop 512 inp) (len - 512) = Some rest"
      by (subst (asm) xts_loop.simps) (auto simp: xts_consts Let_def)
    then have ok: "xts_len_ok (drop 512 inp) (len - 512)"
      using 1 big False by (simp add: xts_consts)
    have "512 \<le> unat len"
    proof (rule ccontr)
      assume "\<not> 512 \<le> unat len"
      then have "unat (len - 512) = unat len + 2 ^ 64 - 512"
        by (simp add: unat_sub_if' word_le_nat_alt)
      moreover have "unat (len - 512) \<le> length inp - 512" using ok by (simp add: xts_len_ok_def)
      ultimately show False using big "1.prems"(1) by linarith
    qed
    moreover from this have "512 dvd unat len - 512" "unat len - 512 \<le> length inp - 512"
      using ok unat_minus_512 [of len] by (simp_all add: xts_len_ok_def)
    ultimately show ?thesis
      using big dvd_diffD [of 512 "unat len" 512] by (simp add: xts_len_ok_def)
  qed
qed

lemma length_concat_sectors: "length (concat (map (\<lambda>i. xts_sector tw f (g i) (h i)) [0..<m])) = 512 * m"
  by (simp add: length_concat comp_def sum_list_triv)

lemma slice_concat_sectors:
  assumes "i < m"
  shows "slice (512 * i) 512 (concat (map (\<lambda>i. xts_sector tw f (g i) (h i)) [0..<m])) = xts_sector tw f (g i) (h i)"
proof (rule nth_equalityI)
  show "length (slice (512 * i) 512 (concat (map (\<lambda>i. xts_sector tw f (g i) (h i)) [0..<m])))
      = length (xts_sector tw f (g i) (h i))"
    using assms by (simp add: length_concat_sectors flip: right_diff_distrib')
next
  fix j assume "j < length (slice (512 * i) 512 (concat (map (\<lambda>i. xts_sector tw f (g i) (h i)) [0..<m])))"
  then have j: "j < 512" by simp
  then have "512 * i + j < 512 * m" using assms by linarith
  then show "slice (512 * i) 512 (concat (map (\<lambda>i. xts_sector tw f (g i) (h i)) [0..<m])) ! j = xts_sector tw f (g i) (h i) ! j"
    using j assms nth_concat_uniform [of "\<lambda>i. xts_sector tw f (g i) (h i)" 512 "512 * i + j" "[0..<m]"]
    by (simp add: nth_slice length_concat_sectors)
qed

lemma concat_slices: "length xs = c * m \<Longrightarrow> concat (map (\<lambda>i. slice (c * i) c xs) [0..<m]) = xs"
proof (induction m arbitrary: xs)
  case (Suc m)
  have "concat (map (\<lambda>i. slice (c * i) c (take (c * m) xs)) [0..<m]) = take (c * m) xs"
    using Suc.prems by (intro Suc.IH) simp
  moreover have "slice (c * i) c (take (c * m) xs) = slice (c * i) c xs" if "i < m" for i
  proof -
    have "c * i + c \<le> c * m" using that by (metis Suc_leI mult_Suc_right add.commute mult_le_mono2)
    then show ?thesis by (simp add: slice_def drop_take take_take min_def)
  qed
  ultimately have "concat (map (\<lambda>i. slice (c * i) c xs) [0..<m]) = take (c * m) xs"
    by (metis (no_types, lifting) atLeastLessThan_iff map_cong set_upt)
  then show ?case
    using Suc.prems by (simp add: slice_def)
qed simp

lemma slice_take: "off + n \<le> k \<Longrightarrow> slice off n (take k xs) = slice off n xs"
  by (simp add: slice_def drop_take take_take min_def)

lemma xts_loop_inverse:
  assumes inv: "\<And>b. length b = 16 \<Longrightarrow> length (f b) = 16 \<and> g (f b) = b" and ok: "xts_len_ok inp len"
  shows "\<exists>out. xts_loop tw f s inp len = Some out \<and> length out = unat len \<and>
    xts_loop tw g s out len = Some (take (unat len) inp)"
proof -
  define m where "m = unat len div 512"
  have len: "unat len = 512 * m" and m: "512 * m \<le> length inp" using ok by (auto simp: xts_len_ok_def m_def)
  define out where "out = concat (map (\<lambda>i. xts_sector tw f (s + of_nat i + 1) (slice (512 * i) 512 inp)) [0..<m])"
  have 1: "xts_loop tw f s inp len = Some out"
    using xts_loop_ok [OF ok] by (simp add: out_def m_def)
  have lo: "length out = unat len" by (simp add: out_def length_concat_sectors len)
  then have "xts_len_ok out len" using ok by (simp add: xts_len_ok_def)
  then have "xts_loop tw g s out len =
      Some (concat (map (\<lambda>i. xts_sector tw g (s + of_nat i + 1) (slice (512 * i) 512 out)) [0..<m]))"
    by (simp add: xts_loop_ok m_def)
  also have "map (\<lambda>i. xts_sector tw g (s + of_nat i + 1) (slice (512 * i) 512 out)) [0..<m]
      = map (\<lambda>i. slice (512 * i) 512 (take (512 * m) inp)) [0..<m]"
  proof (rule map_cong [OF refl])
    fix i assume "i \<in> set [0..<m]"
    then have i: "i < m" by simp
    then have "512 * i + 512 \<le> 512 * m" by simp
    then have "length (slice (512 * i) 512 inp) = 512" "slice (512 * i) 512 (take (512 * m) inp) = slice (512 * i) 512 inp"
      using m by (simp_all add: slice_take)
    then show "xts_sector tw g (s + of_nat i + 1) (slice (512 * i) 512 out) = slice (512 * i) 512 (take (512 * m) inp)"
      using i by (simp add: out_def slice_concat_sectors xts_sector_inverse [OF inv])
  qed
  also have "concat (map (\<lambda>i. slice (512 * i) 512 (take (512 * m) inp)) [0..<m]) = take (512 * m) inp"
    using m by (intro concat_slices) simp
  finally show ?thesis using 1 lo len by auto
qed

section \<open>Random access\<close>

lemma concat_sectors_split:
  "p + q \<le> m \<Longrightarrow> slice (512 * p) (512 * q) (concat (map (\<lambda>i. xts_sector tw f (g i) (h i)) [0..<m]))
     = concat (map (\<lambda>i. xts_sector tw f (g (p + i)) (h (p + i))) [0..<q])"
proof -
  assume pq: "p + q \<le> m"
  have up: "[0..<m] = [0..<p] @ map (\<lambda>i. p + i) [0..<q] @ [p + q..<m]"
  proof -
    have "map (\<lambda>i. p + i) [0..<q] = [p..<p + q]"
      by (simp add: map_add_upt add.commute [of p])
    then show ?thesis
      using pq upt_add_eq_append [of 0 p "m - p"] upt_add_eq_append [of p "p + q" "m - (p + q)"] by simp
  qed
  show ?thesis
    by (simp only: up map_append concat_append slice_def)
       (simp add: length_concat_sectors length_concat comp_def sum_list_triv)
qed

lemma slice_slice: "i + n \<le> k \<Longrightarrow> slice i n (slice j k xs) = slice (j + i) n xs"
  by (simp add: slice_def drop_take take_take min_def add.commute)

lemma xts_random_access:
  assumes ok: "xts_len_ok inp len" and pq: "0 < q" "512 * (p + q) \<le> unat len"
    and out: "xts_loop tw f s inp len = Some out"
  shows "xts_loop tw f (s + of_nat p) (slice (512 * p) (512 * q) inp) (of_nat (512 * q))
    = Some (slice (512 * p) (512 * q) out)"
proof -
  define m where "m = unat len div 512"
  have m: "unat len = 512 * m" "512 * m \<le> length inp" using ok by (auto simp: xts_len_ok_def m_def)
  then have pqm: "p + q \<le> m" using pq by simp
  have "unat len < 2 ^ 64" using unsigned_less [of len, where ?'a = nat] by simp
  then have q: "unat (of_nat (512 * q) :: u64) = 512 * q"
    using pq by (intro unat_word64_small) simp
  have "xts_len_ok (slice (512 * p) (512 * q) inp) (of_nat (512 * q))"
    using pq m pqm by (simp only: xts_len_ok_def q) (simp flip: right_diff_distrib')
  then have "xts_loop tw f (s + of_nat p) (slice (512 * p) (512 * q) inp) (of_nat (512 * q)) =
      Some (concat (map (\<lambda>i. xts_sector tw f (s + of_nat p + of_nat i + 1) (slice (512 * i) 512 (slice (512 * p) (512 * q) inp))) [0..<q]))"
    by (subst xts_loop_ok) (simp_all only: q, simp)
  also have "\<dots> = Some (concat (map (\<lambda>i. xts_sector tw f (s + of_nat (p + i) + 1) (slice (512 * (p + i)) 512 inp)) [0..<q]))"
    by (auto simp: slice_slice algebra_simps intro!: arg_cong [of _ _ concat])
  also have "\<dots> = Some (slice (512 * p) (512 * q)
      (concat (map (\<lambda>i. xts_sector tw f (s + of_nat i + 1) (slice (512 * i) 512 inp)) [0..<m])))"
    by (simp only: concat_sectors_split [OF pqm])
  also have "\<dots> = Some (slice (512 * p) (512 * q) out)"
    using out xts_loop_ok [OF ok, of tw f s] by (simp add: m_def)
  finally show ?thesis .
qed

section \<open>The template computes XTS\<close>

definition join :: "tweak \<Rightarrow> 128 word" where
  "join = (\<lambda>(t0, t1). ucast t0 OR push_bit 64 (ucast t1))"

lemma bit_join: "bit (join (t0, t1)) n \<longleftrightarrow> (if n < 64 then bit t0 n else n < 128 \<and> bit t1 (n - 64))"
  by (auto simp: join_def bit_simps dest: bit_imp_le_length)

lemma drop_63: "drop_bit 63 (t :: u64) = (if bit t 63 then 1 else 0)"
proof (rule bit_word_eqI)
  fix n
  show "bit (drop_bit 63 t) n = bit (if bit t 63 then 1 else 0 :: u64) n"
    using bit_imp_le_length [of t "63 + n"] by (cases n) (auto simp: bit_simps)
qed

lemma ucast_87: "(0x87 :: 128 word) = ucast (0x87 :: u64)"
  by simp

lemma join_tweak_next: "join (tweak_next t) = alpha_mul (join t)"
proof (cases t)
  case (Pair t0 t1)
  have high: "bit (join (t0, t1)) 127 = bit t1 63" by (simp add: bit_join)
  define c where "c = (if bit t1 63 then 0x87 else 0 :: u64)"
  have "alpha_mul (join (t0, t1)) = push_bit 1 (join (t0, t1)) XOR ucast c"
    by (simp only: alpha_mul_def high ucast_87 c_def if_distrib [of ucast] unsigned_0)
  moreover have "tweak_next (t0, t1) = (push_bit 1 t0 XOR c, push_bit 1 t1 OR drop_bit 63 t0)"
    by (simp add: tweak_next_def Let_def drop_63 [of t1] c_def)
  moreover have "join (push_bit 1 t0 XOR c, push_bit 1 t1 OR drop_bit 63 t0) = push_bit 1 (join (t0, t1)) XOR ucast c"
  proof (rule bit_word_eqI)
    fix n assume n: "n < LENGTH(128)"
    have "\<not> bit c n" if "64 \<le> n" using that bit_imp_le_length [of c n] by auto
    with n show "bit (join (push_bit 1 t0 XOR c, push_bit 1 t1 OR drop_bit 63 t0)) n = bit (push_bit 1 (join (t0, t1)) XOR ucast c) n"
      by (simp only: bit_join bit_or_iff bit_xor_iff bit_push_bit_iff bit_drop_bit_eq comp_def bit_unsigned_iff)
         (cases "n < 64"; cases "n = 64"; auto dest: bit_imp_le_length)
  qed
  ultimately show ?thesis by (simp only: Pair)
qed

lemma le_word_append_8: "length a = 8 \<Longrightarrow> length b = 8 \<Longrightarrow> (le_word (a @ b) :: 128 word) = join (le_word a, le_word b)"
proof (rule bit_word_eqI)
  fix n assume ab: "length a = 8" "length b = 8" and n: "n < LENGTH(128)"
  show "bit (le_word (a @ b) :: 128 word) n = bit (join (le_word a, le_word b)) n"
  proof (cases "n < 64")
    case True
    then have "n div 8 < 8" by auto
    then show ?thesis using True ab by (simp add: bit_join bit_le_word nth_append)
  next
    case False
    then obtain k where k: "n = 64 + k" using le_Suc_ex by fastforce
    have "(64 + k) div 8 = 8 + k div 8" "(64 + k) mod 8 = k mod 8" by presburger+
    then show ?thesis using ab n k by (auto simp: bit_join bit_le_word nth_append)
  qed
qed

lemma le_bytes_join: "le_bytes 16 (join (t0, t1)) = le_bytes 8 t0 @ le_bytes 8 t1"
proof -
  have "join (t0, t1) = le_word (le_bytes 8 t0 @ le_bytes 8 t1)"
    by (simp add: le_word_append_8 le_word_le_bytes)
  then show ?thesis by (simp add: le_bytes_le_word)
qed

lemma xor_tweak_join:
  assumes "length b = 16"
  shows "xor_tweak t b = xor_bytes b (le_bytes 16 (join t))"
proof (cases t)
  case (Pair t0 t1)
  have "xor_bytes b (le_bytes 16 (join t)) = xor_bytes (take 8 b @ drop 8 b) (le_bytes 8 t0 @ le_bytes 8 t1)"
    by (simp only: Pair le_bytes_join append_take_drop_id)
  also have "\<dots> = xor_bytes (take 8 b) (le_bytes 8 t0) @ xor_bytes (drop 8 b) (le_bytes 8 t1)"
    using assms by (intro xor_bytes_append) simp
  also have "\<dots> = xor_tweak t b"
    using assms by (simp add: Pair xor_tweak_def slice_def le_bytes_xor le_bytes_le_word)
  finally show ?thesis by simp
qed

lemma xts_block_join: "length b = 16 \<Longrightarrow> length (f (xor_bytes b (le_bytes 16 (join t)))) = 16 \<Longrightarrow>
    xts_block f t b = spec_xts_block f (join t) b"
  by (simp add: xts_block_def spec_xts_block_def xor_tweak_join)

lemma xts_blocks_join:
  assumes f: "\<And>b. length b = 16 \<Longrightarrow> length (f b) = 16"
  shows "length inp = 16 * n \<Longrightarrow> xts_blocks f n t inp =
    concat (map (\<lambda>j. spec_xts_block f ((alpha_mul ^^ j) (join t)) (slice (16 * j) 16 inp)) [0..<n])"
proof (induction n arbitrary: t inp)
  case (Suc n)
  have "[0..<Suc n] = 0 # map Suc [0..<n]" by (simp add: map_Suc_upt upt_conv_Cons)
  moreover have "xts_block f t (take 16 inp) = spec_xts_block f (join t) (take 16 inp)"
    using Suc.prems by (intro xts_block_join f) simp_all
  moreover have "xts_blocks f n (tweak_next t) (drop 16 inp) =
      concat (map (\<lambda>j. spec_xts_block f ((alpha_mul ^^ j) (alpha_mul (join t))) (slice (16 * j) 16 (drop 16 inp))) [0..<n])"
    using Suc.prems Suc.IH [of "drop 16 inp" "tweak_next t"] by (simp add: join_tweak_next)
  ultimately show ?case
    by (simp add: xts_consts slice_def comp_def funpow_swap1 add.commute del: upt_Suc)
qed simp

lemma sector_index_bytes: "n < 2 ^ 64 \<Longrightarrow> le_bytes 8 (of_nat n :: u64) @ le_bytes 8 (0 :: u64) = le_bytes 16 (of_nat n :: 128 word)"
proof -
  assume "n < 2 ^ 64"
  then have "(of_nat n :: 128 word) = join (of_nat n, 0)"
    by (simp add: join_def unsigned_of_nat take_bit_nat_eq_self)
  then show ?thesis by (simp add: le_bytes_join)
qed

lemma xts_sector_spec:
  assumes tw: "\<And>b. length b = 16 \<Longrightarrow> length (tw b) = 16" and f: "\<And>b. length b = 16 \<Longrightarrow> length (f b) = 16"
    and "n < 2 ^ 64" and "length inp = 512"
  shows "xts_sector tw f (of_nat n) inp = spec_xts_unit tw f n inp"
proof -
  let ?b = "tw (le_bytes 16 (of_nat n :: 128 word))"
  have lb: "length ?b = 16" by (simp add: tw)
  then have "join (sector_tweak tw (of_nat n)) = le_word (slice 0 8 ?b @ slice 8 8 ?b)"
    using assms(3) by (subst le_word_append_8) (simp_all add: sector_tweak_def sector_index_bytes Let_def)
  also have "slice 0 8 ?b @ slice 8 8 ?b = ?b" using lb by (simp add: slice_def)
  finally show ?thesis
    using assms(4) by (simp add: xts_sector_def xts_consts spec_xts_unit_def spec_tweak_def xts_blocks_join [OF f])
qed

lemma DEF_XTS_PROC_spec:
  assumes tw: "\<And>b. length b = 16 \<Longrightarrow> length (tw b) = 16" and f: "\<And>b. length b = 16 \<Longrightarrow> length (f b) = 16"
    and ok: "xts_len_ok inp len"
  shows "DEF_XTS_PROC tw f inp len offset = Some (spec_xts tw f (unat offset) (take (unat len) inp))"
proof -
  define m where "m = unat len div 512"
  have m: "unat len = 512 * m" "512 * m \<le> length inp" using ok by (auto simp: xts_len_ok_def m_def)
  have small: "unat w < 2 ^ 64" for w :: u64 using unsigned_less [of w, where ?'a = nat] by simp
  have "xts_sector tw f (offset div 512 + of_nat i + 1) (slice (512 * i) 512 inp)
      = spec_xts_unit tw f (unat offset div 512 + i + 1) (slice (512 * i) 512 (take (512 * m) inp))" if i: "i < m" for i
  proof -
    have "offset div 512 + of_nat i + 1 = of_nat (unat offset div 512 + i + 1)"
      by (simp add: word_arith_nat_div)
    moreover have "unat offset div 512 + i + 1 < 2 ^ 64"
      using small [of offset] small [of len] i m(1) by linarith
    moreover have "512 * i + 512 \<le> 512 * m" using i by simp
    ultimately show ?thesis
      using m(2) by (simp only: xts_sector_spec [OF tw f] slice_take length_slice)
  qed
  then have "map (\<lambda>i. xts_sector tw f (offset div 512 + of_nat i + 1) (slice (512 * i) 512 inp)) [0..<m]
      = map (\<lambda>i. spec_xts_unit tw f (unat offset div 512 + i + 1) (slice (512 * i) 512 (take (512 * m) inp))) [0..<m]"
    by (intro map_cong) simp_all
  then show ?thesis
    using m by (simp add: DEF_XTS_PROC_def xts_consts xts_loop_ok [OF ok] spec_xts_def m_def [symmetric] del: map_eq_conv)
qed

section \<open>The contract of an encryption and decryption routine\<close>

type_synonym xts_fun = "bytes \<Rightarrow> u64 \<Rightarrow> u64 \<Rightarrow> bytes option"

locale xts_pair =
  fixes e :: xts_fun and d :: xts_fun
  assumes roundtrip: "xts_len_ok inp len \<Longrightarrow>
      \<exists>out. e inp len offset = Some out \<and> length out = unat len \<and> d out len offset = Some (take (unat len) inp)"
    and reject: "length inp < 2 ^ 64 \<Longrightarrow> \<not> xts_len_ok inp len \<Longrightarrow> e inp len offset = None \<and> d inp len offset = None"
begin

text \<open>A cascade, the other pair outside: encryption in one order, decryption in the other.\<close>

lemma cascade:
  assumes "xts_pair e' d'"
  shows "xts_pair (\<lambda>inp len offset. Option.bind (e inp len offset) (\<lambda>out. e' out len offset))
    (\<lambda>inp len offset. Option.bind (d' inp len offset) (\<lambda>out. d out len offset))"
proof
  fix inp :: bytes and len offset :: u64
  assume "xts_len_ok inp len"
  from roundtrip [OF this] obtain out where
    out: "e inp len offset = Some out" "length out = unat len" "d out len offset = Some (take (unat len) inp)" by blast
  then have "xts_len_ok out len" using \<open>xts_len_ok inp len\<close> by (simp add: xts_len_ok_def)
  from xts_pair.roundtrip [OF assms this] out
  show "\<exists>out. Option.bind (e inp len offset) (\<lambda>out. e' out len offset) = Some out \<and> length out = unat len \<and>
      Option.bind (d' out len offset) (\<lambda>out. d out len offset) = Some (take (unat len) inp)" by fastforce
next
  fix inp :: bytes and len offset :: u64
  assume "length inp < 2 ^ 64" "\<not> xts_len_ok inp len"
  then show "Option.bind (e inp len offset) (\<lambda>out. e' out len offset) = None \<and>
      Option.bind (d' inp len offset) (\<lambda>out. d out len offset) = None"
    using reject xts_pair.reject [OF assms] by simp
qed

end

context block_cipher
begin

lemma template_pair: "valid k \<Longrightarrow> xts_pair (DEF_XTS_PROC tw (enc k)) (DEF_XTS_PROC tw (dec k))"
proof
  fix inp :: bytes and len offset :: u64
  assume "valid k" "xts_len_ok inp len"
  then show "\<exists>out. DEF_XTS_PROC tw (enc k) inp len offset = Some out \<and> length out = unat len \<and>
      DEF_XTS_PROC tw (dec k) out len offset = Some (take (unat len) inp)"
    unfolding DEF_XTS_PROC_def by (intro xts_loop_inverse) (auto simp: length_enc dec_enc)
next
  fix inp :: bytes and len offset :: u64
  assume "length inp < 2 ^ 64" "\<not> xts_len_ok inp len"
  then show "DEF_XTS_PROC tw (enc k) inp len offset = None \<and> DEF_XTS_PROC tw (dec k) inp len offset = None"
    using xts_loop_SomeD unfolding DEF_XTS_PROC_def by (metis not_None_eq)
qed

end

section \<open>Properties\<close>

text \<open>
  C14 (equivalence): The scalar template computes XTS: for every length-preserving tweak and block function, every
  volume offset and every request the buffer holds, the output is the XTS transform of the requested
  bytes, the 64-bit tweak halves and carries of the code being multiplication by alpha in \<open>GF(2^128)\<close>.
\<close>

theorem xts_template_computes_xts:
  assumes "\<And>b. length b = 16 \<Longrightarrow> length (tweak_fn b) = 16" and "\<And>b. length b = 16 \<Longrightarrow> length (crypt_fn b) = 16"
    and "xts_len_ok inp len"
  shows "DEF_XTS_PROC tweak_fn crypt_fn inp len offset = Some (spec_xts tweak_fn crypt_fn (unat offset) (take (unat len) inp))"
  by (rule DEF_XTS_PROC_spec) (fact assms)+

theorem xts_template_computes_xts_witness:
  "DEF_XTS_PROC rev rev (replicate 1024 7) 1024 2048 = Some (spec_xts rev rev 2048 (replicate 1024 7))"
  using xts_template_computes_xts [of rev rev "replicate 1024 7" 1024 2048] by (simp add: xts_len_ok_def)

text \<open>
  The loop stays inside the buffer exactly for requests of a positive multiple of 512 bytes that fit
  it.  A zero length or one that is no multiple of the sector size makes the counter wrap around zero
  and run past the end of every buffer of the address space.
\<close>

theorem xts_template_bounds:
  assumes "length inp < 2 ^ 64"
  shows "(\<exists>out. DEF_XTS_PROC tweak_fn crypt_fn inp len offset = Some out) \<longleftrightarrow>
    0 < unat len \<and> 512 dvd unat len \<and> unat len \<le> length inp"
proof -
  have "(\<exists>out. DEF_XTS_PROC tweak_fn crypt_fn inp len offset = Some out) \<longleftrightarrow> xts_len_ok inp len"
    unfolding DEF_XTS_PROC_def using xts_loop_SomeD [OF assms] by (blast intro: xts_loop_ok)
  then show ?thesis by (simp only: xts_len_ok_def)
qed

theorem xts_template_bounds_witness:
  "DEF_XTS_PROC rev rev (replicate 512 7) 256 0 = None"
proof -
  have "\<not> (\<exists>out. DEF_XTS_PROC rev rev (replicate 512 7) 256 0 = Some out)"
    by (subst xts_template_bounds) simp_all
  then show ?thesis by simp
qed

text \<open>
  Random access: transforming any run of whole sectors of a request on its own, at its own volume
  offset, gives the same bytes as transforming the whole request.
\<close>

theorem xts_template_random_access:
  assumes "xts_len_ok inp len" and "0 < q" and "512 * (p + q) \<le> unat len"
    and "unat offset + 512 * p < 2 ^ 64" and "DEF_XTS_PROC tweak_fn crypt_fn inp len offset = Some out"
  shows "DEF_XTS_PROC tweak_fn crypt_fn (slice (512 * p) (512 * q) inp) (of_nat (512 * q)) (offset + of_nat (512 * p))
    = Some (slice (512 * p) (512 * q) out)"
proof -
  have "unat (offset + of_nat (512 * p)) = unat offset + 512 * p"
    using assms(4) by (simp add: unat_word_ariths unat_of_nat take_bit_nat_eq_self)
  then have "(offset + of_nat (512 * p)) div 512 = offset div 512 + of_nat p"
    by (simp only: word_arith_nat_div) simp
  then show ?thesis
    using xts_random_access [OF assms(1-3)] assms(5) by (simp only: DEF_XTS_PROC_def XTS_SECTOR_SIZE_def) simp
qed

theorem xts_template_random_access_witness:
  "DEF_XTS_PROC rev rev (slice 512 512 (replicate 1024 7)) 512 512
     = Some (slice 512 512 (the (DEF_XTS_PROC rev rev (replicate 1024 7) 1024 0)))"
proof -
  have ok: "xts_len_ok (replicate 1024 7) 1024" by (simp add: xts_len_ok_def)
  then obtain out where "DEF_XTS_PROC rev rev (replicate 1024 7) 1024 0 = Some out"
    unfolding DEF_XTS_PROC_def by (simp add: xts_loop_ok)
  then show ?thesis
    using xts_template_random_access [of "replicate 1024 7" 1024 1 1 0 rev rev out] ok by simp
qed

end
