(* ===== verification/XtsTwofish.thy ===== *)
theory XtsTwofish
  imports XtsMode Twofish
begin

text \<open>
  The interleaved Twofish core (\<^verbatim>\<open>DCrypt/crypto_lib/xts_twofish.c\<close>): four blocks run through the rounds
  side by side, whitening and tweak are folded into one xor, and the tweak of the next sector is derived
  before the current one is processed, except on the last.  The theory shows that all of this computes
  the scalar template instantiated with the scalar cipher, so what holds of the template holds of it.
\<close>

unbundle bit_operations_syntax

section \<open>The code\<close>

type_synonym regs = "u32 \<times> u32 \<times> u32 \<times> u32"

definition LO32 :: "u64 \<Rightarrow> u32" where
  "LO32 v = ucast v"

definition HI32 :: "u64 \<Rightarrow> u32" where
  "HI32 v = ucast (drop_bit 32 v)"

definition LD :: "bytes \<Rightarrow> nat \<Rightarrow> u32" where
  "LD p i = le_word (slice i 4 p)"

text \<open>The round macros take the four registers of each of the four lanes and return the updated third and fourth.\<close>

definition ER4 :: "twofish256_key \<Rightarrow> nat \<Rightarrow> regs \<Rightarrow> regs \<Rightarrow> regs \<Rightarrow> regs \<Rightarrow> (u32 \<times> u32) \<times> (u32 \<times> u32) \<times> (u32 \<times> u32) \<times> (u32 \<times> u32)" where
  "ER4 key n = (\<lambda>(A0, B0, C0, D0) (A1, B1, C1, D1) (A2, B2, C2, D2) (A3, B3, C3, D3).
     (let s = tf_s key; k = tf_k key;
          x0 = G1 s A0; y0 = G2 s B0; x1 = G1 s A1; y1 = G2 s B1;
          x2 = G1 s A2; y2 = G2 s B2; x3 = G1 s A3; y3 = G2 s B3;
          x0 = x0 + y0; x1 = x1 + y1; x2 = x2 + y2; x3 = x3 + y3;
          y0 = y0 + (x0 + k ! (2 * n + 1)); y1 = y1 + (x1 + k ! (2 * n + 1));
          y2 = y2 + (x2 + k ! (2 * n + 1)); y3 = y3 + (x3 + k ! (2 * n + 1));
          x0 = x0 + k ! (2 * n); x1 = x1 + k ! (2 * n); x2 = x2 + k ! (2 * n); x3 = x3 + k ! (2 * n);
          C0 = C0 XOR x0; C0 = ror 1 C0; C1 = C1 XOR x1; C1 = ror 1 C1;
          C2 = C2 XOR x2; C2 = ror 1 C2; C3 = C3 XOR x3; C3 = ror 1 C3;
          D0 = rol 1 D0; D0 = D0 XOR y0; D1 = rol 1 D1; D1 = D1 XOR y1;
          D2 = rol 1 D2; D2 = D2 XOR y2; D3 = rol 1 D3; D3 = D3 XOR y3
      in ((C0, D0), (C1, D1), (C2, D2), (C3, D3))))"

definition DR4 :: "twofish256_key \<Rightarrow> nat \<Rightarrow> regs \<Rightarrow> regs \<Rightarrow> regs \<Rightarrow> regs \<Rightarrow> (u32 \<times> u32) \<times> (u32 \<times> u32) \<times> (u32 \<times> u32) \<times> (u32 \<times> u32)" where
  "DR4 key n = (\<lambda>(A0, B0, C0, D0) (A1, B1, C1, D1) (A2, B2, C2, D2) (A3, B3, C3, D3).
     (let s = tf_s key; k = tf_k key;
          x0 = G1 s A0; y0 = G2 s B0; x1 = G1 s A1; y1 = G2 s B1;
          x2 = G1 s A2; y2 = G2 s B2; x3 = G1 s A3; y3 = G2 s B3;
          x0 = x0 + y0; x1 = x1 + y1; x2 = x2 + y2; x3 = x3 + y3;
          y0 = y0 + (x0 + k ! (2 * n + 1)); y1 = y1 + (x1 + k ! (2 * n + 1));
          y2 = y2 + (x2 + k ! (2 * n + 1)); y3 = y3 + (x3 + k ! (2 * n + 1));
          x0 = x0 + k ! (2 * n); x1 = x1 + k ! (2 * n); x2 = x2 + k ! (2 * n); x3 = x3 + k ! (2 * n);
          D0 = D0 XOR y0; D0 = ror 1 D0; D1 = D1 XOR y1; D1 = ror 1 D1;
          D2 = D2 XOR y2; D2 = ror 1 D2; D3 = D3 XOR y3; D3 = ror 1 D3;
          C0 = rol 1 C0; C0 = C0 XOR x0; C1 = rol 1 C1; C1 = C1 XOR x1;
          C2 = rol 1 C2; C2 = C2 XOR x2; C3 = rol 1 C3; C3 = C3 XOR x3
      in ((C0, D0), (C1, D1), (C2, D2), (C3, D3))))"

type_synonym lanes4 = "regs \<times> regs \<times> regs \<times> regs"

definition ROUNDS_A :: "(regs \<Rightarrow> regs \<Rightarrow> regs \<Rightarrow> regs \<Rightarrow> (u32 \<times> u32) \<times> (u32 \<times> u32) \<times> (u32 \<times> u32) \<times> (u32 \<times> u32)) \<Rightarrow> lanes4 \<Rightarrow> lanes4" where
  "ROUNDS_A M = (\<lambda>((a0, b0, c0, d0), (a1, b1, c1, d1), (a2, b2, c2, d2), (a3, b3, c3, d3)).
     (case M (a0, b0, c0, d0) (a1, b1, c1, d1) (a2, b2, c2, d2) (a3, b3, c3, d3) of
        ((c0, d0), (c1, d1), (c2, d2), (c3, d3)) \<Rightarrow>
          ((a0, b0, c0, d0), (a1, b1, c1, d1), (a2, b2, c2, d2), (a3, b3, c3, d3))))"

definition ROUNDS_B :: "(regs \<Rightarrow> regs \<Rightarrow> regs \<Rightarrow> regs \<Rightarrow> (u32 \<times> u32) \<times> (u32 \<times> u32) \<times> (u32 \<times> u32) \<times> (u32 \<times> u32)) \<Rightarrow> lanes4 \<Rightarrow> lanes4" where
  "ROUNDS_B M = (\<lambda>((a0, b0, c0, d0), (a1, b1, c1, d1), (a2, b2, c2, d2), (a3, b3, c3, d3)).
     (case M (c0, d0, a0, b0) (c1, d1, a1, b1) (c2, d2, a2, b2) (c3, d3, a3, b3) of
        ((a0, b0), (a1, b1), (a2, b2), (a3, b3)) \<Rightarrow>
          ((a0, b0, c0, d0), (a1, b1, c1, d1), (a2, b2, c2, d2), (a3, b3, c3, d3))))"

definition ENCRYPT_16 :: "twofish256_key \<Rightarrow> lanes4 \<Rightarrow> lanes4" where
  "ENCRYPT_16 key st =
     (let st = ROUNDS_A (ER4 key 0) st; st = ROUNDS_B (ER4 key 1) st;
          st = ROUNDS_A (ER4 key 2) st; st = ROUNDS_B (ER4 key 3) st;
          st = ROUNDS_A (ER4 key 4) st; st = ROUNDS_B (ER4 key 5) st;
          st = ROUNDS_A (ER4 key 6) st; st = ROUNDS_B (ER4 key 7) st;
          st = ROUNDS_A (ER4 key 8) st; st = ROUNDS_B (ER4 key 9) st;
          st = ROUNDS_A (ER4 key 10) st; st = ROUNDS_B (ER4 key 11) st;
          st = ROUNDS_A (ER4 key 12) st; st = ROUNDS_B (ER4 key 13) st;
          st = ROUNDS_A (ER4 key 14) st; st = ROUNDS_B (ER4 key 15) st
      in st)"

definition DECRYPT_16 :: "twofish256_key \<Rightarrow> lanes4 \<Rightarrow> lanes4" where
  "DECRYPT_16 key st =
     (let st = ROUNDS_B (DR4 key 15) st; st = ROUNDS_A (DR4 key 14) st;
          st = ROUNDS_B (DR4 key 13) st; st = ROUNDS_A (DR4 key 12) st;
          st = ROUNDS_B (DR4 key 11) st; st = ROUNDS_A (DR4 key 10) st;
          st = ROUNDS_B (DR4 key 9) st; st = ROUNDS_A (DR4 key 8) st;
          st = ROUNDS_B (DR4 key 7) st; st = ROUNDS_A (DR4 key 6) st;
          st = ROUNDS_B (DR4 key 5) st; st = ROUNDS_A (DR4 key 4) st;
          st = ROUNDS_B (DR4 key 3) st; st = ROUNDS_A (DR4 key 2) st;
          st = ROUNDS_B (DR4 key 1) st; st = ROUNDS_A (DR4 key 0) st
      in st)"

text \<open>\<^verbatim>\<open>XTS_TF_LOAD_TWEAKS\<close>: the tweaks of the next four blocks, and the one after them.\<close>

definition load_tweaks :: "tweak \<Rightarrow> u64 list \<times> tweak" where
  "load_tweaks t = fold (\<lambda>j (kt, (t0, t1)). (kt @ [t0, t1], tweak_next (t0, t1))) [0..<4] ([], t)"

text \<open>One pass of the inner loop: 64 bytes in, 64 bytes out.\<close>

definition xts_tf_enc4 :: "twofish256_key \<Rightarrow> u64 list \<Rightarrow> bytes \<Rightarrow> bytes" where
  "xts_tf_enc4 key kt inp =
     (let w = tf_w key;
          st = ((LD inp 0 XOR LO32 (kt ! 0) XOR w ! 0, LD inp 4 XOR HI32 (kt ! 0) XOR w ! 1, LD inp 8 XOR LO32 (kt ! 1) XOR w ! 2, LD inp 12 XOR HI32 (kt ! 1) XOR w ! 3),
                (LD inp 16 XOR LO32 (kt ! 2) XOR w ! 0, LD inp 20 XOR HI32 (kt ! 2) XOR w ! 1, LD inp 24 XOR LO32 (kt ! 3) XOR w ! 2, LD inp 28 XOR HI32 (kt ! 3) XOR w ! 3),
                (LD inp 32 XOR LO32 (kt ! 4) XOR w ! 0, LD inp 36 XOR HI32 (kt ! 4) XOR w ! 1, LD inp 40 XOR LO32 (kt ! 5) XOR w ! 2, LD inp 44 XOR HI32 (kt ! 5) XOR w ! 3),
                (LD inp 48 XOR LO32 (kt ! 6) XOR w ! 0, LD inp 52 XOR HI32 (kt ! 6) XOR w ! 1, LD inp 56 XOR LO32 (kt ! 7) XOR w ! 2, LD inp 60 XOR HI32 (kt ! 7) XOR w ! 3))
      in case ENCRYPT_16 key st of ((a0, b0, c0, d0), (a1, b1, c1, d1), (a2, b2, c2, d2), (a3, b3, c3, d3)) \<Rightarrow>
           le_bytes 4 (c0 XOR w ! 4 XOR LO32 (kt ! 0)) @ le_bytes 4 (d0 XOR w ! 5 XOR HI32 (kt ! 0)) @ le_bytes 4 (a0 XOR w ! 6 XOR LO32 (kt ! 1)) @ le_bytes 4 (b0 XOR w ! 7 XOR HI32 (kt ! 1)) @
           le_bytes 4 (c1 XOR w ! 4 XOR LO32 (kt ! 2)) @ le_bytes 4 (d1 XOR w ! 5 XOR HI32 (kt ! 2)) @ le_bytes 4 (a1 XOR w ! 6 XOR LO32 (kt ! 3)) @ le_bytes 4 (b1 XOR w ! 7 XOR HI32 (kt ! 3)) @
           le_bytes 4 (c2 XOR w ! 4 XOR LO32 (kt ! 4)) @ le_bytes 4 (d2 XOR w ! 5 XOR HI32 (kt ! 4)) @ le_bytes 4 (a2 XOR w ! 6 XOR LO32 (kt ! 5)) @ le_bytes 4 (b2 XOR w ! 7 XOR HI32 (kt ! 5)) @
           le_bytes 4 (c3 XOR w ! 4 XOR LO32 (kt ! 6)) @ le_bytes 4 (d3 XOR w ! 5 XOR HI32 (kt ! 6)) @ le_bytes 4 (a3 XOR w ! 6 XOR LO32 (kt ! 7)) @ le_bytes 4 (b3 XOR w ! 7 XOR HI32 (kt ! 7)))"

definition xts_tf_dec4 :: "twofish256_key \<Rightarrow> u64 list \<Rightarrow> bytes \<Rightarrow> bytes" where
  "xts_tf_dec4 key kt inp =
     (let w = tf_w key;
          st = ((LD inp 8 XOR LO32 (kt ! 1) XOR w ! 6, LD inp 12 XOR HI32 (kt ! 1) XOR w ! 7, LD inp 0 XOR LO32 (kt ! 0) XOR w ! 4, LD inp 4 XOR HI32 (kt ! 0) XOR w ! 5),
                (LD inp 24 XOR LO32 (kt ! 3) XOR w ! 6, LD inp 28 XOR HI32 (kt ! 3) XOR w ! 7, LD inp 16 XOR LO32 (kt ! 2) XOR w ! 4, LD inp 20 XOR HI32 (kt ! 2) XOR w ! 5),
                (LD inp 40 XOR LO32 (kt ! 5) XOR w ! 6, LD inp 44 XOR HI32 (kt ! 5) XOR w ! 7, LD inp 32 XOR LO32 (kt ! 4) XOR w ! 4, LD inp 36 XOR HI32 (kt ! 4) XOR w ! 5),
                (LD inp 56 XOR LO32 (kt ! 7) XOR w ! 6, LD inp 60 XOR HI32 (kt ! 7) XOR w ! 7, LD inp 48 XOR LO32 (kt ! 6) XOR w ! 4, LD inp 52 XOR HI32 (kt ! 6) XOR w ! 5))
      in case DECRYPT_16 key st of ((a0, b0, c0, d0), (a1, b1, c1, d1), (a2, b2, c2, d2), (a3, b3, c3, d3)) \<Rightarrow>
           le_bytes 4 (a0 XOR w ! 0 XOR LO32 (kt ! 0)) @ le_bytes 4 (b0 XOR w ! 1 XOR HI32 (kt ! 0)) @ le_bytes 4 (c0 XOR w ! 2 XOR LO32 (kt ! 1)) @ le_bytes 4 (d0 XOR w ! 3 XOR HI32 (kt ! 1)) @
           le_bytes 4 (a1 XOR w ! 0 XOR LO32 (kt ! 2)) @ le_bytes 4 (b1 XOR w ! 1 XOR HI32 (kt ! 2)) @ le_bytes 4 (c1 XOR w ! 2 XOR LO32 (kt ! 3)) @ le_bytes 4 (d1 XOR w ! 3 XOR HI32 (kt ! 3)) @
           le_bytes 4 (a2 XOR w ! 0 XOR LO32 (kt ! 4)) @ le_bytes 4 (b2 XOR w ! 1 XOR HI32 (kt ! 4)) @ le_bytes 4 (c2 XOR w ! 2 XOR LO32 (kt ! 5)) @ le_bytes 4 (d2 XOR w ! 3 XOR HI32 (kt ! 5)) @
           le_bytes 4 (a3 XOR w ! 0 XOR LO32 (kt ! 6)) @ le_bytes 4 (b3 XOR w ! 1 XOR HI32 (kt ! 6)) @ le_bytes 4 (c3 XOR w ! 2 XOR LO32 (kt ! 7)) @ le_bytes 4 (d3 XOR w ! 3 XOR HI32 (kt ! 7)))"

primrec xts_tf_groups :: "(u64 list \<Rightarrow> bytes \<Rightarrow> bytes) \<Rightarrow> nat \<Rightarrow> tweak \<Rightarrow> bytes \<Rightarrow> bytes" where
  "xts_tf_groups crypt4 0 t inp = []"
| "xts_tf_groups crypt4 (Suc n) t inp =
     (case load_tweaks t of (kt, t) \<Rightarrow>
        crypt4 kt (take (XTS_BLOCK_SIZE * 4) inp) @ xts_tf_groups crypt4 n t (drop (XTS_BLOCK_SIZE * 4) inp))"

text \<open>The sector loop with the tweak \<open>t\<close> of the current sector at hand.\<close>

function xts_tf_loop :: "twofish256_key \<Rightarrow> (u64 list \<Rightarrow> bytes \<Rightarrow> bytes) \<Rightarrow> u64 \<Rightarrow> tweak \<Rightarrow> bytes \<Rightarrow> u64 \<Rightarrow> bytes option" where
  "xts_tf_loop tweak_k crypt4 sector t inp len =
     (let len = len - of_nat XTS_SECTOR_SIZE;
          more = (len \<noteq> 0);
          nx = (if more then sector_tweak (twofish256_encrypt tweak_k) (sector + 1) else t);
          sector = sector + 1
      in if length inp < XTS_SECTOR_SIZE then None
         else let out = xts_tf_groups crypt4 (XTS_BLOCKS_IN_SECTOR div 4) t (take XTS_SECTOR_SIZE inp)
              in if \<not> more then Some out
                 else map_option (\<lambda>rest. out @ rest) (xts_tf_loop tweak_k crypt4 sector nx (drop XTS_SECTOR_SIZE inp) len))"
  by pat_completeness auto

termination
  by (relation "measure (\<lambda>(_, _, _, _, inp, _). length inp)") (auto simp: XTS_SECTOR_SIZE_def)

declare xts_tf_loop.simps [simp del]

definition xts_tf_run :: "twofish256_key \<Rightarrow> (u64 list \<Rightarrow> bytes \<Rightarrow> bytes) \<Rightarrow> bytes \<Rightarrow> u64 \<Rightarrow> u64 \<Rightarrow> bytes option" where
  "xts_tf_run tweak_k crypt4 inp len offset =
     (let sector = offset div of_nat XTS_SECTOR_SIZE + 1
      in xts_tf_loop tweak_k crypt4 sector (sector_tweak (twofish256_encrypt tweak_k) sector) inp len)"

definition xts_twofish_encrypt :: "twofish256_key \<Rightarrow> twofish256_key \<Rightarrow> bytes \<Rightarrow> u64 \<Rightarrow> u64 \<Rightarrow> bytes option" where
  "xts_twofish_encrypt crypt_k tweak_k = xts_tf_run tweak_k (xts_tf_enc4 crypt_k)"

definition xts_twofish_decrypt :: "twofish256_key \<Rightarrow> twofish256_key \<Rightarrow> bytes \<Rightarrow> u64 \<Rightarrow> u64 \<Rightarrow> bytes option" where
  "xts_twofish_decrypt crypt_k tweak_k = xts_tf_run tweak_k (xts_tf_dec4 crypt_k)"

section \<open>Lanes are independent\<close>

definition lane_st :: "regs \<Rightarrow> (u32 \<times> u32) \<times> (u32 \<times> u32)" where
  "lane_st = (\<lambda>(a, b, c, d). ((a, b), (c, d)))"

definition st_lane :: "(u32 \<times> u32) \<times> (u32 \<times> u32) \<Rightarrow> regs" where
  "st_lane = (\<lambda>((a, b), (c, d)). (a, b, c, d))"

definition lanewise :: "((u32 \<times> u32) \<times> (u32 \<times> u32) \<Rightarrow> (u32 \<times> u32) \<times> (u32 \<times> u32)) \<Rightarrow> lanes4 \<Rightarrow> lanes4" where
  "lanewise f = (\<lambda>(l0, l1, l2, l3).
     (st_lane (f (lane_st l0)), st_lane (f (lane_st l1)), st_lane (f (lane_st l2)), st_lane (f (lane_st l3))))"

lemma lane_st_inverse [simp]: "lane_st (st_lane s) = s" "st_lane (lane_st l) = l"
  by (cases s; simp add: lane_st_def st_lane_def case_prod_beta)
     (cases l; simp add: lane_st_def st_lane_def)

lemma lanewise_comp: "lanewise f (lanewise g st) = lanewise (\<lambda>s. f (g s)) st"
  by (cases st) (simp add: lanewise_def)

lemma ER4_lanes:
  "ER4 key n (A0, B0, C0, D0) (A1, B1, C1, D1) (A2, B2, C2, D2) (A3, B3, C3, D3) =
     (TF_ENC_ROUND key n (A0, B0) (C0, D0), TF_ENC_ROUND key n (A1, B1) (C1, D1),
      TF_ENC_ROUND key n (A2, B2) (C2, D2), TF_ENC_ROUND key n (A3, B3) (C3, D3))"
  by (simp add: ER4_def TF_ENC_ROUND_def Let_def)

lemma DR4_lanes:
  "DR4 key n (A0, B0, C0, D0) (A1, B1, C1, D1) (A2, B2, C2, D2) (A3, B3, C3, D3) =
     (TF_DEC_ROUND key n (A0, B0) (C0, D0), TF_DEC_ROUND key n (A1, B1) (C1, D1),
      TF_DEC_ROUND key n (A2, B2) (C2, D2), TF_DEC_ROUND key n (A3, B3) (C3, D3))"
  by (simp add: DR4_def TF_DEC_ROUND_def Let_def)

lemma enc_pair_lanes: "ROUNDS_B (ER4 key (n + 1)) (ROUNDS_A (ER4 key n) st) = lanewise (TF_ENC_PAIR key n) st"
  by (cases st) (simp add: ROUNDS_A_def ROUNDS_B_def ER4_lanes lanewise_def lane_st_def st_lane_def TF_ENC_PAIR_def Let_def
      case_prod_beta)

lemma dec_pair_lanes: "ROUNDS_A (DR4 key n) (ROUNDS_B (DR4 key (n + 1)) st) = lanewise (TF_DEC_PAIR key n) st"
  by (cases st) (simp add: ROUNDS_A_def ROUNDS_B_def DR4_lanes lanewise_def lane_st_def st_lane_def TF_DEC_PAIR_def Let_def
      case_prod_beta)

lemma ENCRYPT_16_lanes: "ENCRYPT_16 key st = lanewise (tf_enc_net key) st"
  using enc_pair_lanes [of key 0] enc_pair_lanes [of key 2] enc_pair_lanes [of key 4] enc_pair_lanes [of key 6]
    enc_pair_lanes [of key 8] enc_pair_lanes [of key 10] enc_pair_lanes [of key 12] enc_pair_lanes [of key 14]
  by (simp add: ENCRYPT_16_def Let_def lanewise_comp tf_enc_net_def comp_def)

lemma DECRYPT_16_lanes: "DECRYPT_16 key st = lanewise (tf_dec_net key) st"
  using dec_pair_lanes [of key 0] dec_pair_lanes [of key 2] dec_pair_lanes [of key 4] dec_pair_lanes [of key 6]
    dec_pair_lanes [of key 8] dec_pair_lanes [of key 10] dec_pair_lanes [of key 12] dec_pair_lanes [of key 14]
  by (simp add: DECRYPT_16_def Let_def lanewise_comp tf_dec_net_def comp_def)

section \<open>A tweak on 32-bit words\<close>

lemma le_bytes_8_halves: "le_bytes 8 v = le_bytes 4 (LO32 v) @ le_bytes 4 (HI32 v)"
proof (rule nth_equalityI)
  fix i assume "i < length (le_bytes 8 v)"
  then have i: "i < 8" by simp
  show "le_bytes 8 v ! i = (le_bytes 4 (LO32 v) @ le_bytes 4 (HI32 v)) ! i"
  proof (rule bit_word_eqI)
    fix j assume j: "j < LENGTH(8)"
    show "bit (le_bytes 8 v ! i) j = bit ((le_bytes 4 (LO32 v) @ le_bytes 4 (HI32 v)) ! i) j"
    proof (cases "i < 4")
      case True
      then show ?thesis using j by (simp add: nth_append bit_nth_le_bytes LO32_def bit_unsigned_iff)
    next
      case False
      then obtain k where "i = 4 + k" using le_Suc_ex by fastforce
      then show ?thesis using i j by (simp add: nth_append bit_nth_le_bytes HI32_def bit_simps algebra_simps)
    qed
  qed
qed simp

lemma halves_xor: "LO32 (u XOR v) = LO32 u XOR LO32 v" "HI32 (u XOR v) = HI32 u XOR HI32 v"
  by (rule bit_word_eqI; auto simp: LO32_def HI32_def bit_simps)+

lemma halves_le_word:
  assumes "length p = 8"
  shows "LO32 (le_word p) = le_word (take 4 p)" "HI32 (le_word p) = le_word (drop 4 p)"
proof -
  show "LO32 (le_word p) = le_word (take 4 p)"
  proof (rule bit_word_eqI)
    fix n assume n: "n < LENGTH(32)"
    then have "n div 8 < 4" by auto
    then show "bit (LO32 (le_word p)) n = bit (le_word (take 4 p) :: u32) n"
      using n assms by (simp add: LO32_def bit_unsigned_iff bit_le_word)
  qed
  show "HI32 (le_word p) = le_word (drop 4 p)"
  proof (rule bit_word_eqI)
    fix n assume n: "n < LENGTH(32)"
    then have "n div 8 < 4" by auto
    moreover have "(32 + n) div 8 = 4 + n div 8" "(32 + n) mod 8 = n mod 8" by presburger+
    ultimately show "bit (HI32 (le_word p)) n = bit (le_word (drop 4 p) :: u32) n"
      using n assms by (simp add: HI32_def bit_simps bit_le_word)
  qed
qed

lemma xor_tweak_words:
  assumes "length b = 16"
  shows "xor_tweak (t0, t1) b = le_bytes 4 (twofish_load b 0 XOR LO32 t0) @ le_bytes 4 (twofish_load b 1 XOR HI32 t0) @
    le_bytes 4 (twofish_load b 2 XOR LO32 t1) @ le_bytes 4 (twofish_load b 3 XOR HI32 t1)"
  using assms by (simp add: xor_tweak_def le_bytes_8_halves halves_xor halves_le_word twofish_load_def slice_def drop_take)

lemma xor_tweak_store:
  "xor_tweak (t0, t1) (le_bytes 4 a @ le_bytes 4 b @ le_bytes 4 c @ le_bytes 4 d) =
     le_bytes 4 (a XOR LO32 t0) @ le_bytes 4 (b XOR HI32 t0) @ le_bytes 4 (c XOR LO32 t1) @ le_bytes 4 (d XOR HI32 t1)"
  by (subst xor_tweak_words) simp_all

lemma xts_block_twofish_enc:
  assumes "length b = 16"
  shows "xts_block (twofish256_encrypt key) (t0, t1) b =
    (case tf_enc_net key ((twofish_load b 0 XOR LO32 t0 XOR tf_w key ! 0, twofish_load b 1 XOR HI32 t0 XOR tf_w key ! 1),
         (twofish_load b 2 XOR LO32 t1 XOR tf_w key ! 2, twofish_load b 3 XOR HI32 t1 XOR tf_w key ! 3)) of
       ((a, b), (c, d)) \<Rightarrow>
         le_bytes 4 (c XOR tf_w key ! 4 XOR LO32 t0) @ le_bytes 4 (d XOR tf_w key ! 5 XOR HI32 t0) @
         le_bytes 4 (a XOR tf_w key ! 6 XOR LO32 t1) @ le_bytes 4 (b XOR tf_w key ! 7 XOR HI32 t1))"
  using assms by (simp add: xts_block_def xor_tweak_words [OF assms] twofish256_encrypt_net xor_tweak_store xor.assoc split: prod.split)

lemma xts_block_twofish_dec:
  assumes "length b = 16"
  shows "xts_block (twofish256_decrypt key) (t0, t1) b =
    (case tf_dec_net key ((twofish_load b 2 XOR LO32 t1 XOR tf_w key ! 6, twofish_load b 3 XOR HI32 t1 XOR tf_w key ! 7),
         (twofish_load b 0 XOR LO32 t0 XOR tf_w key ! 4, twofish_load b 1 XOR HI32 t0 XOR tf_w key ! 5)) of
       ((a, b), (c, d)) \<Rightarrow>
         le_bytes 4 (a XOR tf_w key ! 0 XOR LO32 t0) @ le_bytes 4 (b XOR tf_w key ! 1 XOR HI32 t0) @
         le_bytes 4 (c XOR tf_w key ! 2 XOR LO32 t1) @ le_bytes 4 (d XOR tf_w key ! 3 XOR HI32 t1))"
  using assms by (simp add: xts_block_def xor_tweak_words [OF assms] twofish256_decrypt_net xor_tweak_store xor.assoc split: prod.split)

section \<open>Four blocks, a sector, the loop\<close>

lemma LD_load: "j < 4 \<Longrightarrow> LD inp (o' + 4 * j) = twofish_load (slice o' 16 inp) j"
  by (simp add: LD_def twofish_load_def slice_def drop_take take_take min_def add.commute)

lemmas LD_loads =
  LD_load [of 0 _ 0] LD_load [of 1 _ 0] LD_load [of 2 _ 0] LD_load [of 3 _ 0]
  LD_load [of 0 _ 16] LD_load [of 1 _ 16] LD_load [of 2 _ 16] LD_load [of 3 _ 16]
  LD_load [of 0 _ 32] LD_load [of 1 _ 32] LD_load [of 2 _ 32] LD_load [of 3 _ 32]
  LD_load [of 0 _ 48] LD_load [of 1 _ 48] LD_load [of 2 _ 48] LD_load [of 3 _ 48]

definition crypt4_of :: "(bytes \<Rightarrow> bytes) \<Rightarrow> u64 list \<Rightarrow> bytes \<Rightarrow> bytes" where
  "crypt4_of f kt inp = xts_block f (kt ! 0, kt ! 1) (slice 0 16 inp) @ xts_block f (kt ! 2, kt ! 3) (slice 16 16 inp) @
     xts_block f (kt ! 4, kt ! 5) (slice 32 16 inp) @ xts_block f (kt ! 6, kt ! 7) (slice 48 16 inp)"

lemma xts_tf_enc4_eq: "length inp = 64 \<Longrightarrow> xts_tf_enc4 key kt inp = crypt4_of (twofish256_encrypt key) kt inp"
  by (simp add: xts_tf_enc4_def crypt4_of_def xts_block_twofish_enc ENCRYPT_16_lanes lanewise_def lane_st_def st_lane_def
      Let_def LD_loads [simplified] case_prod_beta)

lemma xts_tf_dec4_eq: "length inp = 64 \<Longrightarrow> xts_tf_dec4 key kt inp = crypt4_of (twofish256_decrypt key) kt inp"
  by (simp add: xts_tf_dec4_def crypt4_of_def xts_block_twofish_dec DECRYPT_16_lanes lanewise_def lane_st_def st_lane_def
      Let_def LD_loads [simplified] case_prod_beta)

lemma load_tweaks_eq:
  "load_tweaks t =
     (let t1 = tweak_next t; t2 = tweak_next t1; t3 = tweak_next t2
      in ([fst t, snd t, fst t1, snd t1, fst t2, snd t2, fst t3, snd t3], tweak_next t3))"
  by (simp add: load_tweaks_def upt_conv_Cons case_prod_beta Let_def)

lemma xts_tf_groups_eq:
  assumes c4: "\<And>kt inp. length inp = 64 \<Longrightarrow> crypt4 kt inp = crypt4_of f kt inp"
  shows "length inp = 64 * n \<Longrightarrow> xts_tf_groups crypt4 n t inp = xts_blocks f (4 * n) t inp"
proof (induction n arbitrary: t inp)
  case (Suc n)
  have "4 * Suc n = Suc (Suc (Suc (Suc (4 * n))))" by simp
  moreover have "slice 16 16 inp = take 16 (drop 16 inp)" "slice 32 16 inp = take 16 (drop 16 (drop 16 inp))"
    "slice 48 16 inp = take 16 (drop 16 (drop 16 (drop 16 inp)))" by (simp_all add: slice_def)
  ultimately show ?case
    using Suc by (simp only: xts_blocks.simps xts_tf_groups.simps load_tweaks_eq Let_def prod.case)
      (simp add: c4 crypt4_of_def xts_consts slice_take slice_def [of 0])
qed simp

lemma xts_tf_loop_eq:
  assumes c4: "\<And>kt inp. length inp = 64 \<Longrightarrow> crypt4 kt inp = crypt4_of f kt inp"
  shows "xts_tf_loop tweak_k crypt4 (sector + 1) (sector_tweak (twofish256_encrypt tweak_k) (sector + 1)) inp len
    = xts_loop (twofish256_encrypt tweak_k) f sector inp len"
proof (induction "length inp" arbitrary: sector inp len rule: less_induct)
  case less
  show ?case
  proof (cases "length inp < 512")
    case True
    then show ?thesis
      by (simp add: xts_tf_loop.simps [of _ _ _ _ inp] xts_loop.simps [of _ _ _ inp] xts_consts)
  next
    case False
    then have "xts_tf_groups crypt4 8 (sector_tweak (twofish256_encrypt tweak_k) (sector + 1)) (take 512 inp) =
        xts_sector (twofish256_encrypt tweak_k) f (sector + 1) (take 512 inp)"
      using c4 by (subst xts_tf_groups_eq) (auto simp: xts_sector_def xts_consts)
    then show ?thesis
      using False less.hyps [of "drop 512 inp" "sector + 1" "len - 512"]
      by (subst xts_tf_loop.simps, subst xts_loop.simps) (simp add: xts_consts Let_def)
  qed
qed

lemma xts_twofish_template:
  "xts_twofish_encrypt ck tk = DEF_XTS_PROC (twofish256_encrypt tk) (twofish256_encrypt ck)"
  "xts_twofish_decrypt ck tk = DEF_XTS_PROC (twofish256_encrypt tk) (twofish256_decrypt ck)"
  using xts_tf_loop_eq [OF xts_tf_enc4_eq] xts_tf_loop_eq [OF xts_tf_dec4_eq]
  by (auto simp: fun_eq_iff xts_twofish_encrypt_def xts_twofish_decrypt_def xts_tf_run_def DEF_XTS_PROC_def Let_def)

lemma xts_twofish_pair: "xts_pair (xts_twofish_encrypt ck tk) (xts_twofish_decrypt ck tk)"
  by (simp add: xts_twofish_template block_cipher.template_pair [OF twofish.block_cipher_axioms])

section \<open>Properties\<close>

text \<open>
  C34 (equivalence): The interleaved Twofish core is the scalar XTS template over the scalar cipher: for every key
  material, buffer, length and offset both directions give the same output, and run past the buffer in
  the same cases.
\<close>

theorem xts_twofish_equals_template:
  "xts_twofish_encrypt crypt_k tweak_k inp len offset =
     DEF_XTS_PROC (twofish256_encrypt tweak_k) (twofish256_encrypt crypt_k) inp len offset \<and>
   xts_twofish_decrypt crypt_k tweak_k inp len offset =
     DEF_XTS_PROC (twofish256_encrypt tweak_k) (twofish256_decrypt crypt_k) inp len offset"
  by (simp add: xts_twofish_template)

end
