(* ===== verification/AesKey.thy ===== *)
theory AesKey
  imports Cipher Gf256
begin

text \<open>
  The AES-256 key schedule (\<^verbatim>\<open>DCrypt/crypto_lib/aes_key.c\<close>).  The block transforms that consume it are
  assembler or instruction-set cores outside the C sources; here they are the cipher of FIPS-197 and its
  equivalent inverse cipher, written over the same 32-bit columns, and serve as the reference the
  schedule is judged by (the S-box table is written once for both): the encryption schedule is the FIPS-197 key expansion, and with the
  decryption schedule the equivalent inverse cipher undoes the cipher.
\<close>

unbundle bit_operations_syntax

section \<open>The code\<close>

definition sbox :: "u8 list" where
  "sbox =
    [0x63, 0x7C, 0x77, 0x7B, 0xF2, 0x6B, 0x6F, 0xC5, 0x30, 0x01, 0x67, 0x2B,
     0xFE, 0xD7, 0xAB, 0x76, 0xCA, 0x82, 0xC9, 0x7D, 0xFA, 0x59, 0x47, 0xF0,
     0xAD, 0xD4, 0xA2, 0xAF, 0x9C, 0xA4, 0x72, 0xC0, 0xB7, 0xFD, 0x93, 0x26,
     0x36, 0x3F, 0xF7, 0xCC, 0x34, 0xA5, 0xE5, 0xF1, 0x71, 0xD8, 0x31, 0x15,
     0x04, 0xC7, 0x23, 0xC3, 0x18, 0x96, 0x05, 0x9A, 0x07, 0x12, 0x80, 0xE2,
     0xEB, 0x27, 0xB2, 0x75, 0x09, 0x83, 0x2C, 0x1A, 0x1B, 0x6E, 0x5A, 0xA0,
     0x52, 0x3B, 0xD6, 0xB3, 0x29, 0xE3, 0x2F, 0x84, 0x53, 0xD1, 0x00, 0xED,
     0x20, 0xFC, 0xB1, 0x5B, 0x6A, 0xCB, 0xBE, 0x39, 0x4A, 0x4C, 0x58, 0xCF,
     0xD0, 0xEF, 0xAA, 0xFB, 0x43, 0x4D, 0x33, 0x85, 0x45, 0xF9, 0x02, 0x7F,
     0x50, 0x3C, 0x9F, 0xA8, 0x51, 0xA3, 0x40, 0x8F, 0x92, 0x9D, 0x38, 0xF5,
     0xBC, 0xB6, 0xDA, 0x21, 0x10, 0xFF, 0xF3, 0xD2, 0xCD, 0x0C, 0x13, 0xEC,
     0x5F, 0x97, 0x44, 0x17, 0xC4, 0xA7, 0x7E, 0x3D, 0x64, 0x5D, 0x19, 0x73,
     0x60, 0x81, 0x4F, 0xDC, 0x22, 0x2A, 0x90, 0x88, 0x46, 0xEE, 0xB8, 0x14,
     0xDE, 0x5E, 0x0B, 0xDB, 0xE0, 0x32, 0x3A, 0x0A, 0x49, 0x06, 0x24, 0x5C,
     0xC2, 0xD3, 0xAC, 0x62, 0x91, 0x95, 0xE4, 0x79, 0xE7, 0xC8, 0x37, 0x6D,
     0x8D, 0xD5, 0x4E, 0xA9, 0x6C, 0x56, 0xF4, 0xEA, 0x65, 0x7A, 0xAE, 0x08,
     0xBA, 0x78, 0x25, 0x2E, 0x1C, 0xA6, 0xB4, 0xC6, 0xE8, 0xDD, 0x74, 0x1F,
     0x4B, 0xBD, 0x8B, 0x8A, 0x70, 0x3E, 0xB5, 0x66, 0x48, 0x03, 0xF6, 0x0E,
     0x61, 0x35, 0x57, 0xB9, 0x86, 0xC1, 0x1D, 0x9E, 0xE1, 0xF8, 0x98, 0x11,
     0x69, 0xD9, 0x8E, 0x94, 0x9B, 0x1E, 0x87, 0xE9, 0xCE, 0x55, 0x28, 0xDF,
     0x8C, 0xA1, 0x89, 0x0D, 0xBF, 0xE6, 0x42, 0x68, 0x41, 0x99, 0x2D, 0x0F,
     0xB0, 0x54, 0xBB, 0x16]"

definition aes_byte :: "u32 \<Rightarrow> nat \<Rightarrow> u8" where
  "aes_byte w n = ucast (drop_bit (8 * n) w)"

definition xtime :: "u8 \<Rightarrow> u8" where
  "xtime a = push_bit 1 a XOR (if a AND 0x80 \<noteq> 0 then 0x1B else 0x00)"

function gmul_loop :: "u8 \<Rightarrow> u8 \<Rightarrow> u8 \<Rightarrow> u8" where
  "gmul_loop a b r =
     (if b = 0 then r
      else let r = (if b AND 1 \<noteq> 0 then r XOR a else r);
               a = xtime a;
               b = drop_bit 1 b
           in gmul_loop a b r)"
  by pat_completeness auto

termination
  by (relation "measure (\<lambda>(a, b, r). unat b)") (simp_all only: in_measure wf_measure prod.case unat_drop_bit_1_less not_False_eq_True)

declare gmul_loop.simps [simp del]

definition gmul :: "u8 \<Rightarrow> u8 \<Rightarrow> u8" where
  "gmul a b = gmul_loop a b 0"

definition sub_word :: "u32 \<Rightarrow> u32" where
  "sub_word w =
     ucast (sbox ! unat (aes_byte w 0))
       OR push_bit 8 (ucast (sbox ! unat (aes_byte w 1)))
       OR push_bit 16 (ucast (sbox ! unat (aes_byte w 2)))
       OR push_bit 24 (ucast (sbox ! unat (aes_byte w 3)))"

definition rot_word :: "u32 \<Rightarrow> u32" where
  "rot_word w = drop_bit 8 w OR push_bit 24 w"

definition inv_mix_column :: "u32 \<Rightarrow> u32" where
  "inv_mix_column w =
     (let s0 = aes_byte w 0; s1 = aes_byte w 1; s2 = aes_byte w 2; s3 = aes_byte w 3;
          t0 = gmul s0 0x0E XOR gmul s1 0x0B XOR gmul s2 0x0D XOR gmul s3 0x09;
          t1 = gmul s0 0x09 XOR gmul s1 0x0E XOR gmul s2 0x0B XOR gmul s3 0x0D;
          t2 = gmul s0 0x0D XOR gmul s1 0x09 XOR gmul s2 0x0E XOR gmul s3 0x0B;
          t3 = gmul s0 0x0B XOR gmul s1 0x0D XOR gmul s2 0x09 XOR gmul s3 0x0E
      in ucast t0 OR push_bit 8 (ucast t1) OR push_bit 16 (ucast t2) OR push_bit 24 (ucast t3))"

definition AES_ROUNDS :: nat where
  "AES_ROUNDS = 14"

record aes256_key =
  enc_key :: "u32 list"
  dec_key :: "u32 list"

text \<open>The body of the expansion loop, over the words written so far and \<^verbatim>\<open>rcon\<close>.\<close>

definition aes_expand_step :: "nat \<Rightarrow> u32 list \<times> u32 \<Rightarrow> u32 list \<times> u32" where
  "aes_expand_step i = (\<lambda>(ek, rcon).
     (let t = ek ! (i - 1);
          (t, rcon) = (if i AND 7 = 0 then (sub_word (rot_word t) XOR rcon, ucast (xtime (ucast rcon)))
                       else if i AND 7 = 4 then (sub_word t, rcon)
                       else (t, rcon))
      in (ek @ [ek ! (i - 8) XOR t], rcon)))"

definition aes256_set_key :: "bytes \<Rightarrow> aes256_key" where
  "aes256_set_key key =
     (let ek = fst (fold aes_expand_step [8..<4 * (AES_ROUNDS + 1)]
                 (map (\<lambda>i. le_word (slice (4 * i) 4 key)) [0..<8], 1));
          dk = concat (map (\<lambda>i. slice ((AES_ROUNDS - i) * 4) 4 ek) [0..<AES_ROUNDS + 1]);
          dk = fold (\<lambda>i dk. dk[i := inv_mix_column (dk ! i)]) [4..<AES_ROUNDS * 4] dk
      in \<lparr>enc_key = ek, dec_key = dk\<rparr>)"

section \<open>FIPS-197\<close>

definition pack4 :: "u8 \<Rightarrow> u8 \<Rightarrow> u8 \<Rightarrow> u8 \<Rightarrow> u32" where
  "pack4 b0 b1 b2 b3 = ucast b0 OR push_bit 8 (ucast b1) OR push_bit 16 (ucast b2) OR push_bit 24 (ucast b3)"

definition spec_rcon :: "nat \<Rightarrow> u32" where
  "spec_rcon j = ucast ((gf_xtime 0x1B ^^ (j - 1)) 1)"

definition spec_sub_word :: "u32 \<Rightarrow> u32" where
  "spec_sub_word w = le_word (map (\<lambda>b. sbox ! unat b) (le_bytes 4 w))"

definition spec_rot_word :: "u32 \<Rightarrow> u32" where
  "spec_rot_word w = le_word (rotate1 (le_bytes 4 w))"

fun spec_W :: "bytes \<Rightarrow> nat \<Rightarrow> u32" where
  "spec_W key i =
     (if i < 8 then le_word (slice (4 * i) 4 key)
      else spec_W key (i - 8) XOR
        (if i mod 8 = 0 then spec_sub_word (spec_rot_word (spec_W key (i - 1))) XOR spec_rcon (i div 8)
         else if i mod 8 = 4 then spec_sub_word (spec_W key (i - 1))
         else spec_W key (i - 1)))"

declare spec_W.simps [simp del]

type_synonym aes_state = "u32 \<times> u32 \<times> u32 \<times> u32"

definition on_columns :: "(u32 \<Rightarrow> u32) \<Rightarrow> aes_state \<Rightarrow> aes_state" where
  "on_columns f = (\<lambda>(a, b, c, d). (f a, f b, f c, f d))"

definition add_round_key :: "aes_state \<Rightarrow> aes_state \<Rightarrow> aes_state" where
  "add_round_key = (\<lambda>(a, b, c, d) (e, f, g, h). (a XOR e, b XOR f, c XOR g, d XOR h))"

definition on_bytes :: "(u8 \<Rightarrow> u8) \<Rightarrow> u32 \<Rightarrow> u32" where
  "on_bytes f w = pack4 (f (aes_byte w 0)) (f (aes_byte w 1)) (f (aes_byte w 2)) (f (aes_byte w 3))"

definition inv_sbox :: "u8 \<Rightarrow> u8" where
  "inv_sbox b = of_nat (length (takeWhile (\<lambda>x. x \<noteq> b) sbox))"

definition SubBytes :: "aes_state \<Rightarrow> aes_state" where
  "SubBytes = on_columns (on_bytes (\<lambda>b. sbox ! unat b))"

definition InvSubBytes :: "aes_state \<Rightarrow> aes_state" where
  "InvSubBytes = on_columns (on_bytes inv_sbox)"

definition ShiftRows :: "aes_state \<Rightarrow> aes_state" where
  "ShiftRows = (\<lambda>(a, b, c, d).
     (pack4 (aes_byte a 0) (aes_byte b 1) (aes_byte c 2) (aes_byte d 3),
      pack4 (aes_byte b 0) (aes_byte c 1) (aes_byte d 2) (aes_byte a 3),
      pack4 (aes_byte c 0) (aes_byte d 1) (aes_byte a 2) (aes_byte b 3),
      pack4 (aes_byte d 0) (aes_byte a 1) (aes_byte b 2) (aes_byte c 3)))"

definition InvShiftRows :: "aes_state \<Rightarrow> aes_state" where
  "InvShiftRows = (\<lambda>(a, b, c, d).
     (pack4 (aes_byte a 0) (aes_byte d 1) (aes_byte c 2) (aes_byte b 3),
      pack4 (aes_byte b 0) (aes_byte a 1) (aes_byte d 2) (aes_byte c 3),
      pack4 (aes_byte c 0) (aes_byte b 1) (aes_byte a 2) (aes_byte d 3),
      pack4 (aes_byte d 0) (aes_byte c 1) (aes_byte b 2) (aes_byte a 3)))"

text \<open>Multiplication of a column by a circulant matrix over \<open>GF(2^8)\<close>, given by its first row.\<close>

definition circulant :: "u8 \<Rightarrow> u8 \<Rightarrow> u8 \<Rightarrow> u8 \<Rightarrow> u32 \<Rightarrow> u32" where
  "circulant a b c d w =
     (let m = gf_mul 0x1B; s0 = aes_byte w 0; s1 = aes_byte w 1; s2 = aes_byte w 2; s3 = aes_byte w 3
      in pack4 (m s0 a XOR m s1 b XOR m s2 c XOR m s3 d) (m s0 d XOR m s1 a XOR m s2 b XOR m s3 c)
               (m s0 c XOR m s1 d XOR m s2 a XOR m s3 b) (m s0 b XOR m s1 c XOR m s2 d XOR m s3 a))"

definition MixColumns :: "aes_state \<Rightarrow> aes_state" where
  "MixColumns = on_columns (circulant 2 3 1 1)"

definition InvMixColumns :: "aes_state \<Rightarrow> aes_state" where
  "InvMixColumns = on_columns (circulant 0x0E 0x0B 0x0D 0x09)"

definition round_key :: "u32 list \<Rightarrow> nat \<Rightarrow> aes_state" where
  "round_key k r = (k ! (4 * r), k ! (4 * r + 1), k ! (4 * r + 2), k ! (4 * r + 3))"

definition aes_round :: "u32 list \<Rightarrow> nat \<Rightarrow> aes_state \<Rightarrow> aes_state" where
  "aes_round k r s = add_round_key (MixColumns (ShiftRows (SubBytes s))) (round_key k r)"

definition aes_eq_inv_round :: "u32 list \<Rightarrow> nat \<Rightarrow> aes_state \<Rightarrow> aes_state" where
  "aes_eq_inv_round k r s = add_round_key (InvMixColumns (InvShiftRows (InvSubBytes s))) (round_key k r)"

definition aes_cipher :: "aes256_key \<Rightarrow> bytes \<Rightarrow> bytes" where
  "aes_cipher key inp =
     (let k = enc_key key;
          s = add_round_key (block_load inp) (round_key k 0);
          s = fold (aes_round k) [1..<14] s
      in block_store (add_round_key (ShiftRows (SubBytes s)) (round_key k 14)))"

definition aes_eq_inv_cipher :: "aes256_key \<Rightarrow> bytes \<Rightarrow> bytes" where
  "aes_eq_inv_cipher key inp =
     (let k = dec_key key;
          s = add_round_key (block_load inp) (round_key k 0);
          s = fold (aes_eq_inv_round k) [1..<14] s
      in block_store (add_round_key (InvShiftRows (InvSubBytes s)) (round_key k 14)))"

section \<open>Bytes of a column\<close>

lemma aes_byte_pack4 [simp]:
  "aes_byte (pack4 b0 b1 b2 b3) 0 = b0" "aes_byte (pack4 b0 b1 b2 b3) (Suc 0) = b1"
  "aes_byte (pack4 b0 b1 b2 b3) 2 = b2" "aes_byte (pack4 b0 b1 b2 b3) 3 = b3"
  by (rule bit_word_eqI; auto simp: aes_byte_def pack4_def bit_simps dest: bit_imp_le_length)+

lemma pack4_aes_byte [simp]: "pack4 (aes_byte w 0) (aes_byte w (Suc 0)) (aes_byte w 2) (aes_byte w 3) = w"
proof (rule bit_word_eqI)
  fix n assume "n < LENGTH(32)"
  then consider "n < 8" | "8 \<le> n" "n < 16" | "16 \<le> n" "n < 24" | "24 \<le> n" "n < 32" by fastforce
  then show "bit (pack4 (aes_byte w 0) (aes_byte w (Suc 0)) (aes_byte w 2) (aes_byte w 3)) n = bit w n"
    by cases (auto simp: aes_byte_def pack4_def bit_simps)
qed

lemma aes_byte_xor: "aes_byte (v XOR w) n = aes_byte v n XOR aes_byte w n"
  by (rule bit_word_eqI) (auto simp: aes_byte_def bit_simps)

lemma pack4_xor: "pack4 a b c d XOR pack4 e f g h = pack4 (a XOR e) (b XOR f) (c XOR g) (d XOR h)"
  by (metis aes_byte_pack4 aes_byte_xor pack4_aes_byte)

section \<open>The code's arithmetic is that of \<open>GF(2^8)\<close>\<close>

lemma and_one_bit: "(b AND 1 \<noteq> 0) = bit (b :: 'a::len word) 0"
  using and_exp_eq_0_iff_not_bit [of b 0] by (simp only: power_0 not_not)

lemma xtime_eq: "xtime a = gf_xtime 0x1B a"
proof -
  have "(0x80 :: u8) = 2 ^ 7" by simp
  then have "(a AND 0x80 \<noteq> 0) = bit a 7"
    by (simp only: and_exp_eq_0_iff_not_bit not_not)
  then show ?thesis by (simp only: xtime_def gf_xtime_def)
qed

lemma gmul_loop_eq: "gmul_loop a b r = r XOR gf_mul 0x1B a b"
proof (induction a b r rule: gmul_loop.induct)
  case (1 a b r)
  show ?case
  proof (cases "b = 0")
    case True
    then show ?thesis by (simp add: gmul_loop.simps)
  next
    case False
    have "gmul_loop a b r = gmul_loop (xtime a) (drop_bit 1 b) (if bit b 0 then r XOR a else r)"
      using False by (subst gmul_loop.simps) (simp only: Let_def and_one_bit if_False)
    also have "\<dots> = (if bit b 0 then r XOR a else r) XOR gf_mul 0x1B (gf_xtime 0x1B a) (drop_bit 1 b)"
      using 1 False by (simp only: xtime_eq and_one_bit Let_def) simp
    also have "\<dots> = r XOR gf_mul 0x1B a b"
      by (subst (2) gf_mul_step) (simp add: ac_simps)
    finally show ?thesis .
  qed
qed

lemma gmul_eq: "gmul a b = gf_mul 0x1B a b"
  by (simp add: gmul_def gmul_loop_eq)

lemma inv_mix_column_eq: "inv_mix_column w = circulant 0x0E 0x0B 0x0D 0x09 w"
  by (simp only: inv_mix_column_def circulant_def gmul_eq Let_def pack4_def)

text \<open>The small factors of the two matrices, as sums of doublings.\<close>

lemma gf_mul_small:
  "gf_mul p a 1 = a"
  "gf_mul p a 2 = gf_xtime p a"
  "gf_mul p a 3 = gf_xtime p a XOR a"
  "gf_mul p a 9 = (gf_xtime p ^^ 3) a XOR a"
  "gf_mul p a 11 = (gf_xtime p ^^ 3) a XOR gf_xtime p a XOR a"
  "gf_mul p a 13 = (gf_xtime p ^^ 3) a XOR (gf_xtime p ^^ 2) a XOR a"
  "gf_mul p a 14 = (gf_xtime p ^^ 3) a XOR (gf_xtime p ^^ 2) a XOR gf_xtime p a"
proof -
  have step: "gf_mul p a b = gf_mul p a (b AND 1) XOR gf_mul p a (b AND 2) XOR gf_mul p a (b AND 4) XOR gf_mul p a (b AND 8)"
    if "b = (b AND 1) XOR (b AND 2) XOR (b AND 4) XOR (b AND 8)" for b
    by (subst that) (simp only: gf_mul_xor_right ac_simps)
  note pow = gf_mul_exp [of 0 p a] gf_mul_exp [of 1 p a] gf_mul_exp [of 2 p a] gf_mul_exp [of 3 p a]
  show "gf_mul p a 1 = a" "gf_mul p a 2 = gf_xtime p a" "gf_mul p a 3 = gf_xtime p a XOR a"
    "gf_mul p a 9 = (gf_xtime p ^^ 3) a XOR a"
    "gf_mul p a 11 = (gf_xtime p ^^ 3) a XOR gf_xtime p a XOR a"
    "gf_mul p a 13 = (gf_xtime p ^^ 3) a XOR (gf_xtime p ^^ 2) a XOR a"
    "gf_mul p a 14 = (gf_xtime p ^^ 3) a XOR (gf_xtime p ^^ 2) a XOR gf_xtime p a"
    using pow step [of 3] step [of 9] step [of 11] step [of 13] step [of 14] by (simp_all add: ac_simps)
qed

lemma circulant_xor: "circulant a b c d (v XOR w) = circulant a b c d v XOR circulant a b c d w"
  by (simp only: circulant_def Let_def aes_byte_xor gf_mul_xor_left pack4_xor ac_simps)

lemma circulant_inverse: "circulant 0x0E 0x0B 0x0D 0x09 (circulant 2 3 1 1 w) = w"
proof -
  have "pack4 (aes_byte w 0) (aes_byte w 1) (aes_byte w 2) (aes_byte w 3) = w" by simp
  then show ?thesis
    by (simp add: circulant_def Let_def gf_mul_small funpow_numeral gf_xtime_xor ac_simps)
qed

section \<open>The inverse steps\<close>

lemma length_sbox: "length sbox = 256"
  by (simp add: sbox_def)

text \<open>All 256 values occur, so no value occurs twice; the occurrences are collected in a bit mask.\<close>

lemma bit_occurrences: "bit (foldr (\<lambda>v m. 2 ^ unat v OR m) vs (0 :: int)) n \<longleftrightarrow> n \<in> unat ` set vs"
  by (induction vs) (auto simp: bit_simps)

lemma sbox_occurrences: "foldr (\<lambda>v m. 2 ^ unat v OR m) sbox (0 :: int) = mask 256"
  by (simp add: sbox_def mask_eq_exp_minus_1)

lemma distinct_sbox: "distinct sbox"
proof -
  have "n \<in> unat ` set sbox" if "n < 256" for n
    using that by (simp add: sbox_occurrences bit_mask_iff flip: bit_occurrences)
  then have "{..<256} \<subseteq> unat ` set sbox" by auto
  then have "card {..<256 :: nat} \<le> card (unat ` set sbox)" by (rule card_mono [rotated]) simp
  also have "\<dots> \<le> card (set sbox)" by (rule card_image_le) simp
  finally have "length sbox \<le> card (set sbox)" by (simp add: length_sbox)
  then show ?thesis
    using card_length [of sbox] by (simp add: card_distinct)
qed

lemma takeWhile_distinct: "distinct xs \<Longrightarrow> i < length xs \<Longrightarrow> length (takeWhile (\<lambda>x. x \<noteq> xs ! i) xs) = i"
proof (induction xs arbitrary: i)
  case (Cons x xs)
  then show ?case by (cases i) auto
qed simp

lemma inv_sbox_sbox [simp]: "inv_sbox (sbox ! unat b) = b"
proof -
  have "unat b < 2 ^ LENGTH(8)" by (rule unsigned_less)
  then have "unat b < length sbox" by (simp add: length_sbox)
  then show ?thesis by (simp add: inv_sbox_def takeWhile_distinct distinct_sbox)
qed

lemma InvSubBytes_SubBytes [simp]: "InvSubBytes (SubBytes s) = s"
  by (cases s) (simp add: InvSubBytes_def SubBytes_def on_columns_def on_bytes_def)

lemma InvShiftRows_ShiftRows [simp]: "InvShiftRows (ShiftRows s) = s"
  by (cases s) (simp add: InvShiftRows_def ShiftRows_def)

lemma InvMixColumns_MixColumns [simp]: "InvMixColumns (MixColumns s) = s"
  by (cases s) (simp add: InvMixColumns_def MixColumns_def on_columns_def circulant_inverse)

lemma InvSubBytes_InvShiftRows: "InvSubBytes (InvShiftRows s) = InvShiftRows (InvSubBytes s)"
  by (cases s) (simp add: InvShiftRows_def InvSubBytes_def on_columns_def on_bytes_def)

lemma InvMixColumns_add: "InvMixColumns (add_round_key s k) = add_round_key (InvMixColumns s) (InvMixColumns k)"
  by (cases s; cases k) (simp add: InvMixColumns_def on_columns_def add_round_key_def circulant_xor)

lemma add_round_key_cancel [simp]: "add_round_key (add_round_key s k) k = s"
  by (cases s; cases k) (simp add: add_round_key_def)

lemma undo_shift_sub [simp]: "InvShiftRows (InvSubBytes (ShiftRows (SubBytes s))) = s"
  by (simp flip: InvSubBytes_InvShiftRows)

lemma eq_inv_rounds:
  assumes dk: "\<And>i. 1 \<le> i \<Longrightarrow> i \<le> 13 \<Longrightarrow> round_key dk i = InvMixColumns (round_key ek (14 - i))"
    and "n \<le> 13"
  shows "fold (aes_eq_inv_round dk) [1..<Suc n] (ShiftRows (SubBytes (fold (aes_round ek) [1..<14] s)))
    = ShiftRows (SubBytes (fold (aes_round ek) [1..<14 - n] s))"
  using assms(2)
proof (induction n)
  case (Suc n)
  define S where "S r = fold (aes_round ek) [1..<r] s" for r
  have "14 - n = Suc (13 - n)" "1 \<le> 13 - n" using Suc.prems by simp_all
  then have S: "S (14 - n) = aes_round ek (13 - n) (S (13 - n))"
    by (simp only: S_def upt_Suc_append fold_append fold.simps comp_def id_def)
  have "aes_eq_inv_round dk (Suc n) (ShiftRows (SubBytes (S (14 - n)))) = ShiftRows (SubBytes (S (13 - n)))"
    using Suc.prems dk [of "Suc n"]
    by (simp add: aes_eq_inv_round_def S) (simp add: aes_round_def InvMixColumns_add)
  then show ?case
    using Suc by (simp add: S_def)
qed simp

lemma eq_inv_cipher_inverts:
  assumes "round_key (dec_key k) 0 = round_key (enc_key k) 14" "round_key (dec_key k) 14 = round_key (enc_key k) 0"
    and "\<And>i. 1 \<le> i \<Longrightarrow> i \<le> 13 \<Longrightarrow> round_key (dec_key k) i = InvMixColumns (round_key (enc_key k) (14 - i))"
    and "length b = 16"
  shows "aes_eq_inv_cipher k (aes_cipher k b) = b"
  using eq_inv_rounds [OF assms(3), of 13 "add_round_key (block_load b) (round_key (enc_key k) 0)"] assms
  by (simp add: aes_eq_inv_cipher_def aes_cipher_def Let_def del: upt_Suc upt_rec_numeral)

section \<open>The schedule\<close>

lemma and_7: "i AND 7 = i mod (8 :: nat)"
  using take_bit_eq_mask [of 3 i] by (simp add: take_bit_eq_mod mask_eq_exp_minus_1)

lemma sub_word_eq: "sub_word w = spec_sub_word w"
  by (simp add: sub_word_def spec_sub_word_def aes_byte_def eval_nat_numeral push_bit_or drop_bit_drop_bit add.commute)

lemma rot_word_eq: "rot_word w = spec_rot_word w"
proof -
  have w: "pack4 (aes_byte w 0) (aes_byte w (Suc 0)) (aes_byte w 2) (aes_byte w 3) = w" by simp
  have "spec_rot_word w = pack4 (aes_byte w (Suc 0)) (aes_byte w 2) (aes_byte w 3) (aes_byte w 0)"
    by (simp add: spec_rot_word_def aes_byte_def pack4_def eval_nat_numeral push_bit_or drop_bit_drop_bit add.commute or.assoc)
  also have "\<dots> = rot_word w"
  proof (rule bit_word_eqI)
    fix n assume "n < LENGTH(32)"
    then consider "n < 8" | "8 \<le> n" "n < 16" | "16 \<le> n" "n < 24" | "24 \<le> n" "n < 32" by fastforce
    then show "bit (pack4 (aes_byte w (Suc 0)) (aes_byte w 2) (aes_byte w 3) (aes_byte w 0)) n = bit (rot_word w) n"
      by cases (auto simp: aes_byte_def pack4_def rot_word_def bit_simps dest: bit_imp_le_length)
  qed
  finally show ?thesis by simp
qed

lemma spec_rcon_step: "1 \<le> j \<Longrightarrow> ucast (xtime (ucast (spec_rcon j))) = spec_rcon (Suc j)"
proof -
  assume "1 \<le> j"
  then obtain m where j: "j = Suc m" by (cases j) auto
  have "ucast (ucast b :: u32) = b" for b :: u8
    by (rule bit_word_eqI) (simp add: bit_simps)
  then show ?thesis by (simp add: spec_rcon_def j xtime_eq)
qed

lemma expand_step_eq:
  assumes "8 \<le> i" and "j = (i - 8 + 7) div 8 + 1"
  shows "aes_expand_step i (map (spec_W key) [0..<i], spec_rcon j) =
    (map (spec_W key) [0..<Suc i], spec_rcon ((i - 8 + 8) div 8 + 1))"
proof -
  have W: "spec_W key i = spec_W key (i - 8) XOR
        (if i mod 8 = 0 then spec_sub_word (spec_rot_word (spec_W key (i - 1))) XOR spec_rcon (i div 8)
         else if i mod 8 = 4 then spec_sub_word (spec_W key (i - 1))
         else spec_W key (i - 1))"
    using assms(1) by (subst spec_W.simps) simp
  have j: "j = (if i mod 8 = 0 then i div 8 else i div 8 + 1)"
  proof -
    define q r where "q = i div 8" and "r = i mod 8"
    then have i: "i = 8 * q + r" "r < 8" "1 \<le> q" using assms(1) by auto
    then have "j = (8 * q + r - 1) div 8 + 1" using assms by simp
    moreover have "(8 * q + r - 1) div 8 = (if r = 0 then q - 1 else q)" using i(2,3) by auto
    ultimately show ?thesis using i(3) by (auto simp: q_def r_def)
  qed
  have nth: "map (spec_W key) [0..<i] ! (i - 1) = spec_W key (i - 1)"
    "map (spec_W key) [0..<i] ! (i - 8) = spec_W key (i - 8)"
    using assms(1) by simp_all
  have step: "ucast (xtime (ucast (spec_rcon (i div 8)))) = spec_rcon (i div 8 + 1)"
    using assms(1) spec_rcon_step [of "i div 8"] by simp
  have app: "map (spec_W key) [0..<Suc i] = map (spec_W key) [0..<i] @ [spec_W key i]" by simp
  have i8: "i - 8 + 8 = i" using assms(1) by simp
  show ?thesis
    unfolding aes_expand_step_def and_7 prod.case Let_def nth j app W sub_word_eq rot_word_eq i8
    by (cases "i mod 8 = 0"; cases "i mod 8 = 4"; simp only: if_True if_False prod.case step refl
        zero_neq_numeral numeral_eq_iff)
qed

lemma expand_fold:
  "fold aes_expand_step [8..<8 + n] (map (\<lambda>i. le_word (slice (4 * i) 4 key)) [0..<8], 1)
    = (map (spec_W key) [0..<8 + n], spec_rcon ((n + 7) div 8 + 1))"
proof (induction n)
  case 0
  show ?case by (simp add: spec_W.simps spec_rcon_def)
next
  case (Suc n)
  have "[8..<8 + Suc n] = [8..<8 + n] @ [8 + n]"
    by (simp only: add_Suc_right upt_Suc_append le_add1)
  moreover have "aes_expand_step (8 + n) (map (spec_W key) [0..<8 + n], spec_rcon ((n + 7) div 8 + 1)) =
      (map (spec_W key) [0..<8 + Suc n], spec_rcon ((Suc n + 7) div 8 + 1))"
    using expand_step_eq [of "8 + n" "(n + 7) div 8 + 1" key] by (simp add: add.commute)
  ultimately show ?case
    by (simp only: fold_append comp_def Suc.IH fold.simps id_def)
qed

lemma enc_key_eq: "enc_key (aes256_set_key key) = map (spec_W key) [0..<60]"
  using expand_fold [of 52 key] by (simp add: aes256_set_key_def AES_ROUNDS_def Let_def del: upt_rec_numeral)

lemma fold_update_nth:
  "i < length xs \<Longrightarrow> fold (\<lambda>i xs. xs[i := f (xs ! i)]) [lo..<hi] xs ! i = (if lo \<le> i \<and> i < hi then f (xs ! i) else xs ! i)"
proof (induction hi)
  case (Suc hi)
  have len: "length (fold (\<lambda>i xs. xs[i := f (xs ! i)]) is xs) = length xs" for "is"
    by (induction "is" arbitrary: xs) simp_all
  show ?case
    using Suc by (auto simp: nth_list_update len less_Suc_eq)
qed simp

lemma dec_key_nth:
  assumes "i < 60"
  shows "dec_key (aes256_set_key key) ! i =
    (let w = spec_W key ((14 - i div 4) * 4 + i mod 4) in if 4 \<le> i \<and> i < 56 then inv_mix_column w else w)"
proof -
  let ?ek = "map (spec_W key) [0..<60]"
  let ?dk = "concat (map (\<lambda>i. slice ((14 - i) * 4) 4 ?ek) [0..<15])"
  have len: "length (slice ((14 - i) * 4) 4 ?ek) = 4" for i
    by (simp add: slice_def)
  then have "length ?dk = 60" by (simp add: length_concat comp_def sum_list_triv)
  moreover have "?dk ! i = slice ((14 - [0..<15] ! (i div 4)) * 4) 4 ?ek ! (i mod 4)"
    using assms by (intro nth_concat_uniform len) simp_all
  moreover have "\<dots> = spec_W key ((14 - i div 4) * 4 + i mod 4)"
    using assms by (simp add: slice_def)
  ultimately show ?thesis
    using assms enc_key_eq [of key]
    by (simp add: aes256_set_key_def AES_ROUNDS_def Let_def fold_update_nth del: upt_rec_numeral)
qed

lemma length_fold_update: "length (fold (\<lambda>i xs. xs[i := f (xs ! i)]) is xs) = length xs"
  by (induction "is" arbitrary: xs) simp_all

lemma length_dec_key: "length (dec_key (aes256_set_key key)) = 60"
  using enc_key_eq [of key]
  by (simp add: aes256_set_key_def AES_ROUNDS_def Let_def length_fold_update length_concat slice_def comp_def del: upt_rec_numeral)
     (simp add: upt_conv_Cons)

lemma round_key_enc: "r \<le> 14 \<Longrightarrow> round_key (enc_key (aes256_set_key key)) r =
    (spec_W key (4 * r), spec_W key (4 * r + 1), spec_W key (4 * r + 2), spec_W key (4 * r + 3))"
  by (simp add: round_key_def enc_key_eq del: upt_rec_numeral)

lemma dec_key_group:
  assumes "r \<le> 14" "j < 4"
  shows "dec_key (aes256_set_key key) ! (4 * r + j) =
    (let w = spec_W key (4 * (14 - r) + j) in if 1 \<le> r \<and> r \<le> 13 then inv_mix_column w else w)"
proof -
  have "(4 * r + j) div 4 = r" "(4 * r + j) mod 4 = j" using assms by simp_all
  moreover have "4 \<le> 4 * r + j \<and> 4 * r + j < 56 \<longleftrightarrow> 1 \<le> r \<and> r \<le> 13" using assms by auto
  ultimately show ?thesis
    using assms by (simp only: dec_key_nth mult.commute [of _ 4])
qed

lemma round_key_dec:
  assumes "r \<le> 14"
  shows "round_key (dec_key (aes256_set_key key)) r =
    (if 1 \<le> r \<and> r \<le> 13 then InvMixColumns (round_key (enc_key (aes256_set_key key)) (14 - r))
     else round_key (enc_key (aes256_set_key key)) (14 - r))"
  using assms dec_key_group [OF assms, of 0 key] dec_key_group [OF assms, of 1 key]
    dec_key_group [OF assms, of 2 key] dec_key_group [OF assms, of 3 key]
  by (simp add: round_key_enc InvMixColumns_def on_columns_def)
     (auto simp: round_key_def inv_mix_column_eq Let_def)

lemma aes_inverts: "length b = 16 \<Longrightarrow> aes_eq_inv_cipher (aes256_set_key key) (aes_cipher (aes256_set_key key) b) = b"
  using eq_inv_cipher_inverts [of "aes256_set_key key" b]
  by (simp add: round_key_dec)

interpretation aes: block_cipher "\<lambda>k. k \<in> range aes256_set_key" aes_cipher aes_eq_inv_cipher
  by unfold_locales (auto simp: aes_inverts, auto simp: aes_cipher_def aes_eq_inv_cipher_def Let_def)

section \<open>Properties\<close>

text \<open>
  C33 (equivalence): The AES-256 key schedule is the FIPS-197 key expansion: the 60 encryption words are \<open>W\<close>, and the
  60 decryption words are the round-key groups in reverse order, with InvMixColumns applied to every
  group except the first and the last.
\<close>

theorem aes256_set_key_correct:
  "enc_key (aes256_set_key key) = map (spec_W key) [0..<60] \<and>
   dec_key (aes256_set_key key) =
     map (\<lambda>i. let w = spec_W key ((14 - i div 4) * 4 + i mod 4)
              in if 4 \<le> i \<and> i < 56 then circulant 0x0E 0x0B 0x0D 0x09 w else w) [0..<60]"
  by (auto simp: enc_key_eq length_dec_key dec_key_nth Let_def inv_mix_column_eq intro!: nth_equalityI simp del: upt_rec_numeral)

text \<open>
  With the two schedules of \<^verbatim>\<open>aes256_set_key\<close>, the equivalent inverse cipher of FIPS-197 undoes the
  cipher on every 16-byte block and for every key.
\<close>

theorem aes256_schedules_invert:
  assumes "length b = 16"
  shows "aes_eq_inv_cipher (aes256_set_key key) (aes_cipher (aes256_set_key key) b) = b"
  using aes.dec_enc [of "aes256_set_key key" b] assms by simp

theorem aes256_schedules_invert_witness:
  "aes_eq_inv_cipher (aes256_set_key (replicate 32 7)) (aes_cipher (aes256_set_key (replicate 32 7)) (replicate 16 0xAA))
     = replicate 16 0xAA"
  by (rule aes256_schedules_invert) simp

end
