(* ===== verification/Xts.thy ===== *)
theory Xts
  imports XtsMode XtsTwofish Serpent AesKey
begin

text \<open>
  The XTS front end (\<^verbatim>\<open>DCrypt/crypto_lib/xts_fast.c\<close>, \<^verbatim>\<open>xts_fast.h\<close>): key set-up for the seven
  algorithms, the cascades, and the selection of the core routines.  The single-block AES transforms are
  assembler or instruction-set code; they are a parameter \<open>aes_core\<close>, of which the theorems assume what
  the source relies on: that decryption inverts encryption under a schedule of \<^verbatim>\<open>aes256_set_key\<close>.
  A function pointer stored in the key is a value of the datatype \<open>xts_proc\<close>, one constructor per routine
  that \<^verbatim>\<open>xts_set_key\<close> stores, and \<open>xts_null\<close> for the null pointer, a call of which is undefined.
\<close>

unbundle bit_operations_syntax

section \<open>The code\<close>

definition XTS_KEY_SIZE :: nat where "XTS_KEY_SIZE = 32"
definition XTS_FULL_KEY :: nat where "XTS_FULL_KEY = XTS_KEY_SIZE * 3 * 2"

definition CF_AES :: int where "CF_AES = 0"
definition CF_TWOFISH :: int where "CF_TWOFISH = 1"
definition CF_SERPENT :: int where "CF_SERPENT = 2"
definition CF_AES_TWOFISH :: int where "CF_AES_TWOFISH = 3"
definition CF_TWOFISH_SERPENT :: int where "CF_TWOFISH_SERPENT = 4"
definition CF_SERPENT_AES :: int where "CF_SERPENT_AES = 5"
definition CF_AES_TWOFISH_SERPENT :: int where "CF_AES_TWOFISH_SERPENT = 6"
definition CF_CIPHERS_NUM :: int where "CF_CIPHERS_NUM = 7"

lemmas cf_defs = CF_AES_def CF_TWOFISH_def CF_SERPENT_def CF_AES_TWOFISH_def CF_TWOFISH_SERPENT_def
  CF_SERPENT_AES_def CF_AES_TWOFISH_SERPENT_def CF_CIPHERS_NUM_def

datatype xts_proc =
    xts_null | xts_aes_enc | xts_aes_dec | xts_twofish_enc | xts_twofish_dec | xts_serpent_enc | xts_serpent_dec
  | xts_aes_twofish_enc | xts_aes_twofish_dec | xts_twofish_serpent_enc | xts_twofish_serpent_dec
  | xts_serpent_aes_enc | xts_serpent_aes_dec | xts_aes_twofish_serpent_enc | xts_aes_twofish_serpent_dec

record key_schedules =
  k_aes :: aes256_key
  k_twofish :: twofish256_key
  k_serpent :: "u32 list"

record xts_key =
  crypt_k :: key_schedules
  tweak_k :: key_schedules
  encrypt_p :: xts_proc
  decrypt_p :: xts_proc

text \<open>The single-block AES routines (\<^verbatim>\<open>aes_asm.h\<close>).\<close>

record aes_core =
  aes256_asm_encrypt :: "aes256_key \<Rightarrow> bytes \<Rightarrow> bytes"
  aes256_asm_decrypt :: "aes256_key \<Rightarrow> bytes \<Rightarrow> bytes"

type_synonym xts_routine = "xts_key \<Rightarrow> bytes \<Rightarrow> u64 \<Rightarrow> u64 \<Rightarrow> bytes option"

definition xts_aes_basic_encrypt :: "aes_core \<Rightarrow> xts_routine" where
  "xts_aes_basic_encrypt A key =
     DEF_XTS_PROC (aes256_asm_encrypt A (k_aes (tweak_k key))) (aes256_asm_encrypt A (k_aes (crypt_k key)))"

definition xts_aes_basic_decrypt :: "aes_core \<Rightarrow> xts_routine" where
  "xts_aes_basic_decrypt A key =
     DEF_XTS_PROC (aes256_asm_encrypt A (k_aes (tweak_k key))) (aes256_asm_decrypt A (k_aes (crypt_k key)))"

definition xts_serpent_basic_encrypt :: xts_routine where
  "xts_serpent_basic_encrypt key =
     DEF_XTS_PROC (serpent256_encrypt (k_serpent (tweak_k key))) (serpent256_encrypt (k_serpent (crypt_k key)))"

definition xts_serpent_basic_decrypt :: xts_routine where
  "xts_serpent_basic_decrypt key =
     DEF_XTS_PROC (serpent256_encrypt (k_serpent (tweak_k key))) (serpent256_decrypt (k_serpent (crypt_k key)))"

text \<open>The four static pointers that \<^verbatim>\<open>xts_init\<close> sets.\<close>

record xts_selected =
  aes_selected_encrypt :: xts_routine
  aes_selected_decrypt :: xts_routine
  serpent_selected_encrypt :: xts_routine
  serpent_selected_decrypt :: xts_routine

definition tf_encrypt :: xts_routine where
  "tf_encrypt key = xts_twofish_encrypt (k_twofish (crypt_k key)) (k_twofish (tweak_k key))"

definition tf_decrypt :: xts_routine where
  "tf_decrypt key = xts_twofish_decrypt (k_twofish (crypt_k key)) (k_twofish (tweak_k key))"

text \<open>Two routines one after the other, the second in place on the output of the first.\<close>

definition then_do :: "xts_routine \<Rightarrow> xts_routine \<Rightarrow> xts_routine" where
  "then_do f g key inp len offset = Option.bind (f key inp len offset) (\<lambda>out. g key out len offset)"

definition xts_aes_twofish_encrypt :: "xts_selected \<Rightarrow> xts_routine" where
  "xts_aes_twofish_encrypt S = then_do tf_encrypt (aes_selected_encrypt S)"

definition xts_aes_twofish_decrypt :: "xts_selected \<Rightarrow> xts_routine" where
  "xts_aes_twofish_decrypt S = then_do (aes_selected_decrypt S) tf_decrypt"

definition xts_twofish_serpent_encrypt :: "xts_selected \<Rightarrow> xts_routine" where
  "xts_twofish_serpent_encrypt S = then_do (serpent_selected_encrypt S) tf_encrypt"

definition xts_twofish_serpent_decrypt :: "xts_selected \<Rightarrow> xts_routine" where
  "xts_twofish_serpent_decrypt S = then_do tf_decrypt (serpent_selected_decrypt S)"

definition xts_serpent_aes_encrypt :: "xts_selected \<Rightarrow> xts_routine" where
  "xts_serpent_aes_encrypt S = then_do (aes_selected_encrypt S) (serpent_selected_encrypt S)"

definition xts_serpent_aes_decrypt :: "xts_selected \<Rightarrow> xts_routine" where
  "xts_serpent_aes_decrypt S = then_do (serpent_selected_decrypt S) (aes_selected_decrypt S)"

definition xts_aes_twofish_serpent_encrypt :: "xts_selected \<Rightarrow> xts_routine" where
  "xts_aes_twofish_serpent_encrypt S = then_do (then_do (serpent_selected_encrypt S) tf_encrypt) (aes_selected_encrypt S)"

definition xts_aes_twofish_serpent_decrypt :: "xts_selected \<Rightarrow> xts_routine" where
  "xts_aes_twofish_serpent_decrypt S = then_do (then_do (aes_selected_decrypt S) tf_decrypt) (serpent_selected_decrypt S)"

fun xts_call :: "xts_selected \<Rightarrow> xts_proc \<Rightarrow> xts_routine" where
  "xts_call S xts_null = (\<lambda>key inp len offset. None)"
| "xts_call S xts_aes_enc = aes_selected_encrypt S"
| "xts_call S xts_aes_dec = aes_selected_decrypt S"
| "xts_call S xts_twofish_enc = tf_encrypt"
| "xts_call S xts_twofish_dec = tf_decrypt"
| "xts_call S xts_serpent_enc = serpent_selected_encrypt S"
| "xts_call S xts_serpent_dec = serpent_selected_decrypt S"
| "xts_call S xts_aes_twofish_enc = xts_aes_twofish_encrypt S"
| "xts_call S xts_aes_twofish_dec = xts_aes_twofish_decrypt S"
| "xts_call S xts_twofish_serpent_enc = xts_twofish_serpent_encrypt S"
| "xts_call S xts_twofish_serpent_dec = xts_twofish_serpent_decrypt S"
| "xts_call S xts_serpent_aes_enc = xts_serpent_aes_encrypt S"
| "xts_call S xts_serpent_aes_dec = xts_serpent_aes_decrypt S"
| "xts_call S xts_aes_twofish_serpent_enc = xts_aes_twofish_serpent_encrypt S"
| "xts_call S xts_aes_twofish_serpent_dec = xts_aes_twofish_serpent_decrypt S"

definition xts_encrypt :: "xts_selected \<Rightarrow> xts_routine" where
  "xts_encrypt S key = xts_call S (encrypt_p key) key"

definition xts_decrypt :: "xts_selected \<Rightarrow> xts_routine" where
  "xts_decrypt S key = xts_call S (decrypt_p key) key"

text \<open>\<open>key + XTS_KEY_SIZE * n\<close>; the schedules read 32 bytes from there.\<close>

definition key_at :: "nat \<Rightarrow> bytes \<Rightarrow> bytes" where
  "key_at n key = drop (XTS_KEY_SIZE * n) key"

definition xts_set_key :: "bytes \<Rightarrow> int \<Rightarrow> xts_key \<Rightarrow> int \<times> xts_key" where
  "xts_set_key key alg skey =
     (if alg = CF_AES then
        (1, skey\<lparr>crypt_k := (crypt_k skey)\<lparr>k_aes := aes256_set_key (key_at 0 key)\<rparr>,
                 tweak_k := (tweak_k skey)\<lparr>k_aes := aes256_set_key (key_at 1 key)\<rparr>,
                 encrypt_p := xts_aes_enc, decrypt_p := xts_aes_dec\<rparr>)
      else if alg = CF_TWOFISH then
        (1, skey\<lparr>crypt_k := (crypt_k skey)\<lparr>k_twofish := twofish256_set_key (key_at 0 key)\<rparr>,
                 tweak_k := (tweak_k skey)\<lparr>k_twofish := twofish256_set_key (key_at 1 key)\<rparr>,
                 encrypt_p := xts_twofish_enc, decrypt_p := xts_twofish_dec\<rparr>)
      else if alg = CF_SERPENT then
        (1, skey\<lparr>crypt_k := (crypt_k skey)\<lparr>k_serpent := serpent256_set_key (key_at 0 key)\<rparr>,
                 tweak_k := (tweak_k skey)\<lparr>k_serpent := serpent256_set_key (key_at 1 key)\<rparr>,
                 encrypt_p := xts_serpent_enc, decrypt_p := xts_serpent_dec\<rparr>)
      else if alg = CF_AES_TWOFISH then
        (1, skey\<lparr>crypt_k := (crypt_k skey)\<lparr>k_twofish := twofish256_set_key (key_at 0 key), k_aes := aes256_set_key (key_at 1 key)\<rparr>,
                 tweak_k := (tweak_k skey)\<lparr>k_twofish := twofish256_set_key (key_at 2 key), k_aes := aes256_set_key (key_at 3 key)\<rparr>,
                 encrypt_p := xts_aes_twofish_enc, decrypt_p := xts_aes_twofish_dec\<rparr>)
      else if alg = CF_TWOFISH_SERPENT then
        (1, skey\<lparr>crypt_k := (crypt_k skey)\<lparr>k_serpent := serpent256_set_key (key_at 0 key), k_twofish := twofish256_set_key (key_at 1 key)\<rparr>,
                 tweak_k := (tweak_k skey)\<lparr>k_serpent := serpent256_set_key (key_at 2 key), k_twofish := twofish256_set_key (key_at 3 key)\<rparr>,
                 encrypt_p := xts_twofish_serpent_enc, decrypt_p := xts_twofish_serpent_dec\<rparr>)
      else if alg = CF_SERPENT_AES then
        (1, skey\<lparr>crypt_k := (crypt_k skey)\<lparr>k_aes := aes256_set_key (key_at 0 key), k_serpent := serpent256_set_key (key_at 1 key)\<rparr>,
                 tweak_k := (tweak_k skey)\<lparr>k_aes := aes256_set_key (key_at 2 key), k_serpent := serpent256_set_key (key_at 3 key)\<rparr>,
                 encrypt_p := xts_serpent_aes_enc, decrypt_p := xts_serpent_aes_dec\<rparr>)
      else if alg = CF_AES_TWOFISH_SERPENT then
        (1, skey\<lparr>crypt_k := (crypt_k skey)\<lparr>k_serpent := serpent256_set_key (key_at 0 key), k_twofish := twofish256_set_key (key_at 1 key),
                              k_aes := aes256_set_key (key_at 2 key)\<rparr>,
                 tweak_k := (tweak_k skey)\<lparr>k_serpent := serpent256_set_key (key_at 3 key), k_twofish := twofish256_set_key (key_at 4 key),
                              k_aes := aes256_set_key (key_at 5 key)\<rparr>,
                 encrypt_p := xts_aes_twofish_serpent_enc, decrypt_p := xts_aes_twofish_serpent_dec\<rparr>)
      else (0, skey))"

text \<open>
  Core selection.  The vector routines and the processor features are parameters: \<open>neon\<close>, \<open>ce\<close>, \<open>sse2\<close>,
  \<open>avx\<close>, \<open>avx2\<close>, \<open>ni\<close> are pairs of an encryption and a decryption routine, \<open>have_avx\<close> and the like say
  whether the build and the processor offer them (\<^verbatim>\<open>CL_ENABLE_AVX\<close> and the availability check), and
  \<open>acquire\<close> is the answer of \<^verbatim>\<open>CL_AVX_ACQUIRE\<close> in the call at hand.
\<close>

definition guarded :: "bool \<Rightarrow> xts_routine \<Rightarrow> xts_routine \<Rightarrow> xts_routine" where
  "guarded acquire avx_proc sse2_proc key inp len offset =
     (if acquire then avx_proc key inp len offset else sse2_proc key inp len offset)"

definition xts_init_arm64 :: "aes_core \<Rightarrow> bool \<Rightarrow> bool \<Rightarrow> xts_routine \<times> xts_routine \<Rightarrow> bool \<Rightarrow> xts_routine \<times> xts_routine \<Rightarrow> xts_selected" where
  "xts_init_arm64 A hw_crypt have_neon neon have_ce ce =
     (let (se, sd) = (if have_neon then neon else (xts_serpent_basic_encrypt, xts_serpent_basic_decrypt))
      in if hw_crypt \<and> have_ce
         then \<lparr>aes_selected_encrypt = fst ce, aes_selected_decrypt = snd ce,
               serpent_selected_encrypt = se, serpent_selected_decrypt = sd\<rparr>
         else \<lparr>aes_selected_encrypt = xts_aes_basic_encrypt A, aes_selected_decrypt = xts_aes_basic_decrypt A,
               serpent_selected_encrypt = se, serpent_selected_decrypt = sd\<rparr>)"

definition xts_init_amd64 :: "aes_core \<Rightarrow> bool \<Rightarrow> bool \<Rightarrow> xts_routine \<times> xts_routine \<Rightarrow> bool \<Rightarrow> xts_routine \<times> xts_routine \<Rightarrow>
    bool \<Rightarrow> xts_routine \<times> xts_routine \<Rightarrow> bool \<Rightarrow> xts_routine \<times> xts_routine \<Rightarrow> xts_selected" where
  "xts_init_amd64 A hw_crypt acquire sse2 have_avx avx have_avx2 avx2 have_ni ni =
     (let (se, sd) = sse2;
          (se, sd) = (if have_avx then (guarded acquire (fst avx) (fst sse2), guarded acquire (snd avx) (snd sse2)) else (se, sd));
          (se, sd) = (if have_avx2 then (guarded acquire (fst avx2) (fst sse2), guarded acquire (snd avx2) (snd sse2)) else (se, sd))
      in if hw_crypt \<and> have_ni
         then \<lparr>aes_selected_encrypt = fst ni, aes_selected_decrypt = snd ni,
               serpent_selected_encrypt = se, serpent_selected_decrypt = sd\<rparr>
         else \<lparr>aes_selected_encrypt = xts_aes_basic_encrypt A, aes_selected_decrypt = xts_aes_basic_decrypt A,
               serpent_selected_encrypt = se, serpent_selected_decrypt = sd\<rparr>)"

section \<open>Contract\<close>

text \<open>A selection whose routines compute the scalar template.\<close>

definition scalar_selection :: "aes_core \<Rightarrow> xts_selected" where
  "scalar_selection A =
     \<lparr>aes_selected_encrypt = xts_aes_basic_encrypt A, aes_selected_decrypt = xts_aes_basic_decrypt A,
      serpent_selected_encrypt = xts_serpent_basic_encrypt, serpent_selected_decrypt = xts_serpent_basic_decrypt\<rparr>"

definition aes_core_ok :: "aes_core \<Rightarrow> bool" where
  "aes_core_ok A \<longleftrightarrow> block_cipher (\<lambda>k. k \<in> range aes256_set_key) (aes256_asm_encrypt A) (aes256_asm_decrypt A)"

text \<open>FIPS-197 meets the assumption made of the AES routines.\<close>

definition fips197_core :: aes_core where
  "fips197_core = \<lparr>aes256_asm_encrypt = aes_cipher, aes256_asm_decrypt = aes_eq_inv_cipher\<rparr>"

lemma fips197_core_ok: "aes_core_ok fips197_core"
  using aes.block_cipher_axioms by (simp add: aes_core_ok_def fips197_core_def)

lemma serpent_pair: "xts_pair (xts_serpent_basic_encrypt key) (xts_serpent_basic_decrypt key)"
  unfolding xts_serpent_basic_encrypt_def xts_serpent_basic_decrypt_def
  by (rule block_cipher.template_pair [OF serpent.block_cipher_axioms]) simp

lemma tf_pair: "xts_pair (tf_encrypt key) (tf_decrypt key)"
  by (simp add: tf_encrypt_def tf_decrypt_def xts_twofish_pair)

lemma aes_pair:
  "aes_core_ok A \<Longrightarrow> k_aes (crypt_k key) \<in> range aes256_set_key \<Longrightarrow>
   xts_pair (xts_aes_basic_encrypt A key) (xts_aes_basic_decrypt A key)"
  unfolding xts_aes_basic_encrypt_def xts_aes_basic_decrypt_def aes_core_ok_def
  by (rule block_cipher.template_pair)

lemma then_do_pair:
  assumes "xts_pair (e key) (d key)" and "xts_pair (e' key) (d' key)"
  shows "xts_pair (then_do e e' key) (then_do d' d key)"
  using xts_pair.cascade [OF assms] by (simp add: then_do_def [abs_def])

lemma then_do_assoc: "then_do (then_do f g) h = then_do f (then_do g h)"
  by (simp add: fun_eq_iff then_do_def [abs_def])

lemma then_do3_pair:
  assumes "xts_pair (e key) (d key)" "xts_pair (e' key) (d' key)" "xts_pair (e'' key) (d'' key)"
  shows "xts_pair (then_do (then_do e e') e'' key) (then_do (then_do d'' d') d key)"
  unfolding then_do_assoc [of d'' d' d] by (intro then_do_pair assms)

text \<open>The seven algorithms.\<close>

lemma xts_set_key_pair:
  assumes A: "aes_core_ok A" and set: "xts_set_key key alg skey = (1, skey')"
  shows "xts_pair (xts_encrypt (scalar_selection A) skey') (xts_decrypt (scalar_selection A) skey')"
proof -
  note pairs = serpent_pair tf_pair aes_pair [OF A]
  note defs = xts_encrypt_def xts_decrypt_def scalar_selection_def xts_aes_twofish_encrypt_def xts_aes_twofish_decrypt_def
    xts_twofish_serpent_encrypt_def xts_twofish_serpent_decrypt_def xts_serpent_aes_encrypt_def xts_serpent_aes_decrypt_def
    xts_aes_twofish_serpent_encrypt_def xts_aes_twofish_serpent_decrypt_def
  show ?thesis
    using set unfolding xts_set_key_def
    by (auto simp: defs pairs then_do_pair then_do3_pair split: if_splits)
qed

lemma serpent_set_key_take: "serpent256_set_key (take 32 key) = serpent256_set_key key"
proof -
  have "map (\<lambda>i. le_word (slice (4 * i) 4 (take 32 key)) :: u32) [0..<8] = map (\<lambda>i. le_word (slice (4 * i) 4 key)) [0..<8]"
    by (simp add: slice_take)
  then show ?thesis by (simp only: serpent256_set_key_def serpent_prekey_def)
qed

lemma aes_set_key_take: "aes256_set_key (take 32 key) = aes256_set_key key"
proof -
  have "map (\<lambda>i. le_word (slice (4 * i) 4 (take 32 key)) :: u32) [0..<8] = map (\<lambda>i. le_word (slice (4 * i) 4 key)) [0..<8]"
    by (simp add: slice_take)
  then show ?thesis by (simp only: aes256_set_key_def)
qed

lemma twofish_set_key_take: "twofish256_set_key (take 32 key) = twofish256_set_key key"
proof -
  have "map (\<lambda>i. le_word (slice (i * 4) 4 (take 32 key)) :: u32) [0..<8] = map (\<lambda>i. le_word (slice (i * 4) 4 key)) [0..<8]"
    by (simp add: slice_take)
  moreover have "twofish_rs (take 32 key) i = twofish_rs key i" if "i < 4" for i
  proof -
    have "i * 8 + j < 32" if "j < 8" for j using that \<open>i < 4\<close> by linarith
    then have "fold (\<lambda>j acc. acc XOR gf_mul_rs (ucast (RS ! r ! j)) (ucast (take 32 key ! (i * 8 + j)))) [0..<8] (0 :: u8) =
        fold (\<lambda>j acc. acc XOR gf_mul_rs (ucast (RS ! r ! j)) (ucast (key ! (i * 8 + j)))) [0..<8] 0" for r
      by (intro fold_cong) simp_all
    then show ?thesis by (simp only: twofish_rs_def)
  qed
  then have "twofish_sv (take 32 key) = twofish_sv key"
    unfolding twofish_sv_def by (intro fold_cong) simp_all
  ultimately show ?thesis by (simp only: twofish256_set_key_def)
qed

text \<open>Bytes of key material an algorithm uses.\<close>

definition xts_key_bytes :: "int \<Rightarrow> nat" where
  "xts_key_bytes alg = (if alg < 3 then 64 else if alg < 6 then 128 else 192)"

lemma key_at_take:
  assumes "32 * n + 32 \<le> m"
  shows "take 32 (key_at n (take m key)) = take 32 (key_at n key)"
  using assms by (simp add: key_at_def XTS_KEY_SIZE_def drop_take take_take min_def)

lemma set_keys_prefix:
  assumes "32 * n + 32 \<le> m"
  shows "serpent256_set_key (key_at n (take m key)) = serpent256_set_key (key_at n key)"
    "twofish256_set_key (key_at n (take m key)) = twofish256_set_key (key_at n key)"
    "aes256_set_key (key_at n (take m key)) = aes256_set_key (key_at n key)"
  using key_at_take [OF assms, of key]
  by (metis serpent_set_key_take, metis twofish_set_key_take, metis aes_set_key_take)

section \<open>Properties\<close>

text \<open>
  C13 (roundtrip): For every one of the seven algorithms, every key and every request of whole sectors that fits the
  buffer, encryption succeeds and decryption under the same key at the same offset returns the
  plaintext, cascades included.  The AES block routines are assumed to invert each other under a
  schedule of \<^verbatim>\<open>aes256_set_key\<close>.
\<close>

theorem xts_decrypt_encrypt:
  assumes "aes_core_ok A" and "xts_set_key key alg skey = (1, skey')"
    and "0 < unat len" and "512 dvd unat len" and "unat len \<le> length inp"
  shows "\<exists>out. xts_encrypt (scalar_selection A) skey' inp len offset = Some out \<and> length out = unat len \<and>
    xts_decrypt (scalar_selection A) skey' out len offset = Some (take (unat len) inp)"
  by (rule xts_pair.roundtrip [OF xts_set_key_pair [OF assms(1,2)]]) (use assms(3-5) in \<open>simp add: xts_len_ok_def\<close>)

theorem xts_decrypt_encrypt_witness:
  "\<exists>out. xts_encrypt (scalar_selection fips197_core) (snd (xts_set_key (replicate 192 5) CF_AES_TWOFISH_SERPENT undefined)) (replicate 512 1) 512 4096 = Some out
     \<and> length out = 512
     \<and> xts_decrypt (scalar_selection fips197_core) (snd (xts_set_key (replicate 192 5) CF_AES_TWOFISH_SERPENT undefined)) out 512 4096 = Some (replicate 512 1)"
proof -
  have "xts_set_key (replicate 192 5) CF_AES_TWOFISH_SERPENT undefined =
      (1, snd (xts_set_key (replicate 192 5) CF_AES_TWOFISH_SERPENT undefined))"
    by (simp add: xts_set_key_def cf_defs)
  from xts_decrypt_encrypt [OF fips197_core_ok this, of 512 "replicate 512 1" 4096] show ?thesis by simp
qed

text \<open>
  \<^verbatim>\<open>xts_set_key\<close> accepts exactly the algorithm numbers 0 to 6; for every other number it returns 0 and
  leaves the key structure as it was.
\<close>

theorem xts_set_key_errors:
  "(fst (xts_set_key key alg skey) = 1 \<longleftrightarrow> alg \<in> {0..<CF_CIPHERS_NUM}) \<and>
   (alg \<notin> {0..<CF_CIPHERS_NUM} \<longleftrightarrow> xts_set_key key alg skey = (0, skey))"
  by (auto simp: xts_set_key_def cf_defs)

text \<open>
  \<^verbatim>\<open>xts_set_key\<close> reads no more of the key buffer than the algorithm needs: 64 bytes for a single
  cipher, 128 for a cascade of two, 192 (\<^verbatim>\<open>XTS_FULL_KEY\<close>) for the cascade of three.
\<close>

theorem xts_set_key_reads:
  "xts_set_key (take (xts_key_bytes alg) key) alg skey = xts_set_key key alg skey \<and> xts_key_bytes alg \<le> XTS_FULL_KEY"
  by (auto simp: xts_set_key_def cf_defs xts_key_bytes_def set_keys_prefix XTS_FULL_KEY_def XTS_KEY_SIZE_def)

text \<open>
  Whatever the processor offers and whatever \<^verbatim>\<open>CL_AVX_ACQUIRE\<close> answers, \<^verbatim>\<open>xts_init\<close> selects routines
  that compute the scalar template, provided each vector routine it may pick does: no combination of
  features mixes a routine of one kind into a slot of another.
\<close>

theorem xts_init_selects_scalar:
  fixes A :: aes_core
  defines "S \<equiv> (xts_serpent_basic_encrypt, xts_serpent_basic_decrypt)"
    and "E \<equiv> (xts_aes_basic_encrypt A, xts_aes_basic_decrypt A)"
  assumes "sse2 = S" and "have_avx \<longrightarrow> avx = S" and "have_avx2 \<longrightarrow> avx2 = S" and "have_ni \<longrightarrow> ni = E"
    and "have_neon \<longrightarrow> neon = S" and "have_ce \<longrightarrow> ce = E"
  shows "xts_init_amd64 A hw_crypt acquire sse2 have_avx avx have_avx2 avx2 have_ni ni = scalar_selection A \<and>
    xts_init_arm64 A hw_crypt have_neon neon have_ce ce = scalar_selection A"
proof -
  have "guarded a f f = f" for a f by (simp add: fun_eq_iff guarded_def)
  then show ?thesis
    using assms(3-) by (auto simp: xts_init_amd64_def xts_init_arm64_def scalar_selection_def S_def E_def)
qed

theorem xts_init_selects_scalar_witness:
  "xts_init_amd64 fips197_core True False (xts_serpent_basic_encrypt, xts_serpent_basic_decrypt)
     True (xts_serpent_basic_encrypt, xts_serpent_basic_decrypt) False (undefined, undefined) False (undefined, undefined)
   = scalar_selection fips197_core"
  using xts_init_selects_scalar [of "(xts_serpent_basic_encrypt, xts_serpent_basic_decrypt)" True
      "(xts_serpent_basic_encrypt, xts_serpent_basic_decrypt)" False "(undefined, undefined)" False "(undefined, undefined)"
      fips197_core False "(undefined, undefined)" False "(undefined, undefined)" True False] by simp

end
