(* ===== verification/XtsLocal.thy ===== *)
theory XtsLocal
  imports Xts
begin

text \<open>
  Locality of the XTS routines: each 16-byte block of the output depends only on the block of the input at the
  same place, on the sector number and on the index in the sector.  This is what lets a client leave some
  blocks of an encrypted buffer in the clear, and decrypt a buffer in two calls; the volume header does both.
  Shown for the seven algorithms of \<^verbatim>\<open>xts_set_key\<close>.
\<close>

unbundle bit_operations_syntax

definition by_blocks :: "(u64 \<Rightarrow> nat \<Rightarrow> bytes \<Rightarrow> bytes) \<Rightarrow> u64 \<Rightarrow> bytes \<Rightarrow> nat \<Rightarrow> bytes" where
  "by_blocks g s inp n = concat (map (\<lambda>j. g (s + of_nat (j div 32)) (j mod 32) (slice (16 * j) 16 inp)) [0..<n])"

definition blockwise :: "xts_fun \<Rightarrow> (u64 \<Rightarrow> nat \<Rightarrow> bytes \<Rightarrow> bytes) \<Rightarrow> bool" where
  "blockwise F g \<longleftrightarrow> (\<forall>s j b. length b = 16 \<longrightarrow> length (g s j b) = 16) \<and>
     (\<forall>inp len off. xts_len_ok inp len \<longrightarrow> F inp len off = Some (by_blocks g (off div 512) inp (unat len div 16)))"

lemma by_blocks_uniform:
  assumes "\<And>s j b. length b = 16 \<Longrightarrow> length (g s j b) = 16" "16 * n \<le> length inp"
  shows "length (by_blocks g s inp n) = 16 * n"
    "j < n \<Longrightarrow> slice (16 * j) 16 (by_blocks g s inp n) = g (s + of_nat (j div 32)) (j mod 32) (slice (16 * j) 16 inp)"
proof -
  have len: "length (by_blocks g s inp k) = 16 * k" if "k \<le> n" for k
    using that by (induction k) (use assms in \<open>simp_all add: by_blocks_def\<close>)
  show "length (by_blocks g s inp n) = 16 * n" by (rule len) simp
  assume j: "j < n"
  have "by_blocks g s inp n = by_blocks g s inp (Suc j) @ concat (map (\<lambda>j. g (s + of_nat (j div 32)) (j mod 32) (slice (16 * j) 16 inp)) [Suc j..<n])"
  proof -
    have "[0..<n] = [0..<Suc j] @ [Suc j..<n]" using j upt_add_eq_append [of 0 "Suc j" "n - Suc j"] by simp
    then show ?thesis by (simp only: by_blocks_def map_append concat_append)
  qed
  also have "by_blocks g s inp (Suc j) = by_blocks g s inp j @ g (s + of_nat (j div 32)) (j mod 32) (slice (16 * j) 16 inp)"
    by (simp add: by_blocks_def)
  finally show "slice (16 * j) 16 (by_blocks g s inp n) = g (s + of_nat (j div 32)) (j mod 32) (slice (16 * j) 16 inp)"
    using j assms by (simp add: slice_def len)
qed

lemma blockwise_compose:
  assumes "blockwise F g" "blockwise F' g'"
  shows "blockwise (\<lambda>inp len off. Option.bind (F inp len off) (\<lambda>out. F' out len off)) (\<lambda>s j b. g' s j (g s j b))"
proof -
  have g: "length b = 16 \<Longrightarrow> length (g s j b) = 16" "length b = 16 \<Longrightarrow> length (g' s j b) = 16" for s j b
    using assms by (simp_all add: blockwise_def)
  have "by_blocks g' (off div 512) (by_blocks g (off div 512) inp (unat len div 16)) (unat len div 16) =
      by_blocks (\<lambda>s j b. g' s j (g s j b)) (off div 512) inp (unat len div 16)"
    and "xts_len_ok (by_blocks g (off div 512) inp (unat len div 16)) len"
    if ok: "xts_len_ok inp len" for inp len off
  proof -
    obtain m where m: "unat len = 512 * m" "512 * m \<le> length inp" using ok by (auto simp: xts_len_ok_def elim!: dvdE)
    then have n: "unat len div 16 = 32 * m" "16 * (32 * m) \<le> length inp" by simp_all
    note u = by_blocks_uniform [of g "32 * m" inp, OF g(1) n(2)]
    show "xts_len_ok (by_blocks g (off div 512) inp (unat len div 16)) len"
      using ok m by (simp add: xts_len_ok_def n u)
    show "by_blocks g' (off div 512) (by_blocks g (off div 512) inp (unat len div 16)) (unat len div 16) =
        by_blocks (\<lambda>s j b. g' s j (g s j b)) (off div 512) inp (unat len div 16)"
      unfolding n by (subst (1 3) by_blocks_def) (auto simp: u intro!: arg_cong [of _ _ concat])
  qed
  then show ?thesis using assms g by (auto simp: blockwise_def)
qed

section \<open>The template\<close>

lemma xts_blocks_concat:
  "xts_blocks f n t inp = concat (map (\<lambda>j. xts_block f ((tweak_next ^^ j) t) (slice (16 * j) 16 inp)) [0..<n])"
proof (induction n arbitrary: t inp)
  case (Suc n)
  have "[0..<Suc n] = 0 # map Suc [0..<n]" by (simp add: map_Suc_upt upt_conv_Cons)
  then show ?case
    by (simp add: Suc.IH xts_consts slice_def comp_def funpow_swap1 add.commute del: upt_Suc)
qed simp

definition template_block :: "(bytes \<Rightarrow> bytes) \<Rightarrow> (bytes \<Rightarrow> bytes) \<Rightarrow> u64 \<Rightarrow> nat \<Rightarrow> bytes \<Rightarrow> bytes" where
  "template_block tw f s j b = xts_block f ((tweak_next ^^ j) (sector_tweak tw (s + 1))) b"

lemma concat_sectors_blocks:
  "concat (map (\<lambda>i. xts_sector tw f (s + of_nat i + 1) (slice (512 * i) 512 inp)) [0..<m]) = by_blocks (template_block tw f) s inp (32 * m)"
proof (induction m)
  case (Suc m)
  let ?g = "\<lambda>j. template_block tw f (s + of_nat (j div 32)) (j mod 32) (slice (16 * j) 16 inp)"
  have sl: "slice (16 * j) 16 (slice (512 * m) 512 inp) = slice (16 * (32 * m + j)) 16 inp" if "j < 32" for j
    using that by (simp add: slice_slice algebra_simps)
  have "xts_sector tw f (s + of_nat m + 1) (slice (512 * m) 512 inp) = concat (map (\<lambda>j. ?g (32 * m + j)) [0..<32])"
    unfolding xts_sector_def xts_blocks_concat
    by (auto simp: xts_consts template_block_def sl simp del: upt_rec_numeral intro!: arg_cong [of _ _ concat])
  also have "map (\<lambda>j. ?g (32 * m + j)) [0..<32] = map ?g [32 * m..<32 * m + 32]"
    by (simp add: map_add_upt [symmetric] add.commute comp_def del: upt_rec_numeral)
  finally have "xts_sector tw f (s + of_nat m + 1) (slice (512 * m) 512 inp) = concat (map ?g [32 * m..<32 * m + 32])" .
  moreover have "[0..<32 * Suc m] = [0..<32 * m] @ [32 * m..<32 * m + 32]"
    using upt_add_eq_append [of 0 "32 * m" 32] by (simp add: add.commute)
  ultimately show ?case using Suc by (simp only: by_blocks_def upt_Suc map_append concat_append) simp
qed (simp add: by_blocks_def)

lemma blockwise_template: "blockwise (DEF_XTS_PROC tw f) (template_block tw f)"
proof -
  have "DEF_XTS_PROC tw f inp len off = Some (by_blocks (template_block tw f) (off div 512) inp (unat len div 16))"
    if ok: "xts_len_ok inp len" for inp len off
  proof -
    obtain m where m: "unat len = 512 * m" using ok by (auto simp: xts_len_ok_def elim!: dvdE)
    then show ?thesis
      using xts_loop_ok [OF ok, of tw f "off div 512"]
      by (simp add: DEF_XTS_PROC_def xts_consts concat_sectors_blocks [of tw f "off div 512"])
  qed
  then show ?thesis by (simp add: blockwise_def template_block_def)
qed

section \<open>The contract of a local routine pair\<close>

locale xts_local =
  fixes E D :: xts_fun and e d :: "u64 \<Rightarrow> nat \<Rightarrow> bytes \<Rightarrow> bytes"
  assumes enc: "blockwise E e" and dec: "blockwise D d"
    and dec_enc: "length b = 16 \<Longrightarrow> d s j (e s j b) = b"
begin

lemma lengths: "length b = 16 \<Longrightarrow> length (e s j b) = 16" "length b = 16 \<Longrightarrow> length (d s j b) = 16"
  using enc dec by (simp_all add: blockwise_def)

lemma encrypt_some:
  assumes "xts_len_ok inp len"
  shows "\<exists>c. E inp len off = Some c \<and> length c = unat len"
proof -
  obtain m where m: "unat len = 16 * m" "16 * m \<le> length inp"
    using assms by (auto simp: xts_len_ok_def elim!: dvdE intro: that [of "32 * _"])
  show ?thesis using enc assms m by_blocks_uniform(1) [of e m inp, OF lengths(1) m(2)] by (simp add: blockwise_def)
qed

text \<open>A block of the ciphertext that was not touched decrypts to the block it came from.\<close>

lemma decrypt_patched:
  assumes ok: "xts_len_ok inp len" and c: "E inp len off = Some c" and c': "length c' = unat len"
  shows "\<exists>p. D c' len off = Some p \<and> length p = unat len \<and>
    (\<forall>j < unat len div 16. slice (16 * j) 16 c' = slice (16 * j) 16 c \<longrightarrow> slice (16 * j) 16 p = slice (16 * j) 16 inp)"
proof -
  obtain m where m: "unat len = 16 * m" "16 * m \<le> length inp"
    using ok by (auto simp: xts_len_ok_def elim!: dvdE intro: that [of "32 * _"])
  have ok': "xts_len_ok c' len" using ok c' by (simp add: xts_len_ok_def)
  have cc: "c = by_blocks e (off div 512) inp m" using enc ok c m by (simp add: blockwise_def)
  have p: "D c' len off = Some (by_blocks d (off div 512) c' m)" using dec ok' m by (simp add: blockwise_def)
  have ue: "\<And>j. j < m \<Longrightarrow> slice (16 * j) 16 (by_blocks e (off div 512) inp m) =
      e (off div 512 + of_nat (j div 32)) (j mod 32) (slice (16 * j) 16 inp)"
    using m(2) lengths by (intro by_blocks_uniform)
  have ud: "length (by_blocks d (off div 512) c' m) = 16 * m"
    "\<And>j. j < m \<Longrightarrow> slice (16 * j) 16 (by_blocks d (off div 512) c' m) =
      d (off div 512 + of_nat (j div 32)) (j mod 32) (slice (16 * j) 16 c')"
    using c' m lengths by (intro by_blocks_uniform; simp)+
  have "slice (16 * j) 16 (by_blocks d (off div 512) c' m) = slice (16 * j) 16 inp"
    if j: "j < m" and same: "slice (16 * j) 16 c' = slice (16 * j) 16 c" for j
  proof -
    have "length (slice (16 * j) 16 inp) = 16" using j m(2) by (simp add: min_def)
    then show ?thesis using ud(2) [OF j] ue [OF j] same by (simp add: cc dec_enc)
  qed
  then show ?thesis using p ud(1) m by auto
qed

end

text \<open>Decrypting the first sectors and the rest in two calls is decrypting the whole.\<close>

lemma by_blocks_split:
  assumes "16 * n \<le> length inp"
  shows "by_blocks g s inp (32 * p + n) = by_blocks g s inp (32 * p) @ by_blocks g (s + of_nat p) (drop (512 * p) inp) n"
proof -
  let ?g = "\<lambda>j. g (s + of_nat (j div 32)) (j mod 32) (slice (16 * j) 16 inp)"
  have "map ?g [32 * p..<32 * p + n] = map (\<lambda>j. ?g (32 * p + j)) [0..<n]"
    by (simp add: map_add_upt [symmetric] add.commute comp_def)
  also have "\<dots> = map (\<lambda>j. g (s + of_nat p + of_nat (j div 32)) (j mod 32) (slice (16 * j) 16 (drop (512 * p) inp))) [0..<n]"
    by (simp add: slice_def algebra_simps)
  finally show ?thesis
    using upt_add_eq_append [of 0 "32 * p" n] by (simp only: by_blocks_def map_append concat_append add_0)
qed

lemma blockwise_split:
  assumes "blockwise D d" "xts_len_ok c len" "512 * p < unat len" "0 < p" "unat off + 512 * p < 2 ^ 64" "512 dvd unat off"
  shows "\<exists>a b. D c (of_nat (512 * p)) off = Some a \<and> D (drop (512 * p) c) (len - of_nat (512 * p)) (off + of_nat (512 * p)) = Some b \<and>
    D c len off = Some (a @ b)"
proof -
  obtain m where m: "unat len = 512 * m" "512 * m \<le> length c" using assms(2) by (auto simp: xts_len_ok_def elim!: dvdE)
  have "unat len < 2 ^ 64" using unsigned_less [of len, where ?'a = nat] by simp
  then have up: "unat (of_nat (512 * p) :: u64) = 512 * p" using assms(3) by (intro unat_word64_small) simp
  then have ul: "unat (len - of_nat (512 * p)) = 512 * (m - p)"
    using m assms(3) by (simp add: unat_sub word_le_nat_alt right_diff_distrib')
  have pm: "p < m" using assms(3) m by simp
  have "xts_len_ok c (of_nat (512 * p))" using assms(4) up m pm by (simp add: xts_len_ok_def)
  moreover have "xts_len_ok (drop (512 * p) c) (len - of_nat (512 * p))"
    unfolding xts_len_ok_def ul using m pm by (simp add: right_diff_distrib')
  moreover have "(off + of_nat (512 * p)) div 512 = off div 512 + of_nat p"
  proof -
    have "unat (off + of_nat (512 * p)) = unat off + 512 * p" using assms(5) up by (simp add: unat_word_ariths(1))
    then show ?thesis by (simp add: word_arith_nat_div)
  qed
  moreover have "unat len div 16 = 32 * p + 32 * (m - p)" "512 * (m - p) div 16 = 32 * (m - p)" "512 * p div 16 = 32 * p" using m pm by simp_all
  ultimately show ?thesis
    using assms(1,2) by_blocks_split [of "32 * (m - p)" c d "off div 512" p] m pm
    by (simp add: blockwise_def up ul del: of_nat_mult)
qed

section \<open>The routines of the library\<close>

context block_cipher
begin

lemma template_local:
  "valid k \<Longrightarrow> xts_local (DEF_XTS_PROC tw (enc k)) (DEF_XTS_PROC tw (dec k)) (template_block tw (enc k)) (template_block tw (dec k))"
  by unfold_locales (auto simp: blockwise_template template_block_def xts_block_def length_enc dec_enc)

end

lemma local_cascade:
  assumes "xts_local E D e d" "xts_local E' D' e' d'"
  shows "xts_local (\<lambda>inp len off. Option.bind (E inp len off) (\<lambda>out. E' out len off))
    (\<lambda>inp len off. Option.bind (D' inp len off) (\<lambda>out. D out len off)) (\<lambda>s j b. e' s j (e s j b)) (\<lambda>s j b. d s j (d' s j b))"
  using assms xts_local.lengths [OF assms(1)] by (auto simp: xts_local_def blockwise_compose)

definition local_pair :: "xts_fun \<Rightarrow> xts_fun \<Rightarrow> bool" where
  "local_pair E D \<longleftrightarrow> (\<exists>e d. xts_local E D e d)"

lemma then_do_local:
  "local_pair (f key) (g key) \<Longrightarrow> local_pair (f' key) (g' key) \<Longrightarrow> local_pair (then_do f f' key) (then_do g' g key)"
  unfolding local_pair_def then_do_def [abs_def] using local_cascade by blast

interpretation serpent_local: xts_local "xts_serpent_basic_encrypt key" "xts_serpent_basic_decrypt key"
    "template_block (serpent256_encrypt (k_serpent (tweak_k key))) (serpent256_encrypt (k_serpent (crypt_k key)))"
    "template_block (serpent256_encrypt (k_serpent (tweak_k key))) (serpent256_decrypt (k_serpent (crypt_k key)))" for key
  unfolding xts_serpent_basic_encrypt_def xts_serpent_basic_decrypt_def
  by (rule block_cipher.template_local [OF serpent.block_cipher_axioms]) simp

interpretation tf_local: xts_local "tf_encrypt key" "tf_decrypt key"
    "template_block (twofish256_encrypt (k_twofish (tweak_k key))) (twofish256_encrypt (k_twofish (crypt_k key)))"
    "template_block (twofish256_encrypt (k_twofish (tweak_k key))) (twofish256_decrypt (k_twofish (crypt_k key)))" for key
  unfolding tf_encrypt_def tf_decrypt_def xts_twofish_template
  by (rule block_cipher.template_local [OF twofish.block_cipher_axioms]) simp

lemma local_basics:
  "local_pair (xts_serpent_basic_encrypt key) (xts_serpent_basic_decrypt key)" "local_pair (tf_encrypt key) (tf_decrypt key)"
  using serpent_local.xts_local_axioms [of key] tf_local.xts_local_axioms [of key] unfolding local_pair_def by iprover+

lemma local_aes:
  "aes_core_ok A \<Longrightarrow> k_aes (crypt_k key) \<in> range aes256_set_key \<Longrightarrow>
   local_pair (xts_aes_basic_encrypt A key) (xts_aes_basic_decrypt A key)"
  unfolding local_pair_def xts_aes_basic_encrypt_def xts_aes_basic_decrypt_def aes_core_ok_def
  by (intro exI) (rule block_cipher.template_local)

lemma xts_set_key_local:
  assumes A: "aes_core_ok A" and set: "xts_set_key key alg skey = (1, skey')"
  shows "local_pair (xts_encrypt (scalar_selection A) skey') (xts_decrypt (scalar_selection A) skey')"
proof -
  note pairs = local_basics local_aes [OF A]
  note defs = xts_encrypt_def xts_decrypt_def scalar_selection_def xts_aes_twofish_encrypt_def xts_aes_twofish_decrypt_def
    xts_twofish_serpent_encrypt_def xts_twofish_serpent_decrypt_def xts_serpent_aes_encrypt_def xts_serpent_aes_decrypt_def
    xts_aes_twofish_serpent_encrypt_def xts_aes_twofish_serpent_decrypt_def
  have three: "local_pair (then_do (then_do f g) h key) (then_do (then_do h' g') f' key)"
    if "local_pair (f key) (f' key)" "local_pair (g key) (g' key)" "local_pair (h key) (h' key)" for f g h f' g' h' key
    unfolding then_do_assoc [of h' g' f'] by (intro then_do_local that)
  show ?thesis
    using set unfolding xts_set_key_def
    by (auto simp: defs pairs then_do_local three split: if_splits)
qed

end
