(* ===== verification/VolDefs.thy ===== *)
theory VolDefs
  imports Prelude
begin

text \<open>
  Constants and structures shared by the volume library (\<^verbatim>\<open>DCrypt/volume_lib\<close>): status codes
  (\<^verbatim>\<open>dc_status.h\<close>), the password structure and the sizes of the volume header
  (\<^verbatim>\<open>_include_/volume_header.h\<close>).  A status is an \<^typ>\<open>int\<close>, as in the source.
\<close>

unbundle bit_operations_syntax

type_synonym status = int

definition ST_OK :: status where "ST_OK = 0"
definition ST_ERROR :: status where "ST_ERROR = 1"
definition ST_RW_ERR :: status where "ST_RW_ERR = 3"
definition ST_PASS_ERR :: status where "ST_PASS_ERR = 4"
definition ST_NOMEM :: status where "ST_NOMEM = 9"
definition ST_INV_DATA_SIZE :: status where "ST_INV_DATA_SIZE = 12"
definition ST_IO_ERROR :: status where "ST_IO_ERROR = 15"
definition ST_NF_SPACE :: status where "ST_NF_SPACE = 20"
definition ST_FINISHED :: status where "ST_FINISHED = 32"
definition ST_INV_SECT :: status where "ST_INV_SECT = 34"
definition ST_CANCEL :: status where "ST_CANCEL = 42"
definition ST_EMPTY_KEYFILES :: status where "ST_EMPTY_KEYFILES = 44"
definition ST_INV_VOLUME :: status where "ST_INV_VOLUME = 48"
definition ST_INCOMPATIBLE :: status where "ST_INCOMPATIBLE = 52"
definition ST_INVALID_PARAM :: status where "ST_INVALID_PARAM = 55"
definition ST_SMALL_BUFF :: status where "ST_SMALL_BUFF = 63"
definition ST_BAD_INDEX :: status where "ST_BAD_INDEX = 64"
definition ST_SLOT_NOT_OK :: status where "ST_SLOT_NOT_OK = 65"

lemmas st_defs = ST_OK_def ST_ERROR_def ST_RW_ERR_def ST_PASS_ERR_def ST_NOMEM_def ST_INV_DATA_SIZE_def
  ST_IO_ERROR_def ST_NF_SPACE_def ST_FINISHED_def ST_INV_SECT_def ST_CANCEL_def ST_EMPTY_KEYFILES_def
  ST_INV_VOLUME_def ST_INCOMPATIBLE_def ST_INVALID_PARAM_def ST_SMALL_BUFF_def ST_BAD_INDEX_def ST_SLOT_NOT_OK_def

definition HEADER_SALT_SIZE :: nat where "HEADER_SALT_SIZE = 64"
definition MAX_KEY_SIZE :: nat where "MAX_KEY_SIZE = 32 * 3"
definition PKCS_DERIVE_MAX :: nat where "PKCS_DERIVE_MAX = MAX_KEY_SIZE * 2"
definition DISKKEY_SIZE :: nat where "DISKKEY_SIZE = 256"
definition MAX_PASSWORD :: nat where "MAX_PASSWORD = 128"
definition SLOT_LABEL_LEN :: nat where "SLOT_LABEL_LEN = 20"
definition DC_BASE_SIZE :: nat where "DC_BASE_SIZE = 1024"
definition DC_AREA_SIZE :: nat where "DC_AREA_SIZE = 2 * 1024"
definition DC_CRC_AREA_SIZE_1 :: nat where "DC_CRC_AREA_SIZE_1 = (DC_AREA_SIZE - HEADER_SALT_SIZE) - 8"
definition DC_CRC_AREA_SIZE_2 :: nat where "DC_CRC_AREA_SIZE_2 = (DC_BASE_SIZE - HEADER_SALT_SIZE) - 8"
definition DC_AREA_MAX_SIZE :: nat where "DC_AREA_MAX_SIZE = 32 * 1024 * 1024"
definition SECTOR_SIZE :: nat where "SECTOR_SIZE = 512"
definition MAX_SECTOR_SIZE :: nat where "MAX_SECTOR_SIZE = 4096"
definition DC_VOLUME_SIGN :: u32 where "DC_VOLUME_SIGN = 0x50524344"
definition DC_HDR_VERSION :: u16 where "DC_HDR_VERSION = 2"
definition DC_HDR_VERSION_2 :: u16 where "DC_HDR_VERSION_2 = 3"
definition FF_KEY_SLOTS :: u32 where "FF_KEY_SLOTS = 0x01"
definition SLOT_INFO_SIZE :: nat where "SLOT_INFO_SIZE = 32"
definition MIN_EXT_HDR_SIZE :: nat where "MIN_EXT_HDR_SIZE = 10"

definition KDF_SHA512_PKCS5_2 :: int where "KDF_SHA512_PKCS5_2 = 0"
definition KDF_ARGON_MIN :: int where "KDF_ARGON_MIN = 1"
definition KDF_ARGON_DEFAULT :: int where "KDF_ARGON_DEFAULT = 5"
definition KDF_ARGON_MAX :: int where "KDF_ARGON_MAX = 10"
definition KDF_NONE :: int where "KDF_NONE = -1"
definition KDF_DEFAULT :: int where "KDF_DEFAULT = -2"
definition KDF_ALL :: int where "KDF_ALL = -3"

lemmas vol_sizes = HEADER_SALT_SIZE_def MAX_KEY_SIZE_def PKCS_DERIVE_MAX_def DISKKEY_SIZE_def MAX_PASSWORD_def
  SLOT_LABEL_LEN_def DC_BASE_SIZE_def DC_AREA_SIZE_def DC_CRC_AREA_SIZE_1_def DC_CRC_AREA_SIZE_2_def
  DC_AREA_MAX_SIZE_def SECTOR_SIZE_def MAX_SECTOR_SIZE_def SLOT_INFO_SIZE_def MIN_EXT_HDR_SIZE_def

lemmas kdf_defs = KDF_SHA512_PKCS5_2_def KDF_ARGON_MIN_def KDF_ARGON_DEFAULT_def KDF_ARGON_MAX_def
  KDF_NONE_def KDF_DEFAULT_def KDF_ALL_def

text \<open>The password structure; \<open>p_pass\<close> is the \<^verbatim>\<open>wchar_t\<close> array as its 256 bytes.\<close>

record dc_pass =
  p_size :: int
  p_pass :: bytes
  p_kdf :: int
  p_slot :: int
  p_flags :: u32
  p_label :: bytes

definition pass_wf :: "dc_pass \<Rightarrow> bool" where
  "pass_wf p \<longleftrightarrow> 0 \<le> p_size p \<and> p_size p \<le> int (MAX_PASSWORD * 2) \<and> length (p_pass p) = MAX_PASSWORD * 2"

text \<open>The bytes \<^verbatim>\<open>pass->pass\<close> to \<^verbatim>\<open>pass->pass + pass->size\<close>.\<close>

definition pass_bytes :: "dc_pass \<Rightarrow> bytes" where
  "pass_bytes p = take (nat (p_size p)) (p_pass p)"

lemma length_pass_bytes: "pass_wf p \<Longrightarrow> length (pass_bytes p) = nat (p_size p)"
  by (auto simp: pass_wf_def pass_bytes_def)

end
