(* ===== verification/KeyfileMix.thy ===== *)
theory KeyfileMix
  imports Sha512 VolDefs "HOL-Library.List_Lexorder" "HOL-Library.Multiset"
begin

text \<open>
  Keyfile mixing (\<^verbatim>\<open>DCrypt/volume_lib/keyfile_mix.c\<close>): the set of keyfile digests with its growing array,
  the in-place insertion sort and the compacting removal of duplicates, the two domain-separated digests,
  and the additive scheme of version 1.  The digest array is the list of its 64-byte slots, \<^const>\<open>None\<close>
  for the null pointer; memory obtained from the host is a parameter \<open>alloc\<close> giving the slots of the new
  block or \<^const>\<open>None\<close>.  Optional arguments model pointers that the code tests against null.

  Counters have the type \<^verbatim>\<open>int\<close> in the code and sizes the type \<^verbatim>\<open>size_t\<close> of \<open>bits\<close> bits.  The operations that
  grow the array return \<^const>\<open>None\<close> where a counter leaves the range of an \<^verbatim>\<open>int\<close> or where a store leaves the
  block that was obtained, which is shorter than wanted when its size wraps; sizes are computed modulo \<open>2 ^ bits\<close>.
\<close>

unbundle bit_operations_syntax

section \<open>The code\<close>

definition DC_KF_HASH_SIZE :: nat where "DC_KF_HASH_SIZE = 64"
definition DC_KF_MIXER_INITIAL_CAPACITY :: int where "DC_KF_MIXER_INITIAL_CAPACITY = 16"

definition kf_domain_set :: bytes where
  "kf_domain_set = map (\<lambda>c. of_nat (of_char c)) ''DC2-KFSET-v1''"

definition kf_domain_pass :: bytes where
  "kf_domain_pass = map (\<lambda>c. of_nat (of_char c)) ''DC2-PW-KF-v1''"

text \<open>A hash context on the stack; its contents do not matter before \<^verbatim>\<open>sha512_init\<close>.\<close>

definition sha_storage :: sha512_ctx where
  "sha_storage = \<lparr>sha_hash = replicate 8 0, sha_length = 0, sha_curlen = 0, sha_buf = replicate 128 0\<rparr>"

definition cp_kf_hash_data :: "bytes option \<Rightarrow> u32 \<Rightarrow> bytes option \<Rightarrow> status \<times> bytes option" where
  "cp_kf_hash_data data sz out_hash =
     (if data = None \<or> sz = 0 \<or> out_hash = None then (ST_INVALID_PARAM, out_hash)
      else let sha = sha512_init sha_storage;
               sha = sha512_hash sha (take (unat sz) (the data))
           in (ST_OK, Some (snd (sha512_done sha))))"

record dc_kf_mixer =
  kf_hashes :: "bytes list option"
  kf_count :: int
  kf_capacity :: int

definition mixer_empty :: dc_kf_mixer where
  "mixer_empty = \<lparr>kf_hashes = None, kf_count = 0, kf_capacity = 0\<rparr>"

definition cp_kf_mixer_init :: "dc_kf_mixer option \<Rightarrow> status \<times> dc_kf_mixer option" where
  "cp_kf_mixer_init ctx = (case ctx of None \<Rightarrow> (ST_INVALID_PARAM, None) | Some c \<Rightarrow> (ST_OK, Some mixer_empty))"

definition cp_kf_mixer_free :: "dc_kf_mixer option \<Rightarrow> dc_kf_mixer option" where
  "cp_kf_mixer_free ctx =
     (case ctx of None \<Rightarrow> None | Some c \<Rightarrow> Some (c\<lparr>kf_hashes := None, kf_count := 0, kf_capacity := 0\<rparr>))"

definition INT_MAX :: int where "INT_MAX = 2 ^ 31 - 1"

text \<open>The slots that \<^verbatim>\<open>(size_t)n * DC_KF_HASH_SIZE\<close> bytes are.\<close>

definition kf_slots :: "nat \<Rightarrow> int \<Rightarrow> int" where
  "kf_slots bits n = (n * int DC_KF_HASH_SIZE) mod 2 ^ bits div int DC_KF_HASH_SIZE"

definition kf_grow :: "nat \<Rightarrow> (int \<Rightarrow> bytes list option) \<Rightarrow> dc_kf_mixer \<Rightarrow> (status \<times> dc_kf_mixer) option" where
  "kf_grow bits alloc ctx =
     (if kf_count ctx < kf_capacity ctx then Some (ST_OK, ctx)
      else let want = (if kf_capacity ctx \<noteq> 0 then kf_capacity ctx * 2 else DC_KF_MIXER_INITIAL_CAPACITY)
           in if INT_MAX < want then None
              else case alloc (kf_slots bits want) of
                None \<Rightarrow> Some (ST_NOMEM, ctx)
              | Some bigger \<Rightarrow>
                  (case kf_hashes ctx of
                     None \<Rightarrow> Some (ST_OK, ctx\<lparr>kf_hashes := Some bigger, kf_capacity := want\<rparr>)
                   | Some hs \<Rightarrow>
                       let used = nat (kf_slots bits (kf_count ctx))
                       in if length bigger < used then None
                          else Some (ST_OK, ctx\<lparr>kf_hashes := Some (take used hs @ drop used bigger), kf_capacity := want\<rparr>)))"

definition cp_kf_mixer_add_hash ::
  "nat \<Rightarrow> (int \<Rightarrow> bytes list option) \<Rightarrow> dc_kf_mixer option \<Rightarrow> bytes option \<Rightarrow> (status \<times> dc_kf_mixer option) option" where
  "cp_kf_mixer_add_hash bits alloc ctx hash =
     (case (ctx, hash) of
        (Some c, Some h) \<Rightarrow>
          (case kf_grow bits alloc c of
             None \<Rightarrow> None
           | Some (resl, c) \<Rightarrow>
               if resl \<noteq> ST_OK then Some (resl, Some c)
               else (case kf_hashes c of
                       None \<Rightarrow> None
                     | Some hs \<Rightarrow>
                         if length hs \<le> nat (kf_count c) \<or> INT_MAX \<le> kf_count c then None
                         else Some (ST_OK, Some (c\<lparr>kf_hashes := Some (hs[nat (kf_count c) := h]),
                                                    kf_count := kf_count c + 1\<rparr>))))
      | _ \<Rightarrow> Some (ST_INVALID_PARAM, ctx))"

definition cp_kf_mixer_add_data ::
  "nat \<Rightarrow> (int \<Rightarrow> bytes list option) \<Rightarrow> dc_kf_mixer option \<Rightarrow> bytes option \<Rightarrow> u32 \<Rightarrow> (status \<times> dc_kf_mixer option) option" where
  "cp_kf_mixer_add_data bits alloc ctx data sz =
     (if ctx = None then Some (ST_INVALID_PARAM, ctx)
      else let hash = replicate DC_KF_HASH_SIZE 0
           in case cp_kf_hash_data data sz (Some hash) of (resl, hash) \<Rightarrow>
                if resl = ST_OK then cp_kf_mixer_add_hash bits alloc ctx hash else Some (resl, ctx))"

text \<open>Bytewise comparison of two digests.\<close>

fun kf_hash_cmp :: "bytes \<Rightarrow> bytes \<Rightarrow> int" where
  "kf_hash_cmp (a # as) (b # bs) = (if a \<noteq> b then (if a < b then -1 else 1) else kf_hash_cmp as bs)"
| "kf_hash_cmp _ _ = 0"

text \<open>
  The inner loop of the sort with \<open>k = j + 1\<close>: slot \<open>k\<close> is free, larger digests below it move up.
\<close>

fun kf_sift :: "bytes list \<Rightarrow> bytes \<Rightarrow> nat \<Rightarrow> bytes list" where
  "kf_sift hs held 0 = hs[0 := held]"
| "kf_sift hs held (Suc j) =
     (if kf_hash_cmp (hs ! j) held > 0 then kf_sift (hs[Suc j := hs ! j]) held j else hs[Suc j := held])"

definition kf_sort :: "bytes list \<Rightarrow> nat \<Rightarrow> bytes list" where
  "kf_sort hashes cnt = fold (\<lambda>i hs. kf_sift hs (hs ! i) i) [1..<cnt] hashes"

definition kf_dedup_step :: "nat \<Rightarrow> bytes list \<times> nat \<Rightarrow> bytes list \<times> nat" where
  "kf_dedup_step i = (\<lambda>(hs, out).
     if kf_hash_cmp (hs ! (out - 1)) (hs ! i) = 0 then (hs, out)
     else ((if out \<noteq> i then hs[out := hs ! i] else hs), out + 1))"

definition kf_dedup :: "bytes list \<Rightarrow> nat \<Rightarrow> bytes list \<times> nat" where
  "kf_dedup hashes cnt =
     (if cnt < 2 then (hashes, cnt) else fold kf_dedup_step [1..<cnt] (hashes, 1))"

definition cp_kf_mixer_combine :: "dc_pass option \<Rightarrow> bytes option \<Rightarrow> dc_pass option" where
  "cp_kf_mixer_combine pass keyfiles_hash =
     (case (pass, keyfiles_hash) of
        (Some p, Some kh) \<Rightarrow>
          if p_size p = 0 then Some (p\<lparr>p_pass := overlay 0 kh (p_pass p), p_size := int DC_KF_HASH_SIZE\<rparr>)
          else let sha = sha512_init sha_storage;
                   sha = sha512_hash sha kf_domain_pass;
                   sha = sha512_hash sha (take (nat (p_size p)) (p_pass p));
                   sha = sha512_hash sha kh
               in Some (p\<lparr>p_pass := overlay 0 (snd (sha512_done sha)) (p_pass p), p_size := int DC_KF_HASH_SIZE\<rparr>)
      | _ \<Rightarrow> pass)"

definition cp_kf_mixer_finish :: "dc_kf_mixer option \<Rightarrow> dc_pass option \<Rightarrow> status \<times> dc_kf_mixer option \<times> dc_pass option" where
  "cp_kf_mixer_finish ctx pass =
     (case (ctx, pass) of
        (Some c, Some p) \<Rightarrow>
          if kf_count c = 0 then (ST_EMPTY_KEYFILES, cp_kf_mixer_free ctx, pass)
          else let hs = kf_sort (the (kf_hashes c)) (nat (kf_count c));
                   (hs, cnt) = kf_dedup hs (nat (kf_count c));
                   ctx = Some (c\<lparr>kf_hashes := Some hs, kf_count := int cnt\<rparr>);
                   sha = sha512_init sha_storage;
                   sha = sha512_hash sha kf_domain_set;
                   sha = foldl sha512_hash sha (take cnt hs);
                   set_hash = snd (sha512_done sha)
               in (ST_OK, cp_kf_mixer_free ctx, cp_kf_mixer_combine (Some p) (Some set_hash))
      | _ \<Rightarrow> (ST_INVALID_PARAM, ctx, pass))"

definition cp_kf_mix_additive :: "dc_pass option \<Rightarrow> bytes option \<Rightarrow> dc_pass option" where
  "cp_kf_mix_additive pass hash =
     (case (pass, hash) of
        (Some p, Some h) \<Rightarrow>
          let buf = overlay (nat (p_size p)) (replicate (MAX_PASSWORD * 2 - nat (p_size p)) 0) (p_pass p);
              words = DC_KF_HASH_SIZE div 4;
              buf = fold (\<lambda>i buf. overlay (4 * i) (le_bytes 4 (le_word (slice (4 * i) 4 buf) + (le_word (slice (4 * i) 4 h) :: u32))) buf)
                      [0..<words] buf
          in Some (p\<lparr>p_pass := buf, p_size := (if p_size p < int DC_KF_HASH_SIZE then int DC_KF_HASH_SIZE else p_size p)\<rparr>)
      | _ \<Rightarrow> pass)"

section \<open>Comparison and sorting\<close>

lemma kf_hash_cmp_less: "length a = length b \<Longrightarrow> kf_hash_cmp a b < 0 \<longleftrightarrow> a < b"
  by (induction a b rule: kf_hash_cmp.induct) auto

lemma kf_hash_cmp_eq: "length a = length b \<Longrightarrow> kf_hash_cmp a b = 0 \<longleftrightarrow> a = b"
  by (induction a b rule: kf_hash_cmp.induct) auto

lemma kf_hash_cmp_greater: "length a = length b \<Longrightarrow> kf_hash_cmp a b > 0 \<longleftrightarrow> b < a"
  by (induction a b rule: kf_hash_cmp.induct) auto

lemma insort_snoc_greater: "x < (y :: 'a::linorder) \<Longrightarrow> insort x (xs @ [y]) = insort x xs @ [y]"
  by (induction xs) auto

lemma insort_all_less_eq: "\<forall>y \<in> set xs. y \<le> (x :: 'a::linorder) \<Longrightarrow> sorted xs \<Longrightarrow> insort x xs = xs @ [x]"
proof (induction xs)
  case (Cons y xs)
  show ?case
  proof (cases "x \<le> y")
    case True
    then have "y = x" "\<forall>z \<in> set xs. z = x" using Cons.prems by (auto intro: order_antisym)
    then have "y = x" "xs = replicate (length xs) x" by (simp_all add: replicate_length_same)
    then show ?thesis by (metis insort_key.simps(2) order_refl replicate_Suc replicate_append_same append_Cons)
  next
    case False
    then show ?thesis using Cons by simp
  qed
qed simp

lemma kf_sift_insort:
  assumes "k < length hs" "sorted (take k hs)" "\<forall>h \<in> set hs. length h = 64" "length held = 64"
  shows "kf_sift hs held k = insort held (take k hs) @ drop (Suc k) hs"
  using assms
proof (induction k arbitrary: hs)
  case 0
  then show ?case by (cases hs) simp_all
next
  case (Suc j)
  have take: "take (Suc j) hs = take j hs @ [hs ! j]" using Suc.prems(1) by (simp add: take_Suc_conv_app_nth)
  have len: "length (hs ! j) = length held" using Suc.prems by simp
  show ?case
  proof (cases "held < hs ! j")
    case True
    let ?hs = "hs[Suc j := hs ! j]"
    have "set ?hs \<subseteq> set hs"
      using Suc.prems(1) set_update_subset_insert [of hs "Suc j" "hs ! j"] by auto
    then have "kf_sift ?hs held j = insort held (take j ?hs) @ drop (Suc j) ?hs"
      using Suc.prems take by (intro Suc.IH) (auto simp: sorted_append)
    also have "drop (Suc j) ?hs = hs ! j # drop (Suc (Suc j)) hs"
      using Suc.prems(1) by (simp add: drop_update_swap Cons_nth_drop_Suc [symmetric])
    finally show ?thesis
      using True len by (simp add: kf_hash_cmp_greater take insort_snoc_greater)
  next
    case False
    then have "\<forall>y \<in> set (take (Suc j) hs). y \<le> held"
      using Suc.prems(2) unfolding take by (auto simp: sorted_append)
    then have "insort held (take (Suc j) hs) = take (Suc j) hs @ [held]"
      using Suc.prems(2) by (rule insort_all_less_eq)
    moreover have "hs[Suc j := held] = take (Suc j) hs @ held # drop (Suc (Suc j)) hs"
      using Suc.prems(1) by (rule upd_conv_take_nth_drop)
    ultimately show ?thesis
      using False len by (simp add: kf_hash_cmp_greater)
  qed
qed

lemma kf_sort_sorts:
  assumes "1 \<le> n" "n \<le> length hs" "\<forall>h \<in> set hs. length h = 64"
  shows "kf_sort hs n = sort (take n hs) @ drop n hs"
  using assms(1,2)
proof (induction n rule: dec_induct)
  case base
  show ?case by (cases hs) (simp_all add: kf_sort_def)
next
  case (step n)
  let ?hs = "sort (take n hs) @ drop n hs"
  have nth: "?hs ! n = hs ! n" and len: "n < length ?hs" and tk: "take n ?hs = sort (take n hs)" and dr: "drop (Suc n) ?hs = drop (Suc n) hs"
    using step.prems by (simp_all add: nth_append)
  have "set ?hs = set hs" by (simp add: set_append [symmetric])
  then have "kf_sift ?hs (hs ! n) n = insort (hs ! n) (sort (take n hs)) @ drop (Suc n) hs"
    using kf_sift_insort [of n ?hs "hs ! n"] step.prems assms(3) by (simp only: nth len tk dr) simp
  moreover have "insort (hs ! n) (sort (take n hs)) = sort (take (Suc n) hs)"
    using step.prems by (intro properties_for_sort [symmetric]) (simp_all add: take_Suc_conv_app_nth sorted_insort)
  ultimately show ?case
    using step by (simp add: kf_sort_def nth)
qed

section \<open>Removal of duplicates\<close>

lemma remdups_adj_snoc:
  "remdups_adj (xs @ [x]) = (if xs \<noteq> [] \<and> last xs = x then remdups_adj xs else remdups_adj xs @ [x])"
  by (induction xs rule: remdups_adj.induct) auto

lemma kf_dedup_fold:
  assumes "1 \<le> n" "n \<le> length hs" "\<forall>h \<in> set hs. length h = 64"
  shows "\<exists>hs' out. fold kf_dedup_step [1..<n] (hs, 1) = (hs', out) \<and> length hs' = length hs \<and> 1 \<le> out \<and> out \<le> n \<and>
    take out hs' = remdups_adj (take n hs) \<and> drop n hs' = drop n hs \<and> (\<forall>h \<in> set hs'. length h = 64)"
  using assms(1,2)
proof (induction n rule: dec_induct)
  case base
  show ?case using assms by (cases hs) auto
next
  case (step n)
  then obtain hs' out where IH: "fold kf_dedup_step [1..<n] (hs, 1) = (hs', out)" "length hs' = length hs" "1 \<le> out" "out \<le> n"
      "take out hs' = remdups_adj (take n hs)" "drop n hs' = drop n hs" "\<forall>h \<in> set hs'. length h = 64" by auto
  have n: "n < length hs" "n < length hs'" using step.prems IH(2) by simp_all
  have cur: "hs' ! n = hs ! n" using IH(6) n by (metis Cons_nth_drop_Suc list.inject)
  have kept: "hs' ! (out - 1) = last (take n hs)"
  proof -
    have "last (take out hs') = hs' ! (out - 1)" using IH(3,4) n by (subst last_conv_nth) auto
    moreover have "take n hs \<noteq> []" using step.hyps n by auto
    ultimately show ?thesis using IH(5) by (metis last_remdups_adj)
  qed
  have eq: "kf_hash_cmp (hs' ! (out - 1)) (hs' ! n) = 0 \<longleftrightarrow> last (take n hs) = hs ! n"
  proof -
    have "out - 1 < length hs'" using IH(4) n by simp
    then have "length (hs' ! (out - 1)) = length (hs' ! n)" using IH(7) n by simp
    then show ?thesis by (simp only: kf_hash_cmp_eq cur kept)
  qed
  have take: "take (Suc n) hs = take n hs @ [hs ! n]" using n by (simp add: take_Suc_conv_app_nth)
  have fold: "fold kf_dedup_step [1..<Suc n] (hs, 1) = kf_dedup_step n (hs', out)"
    using step.hyps IH(1) by simp
  have drop: "drop (Suc n) hs' = drop (Suc n) hs" using IH(6) by (metis drop_Suc drop_drop add.commute plus_1_eq_Suc)
  show ?case
  proof (cases "last (take n hs) = hs ! n")
    case True
    then have "kf_dedup_step n (hs', out) = (hs', out)" by (simp only: kf_dedup_step_def prod.case eq) simp
    moreover have "take n hs \<noteq> []" using step.hyps n by auto
    ultimately show ?thesis
      unfolding fold using IH n drop True by (simp add: take remdups_adj_snoc)
  next
    case False
    have "take (out + 1) (if out \<noteq> n then hs'[out := hs' ! n] else hs') = take out hs' @ [hs ! n]"
      using IH(4) n by (simp add: take_Suc_conv_app_nth cur)
    moreover have "drop (Suc n) (if out \<noteq> n then hs'[out := hs' ! n] else hs') = drop (Suc n) hs"
      using IH(4) drop by simp
    moreover have "\<forall>h \<in> set (if out \<noteq> n then hs'[out := hs' ! n] else hs'). length h = 64"
      using IH(7) n by (auto dest!: set_update_subset_insert [THEN subsetD])
    moreover have "kf_dedup_step n (hs', out) = ((if out \<noteq> n then hs'[out := hs' ! n] else hs'), out + 1)"
      using False by (simp only: kf_dedup_step_def prod.case eq) simp
    ultimately show ?thesis
      unfolding fold using IH(2-5) False n by (simp add: take remdups_adj_snoc)
  qed
qed

lemma kf_dedup_take:
  assumes "1 \<le> n" "n \<le> length hs" "\<forall>h \<in> set hs. length h = 64"
  shows "(case kf_dedup hs n of (hs', out) \<Rightarrow> take out hs') = remdups_adj (take n hs)"
proof (cases "n < 2")
  case True
  then have "n = 1" using assms(1) by simp
  then show ?thesis by (cases hs) (simp_all add: kf_dedup_def)
next
  case False
  then show ?thesis using kf_dedup_fold [OF assms] by (auto simp: kf_dedup_def)
qed

lemma remdups_adj_sorted: "sorted xs \<Longrightarrow> remdups_adj xs = sorted_list_of_set (set xs)"
proof -
  assume "sorted xs"
  moreover have "distinct (remdups_adj xs)" if "sorted xs" for xs :: "'a list"
    using that by (induction xs rule: remdups_adj.induct) auto
  ultimately show ?thesis
    by (metis sorted_list_of_set.idem_if_sorted_distinct sorted_remdups_adj remdups_adj_set)
qed

section \<open>The growing set\<close>

text \<open>
  A collection that grows by appending: what a caller relies on when it adds keyfiles one after the other.
  An addition that is undefined in the code ends the run.
\<close>

fun run_adds :: "('s \<Rightarrow> 'a \<Rightarrow> (status \<times> 's) option) \<Rightarrow> 's \<Rightarrow> 'a list \<Rightarrow> 's option" where
  "run_adds add s [] = Some s"
| "run_adds add s (x # xs) = (case add s x of None \<Rightarrow> None | Some (_, s') \<Rightarrow> run_adds add s' xs)"

locale append_store =
  fixes inv :: "'s \<Rightarrow> bool"
    and good :: "'a \<Rightarrow> bool"
    and contents :: "'s \<Rightarrow> 'a list"
    and room :: "nat \<Rightarrow> bool"
    and add :: "'s \<Rightarrow> 'a \<Rightarrow> (status \<times> 's) option"
  assumes add_inv: "inv s \<Longrightarrow> good x \<Longrightarrow> add s x = Some (r, s') \<Longrightarrow> inv s'"
    and add_done: "inv s \<Longrightarrow> good x \<Longrightarrow> add s x = Some (ST_OK, s') \<Longrightarrow> contents s' = contents s @ [x]"
    and add_failed: "inv s \<Longrightarrow> good x \<Longrightarrow> add s x = Some (r, s') \<Longrightarrow> r \<noteq> ST_OK \<Longrightarrow> contents s' = contents s"
    and add_defined: "inv s \<Longrightarrow> good x \<Longrightarrow> room (length (contents s) + 1) \<Longrightarrow> add s x \<noteq> None"
    and room_less: "room n \<Longrightarrow> m \<le> n \<Longrightarrow> room m"
begin

lemma adds_inv: "inv s \<Longrightarrow> \<forall>x \<in> set xs. good x \<Longrightarrow> run_adds add s xs = Some s' \<Longrightarrow> inv s'"
  by (induction xs arbitrary: s) (auto split: option.splits dest: add_inv)

lemma adds_contents:
  assumes "\<And>s x. inv s \<Longrightarrow> good x \<Longrightarrow> \<forall>r s'. add s x = Some (r, s') \<longrightarrow> r = ST_OK"
    and "inv s" "\<forall>x \<in> set xs. good x" "room (length (contents s) + length xs)"
  shows "\<exists>s'. run_adds add s xs = Some s' \<and> contents s' = contents s @ xs"
  using assms(2-4)
proof (induction xs arbitrary: s)
  case (Cons x xs)
  have "room (length (contents s) + 1)" by (rule room_less [OF Cons.prems(3)]) simp
  then obtain r s1 where "add s x = Some (r, s1)" using add_defined [of s x] Cons.prems by auto
  moreover from this have "r = ST_OK" using assms(1) [of s x] Cons.prems by simp
  ultimately have s1: "add s x = Some (ST_OK, s1)" by simp
  then have "inv s1" "contents s1 = contents s @ [x]" using add_inv [OF _ _ s1] add_done [OF _ _ s1] Cons.prems by simp_all
  then show ?case using Cons.IH [of s1] Cons.prems s1 by simp
qed simp

end

text \<open>The array holds \<open>capacity\<close> slots of 64 bytes, the first \<open>count\<close> of them in use.\<close>

definition digest_ok :: "bytes \<Rightarrow> bool" where
  "digest_ok h \<longleftrightarrow> length h = DC_KF_HASH_SIZE"

definition mixer_ok :: "dc_kf_mixer \<Rightarrow> bool" where
  "mixer_ok c \<longleftrightarrow> 0 \<le> kf_count c \<and> kf_count c \<le> kf_capacity c \<and>
     (case kf_hashes c of None \<Rightarrow> kf_capacity c = 0
      | Some hs \<Rightarrow> int (length hs) = kf_capacity c \<and> 0 < kf_capacity c \<and> (\<forall>h \<in> set hs. digest_ok h))"

definition mixer_contents :: "dc_kf_mixer \<Rightarrow> bytes list" where
  "mixer_contents c = (case kf_hashes c of None \<Rightarrow> [] | Some hs \<Rightarrow> take (nat (kf_count c)) hs)"

text \<open>The host gives a block of the size asked for, or none.\<close>

definition kf_alloc_ok :: "(int \<Rightarrow> bytes list option) \<Rightarrow> bool" where
  "kf_alloc_ok alloc \<longleftrightarrow> (\<forall>n bs. alloc n = Some bs \<longrightarrow> int (length bs) = n \<and> (\<forall>b \<in> set bs. digest_ok b))"

lemma mixer_ok_empty [simp]: "mixer_ok mixer_empty" "mixer_contents mixer_empty = []"
  by (simp_all add: mixer_ok_def mixer_empty_def mixer_contents_def)

text \<open>A number of digests that the counters and the address space can hold while the array doubles.\<close>

definition kf_fits :: "nat \<Rightarrow> nat \<Rightarrow> bool" where
  "kf_fits bits n \<longleftrightarrow> 32 \<le> bits \<and> n \<le> 2 ^ 30 \<and> 128 * n \<le> 2 ^ bits"

lemma power_slots: "6 \<le> bits \<Longrightarrow> (2::int) ^ bits = 2 ^ (bits - 6) * 64"
  using power_add [of "2::int" "bits - 6" 6] by simp

lemma kf_slots_mod: "6 \<le> bits \<Longrightarrow> kf_slots bits n = n mod 2 ^ (bits - 6)"
  by (simp add: kf_slots_def DC_KF_HASH_SIZE_def power_slots flip: mult_mod_left)

lemma kf_slots_whole: "6 \<le> bits \<Longrightarrow> 0 \<le> n \<Longrightarrow> n < 2 ^ (bits - 6) \<Longrightarrow> kf_slots bits n = n"
  by (simp add: kf_slots_mod)

lemma kf_slots_double:
  assumes "6 \<le> bits" "0 \<le> n" "n < kf_slots bits (n * 2)"
  shows "n < 2 ^ (bits - 6)" "kf_slots bits n = n" "kf_slots bits (n * 2) = n * 2"
proof -
  let ?M = "(2::int) ^ (bits - 6)"
  have "n * 2 mod ?M < ?M" by (rule pos_mod_bound) simp
  then have less: "n < ?M" using assms by (simp add: kf_slots_mod del: pos_mod_bound)
  then show "n < ?M" "kf_slots bits n = n" using assms by (simp_all add: kf_slots_mod)
  show "kf_slots bits (n * 2) = n * 2"
  proof (rule ccontr)
    assume *: "\<not> ?thesis"
    then have "?M \<le> n * 2" using assms by (simp add: kf_slots_mod) (metis less assms(2) mod_pos_pos_trivial mult_nonneg_nonneg zero_le_numeral not_le)
    then have "kf_slots bits (n * 2) = (n * 2 - ?M) mod ?M" using assms(1) by (simp add: kf_slots_mod)
    also have "\<dots> = n * 2 - ?M" using less \<open>?M \<le> n * 2\<close> by (intro mod_pos_pos_trivial) simp_all
    finally show False using assms(3) less by simp
  qed
qed

text \<open>
  An array that was grown and has room for the next digest describes itself correctly and holds what it held;
  a request that wrapped leaves no room, so the store that follows is out of bounds.
\<close>

lemma kf_grow_room:
  assumes "mixer_ok c" "kf_alloc_ok alloc" "32 \<le> bits" "kf_grow bits alloc c = Some (ST_OK, c')"
    and "kf_hashes c' = Some hs" "nat (kf_count c') < length hs"
  shows "mixer_ok c'" "mixer_contents c' = mixer_contents c" "kf_count c' = kf_count c" "kf_count c' < kf_capacity c'"
proof -
  have "mixer_ok c' \<and> mixer_contents c' = mixer_contents c \<and> kf_count c' = kf_count c \<and> kf_count c' < kf_capacity c'"
  proof (cases "kf_count c < kf_capacity c")
    case True
    then show ?thesis using assms(1,4) by (simp add: kf_grow_def)
  next
    case False
    then have full: "kf_count c = kf_capacity c" "0 \<le> kf_capacity c" using assms(1) by (auto simp: mixer_ok_def)
    define want where "want = (if kf_capacity c \<noteq> 0 then kf_capacity c * 2 else DC_KF_MIXER_INITIAL_CAPACITY)"
    define used where "used = nat (kf_slots bits (kf_count c))"
    obtain bs where bs: "alloc (kf_slots bits want) = Some bs"
      using assms(4) False by (auto simp: kf_grow_def want_def Let_def st_defs split: option.splits if_splits)
    then have lbs: "int (length bs) = kf_slots bits want" "\<forall>b \<in> set bs. digest_ok b"
      using assms(2) by (auto simp: kf_alloc_ok_def)
    show ?thesis
    proof (cases "kf_hashes c")
      case None
      then have cap: "kf_capacity c = 0" using assms(1) by (simp add: mixer_ok_def)
      then have c': "c' = c\<lparr>kf_hashes := Some bs, kf_capacity := 16\<rparr>" "hs = bs"
        using assms(4,5) None bs full
        by (auto simp: kf_grow_def want_def DC_KF_MIXER_INITIAL_CAPACITY_def INT_MAX_def)
      have "(2::int) ^ 5 \<le> 2 ^ (bits - 6)" using assms(3) by (intro power_increasing) auto
      then have "kf_slots bits 16 = 16" by (intro kf_slots_whole) (use assms(3) in auto)
      then show ?thesis
        using c' cap full lbs None assms(1)
        by (simp add: mixer_ok_def mixer_contents_def want_def DC_KF_MIXER_INITIAL_CAPACITY_def)
    next
      case (Some h0)
      have cap: "0 < kf_capacity c" "length h0 = nat (kf_capacity c)" "\<forall>h \<in> set h0. digest_ok h"
        using assms(1) Some by (auto simp: mixer_ok_def)
      have w: "want = kf_count c * 2" using cap full by (simp add: want_def)
      have c': "c' = c\<lparr>kf_hashes := Some (take used h0 @ drop used bs), kf_capacity := want\<rparr>"
          "hs = take used h0 @ drop used bs" "used \<le> length bs"
        using assms(4,5) Some bs False
        by (auto simp: kf_grow_def want_def [symmetric] used_def [symmetric] Let_def split: if_splits)
      have "kf_slots bits (kf_count c) \<le> kf_count c" "0 \<le> kf_slots bits (kf_count c)"
        using assms(3) full by (simp_all add: kf_slots_mod zmod_le_nonneg_dividend)
      then have "used \<le> length h0" using cap(2) full by (simp add: used_def nat_le_iff)
      then have "length hs = length bs" using c'(2,3) by simp
      moreover have "kf_count c' = kf_count c" using c'(1) by simp
      ultimately have lt: "kf_count c < kf_slots bits (kf_count c * 2)"
        using assms(6) lbs(1) w full by (simp add: nat_less_iff)
      note dbl = kf_slots_double [OF _ _ lt]
      have used: "used = nat (kf_count c)" and len: "int (length bs) = want"
        using dbl assms(3) full lbs(1) w by (simp_all add: used_def)
      show ?thesis
        using c' used len lbs(2) cap full w Some \<open>used \<le> length h0\<close>
        by (auto simp: mixer_ok_def mixer_contents_def dest: in_set_takeD in_set_dropD)
    qed
  qed
  then show "mixer_ok c'" "mixer_contents c' = mixer_contents c" "kf_count c' = kf_count c" "kf_count c' < kf_capacity c'"
    by blast+
qed

lemma kf_grow_failed: "kf_grow bits alloc c = Some (r, c') \<Longrightarrow> r \<noteq> ST_OK \<Longrightarrow> r = ST_NOMEM \<and> c' = c"
  by (auto simp: kf_grow_def Let_def split: if_splits option.splits)

text \<open>Within the bounds nothing wraps: the array grows, or there is no memory.\<close>

lemma kf_grow_fits:
  assumes "mixer_ok c" "kf_alloc_ok alloc" "kf_fits bits (nat (kf_count c) + 1)"
  shows "\<exists>r c'. kf_grow bits alloc c = Some (r, c') \<and>
    (r = ST_OK \<longrightarrow> (\<exists>hs. kf_hashes c' = Some hs \<and> nat (kf_count c') < length hs))"
proof (cases "kf_count c < kf_capacity c")
  case True
  then show ?thesis using assms(1) by (auto simp: kf_grow_def mixer_ok_def nat_less_iff split: option.splits)
next
  case False
  then have full: "kf_capacity c = kf_count c" "0 \<le> kf_count c" using assms(1) by (auto simp: mixer_ok_def)
  have bits: "32 \<le> bits" "kf_count c + 1 \<le> 2 ^ 30" "128 * (nat (kf_count c) + 1) \<le> 2 ^ bits"
    using assms(3) full by (auto simp: kf_fits_def)
  have "int (128 * (nat (kf_count c) + 1)) \<le> int (2 ^ bits)" using bits(3) by (simp only: of_nat_le_iff)
  then have "128 * (kf_count c + 1) \<le> 2 ^ (bits - 6) * 64"
    using full(2) bits(1) by (simp add: power_slots)
  then have small: "kf_count c * 2 < 2 ^ (bits - 6)" by simp
  have "(2::int) ^ 5 \<le> 2 ^ (bits - 6)" using bits(1) by (intro power_increasing) auto
  then have sl: "kf_slots bits 16 = 16" "kf_slots bits (kf_count c) = kf_count c" "kf_slots bits (kf_count c * 2) = kf_count c * 2"
    using small full(2) bits(1) by (simp_all add: kf_slots_whole)
  define want where "want = (if kf_capacity c \<noteq> 0 then kf_capacity c * 2 else DC_KF_MIXER_INITIAL_CAPACITY)"
  have want: "kf_count c < want" "want \<le> INT_MAX" "kf_slots bits want = want"
    using full bits sl by (auto simp: want_def DC_KF_MIXER_INITIAL_CAPACITY_def INT_MAX_def)
  note grow = kf_grow_def [of bits alloc c, unfolded if_not_P [OF False], folded want_def]
  show ?thesis
  proof (cases "alloc want")
    case None
    then show ?thesis
      using want by (auto simp: grow Let_def st_defs)
  next
    case (Some bs)
    then have "int (length bs) = want" using assms(2) by (auto simp: kf_alloc_ok_def)
    then have "nat (kf_count c) < length bs" using want(1) full(2) by linarith
    then show ?thesis
      using want Some sl full assms(1) by (auto simp: grow Let_def mixer_ok_def split: option.splits)
  qed
qed

lemma add_hash_cases:
  assumes "mixer_ok c" "kf_alloc_ok alloc" "32 \<le> bits" "digest_ok h"
    and "cp_kf_mixer_add_hash bits alloc (Some c) (Some h) = Some (r, c0)"
  obtains (added) c' where "r = ST_OK" "c0 = Some c'" "mixer_ok c'" "mixer_contents c' = mixer_contents c @ [h]"
  | (failed) "r = ST_NOMEM" "c0 = Some c"
proof -
  obtain rg c1 where g: "kf_grow bits alloc c = Some (rg, c1)"
    using assms(5) by (auto simp: cp_kf_mixer_add_hash_def split: option.splits)
  show thesis
  proof (cases "rg = ST_OK")
    case False
    then have "rg = ST_NOMEM" "c1 = c" using kf_grow_failed [OF g] by simp_all
    then show thesis using False assms(5) g by (intro failed) (simp_all add: cp_kf_mixer_add_hash_def)
  next
    case True
    then obtain hs where hs: "kf_hashes c1 = Some hs" "nat (kf_count c1) < length hs"
        and c0: "r = ST_OK" "c0 = Some (c1\<lparr>kf_hashes := Some (hs[nat (kf_count c1) := h]), kf_count := kf_count c1 + 1\<rparr>)"
      using assms(5) g by (auto simp: cp_kf_mixer_add_hash_def not_le split: option.splits if_splits)
    note gr = kf_grow_room [OF assms(1-3) g [unfolded True] hs]
    have pos: "0 \<le> kf_count c1" using gr by (simp add: mixer_ok_def)
    have len: "\<forall>x \<in> set (hs[nat (kf_count c1) := h]). digest_ok x"
      using gr hs assms(4) by (auto simp: mixer_ok_def dest!: set_update_subset_insert [THEN subsetD])
    have take: "take (nat (kf_count c1 + 1)) (hs[nat (kf_count c1) := h]) = take (nat (kf_count c1)) hs @ [h]"
      using hs(2) pos by (simp add: nat_add_distrib take_Suc_conv_app_nth)
    show thesis
      using gr hs c0 len pos take by (intro added [OF c0]) (auto simp: mixer_ok_def mixer_contents_def)
  qed
qed

lemma add_hash_defined:
  assumes "mixer_ok c" "kf_alloc_ok alloc" "kf_fits bits (nat (kf_count c) + 1)"
  shows "cp_kf_mixer_add_hash bits alloc (Some c) (Some h) \<noteq> None"
proof -
  obtain r c1 where g: "kf_grow bits alloc c = Some (r, c1)"
    and room: "r = ST_OK \<longrightarrow> (\<exists>hs. kf_hashes c1 = Some hs \<and> nat (kf_count c1) < length hs)"
    using kf_grow_fits [OF assms] by blast
  show ?thesis
  proof (cases "r = ST_OK")
    case True
    then obtain hs where hs: "kf_hashes c1 = Some hs" "nat (kf_count c1) < length hs" using room by blast
    have "32 \<le> bits" using assms(3) by (simp add: kf_fits_def)
    from kf_grow_room [OF assms(1,2) this g [unfolded True] hs] have "kf_count c1 < INT_MAX"
      using assms(1,3) by (auto simp: kf_fits_def INT_MAX_def mixer_ok_def)
    then show ?thesis using g True hs by (simp add: cp_kf_mixer_add_hash_def)
  qed (simp add: cp_kf_mixer_add_hash_def g)
qed

lemma mixer_count: "mixer_ok c \<Longrightarrow> kf_count c = int (length (mixer_contents c))"
  by (auto simp: mixer_ok_def mixer_contents_def min_def split: option.splits)

text \<open>The operation on the mixer itself, for an existing mixer and digest.\<close>

definition mixer_add :: "nat \<Rightarrow> (int \<Rightarrow> bytes list option) \<Rightarrow> dc_kf_mixer \<Rightarrow> bytes \<Rightarrow> (status \<times> dc_kf_mixer) option" where
  "mixer_add bits alloc c h = map_option (map_prod id the) (cp_kf_mixer_add_hash bits alloc (Some c) (Some h))"

interpretation kfm: append_store "\<lambda>c. mixer_ok c \<and> kf_alloc_ok alloc \<and> 32 \<le> bits" digest_ok mixer_contents "kf_fits bits" "mixer_add bits alloc"
  for bits alloc
proof unfold_locales
  fix s x r s'
  assume "mixer_ok s \<and> kf_alloc_ok alloc \<and> 32 \<le> bits" and x: "digest_ok x" and "mixer_add bits alloc s x = Some (r, s')"
  then obtain s0 where ok: "mixer_ok s" "kf_alloc_ok alloc" "32 \<le> bits"
    and add: "cp_kf_mixer_add_hash bits alloc (Some s) (Some x) = Some (r, s0)" "s' = the s0"
    by (auto simp: mixer_add_def)
  show "mixer_ok s' \<and> kf_alloc_ok alloc \<and> 32 \<le> bits"
    by (rule add_hash_cases [OF ok x add(1)]) (simp_all add: add(2) ok)
  show "mixer_contents s' = mixer_contents s" if "r \<noteq> ST_OK"
    using that by (cases rule: add_hash_cases [OF ok x add(1)]) (simp_all add: add(2))
next
  fix s x s'
  assume "mixer_ok s \<and> kf_alloc_ok alloc \<and> 32 \<le> bits" and x: "digest_ok x" and "mixer_add bits alloc s x = Some (ST_OK, s')"
  then obtain s0 where ok: "mixer_ok s" "kf_alloc_ok alloc" "32 \<le> bits"
    and add: "cp_kf_mixer_add_hash bits alloc (Some s) (Some x) = Some (ST_OK, s0)" "s' = the s0"
    by (auto simp: mixer_add_def)
  show "mixer_contents s' = mixer_contents s @ [x]"
    by (cases rule: add_hash_cases [OF ok x add(1)]) (simp_all add: add(2) st_defs)
next
  fix s x
  assume s: "mixer_ok s \<and> kf_alloc_ok alloc \<and> 32 \<le> bits" and "kf_fits bits (length (mixer_contents s) + 1)"
  then have "kf_fits bits (nat (kf_count s) + 1)" using mixer_count [of s] by simp
  then show "mixer_add bits alloc s x \<noteq> None" using add_hash_defined [of s alloc bits x] s by (simp add: mixer_add_def)
qed (simp_all add: kf_fits_def)

section \<open>The digest of the set\<close>

text \<open>
  What the scheme promises: one digest over the distinct keyfile digests in ascending order, and, when there
  is a password, a second digest over the password and the first one.
\<close>

definition spec_set_digest :: "bytes set \<Rightarrow> bytes" where
  "spec_set_digest A = SHA512 (kf_domain_set @ concat (sorted_list_of_set A))"

definition spec_combine :: "bytes \<Rightarrow> bytes \<Rightarrow> bytes" where
  "spec_combine pw d = (if pw = [] then d else SHA512 (kf_domain_pass @ pw @ d))"

lemma sha_storage_ready [simp]: "sha512_ready sha_storage"
  by (simp add: sha_storage_def sha512_ready_def)

lemma length_kf_domains [simp]: "length kf_domain_set = 12" "length kf_domain_pass = 12"
  by (simp_all add: kf_domain_set_def kf_domain_pass_def)

lemma sha_pieces:
  "length (concat xs) < 2 ^ 61 \<Longrightarrow> snd (sha512_done (foldl sha512_hash (sha512_init sha_storage) xs)) = SHA512 (concat xs)"
  by (rule sha.digest_pieces) simp_all

lemma combine_bytes:
  assumes "pass_wf p" "length d = DC_KF_HASH_SIZE"
  obtains p' where "cp_kf_mixer_combine (Some p) (Some d) = Some p'" "pass_bytes p' = spec_combine (pass_bytes p) d"
    "pass_wf p'" "p_size p' = int DC_KF_HASH_SIZE" "p_kdf p' = p_kdf p"
proof -
  define out where "out = (if p_size p = 0 then d
      else snd (sha512_done (foldl sha512_hash (sha512_init sha_storage) [kf_domain_pass, pass_bytes p, d])))"
  have d: "length d = 64" using assms(2) by (simp add: DC_KF_HASH_SIZE_def)
  have pl: "length (pass_bytes p) = nat (p_size p)" and sz: "0 \<le> p_size p" "p_size p \<le> 256" "length (p_pass p) = 256"
    using assms(1) length_pass_bytes by (auto simp: pass_wf_def MAX_PASSWORD_def)
  have digest: "snd (sha512_done (foldl sha512_hash (sha512_init sha_storage) [kf_domain_pass, pass_bytes p, d])) =
      SHA512 (kf_domain_pass @ pass_bytes p @ d)"
    using sha_pieces [of "[kf_domain_pass, pass_bytes p, d]"] pl sz d by simp
  have empty: "pass_bytes p = [] \<longleftrightarrow> p_size p = 0"
    using pl sz by (metis length_0_conv nat_0_iff order_antisym)
  have out: "out = spec_combine (pass_bytes p) d" unfolding out_def spec_combine_def digest empty ..
  then have len: "length out = 64" using d by (simp add: spec_combine_def)
  have "cp_kf_mixer_combine (Some p) (Some d) = Some (p\<lparr>p_pass := overlay 0 out (p_pass p), p_size := int DC_KF_HASH_SIZE\<rparr>)"
    by (simp add: cp_kf_mixer_combine_def out_def pass_bytes_def Let_def)
  moreover have "take 64 (overlay 0 out (p_pass p)) = out" "length (overlay 0 out (p_pass p)) = 256"
    using len sz by (simp_all add: overlay_def)
  ultimately show thesis
    unfolding out
    by (intro that [of "p\<lparr>p_pass := overlay 0 (spec_combine (pass_bytes p) d) (p_pass p), p_size := int DC_KF_HASH_SIZE\<rparr>"])
       (simp_all add: pass_bytes_def [of "_\<lparr>p_size := _\<rparr>"] pass_wf_def DC_KF_HASH_SIZE_def MAX_PASSWORD_def)
qed

lemma length_concat_digests: "\<forall>h \<in> set hs. digest_ok h \<Longrightarrow> length (concat hs) = 64 * length hs"
  by (induction hs) (simp_all add: digest_ok_def DC_KF_HASH_SIZE_def)

lemma mixer_finish_set:
  assumes "mixer_ok c" "kf_count c \<noteq> 0" "kf_count c < 2 ^ 31"
  shows "\<exists>c'. cp_kf_mixer_finish (Some c) (Some p) =
    (ST_OK, Some c', cp_kf_mixer_combine (Some p) (Some (spec_set_digest (set (mixer_contents c))))) \<and> c' = mixer_empty"
proof -
  obtain hs where hs: "kf_hashes c = Some hs" "int (length hs) = kf_capacity c" "\<forall>h \<in> set hs. length h = 64"
    using assms by (auto simp: mixer_ok_def digest_ok_def DC_KF_HASH_SIZE_def split: option.splits)
  define n where "n = nat (kf_count c)"
  have n: "1 \<le> n" "n \<le> length hs" "n < 2 ^ 31"
    using assms hs unfolding n_def by (auto simp: mixer_ok_def nat_less_iff)
  let ?s = "sort (take n hs) @ drop n hs"
  have sorted: "kf_sort hs n = ?s" by (rule kf_sort_sorts [OF n(1,2) hs(3)])
  have len: "\<forall>h \<in> set ?s. length h = 64" using hs(3) by (auto dest: in_set_takeD in_set_dropD)
  obtain hs' cnt where dd: "kf_dedup ?s n = (hs', cnt)" by (cases "kf_dedup ?s n")
  have "take cnt hs' = remdups_adj (sort (take n hs))"
    using kf_dedup_take [OF n(1) _ len] n(2) dd by simp
  then have taken: "take cnt hs' = sorted_list_of_set (set (take n hs))"
    by (simp add: remdups_adj_sorted)
  have "length (sorted_list_of_set (set (take n hs))) \<le> n"
    by (simp add: card_length order_trans [OF card_length])
  moreover have "length (concat (sorted_list_of_set (set (take n hs)))) = 64 * length (sorted_list_of_set (set (take n hs)))"
    using hs(3) by (intro length_concat_digests) (auto simp: digest_ok_def DC_KF_HASH_SIZE_def dest: in_set_takeD)
  ultimately have "length (concat (kf_domain_set # sorted_list_of_set (set (take n hs)))) < 2 ^ 61"
    using n(3) by simp
  from sha_pieces [OF this] have digest:
    "snd (sha512_done (foldl sha512_hash (sha512_hash (sha512_init sha_storage) kf_domain_set) (take cnt hs'))) =
       spec_set_digest (set (mixer_contents c))"
    by (simp add: taken spec_set_digest_def mixer_contents_def hs(1) n_def [symmetric])
  show ?thesis
    using assms(2) by (simp add: cp_kf_mixer_finish_def hs(1) n_def [symmetric] sorted dd digest Let_def
        cp_kf_mixer_free_def mixer_empty_def)
qed

section \<open>The additive scheme\<close>

definition w32_at :: "bytes \<Rightarrow> nat \<Rightarrow> u32" where
  "w32_at b i = le_word (slice (4 * i) 4 b)"

definition additive_words :: "nat \<Rightarrow> bytes \<Rightarrow> bytes \<Rightarrow> bytes" where
  "additive_words n h buf = fold (\<lambda>i b. overlay (4 * i) (le_bytes 4 (w32_at b i + w32_at h i)) b) [0..<n] buf"

lemma additive_words_slices:
  assumes "length buf = 256" "n \<le> 64"
  shows "length (additive_words n h buf) = 256 \<and>
    (\<forall>i < 64. w32_at (additive_words n h buf) i = (if i < n then w32_at buf i + w32_at h i else w32_at buf i))"
  using assms(2)
proof (induction n)
  case 0
  then show ?case using assms by (simp add: additive_words_def)
next
  case (Suc n)
  let ?b = "additive_words n h buf" and ?w = "le_bytes 4 (w32_at (additive_words n h buf) n + w32_at h n)"
  have IH: "length ?b = 256" "\<forall>i < 64. w32_at ?b i = (if i < n then w32_at buf i + w32_at h i else w32_at buf i)"
    using Suc by simp_all
  have step: "additive_words (Suc n) h buf = overlay (4 * n) ?w ?b" by (simp add: additive_words_def)
  have same: "w32_at (overlay (4 * n) ?w ?b) n = w32_at ?b n + w32_at h n"
    using slice_overlay_same [of "4 * n" ?w ?b] IH(1) Suc.prems by (simp add: w32_at_def le_word_le_bytes)
  have other: "w32_at (overlay (4 * n) ?w ?b) i = w32_at ?b i" if "i \<noteq> n" "i < 64" for i
  proof -
    have "4 * i + 4 \<le> 4 * n \<or> 4 * n + 4 \<le> 4 * i" using that(1) by linarith
    then have "slice (4 * i) 4 (overlay (4 * n) ?w ?b) = slice (4 * i) 4 ?b"
      using that(2) IH(1) Suc.prems by (intro slice_overlay_other) simp_all
    then show ?thesis by (simp only: w32_at_def)
  qed
  show ?case
    unfolding step using IH Suc.prems same other by (auto simp: length_overlay less_Suc_eq)
qed

lemma w32_at_inject:
  assumes "length a = 256" "length b = 256" "\<And>i. i < 64 \<Longrightarrow> w32_at a i = w32_at b i"
  shows "a = b"
proof (rule nth_equalityI)
  fix i assume "i < length a"
  then have i: "i < 256" using assms(1) by simp
  then have "slice (4 * (i div 4)) 4 a = slice (4 * (i div 4)) 4 b"
    using arg_cong [OF assms(3) [of "i div 4"], of "le_bytes 4"] assms(1,2) by (simp add: w32_at_def le_bytes_le_word)
  then have "slice (4 * (i div 4)) 4 a ! (i mod 4) = slice (4 * (i div 4)) 4 b ! (i mod 4)" by simp
  then show "a ! i = b ! i" using i assms(1,2) by (simp add: nth_slice)
qed (simp add: assms)

text \<open>The password buffer with the bytes past the password cleared.\<close>

definition padded :: "dc_pass \<Rightarrow> bytes" where
  "padded p = pass_bytes p @ replicate (256 - nat (p_size p)) 0"

lemma length_padded [simp]: "pass_wf p \<Longrightarrow> length (padded p) = 256"
  by (auto simp: padded_def pass_wf_def pass_bytes_def MAX_PASSWORD_def)

lemma mix_additive_words:
  assumes "pass_wf p"
  shows "cp_kf_mix_additive (Some p) (Some h) =
    Some (p\<lparr>p_pass := additive_words 16 h (padded p), p_size := max (p_size p) 64\<rparr>)"
  using assms by (auto simp: cp_kf_mix_additive_def additive_words_def w32_at_def padded_def pass_bytes_def pass_wf_def
      overlay_def [of "nat (p_size p)"] MAX_PASSWORD_def DC_KF_HASH_SIZE_def Let_def max_def)

lemma padded_additive:
  assumes "pass_wf p"
  shows "pass_wf (p\<lparr>p_pass := additive_words 16 h (padded p), p_size := max (p_size p) 64\<rparr>)"
    "padded (p\<lparr>p_pass := additive_words 16 h (padded p), p_size := max (p_size p) 64\<rparr>) = additive_words 16 h (padded p)"
proof -
  have sl: "length (additive_words 16 h (padded p)) = 256"
    "\<And>i. i < 64 \<Longrightarrow> w32_at (additive_words 16 h (padded p)) i = (if i < 16 then w32_at (padded p) i + w32_at h i else w32_at (padded p) i)"
    using additive_words_slices [of "padded p" 16 h] assms by simp_all
  have sz: "0 \<le> p_size p" "p_size p \<le> 256" using assms by (simp_all add: pass_wf_def MAX_PASSWORD_def)
  show "pass_wf (p\<lparr>p_pass := additive_words 16 h (padded p), p_size := max (p_size p) 64\<rparr>)"
    using sl(1) sz by (auto simp: pass_wf_def MAX_PASSWORD_def)
  let ?n = "nat (max (p_size p) 64)"
  have tail: "drop 64 (additive_words 16 h (padded p)) = drop 64 (padded p)"
  proof (rule nth_equalityI)
    fix i assume "i < length (drop 64 (additive_words 16 h (padded p)))"
    then have i: "i < 192" using sl(1) by simp
    let ?q = "16 + i div 4"
    have "slice (4 * ?q) 4 (additive_words 16 h (padded p)) = slice (4 * ?q) 4 (padded p)"
      using arg_cong [OF sl(2) [of ?q], of "le_bytes 4"] i sl(1) assms by (simp add: w32_at_def le_bytes_le_word)
    then have "slice (4 * ?q) 4 (additive_words 16 h (padded p)) ! (i mod 4) = slice (4 * ?q) 4 (padded p) ! (i mod 4)" by simp
    then show "drop 64 (additive_words 16 h (padded p)) ! i = drop 64 (padded p) ! i"
      using i sl(1) assms by (simp add: nth_slice add.commute)
  qed (use sl(1) assms in simp)
  have n: "64 \<le> ?n" "nat (p_size p) \<le> ?n" "?n \<le> 256" using sz by linarith+
  have "drop ?n (additive_words 16 h (padded p)) = drop (?n - 64) (drop 64 (padded p))"
    unfolding tail [symmetric] using n(1) by simp
  also have "\<dots> = drop ?n (padded p)" using n(1) by simp
  also have "\<dots> = replicate (256 - ?n) 0"
    using n(2,3) by (simp add: padded_def length_pass_bytes [OF assms])
  finally show "padded (p\<lparr>p_pass := additive_words 16 h (padded p), p_size := max (p_size p) 64\<rparr>) = additive_words 16 h (padded p)"
    by (simp add: padded_def [of "_\<lparr>p_size := _\<rparr>"] pass_bytes_def [of "_\<lparr>p_size := _\<rparr>"]) (metis append_take_drop_id)
qed

lemma mix_additive_commutes:
  assumes "pass_wf p"
  shows "cp_kf_mix_additive (cp_kf_mix_additive (Some p) (Some h)) (Some k) =
    cp_kf_mix_additive (cp_kf_mix_additive (Some p) (Some k)) (Some h)"
proof -
  have "additive_words 16 k (additive_words 16 h (padded p)) = additive_words 16 h (additive_words 16 k (padded p))"
    by (rule w32_at_inject) (use assms in \<open>simp_all add: additive_words_slices ac_simps\<close>)
  then show ?thesis
    using assms by (simp add: mix_additive_words padded_additive max.assoc)
qed

section \<open>Properties\<close>

text \<open>
  C36 (invariant): whatever the allocator answers, and wherever the size of the array wraps, adding a digest
  to a mixer whose counters describe its array either is undefined behaviour or keeps that invariant (the
  capacity is the number of slots, no more slots are used than there are); on success the contents grow by
  exactly that digest, at the end, although the array may have moved, and the only failure, for want of
  memory, leaves the mixer as it was.  While the digests fit the counters (\<open>2 ^ 30\<close> of them) and the address
  space, it is not undefined.
\<close>

theorem mixer_add_invariant:
  assumes "mixer_ok c" and "kf_alloc_ok alloc" and "32 \<le> bits" and "length h = DC_KF_HASH_SIZE"
  shows "(case cp_kf_mixer_add_hash bits alloc (Some c) (Some h) of
      None \<Rightarrow> \<not> kf_fits bits (nat (kf_count c) + 1)
    | Some (r, c0) \<Rightarrow> \<exists>c'. c0 = Some c' \<and> mixer_ok c' \<and>
        (r = ST_OK \<and> mixer_contents c' = mixer_contents c @ [h] \<or> r = ST_NOMEM \<and> c' = c))"
proof -
  have d: "digest_ok h" using assms(4) by (simp add: digest_ok_def)
  show ?thesis
  proof (cases "cp_kf_mixer_add_hash bits alloc (Some c) (Some h)")
    case None
    then show ?thesis using add_hash_defined [OF assms(1,2), of bits h] by auto
  next
    case (Some rc)
    obtain r c0 where rc: "rc = (r, c0)" by (cases rc)
    from assms(1-3) d Some [unfolded rc] show ?thesis
      by (cases rule: add_hash_cases) (simp_all add: Some rc assms(1))
  qed
qed

definition plain_alloc :: "int \<Rightarrow> bytes list option" where
  "plain_alloc n = (if 0 \<le> n then Some (replicate (nat n) (replicate 64 0)) else None)"

lemma plain_alloc_ok [simp]: "kf_alloc_ok plain_alloc"
  by (simp add: kf_alloc_ok_def plain_alloc_def digest_ok_def DC_KF_HASH_SIZE_def)

definition mixer_full :: dc_kf_mixer where
  "mixer_full = \<lparr>kf_hashes = Some (replicate 16 (replicate 64 7)), kf_count = 16, kf_capacity = 16\<rparr>"

lemma mixer_full_ok: "mixer_ok mixer_full" "kf_fits 32 (nat (kf_count mixer_full) + 1)"
  by (simp_all add: mixer_ok_def mixer_full_def digest_ok_def DC_KF_HASH_SIZE_def kf_fits_def)

theorem mixer_add_invariant_witness:
  "\<exists>r c'. cp_kf_mixer_add_hash 32 plain_alloc (Some mixer_full) (Some (replicate 64 1)) = Some (r, Some c') \<and> mixer_ok c' \<and>
    (r = ST_OK \<and> mixer_contents c' = replicate 16 (replicate 64 7) @ [replicate 64 1] \<or> r = ST_NOMEM \<and> c' = mixer_full)"
proof -
  have "mixer_contents mixer_full = replicate 16 (replicate 64 7)" by (simp add: mixer_contents_def mixer_full_def)
  then show ?thesis
    using mixer_add_invariant [of mixer_full plain_alloc 32 "replicate 64 1"] mixer_full_ok
    by (auto simp: DC_KF_HASH_SIZE_def split: option.splits)
qed

text \<open>
  The bounds are needed: with 32-bit sizes, doubling an array of \<open>2 ^ 25\<close> digests asks for a block of no bytes,
  and the copy of the old contents leaves it; with \<open>2 ^ 30\<close> digests the doubled capacity is no \<^verbatim>\<open>int\<close>.
\<close>

lemma kf_grow_wraps:
  assumes "kf_count c = 2 ^ 25" "kf_capacity c = 2 ^ 25" "kf_hashes c = Some hs" "alloc 0 = Some []"
  shows "kf_grow 32 alloc c = None"
  using assms by (simp add: kf_grow_def kf_slots_def DC_KF_HASH_SIZE_def INT_MAX_def)

lemma kf_grow_overflows: "kf_count c = 2 ^ 30 \<Longrightarrow> kf_capacity c = 2 ^ 30 \<Longrightarrow> kf_grow bits alloc c = None"
  by (simp add: kf_grow_def INT_MAX_def)

text \<open>
  C22 (refinement): finishing a mixer that holds at least one digest succeeds, empties the mixer and replaces
  the password by the specified one: the digest of the domain string and the distinct keyfile digests in
  ascending order, combined with the password when there is one.  The in-place sort and the compaction
  implement the sorted list of a set.
\<close>

theorem mixer_finish_refines:
  assumes "mixer_ok c" and "kf_count c \<noteq> 0" and "kf_count c < 2 ^ 31" and "pass_wf p"
  shows "\<exists>p'. cp_kf_mixer_finish (Some c) (Some p) = (ST_OK, Some mixer_empty, Some p') \<and> pass_wf p' \<and>
    pass_bytes p' = spec_combine (pass_bytes p) (spec_set_digest (set (mixer_contents c)))"
proof -
  have "length (spec_set_digest (set (mixer_contents c))) = DC_KF_HASH_SIZE"
    by (simp add: spec_set_digest_def DC_KF_HASH_SIZE_def)
  from combine_bytes [OF assms(4) this] mixer_finish_set [OF assms(1-3), of p] show ?thesis by metis
qed

definition mixer_one :: dc_kf_mixer where
  "mixer_one = \<lparr>kf_hashes = Some (replicate 16 (replicate 64 0)), kf_count = 1, kf_capacity = 16\<rparr>"

definition pass_one :: dc_pass where
  "pass_one = \<lparr>p_size = 2, p_pass = replicate 256 97, p_kdf = 0, p_slot = 0, p_flags = 0, p_label = replicate 20 0\<rparr>"

lemma mixer_one_ok: "mixer_ok mixer_one" "pass_wf pass_one"
  by (simp_all add: mixer_ok_def mixer_one_def digest_ok_def DC_KF_HASH_SIZE_def pass_wf_def pass_one_def MAX_PASSWORD_def)

theorem mixer_finish_refines_witness:
  "\<exists>p'. cp_kf_mixer_finish (Some mixer_one) (Some pass_one) = (ST_OK, Some mixer_empty, Some p') \<and> pass_wf p' \<and>
    pass_bytes p' = spec_combine (pass_bytes pass_one) (spec_set_digest (set (mixer_contents mixer_one)))"
  by (rule mixer_finish_refines) (simp_all add: mixer_one_ok, simp_all add: mixer_one_def)

text \<open>
  C23 (functional): the password a set of keyfiles gives depends neither on the order in which the files
  were added nor on how often: when memory is available and both lists of digests fit the counters and the
  address space, two runs that add the same digests to freshly initialised mixers stay within their arrays
  and finish with the same status and the same password.
\<close>

theorem mixer_order_irrelevant:
  assumes "\<And>n. 0 \<le> n \<Longrightarrow> alloc n \<noteq> None" and "kf_alloc_ok alloc"
    and "\<forall>h \<in> set hs. length h = DC_KF_HASH_SIZE" and "set hs = set hs'"
    and "kf_fits bits (length hs)" and "kf_fits bits (length hs')"
  shows "\<exists>c c'. run_adds (mixer_add bits alloc) mixer_empty hs = Some c \<and>
    run_adds (mixer_add bits alloc) mixer_empty hs' = Some c' \<and>
    fst (cp_kf_mixer_finish (Some c) (Some p)) = fst (cp_kf_mixer_finish (Some c') (Some p)) \<and>
    snd (snd (cp_kf_mixer_finish (Some c) (Some p))) = snd (snd (cp_kf_mixer_finish (Some c') (Some p)))"
proof -
  have succeeds: "\<forall>r s'. mixer_add bits alloc s x = Some (r, s') \<longrightarrow> r = ST_OK" if "mixer_ok s" for s x
  proof -
    have "alloc (kf_slots bits n) \<noteq> None" if "0 \<le> n" for n
      using that by (intro assms(1)) (simp add: kf_slots_def DC_KF_HASH_SIZE_def pos_imp_zdiv_nonneg_iff)
    moreover have "0 \<le> kf_capacity s * 2" using \<open>mixer_ok s\<close> by (simp add: mixer_ok_def)
    ultimately have "alloc (kf_slots bits (kf_capacity s * 2)) \<noteq> None" "alloc (kf_slots bits DC_KF_MIXER_INITIAL_CAPACITY) \<noteq> None"
      by (simp_all add: DC_KF_MIXER_INITIAL_CAPACITY_def)
    then have "r = ST_OK" if "kf_grow bits alloc s = Some (r, s')" for r s'
      using that by (auto simp: kf_grow_def Let_def split: if_splits option.splits)
    then show ?thesis
      by (auto simp: mixer_add_def cp_kf_mixer_add_hash_def split: if_splits option.splits)
  qed
  have run: "\<exists>c. run_adds (mixer_add bits alloc) mixer_empty hs = Some c \<and> mixer_ok c \<and> mixer_contents c = hs \<and>
      kf_count c = int (length hs)"
    if hs: "\<forall>h \<in> set hs. length h = DC_KF_HASH_SIZE" "kf_fits bits (length hs)" for hs
  proof -
    have inv: "mixer_ok mixer_empty \<and> kf_alloc_ok alloc \<and> 32 \<le> bits" and dig: "\<forall>h \<in> set hs. digest_ok h"
      using hs assms(2) by (simp_all add: kf_fits_def digest_ok_def)
    have "\<exists>c. run_adds (mixer_add bits alloc) mixer_empty hs = Some c \<and> mixer_contents c = mixer_contents mixer_empty @ hs"
      by (rule kfm.adds_contents [OF _ inv dig]) (use hs(2) succeeds in auto)
    then obtain c where c: "run_adds (mixer_add bits alloc) mixer_empty hs = Some c" "mixer_contents c = hs" by auto
    then show ?thesis using kfm.adds_inv [OF inv dig] mixer_count [of c] by auto
  qed
  obtain c c' where runs: "run_adds (mixer_add bits alloc) mixer_empty hs = Some c" "mixer_ok c" "mixer_contents c = hs"
      "kf_count c = int (length hs)" "run_adds (mixer_add bits alloc) mixer_empty hs' = Some c'" "mixer_ok c'"
      "mixer_contents c' = hs'" "kf_count c' = int (length hs')"
    using run [of hs] run [of hs'] assms(3-6) by auto
  show ?thesis
  proof (cases "hs = []")
    case True
    then show ?thesis using runs assms(4) by simp
  next
    case False
    have "length hs < 2 ^ 31" "length hs' < 2 ^ 31" using assms(5,6) by (simp_all add: kf_fits_def)
    moreover have "hs' \<noteq> []" using False assms(4) by auto
    ultimately show ?thesis
      using False runs assms(4) mixer_finish_set [of c p] mixer_finish_set [of c' p] by auto
  qed
qed

theorem mixer_order_irrelevant_witness:
  "\<exists>c c'. run_adds (mixer_add 32 plain_alloc) mixer_empty [replicate 64 1, replicate 64 2] = Some c \<and>
    run_adds (mixer_add 32 plain_alloc) mixer_empty [replicate 64 2, replicate 64 1, replicate 64 2] = Some c' \<and>
    fst (cp_kf_mixer_finish (Some c) (Some pass_one)) = fst (cp_kf_mixer_finish (Some c') (Some pass_one)) \<and>
    snd (snd (cp_kf_mixer_finish (Some c) (Some pass_one))) = snd (snd (cp_kf_mixer_finish (Some c') (Some pass_one)))"
  by (rule mixer_order_irrelevant) (auto simp: plain_alloc_def [of "_ :: int"] DC_KF_HASH_SIZE_def kf_fits_def)

text \<open>
  The additive scheme of version 1.  The result is as long as the longer of the password
  and a digest, its 16 leading words are the sums modulo \<open>2^32\<close> of the words of the zero-padded password and
  of the digest, everything after them is the padded password; and folding two keyfiles in is independent
  of their order.
\<close>

theorem mix_additive_correct:
  assumes "pass_wf p"
  shows "\<exists>p'. cp_kf_mix_additive (Some p) (Some h) = Some p' \<and> pass_wf p' \<and> p_size p' = max (p_size p) 64 \<and>
    (\<forall>i < 64. w32_at (p_pass p') i = (if i < 16 then w32_at (padded p) i + w32_at h i else w32_at (padded p) i)) \<and>
    cp_kf_mix_additive (Some p') (Some k) = cp_kf_mix_additive (cp_kf_mix_additive (Some p) (Some k)) (Some h)"
  using mix_additive_words [OF assms, of h] padded_additive [OF assms, of h] mix_additive_commutes [OF assms, of h k]
    additive_words_slices [of "padded p" 16 h] assms by simp

theorem mix_additive_correct_witness:
  "\<exists>p'. cp_kf_mix_additive (Some pass_one) (Some (replicate 64 255)) = Some p' \<and> pass_wf p' \<and> p_size p' = max (p_size pass_one) 64 \<and>
    (\<forall>i < 64. w32_at (p_pass p') i = (if i < 16 then w32_at (padded pass_one) i + w32_at (replicate 64 255) i
       else w32_at (padded pass_one) i)) \<and>
    cp_kf_mix_additive (Some p') (Some (replicate 64 1)) =
      cp_kf_mix_additive (cp_kf_mix_additive (Some pass_one) (Some (replicate 64 1))) (Some (replicate 64 255))"
  by (rule mix_additive_correct) (rule mixer_one_ok)

end
