(* ===== verification/HeaderLayout.thy ===== *)
theory HeaderLayout
  imports Crc32 VolDefs "HOL-Library.Monad_Syntax"
begin

text \<open>
  The volume header as it lies in memory (\<^verbatim>\<open>DCrypt/_include_/volume_header.h\<close>) and the three checks that make a
  decrypted buffer a header (\<^verbatim>\<open>calculate_header_crc\<close>, \<^verbatim>\<open>is_volume_header_correct\<close> of
  \<^verbatim>\<open>DCrypt/volume_lib/header_io.c\<close>).

  The structure is packed, and the code reads it as bytes as often as by field (checksums, copies and
  encryption run over byte ranges), so a header is the list of its bytes and a field is a little-endian word
  at a fixed offset.  A read or write outside a buffer is undefined behaviour in C; such an operation has the
  value \<^const>\<open>None\<close>, so that a theorem giving \<^const>\<open>Some\<close> also says that every access was within bounds.
\<close>

unbundle bit_operations_syntax

section \<open>Checked memory access\<close>

text \<open>Reading and writing \<open>n\<close> bytes at an offset; \<^const>\<open>None\<close> when the range leaves the buffer.\<close>

definition rd :: "nat \<Rightarrow> nat \<Rightarrow> bytes \<Rightarrow> bytes option" where
  "rd off n b = (if off + n \<le> length b then Some (slice off n b) else None)"

definition wr :: "nat \<Rightarrow> bytes \<Rightarrow> bytes \<Rightarrow> bytes option" where
  "wr off xs b = (if off + length xs \<le> length b then Some (overlay off xs b) else None)"

lemma rd_Some [simp]: "rd off n b = Some x \<longleftrightarrow> off + n \<le> length b \<and> x = slice off n b"
  by (auto simp: rd_def)

lemma wr_Some [simp]: "wr off xs b = Some x \<longleftrightarrow> off + length xs \<le> length b \<and> x = overlay off xs b"
  by (auto simp: wr_def)

lemma rd_in: "off + n \<le> length b \<Longrightarrow> rd off n b = Some (slice off n b)"
  by (simp add: rd_def)

lemma wr_in: "off + length xs \<le> length b \<Longrightarrow> wr off xs b = Some (overlay off xs b)"
  by (simp add: wr_def)

text \<open>A field of \<open>n\<close> bytes at \<open>off\<close>, and its update.\<close>

definition fld :: "nat \<Rightarrow> nat \<Rightarrow> bytes \<Rightarrow> 'a::len word" where
  "fld off n b = le_word (slice off n b)"

definition set_fld :: "nat \<Rightarrow> nat \<Rightarrow> 'a::len word \<Rightarrow> bytes \<Rightarrow> bytes" where
  "set_fld off n v b = overlay off (le_bytes n v) b"

lemma length_set_fld [simp]: "off + n \<le> length b \<Longrightarrow> length (set_fld off n v b) = length b"
  by (simp add: set_fld_def length_overlay)

lemma fld_set_same:
  "off + n \<le> length b \<Longrightarrow> LENGTH('a) \<le> 8 * n \<Longrightarrow> fld off n (set_fld off n (v :: 'a::len word) b) = v"
  using slice_overlay_same [of off "le_bytes n v" b] by (simp add: fld_def set_fld_def le_word_le_bytes)

lemma fld_overlay_other:
  "off + length xs \<le> length b \<Longrightarrow> off' + n \<le> off \<or> off + length xs \<le> off' \<Longrightarrow> off' + n \<le> length b \<Longrightarrow>
   fld off' n (overlay off xs b) = fld off' n b"
  by (simp add: fld_def slice_overlay_other)

lemma fld_cong_slice: "slice off n b = slice off n b' \<Longrightarrow> fld off n b = fld off n b'"
  by (simp add: fld_def)

section \<open>Fields of the header\<close>

definition hd_salt :: "bytes \<Rightarrow> bytes" where "hd_salt h = slice 0 HEADER_SALT_SIZE h"
definition hd_sign :: "bytes \<Rightarrow> u32" where "hd_sign h = fld 64 4 h"
definition hd_hdr_crc :: "bytes \<Rightarrow> u32" where "hd_hdr_crc h = fld 68 4 h"
definition hd_version :: "bytes \<Rightarrow> u16" where "hd_version h = fld 72 2 h"
definition hd_alg_1 :: "bytes \<Rightarrow> int" where "hd_alg_1 h = sint (fld 82 4 h :: u32)"
definition hd_head_len :: "bytes \<Rightarrow> u32" where "hd_head_len h = fld 614 4 h"
definition hd_footer_cnt :: "bytes \<Rightarrow> int" where "hd_footer_cnt h = sint (fld 627 1 h :: u8)"
definition hd_feature_flags :: "bytes \<Rightarrow> u32" where "hd_feature_flags h = fld 628 4 h"
definition hd_ext_hdr_off :: "bytes \<Rightarrow> u16" where "hd_ext_hdr_off h = fld 632 2 h"
definition hd_slot_area_len :: "bytes \<Rightarrow> u16" where "hd_slot_area_len h = fld 635 2 h"
definition hd_key_slot_count :: "bytes \<Rightarrow> u8" where "hd_key_slot_count h = fld 637 1 h"
definition hd_slot_info_size :: "bytes \<Rightarrow> u16" where "hd_slot_info_size h = fld 638 2 h"

lemmas hd_defs = hd_salt_def hd_sign_def hd_hdr_crc_def hd_version_def hd_alg_1_def hd_head_len_def hd_footer_cnt_def
  hd_feature_flags_def hd_ext_hdr_off_def hd_slot_area_len_def hd_key_slot_count_def hd_slot_info_size_def

text \<open>Fields of a slot descriptor that starts at \<open>o\<close>.\<close>

definition si_crc :: "nat \<Rightarrow> bytes \<Rightarrow> u32" where "si_crc off h = fld off 4 h"
definition si_flags :: "nat \<Rightarrow> bytes \<Rightarrow> u32" where "si_flags off h = fld (off + 4) 4 h"
definition si_type :: "nat \<Rightarrow> bytes \<Rightarrow> u16" where "si_type off h = fld (off + 8) 2 h"

definition SF_ACTIVE :: u32 where "SF_ACTIVE = 1"
definition SF_DISABLED :: u32 where "SF_DISABLED = 2"
definition SF_CORRUPT :: u32 where "SF_CORRUPT = 4"

lemmas sf_defs = SF_ACTIVE_def SF_DISABLED_def SF_CORRUPT_def

text \<open>The part of the header every reader needs: fields are determined by the first 1024 bytes.\<close>

lemma fld_prefix: "off + n \<le> m \<Longrightarrow> take m h = take m h' \<Longrightarrow> (fld off n h :: 'a::len word) = fld off n h'"
proof (rule fld_cong_slice)
  assume le: "off + n \<le> m" and eq: "take m h = take m h'"
  from le have "slice off n (take m h) = slice off n h" "slice off n (take m h') = slice off n h'"
    by (simp_all add: slice_def drop_take min_def)
  then show "slice off n h = slice off n h'" by (simp add: eq)
qed

section \<open>The checks\<close>

definition crc_area_len :: "bytes \<Rightarrow> int" where
  "crc_area_len h =
     (if hd_version h \<ge> DC_HDR_VERSION_2 then int DC_CRC_AREA_SIZE_2 - hd_footer_cnt h * 16 else int DC_CRC_AREA_SIZE_1)"

text \<open>The length is converted to \<^verbatim>\<open>unsigned long\<close> by the call of \<^verbatim>\<open>crc32\<close>.\<close>

definition calculate_header_crc :: "bytes \<Rightarrow> u32 option" where
  "calculate_header_crc h =
     (if hd_version h \<ge> DC_HDR_VERSION_2
      then map_option crc32 (rd 72 (unat (word_of_int (int DC_CRC_AREA_SIZE_2 - hd_footer_cnt h * 16) :: u32)) h)
      else map_option crc32 (rd 72 DC_CRC_AREA_SIZE_1 h))"

definition is_volume_header_correct :: "bytes option \<Rightarrow> bool option" where
  "is_volume_header_correct header =
     (case header of
        None \<Rightarrow> Some False
      | Some h \<Rightarrow>
          (let salt_bits = foldl (\<lambda>bits b. bits OR (ucast b :: u32)) 0 (hd_salt h)
           in if salt_bits = 0 then Some False
              else if hd_sign h \<noteq> DC_VOLUME_SIGN then Some False
              else map_option (\<lambda>crc. hd_hdr_crc h = crc) (calculate_header_crc h)))"

text \<open>What the checks establish.\<close>

definition header_valid :: "bytes \<Rightarrow> bool" where
  "header_valid h \<longleftrightarrow> (\<exists>b \<in> set (hd_salt h). b \<noteq> 0) \<and> hd_sign h = DC_VOLUME_SIGN \<and>
     0 \<le> crc_area_len h \<and> 72 + crc_area_len h \<le> int (length h) \<and>
     hd_hdr_crc h = crc32 (slice 72 (nat (crc_area_len h)) h)"

lemma or_eq_0_iff_word: "(a :: 'a::len word) OR b = 0 \<longleftrightarrow> a = 0 \<and> b = 0"
  by (auto simp: bit_eq_iff bit_simps)

lemma foldl_or_0:
  "foldl (\<lambda>bits b. bits OR (ucast (b :: u8) :: u32)) a bs = 0 \<longleftrightarrow> a = 0 \<and> (\<forall>b \<in> set bs. b = 0)"
proof (induction bs arbitrary: a)
  case (Cons b bs)
  have "(ucast b :: u32) = 0 \<longleftrightarrow> b = 0" by transfer simp
  then show ?case using Cons by (auto simp: or_eq_0_iff_word)
qed simp

lemma footer_range: "- 128 \<le> hd_footer_cnt h \<and> hd_footer_cnt h \<le> 127"
  using sint_range_size [of "fld 627 1 h :: u8"] by (simp add: hd_footer_cnt_def word_size)

lemma crc_len_unsigned:
  assumes "hd_version h \<ge> DC_HDR_VERSION_2" "0 \<le> crc_area_len h"
  shows "unat (word_of_int (int DC_CRC_AREA_SIZE_2 - hd_footer_cnt h * 16) :: u32) = nat (crc_area_len h)"
proof -
  have len: "crc_area_len h = int DC_CRC_AREA_SIZE_2 - hd_footer_cnt h * 16"
    using assms(1) by (simp add: crc_area_len_def)
  then have "crc_area_len h < 2 ^ 32" using footer_range [of h] by (simp add: vol_sizes)
  then have "uint (word_of_int (crc_area_len h) :: u32) = crc_area_len h"
    using assms(2) by (simp add: uint_word_of_int take_bit_int_eq_self)
  then show ?thesis unfolding len [symmetric] by (simp only: unat_eq_nat_uint)
qed

lemma crc_len_negative:
  assumes "hd_version h \<ge> DC_HDR_VERSION_2" "crc_area_len h < 0"
  shows "unat (word_of_int (int DC_CRC_AREA_SIZE_2 - hd_footer_cnt h * 16) :: u32) = nat (crc_area_len h + 2 ^ 32)"
proof -
  have len: "crc_area_len h = int DC_CRC_AREA_SIZE_2 - hd_footer_cnt h * 16"
    using assms(1) by (simp add: crc_area_len_def)
  have "- (2 ^ 32) \<le> crc_area_len h" using footer_range [of h] unfolding len by (simp add: vol_sizes)
  then have "crc_area_len h mod 2 ^ 32 = crc_area_len h + 2 ^ 32"
    using assms(2) by (metis add.commute add_less_same_cancel1 diff_ge_0_iff_ge diff_minus_eq_add mod_add_self2 mod_pos_pos_trivial)
  then have "uint (word_of_int (crc_area_len h) :: u32) = crc_area_len h + 2 ^ 32"
    by (simp add: uint_word_of_int take_bit_eq_mod)
  then show ?thesis unfolding len [symmetric] by (simp only: unat_eq_nat_uint)
qed

text \<open>The checksum is computed exactly when the range given by the footer field lies in the buffer.\<close>

lemma calculate_header_crc_iff:
  assumes "length h < 2 ^ 31"
  shows "calculate_header_crc h =
    (if 0 \<le> crc_area_len h \<and> 72 + crc_area_len h \<le> int (length h) then Some (crc32 (slice 72 (nat (crc_area_len h)) h)) else None)"
proof (cases "hd_version h \<ge> DC_HDR_VERSION_2")
  case v2: True
  show ?thesis
  proof (cases "0 \<le> crc_area_len h")
    case True
    then show ?thesis using v2 crc_len_unsigned [OF v2 True] by (auto simp: calculate_header_crc_def rd_def)
  next
    case False
    then have "length h < 72 + unat (word_of_int (int DC_CRC_AREA_SIZE_2 - hd_footer_cnt h * 16) :: u32)"
      using crc_len_negative [OF v2] footer_range [of h] v2 assms
      by (simp add: crc_area_len_def vol_sizes nat_diff_distrib)
    then show ?thesis using v2 False by (simp add: calculate_header_crc_def rd_def)
  qed
next
  case False
  then show ?thesis by (auto simp: calculate_header_crc_def crc_area_len_def rd_def)
qed

lemma is_volume_header_correct_iff:
  assumes "length h < 2 ^ 31"
  shows "is_volume_header_correct (Some h) = Some True \<longleftrightarrow> header_valid h"
  using assms by (auto simp: is_volume_header_correct_def header_valid_def foldl_or_0 calculate_header_crc_iff Let_def)

lemma is_volume_header_correct_total:
  assumes "length h < 2 ^ 31" "0 \<le> crc_area_len h" "72 + crc_area_len h \<le> int (length h)"
  shows "\<exists>b. is_volume_header_correct (Some h) = Some b"
  using assms by (auto simp: is_volume_header_correct_def calculate_header_crc_iff Let_def)

section \<open>Properties\<close>

text \<open>
  C37 (safety): on a buffer of one header area, the checksum of a version 2 header is read within bounds exactly
  when the footer count lies between -64 and 59; in that case the header passes the check if and only if its
  salt is not zero, its signature is right and its checksum is the CRC-32 of the range that the footer count
  leaves.  Outside that range the computed length leaves the buffer (upwards) or is negative and becomes about
  \<open>2^32\<close> when it is passed as an unsigned length.
\<close>

theorem header_check_range:
  assumes "length h = DC_AREA_SIZE" and "hd_version h \<ge> DC_HDR_VERSION_2"
  shows "(calculate_header_crc h = None \<longleftrightarrow> hd_footer_cnt h < - 64 \<or> 59 < hd_footer_cnt h) \<and>
    (is_volume_header_correct (Some h) = Some True \<longleftrightarrow>
       (\<exists>b \<in> set (hd_salt h). b \<noteq> 0) \<and> hd_sign h = DC_VOLUME_SIGN \<and> - 64 \<le> hd_footer_cnt h \<and> hd_footer_cnt h \<le> 59 \<and>
       hd_hdr_crc h = crc32 (slice 72 (nat (952 - 16 * hd_footer_cnt h)) h))"
proof -
  have len: "length h < 2 ^ 31" "length h = 2048" using assms(1) by (simp_all add: vol_sizes)
  have area: "crc_area_len h = 952 - 16 * hd_footer_cnt h" using assms(2) by (simp add: crc_area_len_def vol_sizes)
  show ?thesis
    using calculate_header_crc_iff [OF len(1)] is_volume_header_correct_iff [OF len(1)]
    by (auto simp: header_valid_def area len(2))
qed

definition sample_header :: bytes where
  "sample_header = (let h = replicate 64 1 @ replicate 1984 0;
                        h = set_fld 64 4 DC_VOLUME_SIGN h; h = set_fld 72 2 DC_HDR_VERSION_2 h
                    in set_fld 68 4 (crc32 (slice 72 952 h)) h)"

lemma sample_header_fields:
  "length sample_header = 2048" "hd_version sample_header = DC_HDR_VERSION_2" "hd_footer_cnt sample_header = 0"
  "hd_sign sample_header = DC_VOLUME_SIGN" "hd_salt sample_header = replicate 64 1"
  "hd_hdr_crc sample_header = crc32 (slice 72 952 sample_header)"
proof -
  let ?h0 = "replicate 64 1 @ replicate 1984 0 :: bytes"
  let ?h1 = "set_fld 64 4 DC_VOLUME_SIGN ?h0"
  let ?h2 = "set_fld 72 2 DC_HDR_VERSION_2 ?h1"
  have s: "sample_header = set_fld 68 4 (crc32 (slice 72 952 ?h2)) ?h2" by (simp add: sample_header_def Let_def)
  show len: "length sample_header = 2048" by (simp add: s)
  show "hd_version sample_header = DC_HDR_VERSION_2"
    unfolding s hd_version_def by (subst set_fld_def, subst fld_overlay_other) (simp_all add: fld_set_same)
  show "hd_footer_cnt sample_header = 0"
    unfolding s hd_footer_cnt_def
    by (simp add: set_fld_def fld_overlay_other length_overlay) (simp add: fld_def slice_def)
  show "hd_sign sample_header = DC_VOLUME_SIGN"
    unfolding s hd_sign_def
    by (subst set_fld_def, subst fld_overlay_other, simp_all, subst set_fld_def, subst fld_overlay_other) (simp_all add: fld_set_same)
  show "hd_salt sample_header = replicate 64 1"
    by (simp add: s hd_salt_def HEADER_SALT_SIZE_def set_fld_def slice_def overlay_def)
  have "slice 72 952 sample_header = slice 72 952 ?h2"
    unfolding s by (subst set_fld_def, subst slice_overlay_other) simp_all
  then show "hd_hdr_crc sample_header = crc32 (slice 72 952 sample_header)"
    unfolding hd_hdr_crc_def by (simp only: s) (simp add: fld_set_same)
qed

theorem header_check_range_witness: "is_volume_header_correct (Some sample_header) = Some True"
  using header_check_range [of sample_header] by (simp add: sample_header_fields vol_sizes)

end
