(* ===== verification/Host.thy ===== *)
theory Host
  imports HeaderLayout Xts
begin

text \<open>
  What the volume library asks of its surroundings: the host hooks (\<^verbatim>\<open>DCrypt/volume_lib/dc_host.c\<close>,
  \<^verbatim>\<open>dc_dev.h\<close>), the device description, and the device over a memory buffer
  (\<^verbatim>\<open>DCrypt/volume_lib/dc_buffer.c\<close>).

  The hooks run outside the library: allocator, random number generator, wiping, block input and output, the
  Argon2 implementation and the caller's interrupt flag.  They are parameters: functions over a state \<open>'w\<close> of
  the surroundings, which every operation of the library threads through in the order of its calls.
\<close>

unbundle bit_operations_syntax

section \<open>Installing the host\<close>

text \<open>A \<^verbatim>\<open>dc_host\<close> as the library stores and compares it: six addresses, zero for the null pointer.\<close>

record dc_host =
  hk_secure_alloc :: u64
  hk_secure_free :: u64
  hk_rand_bytes :: u64
  hk_rand_add_seed :: u64
  hk_log :: u64
  hk_wipe :: u64

record lib_state =
  g_host :: dc_host
  g_installed :: bool

definition dc_lib_init :: "dc_host option \<Rightarrow> lib_state \<Rightarrow> status \<times> lib_state" where
  "dc_lib_init host st =
     (case host of
        None \<Rightarrow> (ST_INVALID_PARAM, st)
      | Some h \<Rightarrow>
          if hk_secure_alloc h = 0 \<or> hk_secure_free h = 0 \<or> hk_rand_bytes h = 0 then (ST_INVALID_PARAM, st)
          else if g_installed st then ((if g_host st = h then ST_OK else ST_ERROR), st)
          else (ST_OK, st\<lparr>g_host := h, g_installed := True\<rparr>))"

section \<open>Hooks\<close>

text \<open>
  The environment in which an operation runs.  \<open>e_secure_alloc\<close> gives the initial contents of a new block,
  \<open>e_key_block\<close> is what an uninitialised \<^verbatim>\<open>xts_key\<close> holds, \<open>e_argon2id\<close> is \<^verbatim>\<open>argon2id_hash_raw\<close> (time cost,
  memory cost, lanes, password, salt, output buffer), giving whether it returned \<^verbatim>\<open>ARGON2_OK\<close> and the
  output buffer after the call.
\<close>

record 'w env =
  e_secure_alloc :: "nat \<Rightarrow> 'w \<Rightarrow> bytes option \<times> 'w"
  e_secure_free :: "'w \<Rightarrow> 'w"
  e_rand_bytes :: "nat \<Rightarrow> 'w \<Rightarrow> bytes \<times> 'w"
  e_rand_add_seed :: "(bytes \<Rightarrow> 'w \<Rightarrow> 'w) option"
  e_wipe :: "(u64 \<Rightarrow> int \<Rightarrow> 'w \<Rightarrow> 'w) option"
  e_argon2id :: "u32 \<Rightarrow> u32 \<Rightarrow> u32 \<Rightarrow> bytes \<Rightarrow> bytes \<Rightarrow> bytes \<Rightarrow> 'w \<Rightarrow> bool \<times> bytes \<times> 'w"
  e_sizeof_xts_key :: nat
  e_key_block :: xts_key

definition dc_alloc :: "'w env \<Rightarrow> nat \<Rightarrow> 'w \<Rightarrow> bytes option \<times> 'w" where
  "dc_alloc H n w = e_secure_alloc H n w"

text \<open>\<^verbatim>\<open>dc_free\<close> takes a pointer; only whether it is null matters.\<close>

definition dc_free :: "'w env \<Rightarrow> 'a option \<Rightarrow> 'w \<Rightarrow> 'w" where
  "dc_free H p w = (if p \<noteq> None then e_secure_free H w else w)"

definition dc_rand :: "'w env \<Rightarrow> nat \<Rightarrow> 'w \<Rightarrow> bytes \<times> 'w" where
  "dc_rand H n w = e_rand_bytes H n w"

definition dc_rand_seed :: "'w env \<Rightarrow> bytes \<Rightarrow> 'w \<Rightarrow> 'w" where
  "dc_rand_seed H b w = (case e_rand_add_seed H of Some f \<Rightarrow> f b w | None \<Rightarrow> w)"

definition dc_wipe :: "'w env \<Rightarrow> bool \<Rightarrow> u64 \<Rightarrow> int \<Rightarrow> 'w \<Rightarrow> 'w" where
  "dc_wipe H wipe_ctx offset sz w = (case e_wipe H of Some f \<Rightarrow> if wipe_ctx then f offset sz w else w | None \<Rightarrow> w)"

text \<open>The interrupt flag: a null pointer, or a location the caller may write at any time.\<close>

type_synonym 'w intr = "('w \<Rightarrow> bool \<times> 'w) option"

definition interrupted :: "'w intr \<Rightarrow> 'w \<Rightarrow> bool \<times> 'w" where
  "interrupted intr w = (case intr of None \<Rightarrow> (False, w) | Some f \<Rightarrow> f w)"

section \<open>Devices\<close>

record dc_dev =
  d_bps :: u32
  d_dsk_size :: u64
  d_head_len :: u32
  d_tail_len :: u32
  d_stor_len :: u32
  d_stor_off :: u64
  d_opt :: u32

definition DC_DEV_BACKUP_HEADER :: u32 where "DC_DEV_BACKUP_HEADER = 1"
definition DC_DEV_STORAGE_ON_END :: u32 where "DC_DEV_STORAGE_ON_END = 2"

text \<open>
  \<^verbatim>\<open>dc_rw_fn\<close>: the buffer, a length, an offset and the direction; gives the status and the buffer after
  the call, or \<^const>\<open>None\<close> if the call leaves the buffer.  The context pointer is part of the state.
\<close>

type_synonym 'w dc_rw_fn = "bytes \<Rightarrow> u32 \<Rightarrow> u64 \<Rightarrow> bool \<Rightarrow> 'w \<Rightarrow> (status \<times> bytes \<times> 'w) option"

record dc_buffer =
  b_data :: "bytes option"
  b_size :: u32

definition dc_buffer_rw_impl ::
  "dc_buffer option \<Rightarrow> bytes option \<Rightarrow> u32 \<Rightarrow> u64 \<Rightarrow> bool \<Rightarrow> (status \<times> bytes option \<times> dc_buffer option) option" where
  "dc_buffer_rw_impl ctx buff len offset is_read =
     (case (ctx, buff) of
        (Some b, Some buf) \<Rightarrow>
          (case b_data b of
             None \<Rightarrow> Some (ST_INVALID_PARAM, buff, ctx)
           | Some dat \<Rightarrow>
               if ucast (b_size b) < offset \<or> ucast (b_size b) - offset < (ucast len :: u64)
               then Some (ST_RW_ERR, buff, ctx)
               else if is_read
               then do { x \<leftarrow> rd (unat offset) (unat len) dat; buf \<leftarrow> wr 0 x buf; Some (ST_OK, Some buf, ctx) }
               else do { x \<leftarrow> rd 0 (unat len) buf; dat \<leftarrow> wr (unat offset) x dat; Some (ST_OK, buff, Some (b\<lparr>b_data := Some dat\<rparr>)) })
      | _ \<Rightarrow> Some (ST_INVALID_PARAM, buff, ctx))"

definition dc_dev_from_buffer ::
  "dc_dev option \<Rightarrow> dc_buffer option \<Rightarrow> bytes option \<Rightarrow> u32 \<Rightarrow> u32 \<Rightarrow> status \<times> dc_dev option \<times> dc_buffer option" where
  "dc_dev_from_buffer dev desc buff sz bps =
     (if dev = None \<or> desc = None \<or> buff = None \<or> sz = 0 then (ST_INVALID_PARAM, dev, desc)
      else let bps = (if bps = 0 then of_nat SECTOR_SIZE else bps);
               head_len = min sz (of_nat DC_AREA_SIZE)
           in (ST_OK,
               Some \<lparr>d_bps = bps, d_dsk_size = ucast sz, d_head_len = head_len, d_tail_len = head_len,
                     d_stor_len = 0, d_stor_off = 0, d_opt = 0\<rparr>,
               Some \<lparr>b_data = buff, b_size = sz\<rparr>))"

section \<open>Installation happens once\<close>

text \<open>The states of the library under any sequence of calls of \<^verbatim>\<open>dc_lib_init\<close>, from its zeroed globals.\<close>

definition lib_initial :: lib_state where
  "lib_initial = \<lparr>g_host = \<lparr>hk_secure_alloc = 0, hk_secure_free = 0, hk_rand_bytes = 0, hk_rand_add_seed = 0, hk_log = 0, hk_wipe = 0\<rparr>,
                  g_installed = False\<rparr>"

inductive lib_step :: "lib_state \<Rightarrow> lib_state \<Rightarrow> bool" where
  "dc_lib_init host st = (r, st') \<Longrightarrow> lib_step st st'"

definition lib_ok :: "lib_state \<Rightarrow> bool" where
  "lib_ok st \<longleftrightarrow> (g_installed st \<longrightarrow> hk_secure_alloc (g_host st) \<noteq> 0 \<and> hk_secure_free (g_host st) \<noteq> 0 \<and> hk_rand_bytes (g_host st) \<noteq> 0)"

inductive_cases lib_stepE: "lib_step st st'"

lemma lib_step_ok: "lib_step st st' \<Longrightarrow> lib_ok st \<Longrightarrow> lib_ok st'"
  by (auto elim!: lib_stepE simp: dc_lib_init_def lib_ok_def split: option.splits if_splits)

lemma lib_step_stable: "lib_step st st' \<Longrightarrow> g_installed st \<Longrightarrow> st' = st"
  by (auto elim!: lib_stepE simp: dc_lib_init_def split: option.splits if_splits)

lemma lib_steps_stable: "lib_step\<^sup>*\<^sup>* st st' \<Longrightarrow> g_installed st \<Longrightarrow> st' = st"
  by (induction rule: rtranclp_induct) (auto dest: lib_step_stable)

lemma lib_steps_ok: "lib_step\<^sup>*\<^sup>* st st' \<Longrightarrow> lib_ok st \<Longrightarrow> lib_ok st'"
  by (induction rule: rtranclp_induct) (auto dest: lib_step_ok)

section \<open>The contract of a block device\<close>

locale block_device =
  fixes rw :: "'w dc_rw_fn"
    and disk :: "'w \<Rightarrow> bytes"
    and inv :: "'w \<Rightarrow> bool"
  assumes rw_read: "inv w \<Longrightarrow> unat off + unat len \<le> length (disk w) \<Longrightarrow> unat len \<le> length buf \<Longrightarrow>
      rw buf len off True w = Some (ST_OK, overlay 0 (slice (unat off) (unat len) (disk w)) buf, w)"
    and rw_write: "inv w \<Longrightarrow> unat off + unat len \<le> length (disk w) \<Longrightarrow> unat len \<le> length buf \<Longrightarrow>
      \<exists>w'. rw buf len off False w = Some (ST_OK, buf, w') \<and> inv w' \<and> disk w' = overlay (unat off) (take (unat len) buf) (disk w)"
    and rw_range: "inv w \<Longrightarrow> length (disk w) < unat off + unat len \<Longrightarrow> 0 < unat len \<Longrightarrow> unat len \<le> length buf \<Longrightarrow>
      \<exists>r buf' w'. r \<noteq> ST_OK \<and> rw buf len off dir w = Some (r, buf', w')"
begin

lemma read_after_write:
  assumes "inv w" "unat off + unat len \<le> length (disk w)" "length buf = unat len"
  shows "\<exists>w'. rw buf len off False w = Some (ST_OK, buf, w') \<and>
    (\<forall>buf'. length buf' = unat len \<longrightarrow> rw buf' len off True w' = Some (ST_OK, buf, w'))"
proof -
  obtain w' where w': "rw buf len off False w = Some (ST_OK, buf, w')" "inv w'" "disk w' = overlay (unat off) buf (disk w)"
    using rw_write [OF assms(1,2), of buf] assms(3) by auto
  have "slice (unat off) (unat len) (disk w') = buf"
    using slice_overlay_same [of "unat off" buf "disk w"] assms(2,3) w'(3) by simp
  moreover have "unat off + unat len \<le> length (disk w')"
    using assms(2,3) w'(3) by (simp add: length_overlay)
  ultimately show ?thesis
    using w' rw_read [OF w'(2), of off len] assms(3) by auto
qed

end

text \<open>The buffer device as a callback: the descriptor and its memory are the state.\<close>

definition dc_buffer_rw :: "dc_buffer dc_rw_fn" where
  "dc_buffer_rw buf len off is_read b =
     map_option (\<lambda>(r, buf, b). (r, the buf, the b)) (dc_buffer_rw_impl (Some b) (Some buf) len off is_read)"

definition buffer_inv :: "dc_buffer \<Rightarrow> bool" where
  "buffer_inv b \<longleftrightarrow> (\<exists>dat. b_data b = Some dat \<and> length dat = unat (b_size b))"

definition buffer_disk :: "dc_buffer \<Rightarrow> bytes" where
  "buffer_disk b = the (b_data b)"

lemma buffer_range:
  "ucast (s :: u32) < (off :: u64) \<or> ucast s - off < (ucast (len :: u32) :: u64) \<longleftrightarrow> unat s < unat off + unat len"
proof -
  have small: "unat (ucast w :: u64) = unat w" for w :: u32
    using unsigned_less [of w, where ?'a = nat] by (simp add: unsigned_ucast_eq take_bit_nat_eq_self)
  show ?thesis
  proof (cases "ucast s < off")
    case True
    then have "unat s < unat off" by (simp add: word_less_nat_alt small)
    then show ?thesis using True by simp
  next
    case False
    then have "unat off \<le> unat s" "unat ((ucast s :: u64) - off) = unat s - unat off"
      by (simp_all add: word_less_nat_alt word_le_nat_alt unat_sub small not_less)
    then show ?thesis using False by (auto simp: word_less_nat_alt small)
  qed
qed

interpretation buffer: block_device dc_buffer_rw buffer_disk buffer_inv
proof unfold_locales
  fix w :: dc_buffer and off :: u64 and len :: u32 and buf :: bytes and dir :: bool
  assume inv: "buffer_inv w"
  then obtain dat where dat: "b_data w = Some dat" "length dat = unat (b_size w)" by (auto simp: buffer_inv_def)
  show "dc_buffer_rw buf len off True w = Some (ST_OK, overlay 0 (slice (unat off) (unat len) (buffer_disk w)) buf, w)"
    if "unat off + unat len \<le> length (buffer_disk w)" "unat len \<le> length buf"
    using that dat by (auto simp: dc_buffer_rw_def dc_buffer_rw_impl_def buffer_disk_def buffer_range rd_in wr_in)
  show "\<exists>w'. dc_buffer_rw buf len off False w = Some (ST_OK, buf, w') \<and> buffer_inv w' \<and>
      buffer_disk w' = overlay (unat off) (take (unat len) buf) (buffer_disk w)"
    if "unat off + unat len \<le> length (buffer_disk w)" "unat len \<le> length buf"
    using that dat by (auto simp: dc_buffer_rw_def dc_buffer_rw_impl_def buffer_disk_def buffer_inv_def buffer_range rd_in wr_in
        length_overlay slice_def)
  show "\<exists>r buf' w'. r \<noteq> ST_OK \<and> dc_buffer_rw buf len off dir w = Some (r, buf', w')"
    if "length (buffer_disk w) < unat off + unat len"
    using that dat by (auto simp: dc_buffer_rw_def dc_buffer_rw_impl_def buffer_disk_def buffer_range st_defs)
qed

section \<open>Properties\<close>

text \<open>
  C39 (invariant): the host is installed once.  In every state reached by calls of \<^verbatim>\<open>dc_lib_init\<close> from the zeroed
  globals in which a host is installed, its allocator, its release function and its random number generator
  are there, no further sequence of calls changes the installed host, and a further call succeeds exactly
  when it passes the host that is installed.
\<close>

theorem lib_init_once:
  assumes "lib_step\<^sup>*\<^sup>* lib_initial st" and "g_installed st"
  shows "hk_secure_alloc (g_host st) \<noteq> 0 \<and> hk_secure_free (g_host st) \<noteq> 0 \<and> hk_rand_bytes (g_host st) \<noteq> 0 \<and>
    (\<forall>st'. lib_step\<^sup>*\<^sup>* st st' \<longrightarrow> st' = st) \<and> (fst (dc_lib_init (Some h) st) = ST_OK \<longleftrightarrow> h = g_host st)"
proof -
  have "lib_ok st" using lib_steps_ok [OF assms(1)] by (simp add: lib_ok_def lib_initial_def)
  then have "hk_secure_alloc (g_host st) \<noteq> 0" "hk_secure_free (g_host st) \<noteq> 0" "hk_rand_bytes (g_host st) \<noteq> 0"
    using assms(2) by (simp_all add: lib_ok_def)
  then show ?thesis
    using assms(2) lib_steps_stable by (auto simp: dc_lib_init_def st_defs)
qed

definition sample_host :: dc_host where
  "sample_host = \<lparr>hk_secure_alloc = 16, hk_secure_free = 32, hk_rand_bytes = 48, hk_rand_add_seed = 0, hk_log = 0, hk_wipe = 0\<rparr>"

theorem lib_init_once_witness:
  "fst (dc_lib_init (Some sample_host) (snd (dc_lib_init (Some sample_host) lib_initial))) = ST_OK \<and>
   fst (dc_lib_init (Some (sample_host\<lparr>hk_wipe := 64\<rparr>)) (snd (dc_lib_init (Some sample_host) lib_initial))) \<noteq> ST_OK"
proof -
  have "lib_step lib_initial (snd (dc_lib_init (Some sample_host) lib_initial))"
    by (rule lib_step.intros [of "Some sample_host"]) (simp add: prod_eq_iff)
  then have reach: "lib_step\<^sup>*\<^sup>* lib_initial (snd (dc_lib_init (Some sample_host) lib_initial))" by simp
  have st: "g_installed (snd (dc_lib_init (Some sample_host) lib_initial))" "g_host (snd (dc_lib_init (Some sample_host) lib_initial)) = sample_host"
    by (simp_all add: dc_lib_init_def sample_host_def lib_initial_def)
  show ?thesis
    using lib_init_once [OF reach st(1), of sample_host] lib_init_once [OF reach st(1), of "sample_host\<lparr>hk_wipe := 64\<rparr>"]
    by (simp add: st(2)) (simp add: sample_host_def)
qed

end
