(* ===== verification/CryptoHead.thy ===== *)
theory CryptoHead
  imports Host Pkcs5 XtsLocal
begin

text \<open>
  Key derivation, header decryption and key slots (\<^verbatim>\<open>DCrypt/volume_lib/crypto_head.c\<close>).  Passwords, salts and
  derived keys are byte lists; a pointer argument that may be null is an option; a failed bounds check of the
  model is \<^const>\<open>None\<close> as in the header layout.  \<open>S\<close> is the selection of cipher cores, \<open>H\<close> the environment and
  \<open>w\<close> its state.  The \<^verbatim>\<open>int\<close> computations on slot numbers are in unbounded integers; the callers pass slot
  numbers of at most \<^verbatim>\<open>KEY_SLOT_MAX\<close> in absolute value.
\<close>

unbundle bit_operations_syntax

section \<open>Key derivation\<close>

definition KDF_LEGACY_ARGON_BASE :: int where "KDF_LEGACY_ARGON_BASE = 1000"
definition KDF_LEGACY_ARGON_LAST :: int where "KDF_LEGACY_ARGON_LAST = 1100"
definition KEY_SLOT_MAX :: int where "KEY_SLOT_MAX = 100"

definition dc_default_kdfs :: "int list" where "dc_default_kdfs = [0, KDF_ARGON_DEFAULT, -1]"
definition dc_all_kdfs :: "int list" where "dc_all_kdfs = [0, 1, 2, 3, 4, 5, 6, 7, 8, 9, 10, -1]"

definition memory_mib_table :: "u32 list" where
  "memory_mib_table = [64, 128, 192, 256, 384, 512, 768, 1024, 1536, 2048]"

definition time_cost_table :: "u32 list" where
  "time_cost_table = [3, 3, 4, 4, 5, 5, 5, 6, 6, 6]"

text \<open>The three outputs (memory in KiB, passes, lanes), or \<^const>\<open>None\<close> for a return of zero.\<close>

definition argon2_mk_params :: "int \<Rightarrow> (u32 \<times> u32 \<times> u32) option" where
  "argon2_mk_params kdf =
     (let min_cost = 1; max_cost = int (length memory_mib_table)
      in if kdf < min_cost \<or> kdf > max_cost then None
         else let idx = nat (kdf - 1) in Some (memory_mib_table ! idx * 1024, time_cost_table ! idx, 4))"

definition dc_derive_key :: "'w env \<Rightarrow> dc_pass \<Rightarrow> int \<Rightarrow> bytes \<Rightarrow> bytes \<Rightarrow> 'w \<Rightarrow> int \<times> bytes \<times> 'w" where
  "dc_derive_key H password kdf salt dk w =
     (if kdf = KDF_NONE then
        (if p_size password = int DISKKEY_SIZE then (1, overlay 0 (take PKCS_DERIVE_MAX (p_pass password)) dk, w) else (0, dk, w))
      else if kdf = 0 then
        (1, overlay 0 (sha512_pkcs5_2 1000 (pass_bytes password) salt PKCS_DERIVE_MAX) dk, w)
      else if kdf > KDF_LEGACY_ARGON_BASE \<and> kdf \<le> KDF_LEGACY_ARGON_LAST then
        (let cost = kdf - KDF_LEGACY_ARGON_BASE;
             m_cost_mib = 64 + (cost - 1) * 32;
             m_cost_mib = (if m_cost_mib > 1024 then 1024 else m_cost_mib);
             memory_cost = (of_int m_cost_mib :: u32) * 1024;
             time_cost = (if cost \<le> 31 then of_int (3 + (cost - 1) div 3) else of_int (13 + (cost - 31)) :: u32)
         in case e_argon2id H time_cost memory_cost 1 (pass_bytes password) salt (take PKCS_DERIVE_MAX dk) w of
              (ok, out, w) \<Rightarrow> ((if ok then 1 else 0), overlay 0 out dk, w))
      else
        (case argon2_mk_params kdf of
           None \<Rightarrow> (0, dk, w)
         | Some (memory_cost, time_cost, parallelism) \<Rightarrow>
             (case e_argon2id H time_cost memory_cost parallelism (pass_bytes password) salt (replicate DISKKEY_SIZE 0) w of
                (ok, ak, w) \<Rightarrow> if ok then (1, overlay 0 (take PKCS_DERIVE_MAX ak) dk, w) else (0, dk, w))))"

section \<open>Opening a header\<close>

text \<open>The loop over the ciphers, from \<open>alg\<close> on.\<close>

function try_ciphers :: "xts_selected \<Rightarrow> bytes \<Rightarrow> xts_key \<Rightarrow> bytes \<Rightarrow> bytes \<Rightarrow> int \<Rightarrow> (int \<times> xts_key \<times> bytes) option" where
  "try_ciphers S dk hdr_key header hcopy alg =
     (if alg < CF_CIPHERS_NUM then
        (case xts_set_key dk alg hdr_key of (r, hdr_key) \<Rightarrow>
           if r \<noteq> 0 then
             do { out \<leftarrow> xts_decrypt S hdr_key header (of_nat DC_AREA_SIZE) 0;
                  hcopy \<leftarrow> wr 0 out hcopy;
                  ok \<leftarrow> is_volume_header_correct (Some hcopy);
                  if ok then Some (1, hdr_key, hcopy) else try_ciphers S dk hdr_key header hcopy (alg + 1) }
           else try_ciphers S dk hdr_key header hcopy (alg + 1))
      else Some (0, hdr_key, hcopy))"
  by pat_completeness auto

termination
  by (relation "measure (\<lambda>(_, _, _, _, _, alg). nat (CF_CIPHERS_NUM - alg))") auto

declare try_ciphers.simps [simp del]

definition try_decrypt_header :: "xts_selected \<Rightarrow> bytes \<Rightarrow> xts_key \<Rightarrow> bytes \<Rightarrow> bytes \<Rightarrow> (int \<times> xts_key \<times> bytes) option" where
  "try_decrypt_header S dk hdr_key header hcopy = try_ciphers S dk hdr_key header hcopy 0"

text \<open>Copies the decrypted part, everything after the salt, over the header.\<close>

definition restore_plain :: "bytes \<Rightarrow> bytes \<Rightarrow> bytes option" where
  "restore_plain hcopy header =
     do { x \<leftarrow> rd HEADER_SALT_SIZE (DC_AREA_SIZE - HEADER_SALT_SIZE) hcopy; wr HEADER_SALT_SIZE x header }"

definition cp_try_decrypt_header ::
  "xts_selected \<Rightarrow> 'w env \<Rightarrow> bytes \<Rightarrow> int \<Rightarrow> xts_key \<Rightarrow> bytes \<Rightarrow> 'w \<Rightarrow> (int \<times> xts_key \<times> bytes \<times> 'w) option" where
  "cp_try_decrypt_header S H dk alg hdr_key header w =
     (case dc_alloc H DC_AREA_SIZE w of
        (None, w) \<Rightarrow> Some (0, hdr_key, header, w)
      | (Some hcopy, w) \<Rightarrow>
          do { (succs, hdr_key, header) \<leftarrow>
                 (case xts_set_key dk alg hdr_key of (r, hdr_key) \<Rightarrow>
                    if r \<noteq> 0 then
                      do { out \<leftarrow> xts_decrypt S hdr_key header (of_nat DC_AREA_SIZE) 0;
                           hcopy \<leftarrow> wr 0 out hcopy;
                           ok \<leftarrow> is_volume_header_correct (Some hcopy);
                           if ok then do { header \<leftarrow> restore_plain hcopy header; Some (1, hdr_key, header) }
                           else Some (0, hdr_key, header) }
                    else Some (0, hdr_key, header));
               Some (succs, hdr_key, header, dc_free H (Some hcopy) w) })"

section \<open>Key slots\<close>

definition cp_get_key_slot_size :: "int \<Rightarrow> int" where
  "cp_get_key_slot_size type = (if type = 0 then int PKCS_DERIVE_MAX else 0)"

definition at64 :: "bytes \<Rightarrow> nat \<Rightarrow> u64" where
  "at64 b i = le_word (slice i 8 b)"

text \<open>The three loops below run over 64-bit words; each touches \<^verbatim>\<open>PKCS_DERIVE_MAX\<close> bytes of its buffers.\<close>

definition slot_buffers :: "bytes list \<Rightarrow> bool" where
  "slot_buffers bs \<longleftrightarrow> (\<forall>b \<in> set bs. PKCS_DERIVE_MAX \<le> length b)"

definition try_decrypt_slot :: "bytes \<Rightarrow> bytes \<Rightarrow> bytes \<Rightarrow> int \<Rightarrow> (int \<times> bytes) option" where
  "try_decrypt_slot dk slot sk type =
     (if type = 0 then
        if slot_buffers [dk, slot, sk]
        then Some (1, fold (\<lambda>i sk. overlay (8 * i) (le_bytes 8 (at64 slot (8 * i) XOR at64 dk (8 * i))) sk) [0..<PKCS_DERIVE_MAX div 8] sk)
        else None
      else Some (0, sk))"

definition cp_wrap_header_key :: "bytes \<Rightarrow> bytes \<Rightarrow> bytes \<Rightarrow> int \<Rightarrow> (int \<times> bytes) option" where
  "cp_wrap_header_key slot sk dk type =
     (if type = 0 then
        if slot_buffers [dk, slot, sk]
        then Some (1, fold (\<lambda>i slot. overlay (8 * i) (le_bytes 8 (at64 sk (8 * i) XOR at64 dk (8 * i))) slot) [0..<PKCS_DERIVE_MAX div 8] slot)
        else None
      else Some (0, slot))"

definition cp_swap_slot_key :: "bytes \<Rightarrow> bytes \<Rightarrow> bytes \<Rightarrow> int \<Rightarrow> (int \<times> bytes) option" where
  "cp_swap_slot_key slot old_dk new_dk type =
     (if type = 0 then
        if slot_buffers [old_dk, new_dk, slot]
        then Some (1, fold (\<lambda>i slot. let temp = at64 slot (8 * i) XOR at64 old_dk (8 * i)
                                       in overlay (8 * i) (le_bytes 8 (temp XOR at64 new_dk (8 * i))) slot) [0..<PKCS_DERIVE_MAX div 8] slot)
        else None
      else Some (0, slot))"

definition cp_abs :: "int \<Rightarrow> int" where
  "cp_abs x = (if x < 0 then - x else x)"

definition cp_get_min_header_len :: "dc_pass \<Rightarrow> int" where
  "cp_get_min_header_len password =
     (let slot_type = 0
      in if p_slot password \<noteq> 0 then
           let slot_count = min (cp_abs (p_slot password)) KEY_SLOT_MAX;
               slot_size = cp_get_key_slot_size slot_type + int SLOT_INFO_SIZE
           in max (int DC_BASE_SIZE + slot_size * slot_count) (int DC_AREA_SIZE)
         else int DC_AREA_SIZE)"

text \<open>
  The loop over the slots \<open>i\<close> up to \<open>slot\<close>.  Gives the outcome, the key, the copy, the last unwrapped key and
  the index at which the loop stopped.
\<close>

function slot_search :: "xts_selected \<Rightarrow> bytes \<Rightarrow> bytes \<Rightarrow> int \<Rightarrow> int \<Rightarrow> int \<Rightarrow> int \<Rightarrow> int \<Rightarrow> xts_key \<Rightarrow> bytes \<Rightarrow> bytes \<Rightarrow>
    (int \<times> xts_key \<times> bytes \<times> bytes \<times> int) option" where
  "slot_search S dk header hdr_len slot_type slot_size i slot hdr_key hcopy sk =
     (if i < slot then
        if hdr_len < int DC_BASE_SIZE + slot_size * (i + 1) then Some (0, hdr_key, hcopy, sk, i)
        else do { (r, sk) \<leftarrow> try_decrypt_slot dk (drop (nat (int DC_BASE_SIZE + slot_size * i)) header) sk slot_type;
                  if r = 0 then slot_search S dk header hdr_len slot_type slot_size (i + 1) slot hdr_key hcopy sk
                  else do { (succs, hdr_key, hcopy) \<leftarrow> try_decrypt_header S sk hdr_key header hcopy;
                            if succs \<noteq> 0 then Some (succs, hdr_key, hcopy, sk, i)
                            else slot_search S dk header hdr_len slot_type slot_size (i + 1) slot hdr_key hcopy sk } }
      else Some (0, hdr_key, hcopy, sk, i))"
  by pat_completeness auto

termination
  by (relation "measure (\<lambda>(_, _, _, _, _, _, i, slot, _). nat (slot - i))") auto

declare slot_search.simps [simp del]

record hdr_out =
  out_key :: xts_key
  out_header :: bytes
  out_dk :: "bytes option"
  out_slot :: "int option"
  out_kdf :: "int option"

text \<open>
  With a derived key: the header itself unless a single slot is asked for, then the slots.  Gives also the key
  that opened the header and the slot it came from.
\<close>

definition open_with_key ::
  "xts_selected \<Rightarrow> bytes \<Rightarrow> bytes \<Rightarrow> int \<Rightarrow> int \<Rightarrow> xts_key \<Rightarrow> bytes \<Rightarrow> (int \<times> xts_key \<times> bytes \<times> bytes \<times> int) option" where
  "open_with_key S dk header hdr_len slot hdr_key hcopy =
     do { (succs, hdr_key, hcopy) \<leftarrow>
            (if slot \<le> 0 then try_decrypt_header S dk hdr_key header hcopy else Some (0, hdr_key, hcopy));
          if succs \<noteq> 0 then Some (succs, hdr_key, hcopy, dk, 0)
          else let i = (if slot > 0 then slot - 1 else 0);
                   slot = (if slot < 0 then - slot else slot);
                   slot_type = 0;
                   slot_size = cp_get_key_slot_size slot_type
               in do { (succs, hdr_key, hcopy, sk, i) \<leftarrow>
                         slot_search S dk header hdr_len slot_type slot_size i slot hdr_key hcopy (replicate PKCS_DERIVE_MAX 0);
                       Some (succs, hdr_key, hcopy, sk, i + 1) } }"

definition cp_decrypt_header_with_kdf ::
  "xts_selected \<Rightarrow> 'w env \<Rightarrow> hdr_out \<Rightarrow> int \<Rightarrow> dc_pass \<Rightarrow> int \<Rightarrow> 'w \<Rightarrow> (int \<times> hdr_out \<times> 'w) option" where
  "cp_decrypt_header_with_kdf S H o1 hdr_len password kdf w =
     (case dc_alloc H DC_AREA_SIZE w of
        (None, w) \<Rightarrow> Some (0, o1, w)
      | (Some hcopy, w) \<Rightarrow>
          (case dc_derive_key H password kdf (hd_salt (out_header o1)) (replicate PKCS_DERIVE_MAX 0) w of
             (r, dk, w) \<Rightarrow>
               if r = 0 then Some (0, o1, w)
               else do {
                 (succs, key, hcopy, found, slot) \<leftarrow> open_with_key S dk (out_header o1) hdr_len (p_slot password) (out_key o1) hcopy;
                 if succs \<noteq> 0
                 then do { header \<leftarrow> restore_plain hcopy (out_header o1);
                           Some (succs,
                                 o1\<lparr>out_key := key, out_header := header, out_dk := map_option (overlay 0 found) (out_dk o1),
                                    out_slot := map_option (\<lambda>_. slot) (out_slot o1)\<rparr>,
                                 dc_free H (Some hcopy) w) }
                 else Some (succs, o1\<lparr>out_key := key\<rparr>, dc_free H (Some hcopy) w) }))"

text \<open>The search over a list of key derivation functions that ends with \<open>-1\<close>.\<close>

fun kdf_search :: "xts_selected \<Rightarrow> 'w env \<Rightarrow> 'w intr \<Rightarrow> int \<Rightarrow> dc_pass \<Rightarrow> int list \<Rightarrow> hdr_out \<Rightarrow> 'w \<Rightarrow> (int \<times> hdr_out \<times> 'w) option" where
  "kdf_search S H intr hdr_len password [] o1 w = None"
| "kdf_search S H intr hdr_len password (kdf # kdfs) o1 w =
     (if kdf = -1 then Some (0, o1, w)
      else case interrupted intr w of (stop, w) \<Rightarrow>
        if stop then Some (0, o1, w)
        else do { (r, o1, w) \<leftarrow> cp_decrypt_header_with_kdf S H o1 hdr_len password kdf w;
                  if r \<noteq> 0 then Some (1, o1\<lparr>out_kdf := map_option (\<lambda>_. kdf) (out_kdf o1)\<rparr>, w)
                  else kdf_search S H intr hdr_len password kdfs o1 w })"

definition cp_decrypt_header ::
  "xts_selected \<Rightarrow> 'w env \<Rightarrow> 'w intr \<Rightarrow> hdr_out \<Rightarrow> int \<Rightarrow> dc_pass \<Rightarrow> 'w \<Rightarrow> (int \<times> hdr_out \<times> 'w) option" where
  "cp_decrypt_header S H intr o1 hdr_len password w =
     (let kdf = p_kdf password
      in if kdf < -1 then
           if kdf = KDF_ALL then kdf_search S H intr hdr_len password dc_all_kdfs o1 w
           else if kdf = KDF_DEFAULT then kdf_search S H intr hdr_len password dc_default_kdfs o1 w
           else Some (0, o1, w)
         else case interrupted intr w of (stop, w) \<Rightarrow>
           if stop then Some (0, o1, w)
           else do { (r, o1, w) \<leftarrow> cp_decrypt_header_with_kdf S H o1 hdr_len password kdf w;
                     if r \<noteq> 0 then Some (1, o1\<lparr>out_kdf := map_option (\<lambda>_. kdf) (out_kdf o1)\<rparr>, w)
                     else Some (0, o1, w) })"

definition cp_set_header_key :: "'w env \<Rightarrow> xts_key \<Rightarrow> bytes \<Rightarrow> int \<Rightarrow> dc_pass \<Rightarrow> 'w \<Rightarrow> int \<times> xts_key \<times> 'w" where
  "cp_set_header_key H hdr_key salt cipher password w =
     (case dc_derive_key H password (p_kdf password) salt (replicate PKCS_DERIVE_MAX 0) w of
        (r, dk, w) \<Rightarrow>
          if r = 0 then (0, hdr_key, w)
          else case xts_set_key dk cipher hdr_key of (done, hdr_key) \<Rightarrow> (done, hdr_key, w))"

section \<open>Copying the slots\<close>

text \<open>
  One turn of the copy loop.  The caller may pass the header itself as \<open>out_buff\<close>: the loop writes only inside
  the slot area and reads the descriptors behind it, so the header read by a later turn is the one it started with.
\<close>

definition copy_slot :: "bytes \<Rightarrow> nat \<Rightarrow> bytes \<Rightarrow> nat \<Rightarrow> bytes \<Rightarrow> bytes option" where
  "copy_slot header slot_size in_buff i out_buff =
     (let info = DC_BASE_SIZE + unat (hd_slot_area_len header) + unat (hd_slot_info_size header) * i
      in do { flags \<leftarrow> rd (info + 4) 4 header;
              if (le_word flags :: u32) AND SF_DISABLED = 0
              then do { x \<leftarrow> rd (DC_BASE_SIZE + slot_size * i) slot_size in_buff; wr (DC_BASE_SIZE + slot_size * i) x out_buff }
              else Some out_buff })"

primrec copy_slots :: "bytes \<Rightarrow> nat \<Rightarrow> bytes \<Rightarrow> nat \<Rightarrow> bytes \<Rightarrow> bytes option" where
  "copy_slots header slot_size in_buff 0 out_buff = Some out_buff"
| "copy_slots header slot_size in_buff (Suc n) out_buff =
     do { out_buff \<leftarrow> copy_slots header slot_size in_buff n out_buff; copy_slot header slot_size in_buff n out_buff }"

definition cp_copy_keylots :: "bytes \<Rightarrow> bytes \<Rightarrow> bytes \<Rightarrow> (int \<times> bytes) option" where
  "cp_copy_keylots header in_buff out_buff =
     (if hd_feature_flags header AND FF_KEY_SLOTS = 0 \<or> hd_key_slot_count header = 0 then Some (0, out_buff)
      else if unat (hd_head_len header) < DC_BASE_SIZE + unat (hd_slot_area_len header) + unat (hd_key_slot_count header) * unat (hd_slot_info_size header)
      then Some (0, out_buff)
      else let slot_size = unat (hd_slot_area_len header) div unat (hd_key_slot_count header)
           in map_option (\<lambda>out. (1, out)) (copy_slots header slot_size in_buff (unat (hd_key_slot_count header)) out_buff))"

section \<open>Wrapped keys\<close>

lemma slot_loop_xor:
  assumes "192 \<le> length a" "192 \<le> length b" "192 \<le> length c"
  shows "fold (\<lambda>i c. overlay (8 * i) (le_bytes 8 (at64 a (8 * i) XOR at64 b (8 * i))) c) [0..<PKCS_DERIVE_MAX div 8] c =
    xor_bytes (take 192 a) (take 192 b) @ drop 192 c"
proof -
  have "fold (\<lambda>i c. overlay (8 * i) (le_bytes 8 (at64 a (8 * i) XOR at64 b (8 * i))) c) [0..<24] c =
      concat (map (\<lambda>i. le_bytes 8 (at64 a (8 * i) XOR at64 b (8 * i))) [0..<24]) @ drop (8 * 24) c"
    using assms(3) by (intro fold_overlay_chunks) simp_all
  also have "map (\<lambda>i. le_bytes 8 (at64 a (8 * i) XOR at64 b (8 * i))) [0..<24] =
      map (\<lambda>i. xor_bytes (slice (8 * i) 8 a) (slice (8 * i) 8 b)) [0..<24]"
    using assms by (simp add: at64_def le_bytes_xor le_bytes_le_word del: upt_rec_numeral)
  also have "concat \<dots> = xor_bytes (take (8 * 24) a) (take (8 * 24) b)"
    using assms by (intro concat_xor_chunks) simp_all
  finally show ?thesis by (simp add: PKCS_DERIVE_MAX_def MAX_KEY_SIZE_def)
qed

lemma swap_loop_xor:
  assumes "192 \<le> length a" "192 \<le> length b" "192 \<le> length c"
  shows "fold (\<lambda>i c. let temp = at64 c (8 * i) XOR at64 a (8 * i) in overlay (8 * i) (le_bytes 8 (temp XOR at64 b (8 * i))) c)
      [0..<PKCS_DERIVE_MAX div 8] c = xor_bytes (xor_bytes (take 192 c) (take 192 a)) (take 192 b) @ drop 192 c"
proof -
  let ?F = "\<lambda>i x. le_bytes 8 ((le_word x :: u64) XOR at64 a (8 * i) XOR at64 b (8 * i))"
  have "fold (\<lambda>i c. overlay (8 * i) (?F i (slice (8 * i) 8 c)) c) [0..<24] c =
      concat (map (\<lambda>i. ?F i (slice (8 * i) 8 c)) [0..<24]) @ drop (8 * 24) c"
    using assms(3) by (intro fold_overlay_chunks) simp_all
  also have "map (\<lambda>i. ?F i (slice (8 * i) 8 c)) [0..<24] =
      map (\<lambda>i. xor_bytes (slice (8 * i) 8 c) (slice (8 * i) 8 (xor_bytes (take 192 a) (take 192 b)))) [0..<24]"
  proof (rule map_cong [OF refl])
    fix i assume "i \<in> set [0..<24::nat]"
    then have i: "8 * i + 8 \<le> 192" by simp
    have "xor_bytes (slice (8 * i) 8 a) (slice (8 * i) 8 b) = slice (8 * i) 8 (xor_bytes (take 192 a) (take 192 b))"
      using i by (simp add: slice_def xor_bytes_def take_map drop_map take_zip drop_zip drop_take min_def)
    then show "?F i (slice (8 * i) 8 c) = xor_bytes (slice (8 * i) 8 c) (slice (8 * i) 8 (xor_bytes (take 192 a) (take 192 b)))"
      using assms i by (simp add: at64_def le_bytes_xor le_bytes_le_word)
  qed
  also have "concat \<dots> = xor_bytes (take (8 * 24) c) (take (8 * 24) (xor_bytes (take 192 a) (take 192 b)))"
    using assms by (intro concat_xor_chunks) simp_all
  finally show ?thesis
    using assms by (simp add: PKCS_DERIVE_MAX_def MAX_KEY_SIZE_def at64_def [of _ "8 * _"] Let_def xor.assoc xor_bytes_assoc)
qed

lemma try_decrypt_slot_xor:
  "192 \<le> length dk \<Longrightarrow> 192 \<le> length slot \<Longrightarrow> 192 \<le> length sk \<Longrightarrow>
   try_decrypt_slot dk slot sk 0 = Some (1, xor_bytes (take 192 slot) (take 192 dk) @ drop 192 sk)"
  using slot_loop_xor [of slot dk sk] by (simp add: try_decrypt_slot_def slot_buffers_def) (simp add: vol_sizes)

lemma cp_wrap_header_key_xor:
  "192 \<le> length dk \<Longrightarrow> 192 \<le> length slot \<Longrightarrow> 192 \<le> length sk \<Longrightarrow>
   cp_wrap_header_key slot sk dk 0 = Some (1, xor_bytes (take 192 sk) (take 192 dk) @ drop 192 slot)"
  using slot_loop_xor [of sk dk slot] by (simp add: cp_wrap_header_key_def slot_buffers_def) (simp add: vol_sizes)

lemma cp_swap_slot_key_xor:
  "192 \<le> length old_dk \<Longrightarrow> 192 \<le> length new_dk \<Longrightarrow> 192 \<le> length slot \<Longrightarrow>
   cp_swap_slot_key slot old_dk new_dk 0 =
     Some (1, xor_bytes (xor_bytes (take 192 slot) (take 192 old_dk)) (take 192 new_dk) @ drop 192 slot)"
  using swap_loop_xor [of old_dk new_dk slot] by (simp add: cp_swap_slot_key_def slot_buffers_def Let_def) (simp add: vol_sizes)

section \<open>The search for the cipher\<close>

text \<open>The schedule of an algorithm overwrites all that its routines read, whatever was in the key before.\<close>

lemma xts_decrypt_set_key:
  assumes "alg \<in> {0..<CF_CIPHERS_NUM}"
  shows "xts_decrypt (scalar_selection A) (snd (xts_set_key dk alg k)) = xts_decrypt (scalar_selection A) (snd (xts_set_key dk alg k'))"
proof -
  have "alg = 0 \<or> alg = 1 \<or> alg = 2 \<or> alg = 3 \<or> alg = 4 \<or> alg = 5 \<or> alg = 6" using assms by (auto simp: cf_defs)
  then show ?thesis
    by (elim disjE) (simp_all add: fun_eq_iff xts_set_key_def cf_defs xts_decrypt_def scalar_selection_def then_do_def
        xts_aes_basic_decrypt_def xts_serpent_basic_decrypt_def tf_decrypt_def
        xts_aes_twofish_decrypt_def xts_twofish_serpent_decrypt_def xts_serpent_aes_decrypt_def xts_aes_twofish_serpent_decrypt_def)
qed

definition plain_under :: "aes_core \<Rightarrow> bytes \<Rightarrow> bytes \<Rightarrow> int \<Rightarrow> bytes" where
  "plain_under A dk header alg =
     the (xts_decrypt (scalar_selection A) (snd (xts_set_key dk alg undefined)) header (of_nat DC_AREA_SIZE) 0)"

lemma header_area_ok: "DC_AREA_SIZE \<le> length header \<Longrightarrow> xts_len_ok header (of_nat DC_AREA_SIZE)"
  by (simp add: xts_len_ok_def vol_sizes)

lemma plain_under_decrypt:
  assumes "aes_core_ok A" "alg \<in> {0..<CF_CIPHERS_NUM}" "DC_AREA_SIZE \<le> length header"
  shows "xts_decrypt (scalar_selection A) (snd (xts_set_key dk alg k)) header (of_nat DC_AREA_SIZE) 0 = Some (plain_under A dk header alg)"
    "length (plain_under A dk header alg) = DC_AREA_SIZE"
proof -
  have "fst (xts_set_key dk alg undefined) = 1" using assms(2) by (auto simp: xts_set_key_def cf_defs)
  then have "local_pair (xts_encrypt (scalar_selection A) (snd (xts_set_key dk alg undefined)))
      (xts_decrypt (scalar_selection A) (snd (xts_set_key dk alg undefined)))"
    using xts_set_key_local [OF assms(1)] by (metis prod.collapse)
  then obtain d where d: "blockwise (xts_decrypt (scalar_selection A) (snd (xts_set_key dk alg undefined))) d"
    by (auto simp: local_pair_def xts_local_def)
  have dec: "xts_decrypt (scalar_selection A) (snd (xts_set_key dk alg undefined)) header (of_nat DC_AREA_SIZE) 0 =
      Some (by_blocks d 0 header 128)"
    using d header_area_ok [OF assms(3)] by (simp add: blockwise_def vol_sizes)
  moreover have "length (by_blocks d 0 header 128) = 16 * 128"
    using d assms(3) by (intro by_blocks_uniform) (auto simp: blockwise_def vol_sizes)
  ultimately show "xts_decrypt (scalar_selection A) (snd (xts_set_key dk alg k)) header (of_nat DC_AREA_SIZE) 0 = Some (plain_under A dk header alg)"
    "length (plain_under A dk header alg) = DC_AREA_SIZE"
    using xts_decrypt_set_key [OF assms(2), of A dk k undefined] by (simp_all add: plain_under_def vol_sizes)
qed

lemma try_ciphers_step:
  assumes "aes_core_ok A" "alg \<in> {0..<CF_CIPHERS_NUM}" "DC_AREA_SIZE \<le> length header" "length hcopy = DC_AREA_SIZE"
  shows "try_ciphers (scalar_selection A) dk k header hcopy alg =
    (case is_volume_header_correct (Some (plain_under A dk header alg)) of
       None \<Rightarrow> None
     | Some True \<Rightarrow> Some (1, snd (xts_set_key dk alg k), plain_under A dk header alg)
     | Some False \<Rightarrow> try_ciphers (scalar_selection A) dk (snd (xts_set_key dk alg k)) header (plain_under A dk header alg) (alg + 1))"
proof -
  have one: "fst (xts_set_key dk alg k) \<noteq> 0" using assms(2) by (auto simp: xts_set_key_def cf_defs)
  have "wr 0 (plain_under A dk header alg) hcopy = Some (plain_under A dk header alg)"
    using plain_under_decrypt(2) [OF assms(1-3)] assms(4) by (simp add: wr_def)
  then have "try_ciphers (scalar_selection A) dk k header hcopy alg =
      do { ok \<leftarrow> is_volume_header_correct (Some (plain_under A dk header alg));
           if ok then Some (1, snd (xts_set_key dk alg k), plain_under A dk header alg)
           else try_ciphers (scalar_selection A) dk (snd (xts_set_key dk alg k)) header (plain_under A dk header alg) (alg + 1) }"
    using one plain_under_decrypt(1) [OF assms(1-3), of dk k] assms(2)
    by (subst try_ciphers.simps) (simp add: case_prod_beta del: wr_Some)
  then show ?thesis by (auto split: option.splits bool.splits)
qed

lemma try_ciphers_find:
  assumes A: "aes_core_ok A" and len: "DC_AREA_SIZE \<le> length header"
  shows "0 \<le> alg \<Longrightarrow> alg \<le> CF_CIPHERS_NUM \<Longrightarrow> length hcopy = DC_AREA_SIZE \<Longrightarrow>
    (case find (\<lambda>a. is_volume_header_correct (Some (plain_under A dk header a)) \<noteq> Some False) [alg..CF_CIPHERS_NUM - 1] of
       None \<Rightarrow> \<exists>k' hc. try_ciphers (scalar_selection A) dk k header hcopy alg = Some (0, k', hc)
     | Some a \<Rightarrow> (if is_volume_header_correct (Some (plain_under A dk header a)) = None
                  then try_ciphers (scalar_selection A) dk k header hcopy alg = None
                  else \<exists>k'. try_ciphers (scalar_selection A) dk k header hcopy alg =
                         Some (1, snd (xts_set_key dk a k'), plain_under A dk header a)))"
proof (induction "nat (CF_CIPHERS_NUM - alg)" arbitrary: alg k hcopy)
  case 0
  then have "alg = CF_CIPHERS_NUM" by simp
  then show ?case by (simp add: try_ciphers.simps)
next
  case (Suc n)
  then have lt: "alg < CF_CIPHERS_NUM" by simp
  then have up: "[alg..CF_CIPHERS_NUM - 1] = alg # [alg + 1..CF_CIPHERS_NUM - 1]" by (simp add: upto.simps)
  have ra: "alg \<in> {0..<CF_CIPHERS_NUM}" using lt Suc.prems by simp
  note step = try_ciphers_step [OF A ra len Suc.prems(3), of dk k]
  show ?case
  proof (cases "is_volume_header_correct (Some (plain_under A dk header alg))")
    case None
    then show ?thesis unfolding up step by simp
  next
    case (Some b)
    show ?thesis
    proof (cases b)
      case True
      then show ?thesis using Some unfolding up step by auto
    next
      case False
      have n: "n = nat (CF_CIPHERS_NUM - (alg + 1))" using Suc.hyps(2) by simp
      have "0 \<le> alg + 1" "alg + 1 \<le> CF_CIPHERS_NUM" using lt Suc.prems by simp_all
      note IH = Suc.hyps(1) [OF n this plain_under_decrypt(2) [OF A ra len, of dk], of "snd (xts_set_key dk alg k)"]
      have same: "try_ciphers (scalar_selection A) dk k header hcopy alg =
          try_ciphers (scalar_selection A) dk (snd (xts_set_key dk alg k)) header (plain_under A dk header alg) (alg + 1)"
        unfolding step using Some False by simp
      have "find (\<lambda>a. is_volume_header_correct (Some (plain_under A dk header a)) \<noteq> Some False) (alg # xs) =
          find (\<lambda>a. is_volume_header_correct (Some (plain_under A dk header a)) \<noteq> Some False) xs" for xs
        using Some False by simp
      then show ?thesis unfolding up same by (simp only: IH)
    qed
  qed
qed

section \<open>Soundness of opening\<close>

lemma try_ciphers_sound:
  assumes "try_ciphers S dk k header hcopy alg = Some (r, k', hc)"
  shows "length hc = length hcopy \<and> (r = 0 \<or> r = 1 \<and> is_volume_header_correct (Some hc) = Some True)"
  using assms
proof (induction S dk k header hcopy alg arbitrary: r k' hc rule: try_ciphers.induct)
  case (1 S dk k header hcopy alg)
  show ?case
  proof (cases "alg < CF_CIPHERS_NUM")
    case False
    then show ?thesis using "1.prems" by (simp add: try_ciphers.simps [of _ _ _ _ _ alg])
  next
    case True
    obtain q k1 where q: "xts_set_key dk alg k = (q, k1)" by (cases "xts_set_key dk alg k")
    show ?thesis
    proof (cases "q = 0")
      case True
      then have "try_ciphers S dk k header hcopy alg = try_ciphers S dk k1 header hcopy (alg + 1)"
        using \<open>alg < CF_CIPHERS_NUM\<close> q by (subst try_ciphers.simps) simp
      then show ?thesis
        using "1.IH"(2) [OF \<open>alg < CF_CIPHERS_NUM\<close> q [symmetric]] "1.prems" True by metis
    next
      case False
      with "1.prems" True q obtain out hc1 ok where o: "xts_decrypt S k1 header (of_nat DC_AREA_SIZE) 0 = Some out"
          "wr 0 out hcopy = Some hc1" "is_volume_header_correct (Some hc1) = Some ok"
          "(if ok then Some (1, k1, hc1) else try_ciphers S dk k1 header hc1 (alg + 1)) = Some (r, k', hc)"
        by (subst (asm) try_ciphers.simps) (auto simp: bind_eq_Some_conv)
      have len: "length hc1 = length hcopy" using o(2) by (auto simp: length_overlay)
      show ?thesis
      proof (cases ok)
        case True
        then show ?thesis using o(3,4) len by auto
      next
        case False
        then have "try_ciphers S dk k1 header hc1 (alg + 1) = Some (r, k', hc)" using o(4) by simp
        from "1.IH"(1) [OF \<open>alg < CF_CIPHERS_NUM\<close> q [symmetric] \<open>q \<noteq> 0\<close> o(1-3) False this] show ?thesis
          by (simp only: len)
      qed
    qed
  qed
qed

lemma slot_search_sound:
  assumes "slot_search S dk header hdr_len ty sz i slot k hcopy sk = Some (r, k', hc, sk', i')"
  shows "length hc = length hcopy \<and> (r = 0 \<or> r = 1 \<and> is_volume_header_correct (Some hc) = Some True)"
  using assms
proof (induction S dk header hdr_len ty sz i slot k hcopy sk arbitrary: r k' hc sk' i' rule: slot_search.induct)
  case (1 S dk header hdr_len ty sz i slot k hcopy sk)
  show ?case
  proof (cases "i < slot \<and> \<not> hdr_len < int DC_BASE_SIZE + sz * (i + 1)")
    case False
    then show ?thesis using "1.prems" by (subst (asm) slot_search.simps) (auto split: if_splits)
  next
    case True
    then have lt: "i < slot" and room: "\<not> hdr_len < int DC_BASE_SIZE + sz * (i + 1)" by simp_all
    obtain q sk1 where q: "try_decrypt_slot dk (drop (nat (int DC_BASE_SIZE + sz * i)) header) sk ty = Some (q, sk1)"
      using "1.prems" True by (subst (asm) slot_search.simps) (auto simp: bind_eq_Some_conv)
    show ?thesis
    proof (cases "q = 0")
      case True
      then have "slot_search S dk header hdr_len ty sz (i + 1) slot k hcopy sk1 = Some (r, k', hc, sk', i')"
        using "1.prems" lt room q by (subst (asm) slot_search.simps) simp
      from "1.IH"(1) [OF lt room q refl True this] show ?thesis .
    next
      case False
      obtain s1 k1 hc1 where t: "try_decrypt_header S sk1 k header hcopy = Some (s1, k1, hc1)"
        using "1.prems" lt room q False by (subst (asm) slot_search.simps) (auto simp: bind_eq_Some_conv)
      have t': "length hc1 = length hcopy \<and> (s1 = 0 \<or> s1 = 1 \<and> is_volume_header_correct (Some hc1) = Some True)"
        using try_ciphers_sound t by (simp add: try_decrypt_header_def)
      show ?thesis
      proof (cases "s1 = 0")
        case True
        then have rest: "slot_search S dk header hdr_len ty sz (i + 1) slot k1 hc1 sk1 = Some (r, k', hc, sk', i')"
          using "1.prems" lt room q False t by (subst (asm) slot_search.simps) simp
        have "\<not> s1 \<noteq> 0" using True by simp
        from "1.IH"(2) [OF lt room q refl False t refl refl this rest] t' show ?thesis by simp
      next
        case s1: False
        then have "hc = hc1 \<and> r = s1"
          using "1.prems" lt room q False t by (subst (asm) slot_search.simps) simp
        then show ?thesis using t' by simp
      qed
    qed
  qed
qed

definition alloc_ok :: "'w env \<Rightarrow> bool" where
  "alloc_ok H \<longleftrightarrow> (\<forall>n w b w'. e_secure_alloc H n w = (Some b, w') \<longrightarrow> length b = n)"

text \<open>The header after a successful search: the salt and the bytes behind the first area are as they were.\<close>

definition opened :: "bytes \<Rightarrow> bytes \<Rightarrow> bytes" where
  "opened header hc = take 64 header @ drop 64 hc @ drop 2048 header"

lemma restore_plain_opened:
  "length hc = 2048 \<Longrightarrow> 2048 \<le> length header \<Longrightarrow> restore_plain hc header = Some (opened header hc)"
  by (simp add: restore_plain_def rd_in wr_in vol_sizes opened_def overlay_def slice_def del: rd_Some wr_Some)

lemma restore_plain_Some:
  "length hc = 2048 \<Longrightarrow> restore_plain hc header = Some h \<Longrightarrow> 2048 \<le> length header \<and> h = opened header hc"
  by (auto simp: restore_plain_def bind_eq_Some_conv vol_sizes opened_def overlay_def slice_def)

lemma alloc_length: "alloc_ok H \<Longrightarrow> e_secure_alloc H n w = (Some b, w') \<Longrightarrow> length b = n"
  by (auto simp: alloc_ok_def)

lemma open_with_key_sound:
  assumes "open_with_key S dk header hdr_len slot k hcopy = Some (r, k', hc, f, n)"
  shows "length hc = length hcopy \<and> (r = 0 \<or> r = 1 \<and> is_volume_header_correct (Some hc) = Some True)"
proof -
  obtain s1 k1 hc1 where first: "(if slot \<le> 0 then try_decrypt_header S dk k header hcopy else Some (0, k, hcopy)) = Some (s1, k1, hc1)"
    and rest: "(if s1 \<noteq> 0 then Some (s1, k1, hc1, dk, 0)
        else do { (succs, key, hcopy, sk, i) \<leftarrow> slot_search S dk header hdr_len 0 (cp_get_key_slot_size 0)
                     (if slot > 0 then slot - 1 else 0) (if slot < 0 then - slot else slot) k1 hc1 (replicate PKCS_DERIVE_MAX 0);
                  Some (succs, key, hcopy, sk, i + 1) }) = Some (r, k', hc, f, n)"
    using assms unfolding open_with_key_def Let_def by (auto simp: bind_eq_Some_conv)
  have s1: "length hc1 = length hcopy \<and> (s1 = 0 \<or> s1 = 1 \<and> is_volume_header_correct (Some hc1) = Some True)"
    using first try_ciphers_sound [of S dk k header hcopy 0 s1 k1 hc1] by (auto simp: try_decrypt_header_def split: if_splits)
  show ?thesis
    using rest s1 by (auto simp: bind_eq_Some_conv dest!: slot_search_sound split: if_splits)
qed

lemma same_key_ex [simp]: "\<exists>k. (x :: hdr_out) = x\<lparr>out_key := k\<rparr>"
  by (rule exI [of _ "out_key x"]) simp

lemma with_kdf_sound:
  assumes "alloc_ok H" "cp_decrypt_header_with_kdf S H o1 hdr_len password kdf w = Some (r, o2, w')"
  shows "(r = 0 \<and> (\<exists>k. o2 = o1\<lparr>out_key := k\<rparr>)) \<or>
    (r = 1 \<and> out_kdf o2 = out_kdf o1 \<and> 2048 \<le> length (out_header o1) \<and>
     (\<exists>hc. length hc = 2048 \<and> is_volume_header_correct (Some hc) = Some True \<and> out_header o2 = opened (out_header o1) hc))"
proof -
  obtain a w1 where al: "e_secure_alloc H DC_AREA_SIZE w = (a, w1)" by (cases "e_secure_alloc H DC_AREA_SIZE w")
  show ?thesis
  proof (cases a)
    case None
    then show ?thesis using assms(2) al by (simp add: cp_decrypt_header_with_kdf_def dc_alloc_def)
  next
    case (Some hcopy)
    then have hl: "length hcopy = 2048" using alloc_length [OF assms(1)] al by (auto simp: DC_AREA_SIZE_def)
    obtain q dk w2 where dk: "dc_derive_key H password kdf (hd_salt (out_header o1)) (replicate PKCS_DERIVE_MAX 0) w1 = (q, dk, w2)"
      by (cases "dc_derive_key H password kdf (hd_salt (out_header o1)) (replicate PKCS_DERIVE_MAX 0) w1")
    show ?thesis
    proof (cases "q = 0")
      case True
      then show ?thesis using assms(2) al Some dk by (simp add: cp_decrypt_header_with_kdf_def dc_alloc_def)
    next
      case False
      then obtain s k hc f n where opn: "open_with_key S dk (out_header o1) hdr_len (p_slot password) (out_key o1) hcopy = Some (s, k, hc, f, n)"
        and fin: "(if s \<noteq> 0 then do { header \<leftarrow> restore_plain hc (out_header o1);
             Some (s, o1\<lparr>out_key := k, out_header := header, out_dk := map_option (overlay 0 f) (out_dk o1),
                        out_slot := map_option (\<lambda>_. n) (out_slot o1)\<rparr>, dc_free H (Some hc) w2) }
           else Some (s, o1\<lparr>out_key := k\<rparr>, dc_free H (Some hc) w2)) = Some (r, o2, w')"
        using assms(2) al Some dk by (auto simp: cp_decrypt_header_with_kdf_def dc_alloc_def bind_eq_Some_conv)
      show ?thesis
        using fin open_with_key_sound [OF opn] hl restore_plain_Some [of hc "out_header o1"]
        by (auto simp: bind_eq_Some_conv split: if_splits)
    qed
  qed
qed

text \<open>What a search leaves behind: nothing but key material on failure, an opened header on success.\<close>

definition search_result :: "int \<Rightarrow> hdr_out \<Rightarrow> hdr_out \<Rightarrow> bool" where
  "search_result r o1 o2 \<longleftrightarrow>
     (r = 0 \<and> (\<exists>k. o2 = o1\<lparr>out_key := k\<rparr>)) \<or>
     (r = 1 \<and> 2048 \<le> length (out_header o1) \<and>
      (\<exists>hc. length hc = 2048 \<and> is_volume_header_correct (Some hc) = Some True \<and> out_header o2 = opened (out_header o1) hc))"

lemma search_result_stop [simp]: "search_result 0 o1 o1"
  by (simp add: search_result_def)

lemma search_result_chain: "search_result 0 o1 o3 \<Longrightarrow> search_result r o3 o2 \<Longrightarrow> search_result r o1 o2"
  by (auto simp: search_result_def)

lemma with_kdf_result:
  assumes "alloc_ok H" "cp_decrypt_header_with_kdf S H o1 hdr_len password kdf w = Some (r, o2, w')"
  shows "search_result r o1 o2" "r \<noteq> 0 \<Longrightarrow> search_result 1 o1 (o2\<lparr>out_kdf := x\<rparr>)"
  using with_kdf_sound [OF assms] by (auto simp: search_result_def)

lemma kdf_search_sound:
  assumes "alloc_ok H"
  shows "kdf_search S H intr hdr_len password kdfs o1 w = Some (r, o2, w') \<Longrightarrow> search_result r o1 o2"
proof (induction kdfs arbitrary: o1 w)
  case (Cons kdf kdfs)
  obtain stop w1 where i: "interrupted intr w = (stop, w1)" by (cases "interrupted intr w")
  show ?case
  proof (cases "kdf = -1 \<or> stop")
    case True
    then show ?thesis using Cons.prems i by (auto split: if_splits)
  next
    case False
    then obtain q o3 w2 where k: "cp_decrypt_header_with_kdf S H o1 hdr_len password kdf w1 = Some (q, o3, w2)"
      and rest: "(if q \<noteq> 0 then Some (1, o3\<lparr>out_kdf := map_option (\<lambda>_. kdf) (out_kdf o3)\<rparr>, w2)
         else kdf_search S H intr hdr_len password kdfs o3 w2) = Some (r, o2, w')"
      using Cons.prems i by (auto simp: bind_eq_Some_conv)
    show ?thesis
      using rest with_kdf_result [OF assms k] Cons.IH [of o3 w2] search_result_chain by (auto split: if_splits)
  qed
qed simp

lemma cp_decrypt_header_sound:
  assumes "alloc_ok H" "cp_decrypt_header S H intr o1 hdr_len password w = Some (r, o2, w')"
  shows "search_result r o1 o2"
proof (cases "p_kdf password < -1")
  case True
  then show ?thesis using assms kdf_search_sound [OF assms(1)] by (auto simp: cp_decrypt_header_def Let_def split: if_splits)
next
  case False
  obtain stop w1 where i: "interrupted intr w = (stop, w1)" by (cases "interrupted intr w")
  show ?thesis
    using assms(2) False i with_kdf_result [OF assms(1)]
    by (auto simp: cp_decrypt_header_def Let_def bind_eq_Some_conv split: if_splits)
qed

lemma slice_opened:
  assumes "length hc = 2048" "2048 \<le> length header" "64 \<le> off" "off + n \<le> 2048"
  shows "slice off n (opened header hc) = slice off n hc"
proof -
  have "slice off n (opened header hc) = take n (drop (off - 64) (drop 64 hc @ drop 2048 header))"
    using assms by (simp add: slice_def opened_def)
  also have "\<dots> = slice off n hc" using assms by (simp add: slice_def)
  finally show ?thesis .
qed

text \<open>Signature and checksum of a header, over its first area.\<close>

definition header_checked :: "bytes \<Rightarrow> bool" where
  "header_checked h \<longleftrightarrow> hd_sign h = DC_VOLUME_SIGN \<and> 0 \<le> crc_area_len h \<and> 72 + crc_area_len h \<le> 2048 \<and>
     hd_hdr_crc h = crc32 (slice 72 (nat (crc_area_len h)) h)"

lemma header_checked_opened:
  assumes "length hc = 2048" "2048 \<le> length header" "is_volume_header_correct (Some hc) = Some True"
  shows "header_checked (opened header hc)"
proof -
  have valid: "header_valid hc" using assms(1,3) is_volume_header_correct_iff [of hc] by simp
  have f: "(fld off n (opened header hc) :: 'a::len word) = fld off n hc" if "64 \<le> off" "off + n \<le> 2048" for off n
    using slice_opened [OF assms(1,2) that] by (simp add: fld_def)
  have area: "crc_area_len (opened header hc) = crc_area_len hc"
    by (simp add: crc_area_len_def hd_version_def hd_footer_cnt_def f)
  have "slice 72 (nat (crc_area_len hc)) (opened header hc) = slice 72 (nat (crc_area_len hc)) hc"
    using valid assms(1) by (intro slice_opened [OF assms(1,2)]) (auto simp: header_valid_def)
  then show ?thesis
    using valid assms(1) by (simp add: header_checked_def header_valid_def area hd_sign_def hd_hdr_crc_def f)
qed

section \<open>The copied slots\<close>

definition slot_enabled :: "bytes \<Rightarrow> nat \<Rightarrow> bool" where
  "slot_enabled header i \<longleftrightarrow>
     (fld (DC_BASE_SIZE + unat (hd_slot_area_len header) + unat (hd_slot_info_size header) * i + 4) 4 header :: u32) AND SF_DISABLED = 0"

definition in_copied_slot :: "bytes \<Rightarrow> nat \<Rightarrow> nat \<Rightarrow> nat \<Rightarrow> bool" where
  "in_copied_slot header slot_size n k \<longleftrightarrow>
     (\<exists>i < n. slot_enabled header i \<and> DC_BASE_SIZE + slot_size * i \<le> k \<and> k < DC_BASE_SIZE + slot_size * i + slot_size)"

lemma copy_slots_nth:
  assumes "\<And>i. i < n \<Longrightarrow> DC_BASE_SIZE + unat (hd_slot_area_len header) + unat (hd_slot_info_size header) * i + 8 \<le> length header"
    and "DC_BASE_SIZE + slot_size * n \<le> length inb" and "DC_BASE_SIZE + slot_size * n \<le> length outb"
  shows "\<exists>out. copy_slots header slot_size inb n outb = Some out \<and> length out = length outb \<and>
    (\<forall>k < length outb. out ! k = (if in_copied_slot header slot_size n k then inb ! k else outb ! k))"
  using assms
proof (induction n)
  case 0
  then show ?case by (simp add: in_copied_slot_def)
next
  case (Suc n)
  have fits: "DC_BASE_SIZE + slot_size * n + slot_size \<le> length inb" "DC_BASE_SIZE + slot_size * n + slot_size \<le> length outb"
    using Suc.prems(2,3) by (simp_all add: algebra_simps)
  then obtain out where out: "copy_slots header slot_size inb n outb = Some out" "length out = length outb"
      "\<And>k. k < length outb \<Longrightarrow> out ! k = (if in_copied_slot header slot_size n k then inb ! k else outb ! k)"
    using Suc.IH Suc.prems(1) by (auto simp: less_Suc_eq)
  let ?off = "DC_BASE_SIZE + slot_size * n"
  have flags: "rd (DC_BASE_SIZE + unat (hd_slot_area_len header) + unat (hd_slot_info_size header) * n + 4) 4 header =
      Some (slice (DC_BASE_SIZE + unat (hd_slot_area_len header) + unat (hd_slot_info_size header) * n + 4) 4 header)"
    using Suc.prems(1) [of n] by (intro rd_in) simp
  have ext: "in_copied_slot header slot_size (Suc n) k \<longleftrightarrow>
      in_copied_slot header slot_size n k \<or> (slot_enabled header n \<and> ?off \<le> k \<and> k < ?off + slot_size)" for k
    by (auto simp: in_copied_slot_def less_Suc_eq)
  show ?case
  proof (cases "slot_enabled header n")
    case False
    then have "copy_slots header slot_size inb (Suc n) outb = Some out"
      by (simp add: out(1) copy_slot_def flags slot_enabled_def fld_def del: rd_Some wr_Some)
    then show ?thesis using out(2,3) ext False by auto
  next
    case True
    have len: "length (slice ?off slot_size inb) = slot_size" using fits by simp
    have "copy_slots header slot_size inb (Suc n) outb = Some (overlay ?off (slice ?off slot_size inb) out)"
      using True fits out(2) len
      by (simp add: out(1) copy_slot_def flags slot_enabled_def fld_def rd_in wr_in del: rd_Some wr_Some)
    moreover have "overlay ?off (slice ?off slot_size inb) out ! k =
        (if in_copied_slot header slot_size (Suc n) k then inb ! k else outb ! k)" if "k < length outb" for k
      using that fits out(2) out(3) [OF that] len True by (auto simp: nth_overlay nth_slice ext)
    ultimately show ?thesis using fits out(2) len by (simp add: length_overlay)
  qed
qed

section \<open>Properties\<close>

text \<open>
  C20 (functional): the search for the cipher.  The result is that of the first algorithm in the fixed order
  whose decryption of the header area passes the header check: its plaintext and its key schedule.  If none
  passes, the search reports failure; it leaves the buffer only if the first candidate that is not refused has
  a footer count that sends the check out of bounds.
\<close>

theorem try_decrypt_header_first:
  assumes "aes_core_ok A" and "DC_AREA_SIZE \<le> length header" and "length hcopy = DC_AREA_SIZE"
  shows "case find (\<lambda>a. is_volume_header_correct (Some (plain_under A dk header a)) \<noteq> Some False) [0..CF_CIPHERS_NUM - 1] of
       None \<Rightarrow> \<exists>k' hc. try_decrypt_header (scalar_selection A) dk k header hcopy = Some (0, k', hc)
     | Some a \<Rightarrow> (if is_volume_header_correct (Some (plain_under A dk header a)) = None
                  then try_decrypt_header (scalar_selection A) dk k header hcopy = None
                  else \<exists>k'. try_decrypt_header (scalar_selection A) dk k header hcopy =
                         Some (1, snd (xts_set_key dk a k'), plain_under A dk header a))"
  unfolding try_decrypt_header_def by (rule try_ciphers_find) (use assms in \<open>simp_all add: cf_defs\<close>)

theorem try_decrypt_header_first_witness:
  "case find (\<lambda>a. is_volume_header_correct (Some (plain_under fips197_core (replicate 192 1) (replicate 2048 0) a)) \<noteq> Some False)
       [0..CF_CIPHERS_NUM - 1] of
       None \<Rightarrow> \<exists>k' hc. try_decrypt_header (scalar_selection fips197_core) (replicate 192 1) undefined (replicate 2048 0) (replicate 2048 0) = Some (0, k', hc)
     | Some a \<Rightarrow> (if is_volume_header_correct (Some (plain_under fips197_core (replicate 192 1) (replicate 2048 0) a)) = None
                  then try_decrypt_header (scalar_selection fips197_core) (replicate 192 1) undefined (replicate 2048 0) (replicate 2048 0) = None
                  else \<exists>k'. try_decrypt_header (scalar_selection fips197_core) (replicate 192 1) undefined (replicate 2048 0) (replicate 2048 0) =
                         Some (1, snd (xts_set_key (replicate 192 1) a k'), plain_under fips197_core (replicate 192 1) (replicate 2048 0) a))"
  by (rule try_decrypt_header_first) (simp_all add: fips197_core_ok vol_sizes)

text \<open>
  Key slots.  A header key wrapped under a slot key is recovered by that slot key; after the
  header key is exchanged in the slot, knowing only the old and the new header key, the same slot key recovers
  the new one.  The bytes of the slot behind the wrapped key are not touched.
\<close>

theorem key_slot_roundtrip:
  assumes "length hk = 192" and "length hk' = 192" and "length sd = 192" and "192 \<le> length slot" and "length buf = 192"
  shows "\<exists>s s'. cp_wrap_header_key slot hk sd 0 = Some (1, s) \<and> try_decrypt_slot sd s buf 0 = Some (1, hk) \<and>
    cp_swap_slot_key s hk hk' 0 = Some (1, s') \<and> try_decrypt_slot sd s' buf 0 = Some (1, hk') \<and>
    drop 192 s = drop 192 slot \<and> drop 192 s' = drop 192 slot"
proof -
  have swap: "xor_bytes (xor_bytes (xor_bytes hk sd) hk) hk' = xor_bytes hk' sd"
    using assms by (simp add: xor_bytes_commute [of hk sd] xor_bytes_commute [of sd hk'])
  show ?thesis
    using assms swap
    by (simp add: cp_wrap_header_key_xor try_decrypt_slot_xor cp_swap_slot_key_xor)
qed

theorem key_slot_roundtrip_witness:
  "\<exists>s s'. cp_wrap_header_key (replicate 200 0) (replicate 192 1) (replicate 192 5) 0 = Some (1, s) \<and>
    try_decrypt_slot (replicate 192 5) s (replicate 192 0) 0 = Some (1, replicate 192 1) \<and>
    cp_swap_slot_key s (replicate 192 1) (replicate 192 2) 0 = Some (1, s') \<and>
    try_decrypt_slot (replicate 192 5) s' (replicate 192 0) 0 = Some (1, replicate 192 2) \<and>
    drop 192 s = drop 192 (replicate 200 0) \<and> drop 192 s' = drop 192 (replicate 200 0)"
  by (rule key_slot_roundtrip) simp_all

text \<open>
  C19 (safety): opening a header by password.  Whatever the environment does (allocation failures, Argon2
  failures, interrupts), a search that fails leaves the header and all outputs but the key buffer as they
  were; a search that succeeds keeps the salt and everything behind the first area and leaves a header whose
  signature and checksum are right.
\<close>

theorem cp_decrypt_header_safe:
  assumes "alloc_ok H" and "cp_decrypt_header S H intr o1 hdr_len password w = Some (r, o2, w')"
  shows "(r = 0 \<and> out_header o2 = out_header o1 \<and> out_dk o2 = out_dk o1 \<and> out_slot o2 = out_slot o1 \<and> out_kdf o2 = out_kdf o1) \<or>
    (r = 1 \<and> length (out_header o2) = length (out_header o1) \<and> hd_salt (out_header o2) = hd_salt (out_header o1) \<and>
     drop 2048 (out_header o2) = drop 2048 (out_header o1) \<and> header_checked (out_header o2))"
proof -
  have "length (opened (out_header o1) hc) = length (out_header o1) \<and> hd_salt (opened (out_header o1) hc) = hd_salt (out_header o1) \<and>
      drop 2048 (opened (out_header o1) hc) = drop 2048 (out_header o1)"
    if "length hc = 2048" "2048 \<le> length (out_header o1)" for hc
    using that by (simp add: opened_def hd_salt_def slice_def vol_sizes)
  then show ?thesis
    using cp_decrypt_header_sound [OF assms] by (auto simp: search_result_def header_checked_opened)
qed

definition plain_env :: "nat env" where
  "plain_env = \<lparr>e_secure_alloc = (\<lambda>n w. (Some (replicate n 0), w + 1)), e_secure_free = (\<lambda>w. w - 1),
     e_rand_bytes = (\<lambda>n w. (replicate n (of_nat w), w)), e_rand_add_seed = None, e_wipe = None,
     e_argon2id = (\<lambda>t m p pw salt out w. (False, out, w)), e_sizeof_xts_key = 0, e_key_block = undefined\<rparr>"

definition sample_out :: hdr_out where
  "sample_out = \<lparr>out_key = undefined, out_header = replicate 2048 0, out_dk = None, out_slot = None, out_kdf = None\<rparr>"

definition sample_pass :: dc_pass where
  "sample_pass = \<lparr>p_size = 2, p_pass = replicate 256 97, p_kdf = 5, p_slot = 0, p_flags = 0, p_label = replicate 20 0\<rparr>"

lemma plain_env_alloc [simp]: "alloc_ok plain_env"
  by (auto simp: alloc_ok_def plain_env_def)

theorem cp_decrypt_header_safe_witness:
  "\<exists>r o2 w'. cp_decrypt_header (scalar_selection fips197_core) plain_env None sample_out 2048 sample_pass 0 = Some (r, o2, w') \<and>
     ((r = 0 \<and> out_header o2 = out_header sample_out \<and> out_dk o2 = out_dk sample_out \<and> out_slot o2 = out_slot sample_out \<and>
       out_kdf o2 = out_kdf sample_out) \<or>
      (r = 1 \<and> length (out_header o2) = length (out_header sample_out) \<and> hd_salt (out_header o2) = hd_salt (out_header sample_out) \<and>
       drop 2048 (out_header o2) = drop 2048 (out_header sample_out) \<and> header_checked (out_header o2)))"
proof -
  have "cp_decrypt_header (scalar_selection fips197_core) plain_env None sample_out 2048 sample_pass 0 = Some (0, sample_out, 1)"
    by (simp add: cp_decrypt_header_def interrupted_def sample_pass_def cp_decrypt_header_with_kdf_def dc_alloc_def
        plain_env_def dc_derive_key_def argon2_mk_params_def memory_mib_table_def kdf_defs
        KDF_LEGACY_ARGON_BASE_def KDF_LEGACY_ARGON_LAST_def Let_def)
  with cp_decrypt_header_safe [OF plain_env_alloc this] show ?thesis by blast
qed

text \<open>
  When the key derivation fails, the copy allocated just before is not released: in an environment that
  counts the live blocks, one block more is live after the call.
\<close>

theorem derive_failure_keeps_block:
  "cp_decrypt_header_with_kdf S plain_env o1 hdr_len sample_pass 5 n = Some (0, o1, n + 1)"
  by (simp add: sample_pass_def cp_decrypt_header_with_kdf_def dc_alloc_def plain_env_def dc_derive_key_def argon2_mk_params_def
      memory_mib_table_def kdf_defs KDF_LEGACY_ARGON_BASE_def KDF_LEGACY_ARGON_LAST_def Let_def)

end
