(* ===== verification/HeadUtil.thy ===== *)
theory HeadUtil
  imports CryptoHead
begin

text \<open>
  Header helpers on buffers (\<^verbatim>\<open>DCrypt/volume_lib/head_util.c\<close>) and the extended header
  (\<^verbatim>\<open>get_ext_header\<close> of \<^verbatim>\<open>DCrypt/volume_lib/header_io.c\<close>): sealing and unsealing a header with a known key,
  reading and writing key slots with their checksums.
\<close>

unbundle bit_operations_syntax

section \<open>Sealing and unsealing\<close>

definition cp_encrypt_header ::
  "xts_selected \<Rightarrow> bytes option \<Rightarrow> int \<Rightarrow> xts_key option \<Rightarrow> bytes option \<Rightarrow> (status \<times> bytes option) option" where
  "cp_encrypt_header S header len hdr_key out =
     (case (header, out) of
        (Some h, Some ob) \<Rightarrow>
          if len < int DC_AREA_SIZE then Some (ST_INVALID_PARAM, out)
          else (case hdr_key of
                  None \<Rightarrow> Some (ST_ERROR, out)
                | Some key \<Rightarrow>
                    if encrypt_p key = xts_null then Some (ST_ERROR, out)
                    else if len mod int XTS_SECTOR_SIZE \<noteq> 0 then Some (ST_INV_DATA_SIZE, out)
                    else do {
                      salt \<leftarrow> rd 0 HEADER_SALT_SIZE h;
                      x \<leftarrow> rd 0 (nat len) h;
                      ob \<leftarrow> wr 0 x ob;
                      y \<leftarrow> xts_encrypt S key ob (of_int len) 0;
                      ob \<leftarrow> wr 0 y ob;
                      ob \<leftarrow> wr 0 salt ob;
                      (r, ob) \<leftarrow> (if hd_version h \<ge> DC_HDR_VERSION_2 \<and> hd_feature_flags h AND FF_KEY_SLOTS \<noteq> 0
                                  then cp_copy_keylots h h ob else Some (0, ob));
                      Some (ST_OK, Some ob) })
      | _ \<Rightarrow> Some (ST_INVALID_PARAM, out))"

definition cp_decrypt_header_with_key ::
  "xts_selected \<Rightarrow> bytes option \<Rightarrow> int \<Rightarrow> xts_key option \<Rightarrow> bytes option \<Rightarrow> (int \<times> bytes option) option" where
  "cp_decrypt_header_with_key S blob len hdr_key out =
     (case (blob, out, hdr_key) of
        (Some b, Some ob, Some key) \<Rightarrow>
          if len < int DC_AREA_SIZE \<or> decrypt_p key = xts_null \<or> len mod int XTS_SECTOR_SIZE \<noteq> 0 then Some (0, out)
          else do {
            y \<leftarrow> xts_decrypt S key b (of_nat DC_AREA_SIZE) 0;
            ob \<leftarrow> wr 0 y ob;
            salt \<leftarrow> rd 0 HEADER_SALT_SIZE b;
            ob \<leftarrow> wr 0 salt ob;
            ok \<leftarrow> is_volume_header_correct (Some ob);
            if \<not> ok then Some (0, Some ob)
            else do {
              ob \<leftarrow> (if len > int DC_AREA_SIZE
                      then do { y \<leftarrow> xts_decrypt S key (drop DC_AREA_SIZE b) (of_int (len - int DC_AREA_SIZE)) (of_nat DC_AREA_SIZE);
                                wr DC_AREA_SIZE y ob }
                      else Some ob);
              (r, ob) \<leftarrow> (if hd_feature_flags ob AND FF_KEY_SLOTS \<noteq> 0 then cp_copy_keylots ob b ob else Some (0, ob));
              Some (1, Some ob) } }
      | _ \<Rightarrow> Some (0, out))"

section \<open>Key slots\<close>

definition cp_has_key_slots :: "bytes option \<Rightarrow> bool" where
  "cp_has_key_slots header =
     (case header of
        None \<Rightarrow> False
      | Some h \<Rightarrow>
          if hd_version h < DC_HDR_VERSION_2 then False
          else if hd_feature_flags h AND FF_KEY_SLOTS = 0 then False
          else if hd_slot_area_len h = 0 then False
          else if hd_key_slot_count h = 0 then False
          else if hd_slot_info_size h = 0 then False
          else True)"

text \<open>Layout of the slots: size of a slot, offset of a slot and of its descriptor.\<close>

definition slot_size_of :: "bytes \<Rightarrow> nat" where
  "slot_size_of h = unat (hd_slot_area_len h) div unat (hd_key_slot_count h)"

definition slot_off :: "bytes \<Rightarrow> nat \<Rightarrow> nat" where
  "slot_off h i = DC_BASE_SIZE + i * slot_size_of h"

definition info_off :: "bytes \<Rightarrow> nat \<Rightarrow> nat" where
  "info_off h i = DC_BASE_SIZE + unat (hd_slot_area_len h) + i * unat (hd_slot_info_size h)"

text \<open>
  The checksum stored in a descriptor: over the descriptor after its first field and the slot.  The length of
  the first part is \<open>slot_info_size - 4\<close> converted to \<^verbatim>\<open>unsigned long\<close>.
\<close>

definition slot_crc :: "bytes \<Rightarrow> nat \<Rightarrow> u32 option" where
  "slot_crc h i =
     do { x \<leftarrow> rd (info_off h i + 4) (unat ((ucast (hd_slot_info_size h) :: u32) - 4)) h;
          y \<leftarrow> rd (slot_off h i) (slot_size_of h) h;
          crc32_combine (crc32 x) (crc32 y) (of_nat (slot_size_of h)) }"

definition cp_get_slot_info :: "bytes option \<Rightarrow> int \<Rightarrow> bytes \<Rightarrow> (status \<times> bytes) option" where
  "cp_get_slot_info header slot_idx info =
     (if \<not> cp_has_key_slots header then Some (ST_INCOMPATIBLE, info)
      else let h = the header
           in if slot_idx < 0 \<or> slot_idx \<ge> int (unat (hd_key_slot_count h)) then Some (ST_BAD_INDEX, info)
              else let i = nat slot_idx; isz = unat (hd_slot_info_size h)
                   in do {
                     x \<leftarrow> rd (info_off h i) (min SLOT_INFO_SIZE isz) h;
                     info \<leftarrow> wr 0 x info;
                     info \<leftarrow> (if SLOT_INFO_SIZE > isz then wr isz (replicate (SLOT_INFO_SIZE - isz) 0) info else Some info);
                     if si_flags 0 info AND SF_ACTIVE = 0 then Some (ST_OK, info)
                     else do { crc \<leftarrow> slot_crc h i;
                               if si_crc (info_off h i) h \<noteq> crc
                               then Some (ST_OK, set_fld 4 4 (si_flags 0 info OR SF_CORRUPT) info)
                               else Some (ST_OK, info) } })"

definition cp_get_slot_payload :: "bytes option \<Rightarrow> int \<Rightarrow> bytes option \<Rightarrow> int \<Rightarrow> (status \<times> bytes option) option" where
  "cp_get_slot_payload header slot_idx payload len =
     (if \<not> cp_has_key_slots header then Some (ST_INCOMPATIBLE, payload)
      else let h = the header
           in if slot_idx < 0 \<or> slot_idx \<ge> int (unat (hd_key_slot_count h)) then Some (ST_BAD_INDEX, payload)
              else if payload \<noteq> None \<and> len > int (slot_size_of h) then Some (ST_SMALL_BUFF, payload)
              else if len < 0 then None
              else do { x \<leftarrow> rd (slot_off h (nat slot_idx)) (min (nat len) (slot_size_of h)) h;
                        case payload of None \<Rightarrow> (if x = [] then Some (ST_OK, None) else None)
                        | Some p \<Rightarrow> do { p \<leftarrow> wr 0 x p; Some (ST_OK, Some p) } })"

text \<open>The pointer arguments of \<^verbatim>\<open>cp_set_slot\<close> have a null and a special value (\<^verbatim>\<open>CP_SLOT_CLEAR\<close>, \<^verbatim>\<open>CP_SLOT_RANDOM\<close>).\<close>

datatype 'a slot_arg = Keep | Special | Given 'a

definition cp_set_slot ::
  "'w env \<Rightarrow> bytes option \<Rightarrow> int \<Rightarrow> bytes slot_arg \<Rightarrow> bytes slot_arg \<Rightarrow> int \<Rightarrow> 'w \<Rightarrow> (status \<times> bytes option \<times> 'w) option" where
  "cp_set_slot H header slot_idx info payload len w =
     (if \<not> cp_has_key_slots header then Some (ST_INCOMPATIBLE, header, w)
      else let h = the header
           in if slot_idx < 0 \<or> slot_idx \<ge> int (unat (hd_key_slot_count h)) then Some (ST_BAD_INDEX, header, w)
              else if payload \<noteq> Keep \<and> len > int (slot_size_of h) then Some (ST_INVALID_PARAM, header, w)
              else if payload \<noteq> Keep \<and> len < 0 then None
              else let i = nat slot_idx; isz = unat (hd_slot_info_size h); so = slot_off h i; ss = slot_size_of h; io = info_off h i
                   in do {
                     h \<leftarrow> (case info of
                             Special \<Rightarrow> wr io (replicate isz 0) h
                           | Given d \<Rightarrow> do { x \<leftarrow> rd 0 (min SLOT_INFO_SIZE isz) d; wr io x h }
                           | Keep \<Rightarrow> Some h);
                     h \<leftarrow> (case payload of
                             Given p \<Rightarrow> do { x \<leftarrow> rd 0 (nat len) p; wr so x h }
                           | _ \<Rightarrow> Some h);
                     (h, w) \<leftarrow> (if payload \<noteq> Keep \<and> nat len < ss
                               then case dc_rand H (ss - nat len) w of (r, w) \<Rightarrow> do { h \<leftarrow> wr (so + nat len) r h; Some (h, w) }
                               else Some (h, w));
                     crc \<leftarrow> slot_crc h i;
                     h \<leftarrow> wr io (le_bytes 4 crc) h;
                     Some (ST_OK, Some h, w) })"

section \<open>Extended header and key derivation lists\<close>

text \<open>The checksum of an extended header that starts at \<open>off\<close>; its length is the field at \<open>off + 4\<close>, less 4.\<close>

definition cp_ext_header_crc :: "bytes \<Rightarrow> nat \<Rightarrow> u32 option" where
  "cp_ext_header_crc h off = map_option crc32 (rd (off + 4) (unat ((fld (off + 4) 4 h :: u32) - 4)) h)"

definition cp_kdf_list :: "int \<Rightarrow> int list option" where
  "cp_kdf_list selector =
     (if selector = KDF_ALL then Some dc_all_kdfs else if selector = KDF_DEFAULT then Some dc_default_kdfs else None)"

text \<open>The offset of the extended header, for the pointer that the code returns.\<close>

definition get_ext_header :: "bytes \<Rightarrow> (status \<times> nat option) option" where
  "get_ext_header h =
     (let off = unat (hd_ext_hdr_off h)
      in if hd_version h < DC_HDR_VERSION_2 then Some (ST_INCOMPATIBLE, None)
         else if off = 0 then Some (ST_INCOMPATIBLE, None)
         else if off < DC_BASE_SIZE + (if hd_feature_flags h AND FF_KEY_SLOTS \<noteq> 0
                then unat (hd_slot_area_len h) + unat (hd_key_slot_count h) * unat (hd_slot_info_size h) else 0)
         then Some (ST_INV_VOLUME, None)
         else if (ucast (hd_ext_hdr_off h) :: u32) + of_nat MIN_EXT_HDR_SIZE > hd_head_len h then Some (ST_INV_VOLUME, None)
         else do {
           x \<leftarrow> rd (off + 4) 4 h;
           let ext_size = (le_word x :: u32);
           if (ucast (hd_ext_hdr_off h) :: u32) + ext_size > hd_head_len h \<or> ext_size < of_nat MIN_EXT_HDR_SIZE
           then Some (ST_INV_VOLUME, None)
           else do { crc \<leftarrow> map_option crc32 (rd (off + 4) (unat (ext_size - 4)) h);
                     if (fld off 4 h :: u32) \<noteq> crc then Some (ST_INV_VOLUME, None) else Some (ST_OK, Some off) } })"

section \<open>Which bytes stay in the clear\<close>

definition slots_copied :: "bytes \<Rightarrow> bool" where
  "slots_copied h \<longleftrightarrow> hd_feature_flags h AND FF_KEY_SLOTS \<noteq> 0 \<and> hd_key_slot_count h \<noteq> 0 \<and>
     DC_BASE_SIZE + unat (hd_slot_area_len h) + unat (hd_key_slot_count h) * unat (hd_slot_info_size h) \<le> unat (hd_head_len h)"

definition clear_slot_byte :: "bytes \<Rightarrow> nat \<Rightarrow> bool" where
  "clear_slot_byte h k \<longleftrightarrow> slots_copied h \<and> in_copied_slot h (slot_size_of h) (unat (hd_key_slot_count h)) k"

text \<open>
  The slot layout of a header in a buffer of \<open>n\<close> bytes: when slots are in use, the header length covers them and
  does not exceed the buffer, a descriptor has room for its flags, and slots consist of whole cipher blocks.
\<close>

definition layout_ok :: "bytes \<Rightarrow> nat \<Rightarrow> bool" where
  "layout_ok h n \<longleftrightarrow> (slots_copied h \<longrightarrow> unat (hd_head_len h) \<le> n \<and> 8 \<le> unat (hd_slot_info_size h) \<and> 16 dvd slot_size_of h)"

lemma slot_area_fits: "hd_key_slot_count h \<noteq> 0 \<Longrightarrow> slot_size_of h * unat (hd_key_slot_count h) \<le> unat (hd_slot_area_len h)"
  by (simp add: slot_size_of_def)

lemma info_fits:
  assumes "i < n" "a + n * s \<le> m" "8 \<le> s"
  shows "a + s * i + 8 \<le> (m :: nat)"
proof -
  have "s * i + s \<le> s * n" using assms(1) by (metis Suc_leI mult_Suc_right add.commute mult_le_mono2)
  then show ?thesis using assms(2,3) by (simp add: mult.commute)
qed

lemma copy_keylots_nth:
  assumes "layout_ok h n" "n \<le> length h" "n \<le> length inb" "n \<le> length outb"
  shows "\<exists>r out. cp_copy_keylots h inb outb = Some (r, out) \<and> length out = length outb \<and>
    (\<forall>k < length outb. out ! k = (if clear_slot_byte h k then inb ! k else outb ! k))"
proof (cases "slots_copied h")
  case False
  then show ?thesis by (auto simp: cp_copy_keylots_def clear_slot_byte_def slots_copied_def)
next
  case True
  let ?n = "unat (hd_key_slot_count h)" and ?a = "DC_BASE_SIZE + unat (hd_slot_area_len h)" and ?s = "unat (hd_slot_info_size h)"
  have fit: "?a + ?n * ?s \<le> n" "8 \<le> ?s" using True assms(1) by (auto simp: layout_ok_def slots_copied_def)
  have room: "DC_BASE_SIZE + slot_size_of h * ?n \<le> n"
    using True slot_area_fits [of h] fit(1) by (simp add: slots_copied_def)
  have "\<exists>out. copy_slots h (slot_size_of h) inb ?n outb = Some out \<and> length out = length outb \<and>
      (\<forall>k < length outb. out ! k = (if in_copied_slot h (slot_size_of h) ?n k then inb ! k else outb ! k))"
  proof (rule copy_slots_nth)
    fix i assume "i < ?n"
    then show "?a + ?s * i + 8 \<le> length h" using info_fits [OF _ fit] assms(2) by (meson order_trans)
  qed (use room assms in linarith)+
  then show ?thesis
    using True by (auto simp: cp_copy_keylots_def clear_slot_byte_def slots_copied_def Let_def slot_size_of_def not_less)
qed

lemma clear_slot_byte_block:
  assumes "layout_ok h n" "clear_slot_byte h k" "k' div 16 = k div 16"
  shows "clear_slot_byte h k'"
proof -
  obtain i q where i: "i < unat (hd_key_slot_count h)" "slot_enabled h i" and q: "slot_size_of h = 16 * q"
    and k: "1024 + slot_size_of h * i \<le> k" "k < 1024 + slot_size_of h * i + slot_size_of h"
    using assms(1,2) by (auto simp: clear_slot_byte_def in_copied_slot_def layout_ok_def DC_BASE_SIZE_def elim!: dvdE)
  have "64 + q * i \<le> k div 16" "k div 16 < 64 + q * i + q" using k unfolding q by linarith+
  then have "64 + q * i \<le> k' div 16" "k' div 16 < 64 + q * i + q" using assms(3) by simp_all
  then have "1024 + slot_size_of h * i \<le> k'" "k' < 1024 + slot_size_of h * i + slot_size_of h" unfolding q by linarith+
  then show ?thesis using assms(2) i by (auto simp: clear_slot_byte_def in_copied_slot_def DC_BASE_SIZE_def)
qed

lemma clear_slot_byte_range: "clear_slot_byte h k \<Longrightarrow> 1024 \<le> k"
  by (auto simp: clear_slot_byte_def in_copied_slot_def DC_BASE_SIZE_def)

context xts_local
begin

lemma unpatched_bytes:
  assumes ok: "xts_len_ok inp len" "E inp len off = Some c" "length b = unat len" "length inp = unat len"
    and closed: "\<And>k k'. P k \<Longrightarrow> k' div 16 = k div 16 \<Longrightarrow> P k'" and same: "\<And>k. k < unat len \<Longrightarrow> \<not> P k \<Longrightarrow> b ! k = c ! k"
  shows "\<exists>p. D b len off = Some p \<and> length p = unat len \<and> (\<forall>k < unat len. \<not> P k \<longrightarrow> p ! k = inp ! k)"
proof -
  obtain p where p: "D b len off = Some p" "length p = unat len"
      "\<And>j. j < unat len div 16 \<Longrightarrow> slice (16 * j) 16 b = slice (16 * j) 16 c \<Longrightarrow> slice (16 * j) 16 p = slice (16 * j) 16 inp"
    using decrypt_patched [OF ok(1,2,3)] by blast
  obtain m where m: "unat len = 16 * m" using ok(1) by (auto simp: xts_len_ok_def elim!: dvdE intro: that [of "32 * _"])
  have lc: "length c = unat len" using encrypt_some [OF ok(1), of off] ok(2) by simp
  have "p ! k = inp ! k" if k: "k < unat len" "\<not> P k" for k
  proof -
    let ?j = "k div 16"
    have j: "?j < m" using k m by (simp add: div_less_iff_less_mult mult.commute)
    have "slice (16 * ?j) 16 b = slice (16 * ?j) 16 c"
    proof (rule nth_equalityI)
      fix i assume "i < length (slice (16 * ?j) 16 b)"
      then have i: "i < 16" by simp
      then have "(16 * ?j + i) div 16 = ?j" by simp
      then have "\<not> P (16 * ?j + i)" using closed k(2) by metis
      then show "slice (16 * ?j) 16 b ! i = slice (16 * ?j) 16 c ! i"
        using same [of "16 * ?j + i"] i j m lc ok(3) by (simp add: nth_slice)
    qed (simp add: lc ok(3))
    then have "slice (16 * ?j) 16 p ! (k mod 16) = slice (16 * ?j) 16 inp ! (k mod 16)" using p(3) [of ?j] j m by simp
    then show ?thesis using k p(2) ok(4) by (simp add: nth_slice)
  qed
  then show ?thesis using p by blast
qed

end

section \<open>Unsealing undoes sealing\<close>

text \<open>A version 2 header of \<open>n\<close> bytes that can be sealed: whole sectors, valid, checksum confined to the base.\<close>

definition sealable :: "bytes \<Rightarrow> nat \<Rightarrow> bool" where
  "sealable h n \<longleftrightarrow> length h = n \<and> 2048 \<le> n \<and> 512 dvd n \<and> n < 2 ^ 31 \<and> DC_HDR_VERSION_2 \<le> hd_version h \<and>
     header_valid h \<and> 0 \<le> hd_footer_cnt h \<and> layout_ok h n"

lemma sealable_len: "sealable h n \<Longrightarrow> xts_len_ok h (of_nat n) \<and> unat (of_nat n :: u64) = n \<and> length h = n"
  by (simp add: sealable_def xts_len_ok_def)

lemma seal_bytes:
  assumes loc: "xts_local (xts_encrypt S key) (xts_decrypt S key) e d" and key: "encrypt_p key \<noteq> xts_null"
    and h: "sealable h n" and ob: "length ob = n"
  shows "\<exists>c b. xts_encrypt S key h (of_nat n) 0 = Some c \<and> length c = n \<and>
    cp_encrypt_header S (Some h) (int n) (Some key) (Some ob) = Some (ST_OK, Some b) \<and> length b = n \<and>
    (\<forall>k < n. b ! k = (if k < 64 \<or> clear_slot_byte h k then h ! k else c ! k))"
proof -
  have n: "2048 \<le> n" "512 dvd n" "layout_ok h n" "DC_HDR_VERSION_2 \<le> hd_version h" using h by (simp_all add: sealable_def)
  note len = sealable_len [OF h]
  obtain c where c: "xts_encrypt S key h (of_nat n) 0 = Some c" "length c = n"
    using xts_local.encrypt_some [OF loc, of h "of_nat n" 0] len by auto
  define b1 where "b1 = overlay 0 (slice 0 64 h) c"
  have b1: "length b1 = n" "\<And>k. k < n \<Longrightarrow> b1 ! k = (if k < 64 then h ! k else c ! k)"
    using n(1) c(2) len by (auto simp: b1_def length_overlay nth_overlay nth_slice)
  obtain r b where b: "cp_copy_keylots h h b1 = Some (r, b)" "length b = n"
      "\<And>k. k < n \<Longrightarrow> b ! k = (if clear_slot_byte h k then h ! k else b1 ! k)"
    using copy_keylots_nth [OF n(3), of h b1] b1(1) len by auto
  have r: "rd 0 64 h = Some (slice 0 64 h)" "rd 0 n h = Some h" "wr 0 h ob = Some h" "wr 0 c h = Some c" "wr 0 (slice 0 64 h) c = Some b1"
    using n(1) len ob c(2) by (simp_all add: b1_def)
  have copy: "(if hd_version h \<ge> DC_HDR_VERSION_2 \<and> hd_feature_flags h AND FF_KEY_SLOTS \<noteq> 0 then cp_copy_keylots h h b1 else Some (0, b1)) =
      Some (if hd_feature_flags h AND FF_KEY_SLOTS \<noteq> 0 then r else 0, b)"
  proof (cases "hd_feature_flags h AND FF_KEY_SLOTS = 0")
    case True
    then have "b = b1" using b(1) by (simp add: cp_copy_keylots_def)
    then show ?thesis using True by simp
  qed (use b(1) n(4) in simp)
  have "int n mod 512 = 0" using n(2) by presburger
  then have "cp_encrypt_header S (Some h) (int n) (Some key) (Some ob) = Some (ST_OK, Some b)"
    using n(1) key by (simp add: cp_encrypt_header_def vol_sizes XTS_SECTOR_SIZE_def r c(1) copy del: rd_Some wr_Some)
  then show ?thesis using c b b1 by auto
qed

lemma fld_nth_cong:
  assumes "off + n \<le> length a" "off + n \<le> length b" "\<And>k. off \<le> k \<Longrightarrow> k < off + n \<Longrightarrow> a ! k = b ! k"
  shows "slice off n a = slice off n b" "(fld off n a :: 'a::len word) = fld off n b"
proof -
  show "slice off n a = slice off n b" by (rule nth_equalityI) (use assms in \<open>auto simp: nth_slice\<close>)
  then show "(fld off n a :: 'a word) = fld off n b" by (simp add: fld_def)
qed

text \<open>The fields of the base and the validity of a header depend only on the base.\<close>

lemma base_fields:
  assumes "1024 \<le> length a" "1024 \<le> length b" "\<forall>k < 1024. a ! k = b ! k"
  shows "hd_version a = hd_version b" "hd_feature_flags a = hd_feature_flags b" "hd_key_slot_count a = hd_key_slot_count b"
    "hd_slot_area_len a = hd_slot_area_len b" "hd_slot_info_size a = hd_slot_info_size b" "hd_head_len a = hd_head_len b"
    "hd_footer_cnt a = hd_footer_cnt b" "hd_sign a = hd_sign b" "hd_hdr_crc a = hd_hdr_crc b" "hd_salt a = hd_salt b"
    "\<And>off n. off + n \<le> 1024 \<Longrightarrow> slice off n a = slice off n b"
proof -
  have s: "slice off n a = slice off n b" if "off + n \<le> 1024" for off n
    using that assms by (intro fld_nth_cong) auto
  show "\<And>off n. off + n \<le> 1024 \<Longrightarrow> slice off n a = slice off n b" by (rule s)
  show "hd_version a = hd_version b" "hd_feature_flags a = hd_feature_flags b" "hd_key_slot_count a = hd_key_slot_count b"
    "hd_slot_area_len a = hd_slot_area_len b" "hd_slot_info_size a = hd_slot_info_size b" "hd_head_len a = hd_head_len b"
    "hd_footer_cnt a = hd_footer_cnt b" "hd_sign a = hd_sign b" "hd_hdr_crc a = hd_hdr_crc b" "hd_salt a = hd_salt b"
    by (simp_all add: hd_defs fld_def s vol_sizes)
qed

lemma header_valid_base:
  assumes "header_valid a" "DC_HDR_VERSION_2 \<le> hd_version a" "0 \<le> hd_footer_cnt a"
    and len: "1024 \<le> length a" "1024 \<le> length b" and same: "\<forall>k < 1024. b ! k = a ! k"
  shows "header_valid b"
proof -
  note f = base_fields [OF len(2,1) same]
  have area: "crc_area_len a = 952 - 16 * hd_footer_cnt a" "crc_area_len b = crc_area_len a"
    using assms(2) f(1,7) by (simp_all add: crc_area_len_def vol_sizes)
  have "72 + nat (crc_area_len a) \<le> 1024" using area(1) assms(3) by linarith
  then have "slice 72 (nat (crc_area_len a)) b = slice 72 (nat (crc_area_len a)) a" by (rule f(11))
  then show ?thesis
    using assms(1,3) len area by (simp add: header_valid_def f(8-10))
qed

lemma decrypt_two_calls:
  assumes loc: "xts_local (xts_encrypt S key) (xts_decrypt S key) e d" and n: "2048 < n" "512 dvd n" "n < 2 ^ 31" "length b = n"
    and p: "xts_decrypt S key b (of_nat n) 0 = Some p"
  shows "xts_decrypt S key b 2048 0 = Some (take 2048 p) \<and> xts_decrypt S key (drop 2048 b) (of_nat (n - 2048)) 2048 = Some (drop 2048 p)"
proof -
  have dec: "blockwise (xts_decrypt S key) d" using loc by (simp add: xts_local_def)
  have ok: "xts_len_ok b (of_nat n)" using n by (simp add: xts_len_ok_def)
  obtain y z where yz: "xts_decrypt S key b 2048 0 = Some y" "xts_decrypt S key (drop 2048 b) (of_nat n - 2048) 2048 = Some z" "p = y @ z"
    using blockwise_split [OF dec ok, of 4 0] n p by auto
  have "length y = 2048"
  proof -
    have "xts_len_ok b 2048" using n by (simp add: xts_len_ok_def)
    then have "y = by_blocks d 0 b 128" using dec yz(1) by (simp add: blockwise_def)
    then show ?thesis using by_blocks_uniform(1) [of d 128 b 0] dec n by (auto simp: blockwise_def)
  qed
  moreover have "of_nat (n - 2048) = (of_nat n - 2048 :: u64)" using n(1) by (simp add: of_nat_diff)
  ultimately show ?thesis using yz by simp
qed

text \<open>What decryption with the key makes of a sealed buffer before the slots are copied back.\<close>

definition almost_plain :: "bytes \<Rightarrow> bytes \<Rightarrow> bool" where
  "almost_plain h x \<longleftrightarrow> length x = length h \<and> (\<forall>k < length h. \<not> clear_slot_byte h k \<longrightarrow> x ! k = h ! k)"

lemma almost_plain_slots:
  assumes "almost_plain h x" "layout_ok h (length h)" "1024 \<le> length h"
  shows "layout_ok x (length x)" "clear_slot_byte x k \<longleftrightarrow> clear_slot_byte h k"
    "hd_feature_flags x = hd_feature_flags h" "hd_version x = hd_version h" "hd_footer_cnt x = hd_footer_cnt h"
proof -
  have len: "length x = length h" using assms(1) by (simp add: almost_plain_def)
  have base: "\<forall>k < 1024. x ! k = h ! k"
  proof (intro allI impI)
    fix k :: nat assume "k < 1024"
    then have "\<not> clear_slot_byte h k" using clear_slot_byte_range [of h k] by auto
    then show "x ! k = h ! k" using \<open>k < 1024\<close> assms(1,3) by (simp add: almost_plain_def)
  qed
  have f: "hd_version x = hd_version h" "hd_feature_flags x = hd_feature_flags h" "hd_key_slot_count x = hd_key_slot_count h"
    "hd_slot_area_len x = hd_slot_area_len h" "hd_slot_info_size x = hd_slot_info_size h" "hd_head_len x = hd_head_len h"
    "hd_footer_cnt x = hd_footer_cnt h"
    using base_fields [of x h] base assms(3) len by simp_all
  have copied: "slots_copied x = slots_copied h" "slot_size_of x = slot_size_of h" by (simp_all add: slots_copied_def slot_size_of_def f)
  show "hd_feature_flags x = hd_feature_flags h" "hd_version x = hd_version h" "hd_footer_cnt x = hd_footer_cnt h" by (rule f)+
  show "layout_ok x (length x)" using assms(2) by (simp add: layout_ok_def copied f len)
  have "slot_enabled x i = slot_enabled h i" if "slots_copied h" "i < unat (hd_key_slot_count h)" for i
  proof -
    let ?a = "DC_BASE_SIZE + unat (hd_slot_area_len h)" and ?s = "unat (hd_slot_info_size h)"
    have fit: "?a + unat (hd_key_slot_count h) * ?s \<le> length h" "8 \<le> ?s"
      using that(1) assms(2) by (auto simp: layout_ok_def slots_copied_def)
    have "?a + ?s * i + 8 \<le> length h" by (rule info_fits [OF that(2) fit])
    moreover have "x ! k = h ! k" if k: "?a \<le> k" "k < length h" for k
    proof -
      have "\<not> in_copied_slot h (slot_size_of h) (unat (hd_key_slot_count h)) k"
      proof
        assume "in_copied_slot h (slot_size_of h) (unat (hd_key_slot_count h)) k"
        then obtain j where j: "j < unat (hd_key_slot_count h)" "k < DC_BASE_SIZE + slot_size_of h * j + slot_size_of h"
          by (auto simp: in_copied_slot_def)
        then have "slot_size_of h * j + slot_size_of h \<le> slot_size_of h * unat (hd_key_slot_count h)"
          by (metis Suc_leI mult_Suc_right add.commute mult_le_mono2)
        then show False using j(2) k(1) slot_area_fits [of h] \<open>slots_copied h\<close> by (simp add: slots_copied_def)
      qed
      then show ?thesis using assms(1) k(2) by (simp add: almost_plain_def clear_slot_byte_def)
    qed
    ultimately have "(fld (?a + ?s * i + 4) 4 x :: u32) = fld (?a + ?s * i + 4) 4 h"
      using len by (intro fld_nth_cong) auto
    then show ?thesis by (simp add: slot_enabled_def f)
  qed
  then show "clear_slot_byte x k \<longleftrightarrow> clear_slot_byte h k"
    by (auto simp: clear_slot_byte_def copied f in_copied_slot_def)
qed

lemma clear_byte_block:
  assumes "layout_ok h n" "k < 64 \<or> clear_slot_byte h k" "k' div 16 = k div 16"
  shows "k' < 64 \<or> clear_slot_byte h k'"
proof (cases "k < 64")
  case True
  then have "k' div 16 < 4" using assms(3) by simp
  then show ?thesis by linarith
qed (use assms clear_slot_byte_block in blast)

lemma decrypt_sealed:
  assumes loc: "xts_local (xts_encrypt S key) (xts_decrypt S key) e d"
    and h: "sealable h n" and c: "xts_encrypt S key h (of_nat n) 0 = Some c"
    and b: "length b = n" "\<forall>k < n. b ! k = (if k < 64 \<or> clear_slot_byte h k then h ! k else c ! k)"
  obtains p where "xts_decrypt S key b 2048 0 = Some (take 2048 p)" "length p = n"
    "2048 < n \<Longrightarrow> xts_decrypt S key (drop 2048 b) (of_nat (n - 2048)) 2048 = Some (drop 2048 p)"
    "almost_plain h (overlay 0 (slice 0 64 b) p)"
proof -
  have n: "2048 \<le> n" "512 dvd n" "n < 2 ^ 31" "layout_ok h n" using h by (simp_all add: sealable_def)
  note len = sealable_len [OF h]
  obtain p where p: "xts_decrypt S key b (of_nat n) 0 = Some p" "length p = n"
      "\<And>k. k < n \<Longrightarrow> \<not> (k < 64 \<or> clear_slot_byte h k) \<Longrightarrow> p ! k = h ! k"
    using xts_local.unpatched_bytes [OF loc, of h "of_nat n" 0 c b "\<lambda>k. k < 64 \<or> clear_slot_byte h k"]
      len c b clear_byte_block [OF n(4)] by auto
  show thesis
  proof (rule that [of p])
    show "xts_decrypt S key b 2048 0 = Some (take 2048 p)" 
      using decrypt_two_calls [OF loc _ n(2,3) b(1) p(1)] p n(1) by (cases "n = 2048") simp_all
    show "xts_decrypt S key (drop 2048 b) (of_nat (n - 2048)) 2048 = Some (drop 2048 p)" if "2048 < n"
      using decrypt_two_calls [OF loc that n(2,3) b(1) p(1)] by simp
    show "almost_plain h (overlay 0 (slice 0 64 b) p)"
      using p n(1) b len by (auto simp: almost_plain_def length_overlay nth_overlay nth_slice)
  qed (rule p(2))
qed

lemma restore_slots:
  assumes "almost_plain h q" "layout_ok h (length h)" "1024 \<le> length h" "length b = length h" "\<forall>k < length h. clear_slot_byte h k \<longrightarrow> b ! k = h ! k"
  shows "\<exists>r. (if hd_feature_flags q AND FF_KEY_SLOTS \<noteq> 0 then cp_copy_keylots q b q else Some (0, q)) = Some (r, h)"
proof -
  have len: "length q = length h" using assms(1) by (simp add: almost_plain_def)
  note sl = almost_plain_slots [OF assms(1-3)]
  obtain r out where out: "cp_copy_keylots q b q = Some (r, out)" "length out = length h"
      "\<forall>k < length h. out ! k = (if clear_slot_byte h k then b ! k else q ! k)"
    using copy_keylots_nth [OF sl(1), of b q] sl(2) len assms(4) by auto
  have "out = h"
    by (rule nth_equalityI) (use out assms(1,5) in \<open>auto simp: almost_plain_def\<close>)
  moreover have "out = q \<and> r = 0" if "hd_feature_flags q AND FF_KEY_SLOTS = 0"
    using that out(1) by (simp add: cp_copy_keylots_def)
  ultimately show ?thesis using out(1) by auto
qed

lemma almost_plain_base:
  assumes "almost_plain h q" "1024 \<le> length h" "k < 1024"
  shows "q ! k = h ! k"
proof -
  have "\<not> clear_slot_byte h k" using clear_slot_byte_range [of h k] assms(3) by auto
  then show ?thesis using assms by (simp add: almost_plain_def)
qed

lemma unseal_bytes:
  assumes loc: "xts_local (xts_encrypt S key) (xts_decrypt S key) e d" and key: "decrypt_p key \<noteq> xts_null"
    and h: "sealable h n" and c: "xts_encrypt S key h (of_nat n) 0 = Some c"
    and b: "length b = n" "\<forall>k < n. b ! k = (if k < 64 \<or> clear_slot_byte h k then h ! k else c ! k)" and ob: "length ob = n"
  shows "cp_decrypt_header_with_key S (Some b) (int n) (Some key) (Some ob) = Some (1, Some h)"
proof -
  have n: "2048 \<le> n" "n < 2 ^ 31" "layout_ok h n" "DC_HDR_VERSION_2 \<le> hd_version h" "header_valid h" "0 \<le> hd_footer_cnt h" "length h = n"
    using h by (simp_all add: sealable_def)
  have "512 dvd n" using h by (simp add: sealable_def)
  then have mod: "int n mod 512 = 0" by presburger
  obtain p where p: "xts_decrypt S key b 2048 0 = Some (take 2048 p)" "length p = n"
      "2048 < n \<Longrightarrow> xts_decrypt S key (drop 2048 b) (of_nat (n - 2048)) 2048 = Some (drop 2048 p)"
    and q: "almost_plain h (overlay 0 (slice 0 64 b) p)"
    using decrypt_sealed [OF loc h c b] by metis
  define q where "q = overlay 0 (slice 0 64 b) p"
  define q1 where "q1 = take 2048 q @ drop 2048 ob"
  have q1: "overlay 0 (slice 0 64 b) (overlay 0 (take 2048 p) ob) = q1" "length q1 = n"
    using n(1) p(2) ob b(1) by (auto simp: q1_def q_def overlay_def slice_def drop_take)
  have qp: "almost_plain h q" using q by (simp add: q_def)
  then have lq: "length q = n" using n(7) by (simp add: almost_plain_def)
  have "header_valid q1"
    using n q1(2) lq almost_plain_base [OF qp] by (intro header_valid_base [OF n(5,4,6)]) (auto simp: q1_def nth_append)
  then have ok: "is_volume_header_correct (Some q1) = Some True" using is_volume_header_correct_iff [of q1] q1(2) n(2) by simp
  have whole: "overlay 2048 (drop 2048 p) q1 = q" if "2048 < n"
    using that p(2) ob b(1) take_drop_split [of 1984 64 p] by (simp add: q1_def q_def overlay_def)
  have tail: "(if int n > int DC_AREA_SIZE
      then do { y \<leftarrow> xts_decrypt S key (drop DC_AREA_SIZE b) (of_int (int n - int DC_AREA_SIZE)) (of_nat DC_AREA_SIZE); wr DC_AREA_SIZE y q1 }
      else Some q1) = Some q"
  proof (cases "2048 < n")
    case True
    have "(of_int (int n - 2048) :: u64) = of_nat (n - 2048)" using True by (simp add: of_nat_diff)
    then show ?thesis using True p(2,3) whole q1(2) by (simp add: wr_in DC_AREA_SIZE_def del: wr_Some of_nat_diff)
  next
    case False
    then show ?thesis using n(1) p(2) b(1) ob by (simp add: q1_def q_def length_overlay DC_AREA_SIZE_def)
  qed
  obtain r where slots: "(if hd_feature_flags q AND FF_KEY_SLOTS \<noteq> 0 then cp_copy_keylots q b q else Some (0, q)) = Some (r, h)"
    using restore_slots [of h q b] q n b by (auto simp: q_def)
  show ?thesis
    using n(1) key mod p(1) q1 ok tail slots b(1) ob p(2)
    by (simp add: cp_decrypt_header_with_key_def vol_sizes XTS_SECTOR_SIZE_def wr_in rd_in length_overlay
        split del: if_split del: rd_Some wr_Some of_int_diff)
qed

section \<open>Slots\<close>

text \<open>Writes behind the base change neither the layout nor the presence of slots.\<close>

lemma base_overlay:
  assumes "1024 \<le> off" "off + length xs \<le> length h"
  shows "cp_has_key_slots (Some (overlay off xs h)) = cp_has_key_slots (Some h)" "slot_size_of (overlay off xs h) = slot_size_of h"
    "slot_off (overlay off xs h) = slot_off h" "info_off (overlay off xs h) = info_off h"
    "hd_key_slot_count (overlay off xs h) = hd_key_slot_count h" "hd_slot_info_size (overlay off xs h) = hd_slot_info_size h"
proof -
  have len: "1024 \<le> length h" "length (overlay off xs h) = length h" using assms by (simp_all add: length_overlay)
  have "\<forall>k < 1024. overlay off xs h ! k = h ! k" using assms len by (simp add: nth_overlay)
  note f = base_fields [OF _ len(1) this, unfolded len(2), OF len(1)]
  show "cp_has_key_slots (Some (overlay off xs h)) = cp_has_key_slots (Some h)" "slot_size_of (overlay off xs h) = slot_size_of h"
    "slot_off (overlay off xs h) = slot_off h" "info_off (overlay off xs h) = info_off h"
    "hd_key_slot_count (overlay off xs h) = hd_key_slot_count h" "hd_slot_info_size (overlay off xs h) = hd_slot_info_size h"
    by (simp_all add: cp_has_key_slots_def slot_size_of_def slot_off_def info_off_def fun_eq_iff f)
qed

text \<open>A header whose slots and descriptors lie in the buffer.\<close>

definition slots_in_buffer :: "bytes \<Rightarrow> bool" where
  "slots_in_buffer h \<longleftrightarrow> cp_has_key_slots (Some h) \<and> SLOT_INFO_SIZE \<le> unat (hd_slot_info_size h) \<and>
     DC_BASE_SIZE + unat (hd_slot_area_len h) + unat (hd_key_slot_count h) * unat (hd_slot_info_size h) \<le> length h"

lemma slot_ranges:
  assumes "slots_in_buffer h" "i < unat (hd_key_slot_count h)"
  shows "1024 \<le> slot_off h i" "slot_off h i + slot_size_of h \<le> info_off h i" "1024 \<le> info_off h i"
    "info_off h i + unat (hd_slot_info_size h) \<le> length h" "32 \<le> unat (hd_slot_info_size h)"
    "slot_off h i + slot_size_of h \<le> length h"
proof -
  have "hd_key_slot_count h \<noteq> 0" using assms(1) by (auto simp: slots_in_buffer_def cp_has_key_slots_def split: if_splits)
  then have area: "slot_size_of h * unat (hd_key_slot_count h) \<le> unat (hd_slot_area_len h)" by (rule slot_area_fits)
  have step: "i * m + m \<le> unat (hd_key_slot_count h) * m" for m
    using assms(2) by (metis Suc_leI mult_Suc mult_le_mono1 add.commute)
  show "1024 \<le> slot_off h i" "1024 \<le> info_off h i" "32 \<le> unat (hd_slot_info_size h)"
    using assms(1) by (simp_all add: slot_off_def info_off_def slots_in_buffer_def vol_sizes)
  show so: "slot_off h i + slot_size_of h \<le> info_off h i"
    using step [of "slot_size_of h"] area by (simp add: slot_off_def info_off_def mult.commute)
  show io: "info_off h i + unat (hd_slot_info_size h) \<le> length h"
    using step [of "unat (hd_slot_info_size h)"] assms(1) by (simp add: info_off_def slots_in_buffer_def)
  show "slot_off h i + slot_size_of h \<le> length h" using so io by simp
qed

lemma info_size_minus: "32 \<le> unat (hd_slot_info_size h) \<Longrightarrow>
    unat ((ucast (hd_slot_info_size h) :: u32) - 4) = unat (hd_slot_info_size h) - 4"
proof -
  assume "32 \<le> unat (hd_slot_info_size h)"
  moreover have "unat (ucast (hd_slot_info_size h) :: u32) = unat (hd_slot_info_size h)"
    using unsigned_less [of "hd_slot_info_size h", where ?'a = nat] by (simp add: unsigned_ucast_eq take_bit_nat_eq_self)
  ultimately show ?thesis by (simp add: unat_sub word_le_nat_alt)
qed

text \<open>The stored checksum is the CRC-32 of the descriptor without its first field, followed by the slot.\<close>

lemma slot_crc_eq:
  assumes "slots_in_buffer h" "i < unat (hd_key_slot_count h)"
  shows "slot_crc h i = Some (crc32 (slice (info_off h i + 4) (unat (hd_slot_info_size h) - 4) h @ slice (slot_off h i) (slot_size_of h) h))"
proof -
  note r = slot_ranges [OF assms]
  have "slot_size_of h \<le> unat (hd_slot_area_len h)" by (simp add: slot_size_of_def)
  moreover have "unat (hd_slot_area_len h) < 2 ^ 32" using unsigned_less [of "hd_slot_area_len h", where ?'a = nat] by simp
  moreover have "length (slice (slot_off h i) (slot_size_of h) h) = slot_size_of h" using r(6) by simp
  ultimately show ?thesis
    using r crc32_combine_eq [of "slice (slot_off h i) (slot_size_of h) h" "slice (info_off h i + 4) (unat (hd_slot_info_size h) - 4) h"]
    by (simp add: slot_crc_def info_size_minus rd_in del: rd_Some)
qed

lemma slots_in_buffer_overlay:
  assumes "slots_in_buffer h" "1024 \<le> off" "off + length xs \<le> length h"
  shows "slots_in_buffer (overlay off xs h)"
proof -
  have "hd_slot_area_len (overlay off xs h) = hd_slot_area_len h"
    using assms base_fields(4) [of "overlay off xs h" h] by (simp add: length_overlay nth_overlay)
  then show ?thesis using assms base_overlay [OF assms(2,3)] by (simp add: slots_in_buffer_def length_overlay)
qed

definition rand_ok :: "'w env \<Rightarrow> bool" where
  "rand_ok H \<longleftrightarrow> (\<forall>n w. length (fst (e_rand_bytes H n w)) = n)"

text \<open>What \<^verbatim>\<open>cp_set_slot\<close> leaves in the buffer: the descriptor with its checksum, the payload, random filling.\<close>

definition slot_written :: "bytes \<Rightarrow> nat \<Rightarrow> bytes \<Rightarrow> bytes \<Rightarrow> bytes \<Rightarrow> bytes" where
  "slot_written h i d p rnd = overlay (slot_off h i + length p) rnd (overlay (slot_off h i) p (overlay (info_off h i) d h))"

lemma overlay_overlay_append:
  "off + length p + length r \<le> length b \<Longrightarrow> overlay (off + length p) r (overlay off p b) = overlay off (p @ r) b"
  by (simp add: overlay_def ac_simps)

lemma slot_written_facts:
  assumes "slots_in_buffer h" "i < unat (hd_key_slot_count h)" "length d = 32" "length p + length rnd = slot_size_of h"
  shows "slots_in_buffer (slot_written h i d p rnd)" "length (slot_written h i d p rnd) = length h"
    "slot_off (slot_written h i d p rnd) = slot_off h" "info_off (slot_written h i d p rnd) = info_off h"
    "slot_size_of (slot_written h i d p rnd) = slot_size_of h" "hd_key_slot_count (slot_written h i d p rnd) = hd_key_slot_count h"
    "hd_slot_info_size (slot_written h i d p rnd) = hd_slot_info_size h"
    "slice (info_off h i) 32 (slot_written h i d p rnd) = d" "slice (slot_off h i) (slot_size_of h) (slot_written h i d p rnd) = p @ rnd"
proof -
  note r = slot_ranges [OF assms(1,2)]
  have 1: "1024 \<le> info_off h i" "info_off h i + length d \<le> length h" using r assms(3) by simp_all
  note o1 = base_overlay [OF 1] slots_in_buffer_overlay [OF assms(1) 1]
  let ?h1 = "overlay (info_off h i) d h"
  have l1: "length ?h1 = length h" using 1 by (simp add: length_overlay)
  have 2: "1024 \<le> slot_off h i" "slot_off h i + length p \<le> length ?h1" using r assms(4) l1 by simp_all
  note o2 = base_overlay [OF 2] slots_in_buffer_overlay [OF o1(7) 2]
  let ?h2 = "overlay (slot_off h i) p ?h1"
  have l2: "length ?h2 = length h" using 2 l1 by (simp add: length_overlay)
  have 3: "1024 \<le> slot_off h i + length p" "slot_off h i + length p + length rnd \<le> length ?h2" using r assms(4) l2 by simp_all
  note o3 = base_overlay [OF 3] slots_in_buffer_overlay [OF o2(7) 3]
  show "slots_in_buffer (slot_written h i d p rnd)" "slot_off (slot_written h i d p rnd) = slot_off h"
    "info_off (slot_written h i d p rnd) = info_off h"
    "slot_size_of (slot_written h i d p rnd) = slot_size_of h" "hd_key_slot_count (slot_written h i d p rnd) = hd_key_slot_count h"
    "hd_slot_info_size (slot_written h i d p rnd) = hd_slot_info_size h"
    by (simp_all add: slot_written_def o1 o2 o3)
  show len: "length (slot_written h i d p rnd) = length h" using 3 l2 by (simp add: slot_written_def length_overlay)
  have "slice (info_off h i) 32 (slot_written h i d p rnd) = slice (info_off h i) 32 ?h1"
    using r assms(3,4) l1 l2 unfolding slot_written_def by (subst slice_overlay_other; simp)+
  then show "slice (info_off h i) 32 (slot_written h i d p rnd) = d"
    using slice_overlay_same [of "info_off h i" d h] 1 assms(3) by simp
  have "slot_written h i d p rnd = overlay (slot_off h i) (p @ rnd) ?h1"
    unfolding slot_written_def using r assms(4) l1 by (intro overlay_overlay_append) simp
  then show "slice (slot_off h i) (slot_size_of h) (slot_written h i d p rnd) = p @ rnd"
    using slice_overlay_same [of "slot_off h i" "p @ rnd" ?h1] r l1 assms(4) by simp
qed

lemma cp_set_slot_written:
  assumes "slots_in_buffer h" "0 \<le> idx" "idx < int (unat (hd_key_slot_count h))" "length d = 32" "nat len \<le> length p"
    "0 \<le> len" "len \<le> int (slot_size_of h)" "rand_ok H"
  obtains rnd w' h' where "length rnd = slot_size_of h - nat len" "h' = slot_written h (nat idx) d (take (nat len) p) rnd"
    "cp_set_slot H (Some h) idx (Given d) (Given p) len w =
       Some (ST_OK, Some (overlay (info_off h (nat idx)) (le_bytes 4 (the (slot_crc h' (nat idx)))) h'), w')"
proof -
  define i where "i = nat idx"
  define q where "q = take (nat len) p"
  have i: "i < unat (hd_key_slot_count h)" and lq: "length q = nat len" using assms by (auto simp: i_def q_def nat_less_iff)
  note r = slot_ranges [OF assms(1) i]
  define rnd where "rnd = (if nat len < slot_size_of h then fst (dc_rand H (slot_size_of h - nat len) w) else [])"
  define w' where "w' = (if nat len < slot_size_of h then snd (dc_rand H (slot_size_of h - nat len) w) else w)"
  have lr: "length rnd = slot_size_of h - nat len" using assms(8) by (simp add: rnd_def dc_rand_def rand_ok_def)
  have tot: "length q + length rnd = slot_size_of h" using lr lq assms(6,7) by simp
  define h' where "h' = slot_written h i d q rnd"
  note f = slot_written_facts [OF assms(1) i assms(4) tot, folded h'_def]
  obtain c where c: "slot_crc h' i = Some c" using slot_crc_eq [OF f(1)] i f(6) by simp
  let ?h1 = "overlay (info_off h i) d h" and ?h2 = "overlay (slot_off h i) q (overlay (info_off h i) d h)"
  have wrs: "rd 0 32 d = Some d" "wr (info_off h i) d h = Some ?h1" "rd 0 (nat len) p = Some q" "wr (slot_off h i) q ?h1 = Some ?h2"
    "wr (info_off h i) (le_bytes 4 c) h' = Some (overlay (info_off h i) (le_bytes 4 c) h')"
    using assms r lq f(2) by (simp_all add: length_overlay q_def slice_def)
  have fill: "(if nat len < slot_size_of h then case dc_rand H (slot_size_of h - nat len) w of (r, w) \<Rightarrow>
        do { h \<leftarrow> wr (slot_off h i + nat len) r ?h2; Some (h, w) } else Some (?h2, w)) = Some (h', w')"
  proof (cases "nat len < slot_size_of h")
    case True
    then have "wr (slot_off h i + nat len) rnd ?h2 = Some h'"
      using r lq lr assms(4) by (simp add: h'_def slot_written_def length_overlay)
    then show ?thesis using True by (simp add: rnd_def w'_def case_prod_beta del: wr_Some)
  next
    case False
    then show ?thesis by (simp add: h'_def slot_written_def rnd_def w'_def)
  qed
  have "min SLOT_INFO_SIZE (unat (hd_slot_info_size h)) = 32" using r(5) by (simp add: SLOT_INFO_SIZE_def)
  then have "cp_set_slot H (Some h) idx (Given d) (Given p) len w =
      Some (ST_OK, Some (overlay (info_off h i) (le_bytes 4 c) h'), w')"
    using assms(1-3,6,7) wrs fill c
    by (simp add: cp_set_slot_def slots_in_buffer_def i_def [symmetric] Let_def not_less not_le del: rd_Some wr_Some)
  then show thesis using that [of rnd h' w'] lr c by (simp add: h'_def i_def q_def)
qed

text \<open>Storing the checksum completes the slot: reading it back finds the descriptor and no corruption.\<close>

lemma slot_sealed_facts:
  assumes h: "slots_in_buffer h" "i < unat (hd_key_slot_count h)" and crc: "slot_crc h i = Some c"
  defines "g \<equiv> overlay (info_off h i) (le_bytes 4 c) h"
  shows "slots_in_buffer g" "length g = length h" "slot_off g = slot_off h" "info_off g = info_off h" "slot_size_of g = slot_size_of h"
    "hd_key_slot_count g = hd_key_slot_count h" "hd_slot_info_size g = hd_slot_info_size h"
    "slot_crc g i = Some c" "si_crc (info_off h i) g = c" "slice (slot_off h i) (slot_size_of h) g = slice (slot_off h i) (slot_size_of h) h"
    "slice (info_off h i) 32 g = le_bytes 4 c @ slice (info_off h i + 4) 28 h"
proof -
  note r = slot_ranges [OF h]
  have 1: "1024 \<le> info_off h i" "info_off h i + length (le_bytes 4 c) \<le> length h" using r by simp_all
  note o1 = base_overlay [OF 1, folded g_def]
  show g: "slots_in_buffer g" unfolding g_def by (rule slots_in_buffer_overlay [OF h(1) 1])
  show len: "length g = length h" using 1 by (simp add: g_def length_overlay)
  show f: "slot_off g = slot_off h" "info_off g = info_off h" "slot_size_of g = slot_size_of h"
    "hd_key_slot_count g = hd_key_slot_count h" "hd_slot_info_size g = hd_slot_info_size h" by (rule o1)+
  have info: "slice (info_off h i + 4) m g = slice (info_off h i + 4) m h" if "info_off h i + 4 + m \<le> length h" for m
    unfolding g_def using 1 that by (intro slice_overlay_other) simp_all
  show slot: "slice (slot_off h i) (slot_size_of h) g = slice (slot_off h i) (slot_size_of h) h"
    unfolding g_def using r by (intro slice_overlay_other) simp_all
  show "slot_crc g i = Some c"
    using slot_crc_eq [OF g, of i] slot_crc_eq [OF h] h(2) crc r info [of "unat (hd_slot_info_size h) - 4"] by (simp add: f slot)
  have four: "slice (info_off h i) 4 g = le_bytes 4 c"
    using slice_overlay_same [of "info_off h i" "le_bytes 4 c" h] 1 by (simp add: g_def)
  then show "si_crc (info_off h i) g = c" by (simp add: si_crc_def fld_def le_word_le_bytes)
  have "slice (info_off h i) 32 g = slice (info_off h i) 4 g @ slice (info_off h i + 4) 28 g"
    using take_add [of 4 28 "drop (info_off h i) g"] by (simp add: slice_def add.commute)
  then show "slice (info_off h i) 32 g = le_bytes 4 c @ slice (info_off h i + 4) 28 h"
    using four info [of 28] r by simp
qed

lemma get_slot_info_sealed:
  assumes g: "slots_in_buffer g" "0 \<le> idx" "idx < int (unat (hd_key_slot_count g))" "length info = 32"
    and crc: "slot_crc g (nat idx) = Some c" "si_crc (info_off g (nat idx)) g = c"
  shows "cp_get_slot_info (Some g) idx info = Some (ST_OK, slice (info_off g (nat idx)) 32 g)"
proof -
  have i: "nat idx < unat (hd_key_slot_count g)" using g(2,3) by (simp add: nat_less_iff)
  note r = slot_ranges [OF g(1) i]
  have "min SLOT_INFO_SIZE (unat (hd_slot_info_size g)) = 32" "\<not> unat (hd_slot_info_size g) < SLOT_INFO_SIZE"
    using r(5) by (simp_all add: SLOT_INFO_SIZE_def)
  moreover have "rd (info_off g (nat idx)) 32 g = Some (slice (info_off g (nat idx)) 32 g)" using r by simp
  moreover have "wr 0 (slice (info_off g (nat idx)) 32 g) info = Some (slice (info_off g (nat idx)) 32 g)"
    using r g(4) by (simp add: wr_def)
  ultimately show ?thesis
    using g(1-3) crc by (simp add: cp_get_slot_info_def slots_in_buffer_def Let_def not_le not_less del: rd_Some wr_Some)
qed

section \<open>Properties\<close>

text \<open>
  C15 (roundtrip): a sealed header opens to itself.  For each of the seven algorithms, sealing a valid header
  of whole sectors keeps the salt and the enabled key slots in the clear, and unsealing the result with the
  same key gives back every byte of the header, although both routines encrypt across the parts that stay in
  the clear and unsealing works in two calls with the slots put back at the end.
\<close>

theorem header_seal_roundtrip:
  assumes "aes_core_ok A" and "xts_set_key dk alg k = (1, key)" and "sealable h n" and "length ob = n" and "length ob' = n"
  shows "\<exists>b. cp_encrypt_header (scalar_selection A) (Some h) (int n) (Some key) (Some ob) = Some (ST_OK, Some b) \<and> length b = n \<and>
    (\<forall>i < n. i < 64 \<or> clear_slot_byte h i \<longrightarrow> b ! i = h ! i) \<and>
    cp_decrypt_header_with_key (scalar_selection A) (Some b) (int n) (Some key) (Some ob') = Some (1, Some h)"
proof -
  obtain e d where loc: "xts_local (xts_encrypt (scalar_selection A) key) (xts_decrypt (scalar_selection A) key) e d"
    using xts_set_key_local [OF assms(1,2)] by (auto simp: local_pair_def)
  have null: "encrypt_p key \<noteq> xts_null" "decrypt_p key \<noteq> xts_null"
    using assms(2) by (auto simp: xts_set_key_def split: if_splits)
  obtain c b where c: "xts_encrypt (scalar_selection A) key h (of_nat n) 0 = Some c"
    and b: "cp_encrypt_header (scalar_selection A) (Some h) (int n) (Some key) (Some ob) = Some (ST_OK, Some b)" "length b = n"
      "\<forall>k < n. b ! k = (if k < 64 \<or> clear_slot_byte h k then h ! k else c ! k)"
    using seal_bytes [OF loc null(1) assms(3,4)] by blast
  show ?thesis
    using b unseal_bytes [OF loc null(2) assms(3) c b(2,3) assms(5)] by auto
qed

lemma sample_header_sealable: "sealable sample_header 2048"
proof -
  have "hd_feature_flags sample_header = 0"
    unfolding sample_header_def hd_feature_flags_def
    by (simp add: Let_def set_fld_def fld_overlay_other length_overlay, simp add: fld_def slice_def) (simp add: eval_nat_numeral)
  then have "\<not> slots_copied sample_header" by (simp add: slots_copied_def)
  then show ?thesis
    by (simp add: sealable_def layout_ok_def sample_header_fields header_valid_def crc_area_len_def vol_sizes)
qed

theorem header_seal_roundtrip_witness:
  "\<exists>b. cp_encrypt_header (scalar_selection fips197_core) (Some sample_header) (int 2048)
      (Some (snd (xts_set_key (replicate 192 5) CF_SERPENT_AES undefined))) (Some (replicate 2048 0)) = Some (ST_OK, Some b) \<and> length b = 2048 \<and>
    (\<forall>i < 2048. i < 64 \<or> clear_slot_byte sample_header i \<longrightarrow> b ! i = sample_header ! i) \<and>
    cp_decrypt_header_with_key (scalar_selection fips197_core) (Some b) (int 2048)
      (Some (snd (xts_set_key (replicate 192 5) CF_SERPENT_AES undefined))) (Some (replicate 2048 0)) = Some (1, Some sample_header)"
proof (rule header_seal_roundtrip [OF fips197_core_ok _ sample_header_sealable])
  show "xts_set_key (replicate 192 5) CF_SERPENT_AES undefined = (1, snd (xts_set_key (replicate 192 5) CF_SERPENT_AES undefined))"
    by (simp add: xts_set_key_def cf_defs)
qed simp_all

text \<open>
  C21 (roundtrip): a key slot that was written reads back.  Writing a descriptor and a payload into a slot
  succeeds and fills the rest of the slot with random bytes; afterwards the payload and the descriptor (but for
  its checksum) are read as they were given and the slot is not reported corrupt; no byte outside the slot and
  its descriptor changes.
\<close>

theorem slot_write_read:
  assumes "slots_in_buffer h" and "0 \<le> idx" and "idx < int (unat (hd_key_slot_count h))" and "length d = 32" and "len = int (length p)"
    and "length p \<le> slot_size_of h" and "rand_ok H" and "length info = 32" and "length p \<le> length buf"
  shows "\<exists>g w'. cp_set_slot H (Some h) idx (Given d) (Given p) len w = Some (ST_OK, Some g, w') \<and> length g = length h \<and>
    cp_get_slot_payload (Some g) idx (Some buf) len = Some (ST_OK, Some (overlay 0 p buf)) \<and>
    (\<exists>info'. cp_get_slot_info (Some g) idx info = Some (ST_OK, info') \<and> drop 4 info' = drop 4 d) \<and>
    (\<forall>k < length h. (k < slot_off h (nat idx) \<or> slot_off h (nat idx) + slot_size_of h \<le> k) \<and>
        (k < info_off h (nat idx) \<or> info_off h (nat idx) + 32 \<le> k) \<longrightarrow> g ! k = h ! k)"
proof -
  obtain rnd w' h' where rnd: "length rnd = slot_size_of h - length p" and h': "h' = slot_written h (nat idx) d p rnd"
    and set: "cp_set_slot H (Some h) idx (Given d) (Given p) len w =
       Some (ST_OK, Some (overlay (info_off h (nat idx)) (le_bytes 4 (the (slot_crc h' (nat idx)))) h'), w')"
    by (rule cp_set_slot_written [where len = len and p = p and H = H and w = w, OF assms(1-4)]) (use assms(5-7) in auto)
  define i where "i = nat idx"
  have i: "i < unat (hd_key_slot_count h)" using assms(2,3) by (simp add: i_def nat_less_iff)
  have tot: "length p + length rnd = slot_size_of h" using rnd assms(6) by simp
  note f = slot_written_facts [OF assms(1) i assms(4) tot, folded h' [folded i_def]]
  note r = slot_ranges [OF assms(1) i]
  obtain c where c: "slot_crc h' i = Some c" using slot_crc_eq [OF f(1)] i f(6) by simp
  define g where "g = overlay (info_off h' i) (le_bytes 4 c) h'"
  note s = slot_sealed_facts [OF f(1) _ c, folded g_def, unfolded f(6), OF i, unfolded f]
  have rdp: "rd (slot_off h i) (length p) g = Some p"
  proof -
    have "slice (slot_off h i) (length p) g = take (length p) (slice (slot_off h i) (slot_size_of h) g)"
      using assms(6) by (simp add: slice_def min_def)
    then have "slice (slot_off h i) (length p) g = p" by (simp add: s(10))
    then show ?thesis using r(6) s(2) assms(6) by simp
  qed
  have pay: "cp_get_slot_payload (Some g) idx (Some buf) len = Some (ST_OK, Some (overlay 0 p buf))"
    using s(1) assms(2,3,5,6,9) rdp
    by (simp add: cp_get_slot_payload_def slots_in_buffer_def s i_def [symmetric] Let_def not_le not_less min_def wr_in del: rd_Some wr_Some)
  have "cp_get_slot_info (Some g) idx info = Some (ST_OK, slice (info_off h i) 32 g)"
    using get_slot_info_sealed [OF s(1) assms(2) _ assms(8), of c] assms(3) s by (simp add: i_def)
  moreover have "drop 4 (slice (info_off h i) 32 g) = drop 4 d"
  proof -
    have "drop 4 (slice (info_off h i) 32 g) = slice (info_off h i + 4) 28 h'" by (simp only: s(11)) simp
    also have "\<dots> = drop 4 (slice (info_off h i) 32 h')" by (simp add: slice_def drop_take add.commute)
    finally show ?thesis by (simp only: f(8))
  qed
  moreover have "g ! k = h ! k" if "k < length h" "k < slot_off h i \<or> slot_off h i + slot_size_of h \<le> k" "k < info_off h i \<or> info_off h i + 32 \<le> k" for k
  proof -
    have "g = overlay (info_off h i) (le_bytes 4 c) (slot_written h i d p rnd)" by (simp only: g_def f(4)) (simp only: h' i_def)
    then show ?thesis using that r assms(4) tot by (auto simp: slot_written_def nth_overlay length_overlay)
  qed
  ultimately show ?thesis
    using set pay s(2) c by (auto simp: g_def f(4) i_def)
qed

definition slot_header :: bytes where
  "slot_header = set_fld 72 2 (3 :: u16) (set_fld 628 4 (1 :: u32) (set_fld 635 2 (384 :: u16)
     (set_fld 637 1 (2 :: u8) (set_fld 638 2 (32 :: u16) (replicate 2048 0)))))"

lemma slot_header_fields:
  "length slot_header = 2048" "hd_version slot_header = 3" "hd_feature_flags slot_header = 1" "hd_slot_area_len slot_header = 384"
  "hd_key_slot_count slot_header = 2" "hd_slot_info_size slot_header = 32"
proof -
  show "length slot_header = 2048" by (simp add: slot_header_def)
  have other: "fld o' m (set_fld off n v h) = fld o' m h" if "off + n \<le> length h" "o' + m \<le> length h" "o' + m \<le> off \<or> off + n \<le> o'"
    for o' m off n h and v :: "'b::len word" using that by (simp add: set_fld_def fld_overlay_other)
  show "hd_version slot_header = 3" "hd_feature_flags slot_header = 1" "hd_slot_area_len slot_header = 384"
    "hd_key_slot_count slot_header = 2" "hd_slot_info_size slot_header = 32"
    by (simp_all add: slot_header_def hd_version_def hd_feature_flags_def hd_slot_area_len_def hd_key_slot_count_def
        hd_slot_info_size_def fld_set_same other)
qed

lemma slot_header_in_buffer: "slots_in_buffer slot_header" "slot_size_of slot_header = 192"
  by (simp_all add: slots_in_buffer_def cp_has_key_slots_def slot_header_fields slot_size_of_def vol_sizes
      DC_HDR_VERSION_2_def FF_KEY_SLOTS_def)

lemma plain_env_rand: "rand_ok plain_env"
  by (simp add: rand_ok_def plain_env_def)

theorem slot_write_read_witness:
  "\<exists>g w'. cp_set_slot plain_env (Some slot_header) 1 (Given (replicate 32 1)) (Given (replicate 100 7)) 100 0 = Some (ST_OK, Some g, w') \<and>
    length g = length slot_header \<and>
    cp_get_slot_payload (Some g) 1 (Some (replicate 100 0)) 100 = Some (ST_OK, Some (overlay 0 (replicate 100 7) (replicate 100 0))) \<and>
    (\<exists>info'. cp_get_slot_info (Some g) 1 (replicate 32 0) = Some (ST_OK, info') \<and> drop 4 info' = drop 4 (replicate 32 1)) \<and>
    (\<forall>k < length slot_header. (k < slot_off slot_header (nat 1) \<or> slot_off slot_header (nat 1) + slot_size_of slot_header \<le> k) \<and>
        (k < info_off slot_header (nat 1) \<or> info_off slot_header (nat 1) + 32 \<le> k) \<longrightarrow> g ! k = slot_header ! k)"
  by (rule slot_write_read) (simp_all add: slot_header_in_buffer slot_header_fields plain_env_rand)

text \<open>
  C38 (bounds): the extended header.  In a buffer that holds the header, and unless offset plus size exceeds 32
  bits, the lookup succeeds exactly for a header of version 2 whose extended header starts behind the base
  header, behind the key slots and their descriptors when there are key slots, ends within the header length,
  has at least the minimal size and a right checksum; the result is then its offset.  The only way for the
  lookup to read outside the buffer is a size for which offset plus size exceeds 32 bits, as the check of the
  size adds them with wrap-around; also then an extended header that is found starts behind the slots.
\<close>

theorem ext_header_bounds:
  assumes "unat (hd_head_len h) \<le> length h"
  defines "off \<equiv> unat (hd_ext_hdr_off h)" and "sz \<equiv> unat (fld (unat (hd_ext_hdr_off h) + 4) 4 h :: u32)"
    and "slots_end \<equiv> DC_BASE_SIZE + (if hd_feature_flags h AND FF_KEY_SLOTS = 0 then 0
                 else unat (hd_slot_area_len h) + unat (hd_key_slot_count h) * unat (hd_slot_info_size h))"
  shows "(off + sz < 2 ^ 32 \<longrightarrow>
      (get_ext_header h = Some (ST_OK, r) \<longleftrightarrow>
        DC_HDR_VERSION_2 \<le> hd_version h \<and> slots_end \<le> off \<and> 10 \<le> sz \<and> off + sz \<le> unat (hd_head_len h) \<and>
        (fld off 4 h :: u32) = crc32 (slice (off + 4) (sz - 4) h) \<and> r = Some off)) \<and>
    (get_ext_header h = Some (ST_OK, r) \<longrightarrow> slots_end \<le> off \<and> r = Some off) \<and>
    (get_ext_header h = None \<longrightarrow> 2 ^ 32 \<le> off + sz)"
proof -
  let ?o = "ucast (hd_ext_hdr_off h) :: u32" and ?s = "fld (off + 4) 4 h :: u32"
  have o16: "off < 65536" using unsigned_less [of "hd_ext_hdr_off h", where ?'a = nat] by (simp add: off_def)
  then have uo: "unat ?o = off" unfolding off_def by (simp add: unsigned_ucast_eq take_bit_nat_eq_self)
  then have min: "unat (?o + of_nat MIN_EXT_HDR_SIZE) = off + 10"
    using o16 by (simp add: unat_word_ariths(1) MIN_EXT_HDR_SIZE_def)
  have sum: "unat (?o + ?s) = off + sz" if "off + sz < 2 ^ 32"
    using that uo by (simp add: unat_word_ariths(1) sz_def off_def)
  have m4: "unat (?s - 4) = sz - 4" if "10 \<le> sz" using that by (simp add: unat_sub word_le_nat_alt sz_def off_def)
  have ten: "?s < of_nat MIN_EXT_HDR_SIZE \<longleftrightarrow> sz < 10" by (simp add: word_less_nat_alt sz_def off_def MIN_EXT_HDR_SIZE_def)
  have slots: "off < DC_BASE_SIZE + (if hd_feature_flags h AND FF_KEY_SLOTS \<noteq> 0
      then unat (hd_slot_area_len h) + unat (hd_key_slot_count h) * unat (hd_slot_info_size h) else 0) \<longleftrightarrow> off < slots_end"
    by (simp add: slots_end_def)
  have pos: "off \<noteq> 0" if "slots_end \<le> off" using that by (simp add: slots_end_def DC_BASE_SIZE_def)
  have found: "get_ext_header h = Some (ST_OK, r) \<longrightarrow> slots_end \<le> off \<and> r = Some off"
    unfolding get_ext_header_def Let_def off_def [symmetric] slots
    by (auto simp: st_defs not_less split: if_splits bind_splits)
  show ?thesis
  proof (cases "off + sz < 2 ^ 32")
    case True
    have le: "?o + of_nat MIN_EXT_HDR_SIZE > hd_head_len h \<longleftrightarrow> unat (hd_head_len h) < off + 10"
      "?o + ?s > hd_head_len h \<longleftrightarrow> unat (hd_head_len h) < off + sz"
      by (simp_all add: word_less_nat_alt min sum [OF True])
    have rd4: "rd (off + 4) 4 h = Some (slice (off + 4) 4 h)" if "\<not> unat (hd_head_len h) < off + 10"
      using that assms(1) by simp
    have rdn: "rd (off + 4) (unat (?s - 4)) h = Some (slice (off + 4) (sz - 4) h)" if "\<not> (unat (hd_head_len h) < off + sz \<or> sz < 10)"
      using that m4 assms(1) by simp
    have "(get_ext_header h = Some (ST_OK, r) \<longleftrightarrow> DC_HDR_VERSION_2 \<le> hd_version h \<and> slots_end \<le> off \<and> 10 \<le> sz \<and>
        off + sz \<le> unat (hd_head_len h) \<and> (fld off 4 h :: u32) = crc32 (slice (off + 4) (sz - 4) h) \<and> r = Some off) \<and>
      get_ext_header h \<noteq> None"
      unfolding get_ext_header_def Let_def off_def [symmetric] le ten slots fld_def [of "off + 4" 4 h, symmetric]
      using rd4 rdn pos by (auto simp: fld_def [of "off + 4", symmetric] le ten st_defs not_less split: if_splits simp del: rd_Some)
    then show ?thesis using found by blast
  qed (use found in simp)
qed

text \<open>A header with two key slots and an extended header of 16 bytes behind them.\<close>

definition ext_sample :: bytes where
  "ext_sample = (let h = set_fld 614 4 (2048 :: u32) (set_fld 632 2 (1984 :: u16) (set_fld 1988 4 (16 :: u32) slot_header))
     in set_fld 1984 4 (crc32 (slice 1988 12 h)) h)"

lemma ext_sample_fields:
  "length ext_sample = 2048" "hd_version ext_sample = 3" "hd_head_len ext_sample = 2048" "hd_ext_hdr_off ext_sample = 1984"
  "hd_feature_flags ext_sample = 1" "hd_slot_area_len ext_sample = 384" "hd_key_slot_count ext_sample = 2" "hd_slot_info_size ext_sample = 32"
  "(fld 1988 4 ext_sample :: u32) = 16" "(fld 1984 4 ext_sample :: u32) = crc32 (slice 1988 12 ext_sample)"
proof -
  let ?h = "set_fld 614 4 (2048 :: u32) (set_fld 632 2 (1984 :: u16) (set_fld 1988 4 (16 :: u32) slot_header))"
  have s: "ext_sample = set_fld 1984 4 (crc32 (slice 1988 12 ?h)) ?h" by (simp add: ext_sample_def Let_def)
  have len: "length slot_header = 2048" by (simp add: slot_header_def)
  have other: "fld o' m (set_fld off n v h) = fld o' m h" if "off + n \<le> length h" "o' + m \<le> length h" "o' + m \<le> off \<or> off + n \<le> o'"
    for o' m off n h and v :: "'b::len word" using that by (simp add: set_fld_def fld_overlay_other)
  show "length ext_sample = 2048" by (simp add: s len)
  show "hd_version ext_sample = 3" "hd_head_len ext_sample = 2048" "hd_ext_hdr_off ext_sample = 1984"
    "hd_feature_flags ext_sample = 1" "hd_slot_area_len ext_sample = 384" "hd_key_slot_count ext_sample = 2"
    "hd_slot_info_size ext_sample = 32" "(fld 1988 4 ext_sample :: u32) = 16"
    unfolding s hd_defs by (simp_all add: other fld_set_same len slot_header_def)
  have "slice 1988 12 ext_sample = slice 1988 12 ?h"
    unfolding s by (subst set_fld_def, subst slice_overlay_other) (simp_all add: len)
  then show "(fld 1984 4 ext_sample :: u32) = crc32 (slice 1988 12 ext_sample)" unfolding s by (simp add: fld_set_same len)
qed

theorem ext_header_bounds_witness: "get_ext_header ext_sample = Some (ST_OK, Some 1984) \<and> DC_BASE_SIZE + (384 + 2 * 32) \<le> 1984"
  using ext_header_bounds [of ext_sample "Some 1984"]
  by (simp add: ext_sample_fields DC_BASE_SIZE_def FF_KEY_SLOTS_def DC_HDR_VERSION_2_def)

text \<open>
  The check of the size adds offset and size in 32 bits: a size that makes the sum wrap passes it, and the
  checksum is then read far behind the buffer.
\<close>

theorem ext_header_size_wraps:
  assumes "DC_HDR_VERSION_2 \<le> hd_version h" "hd_feature_flags h AND FF_KEY_SLOTS = 0" "DC_BASE_SIZE \<le> unat (hd_ext_hdr_off h)"
    and "unat (hd_ext_hdr_off h) + 10 \<le> unat (hd_head_len h)" "unat (hd_head_len h) \<le> length h" "length h < 2 ^ 31"
    and "(fld (unat (hd_ext_hdr_off h) + 4) 4 h :: u32) = - 1024"
  shows "get_ext_header h = None"
proof -
  let ?off = "unat (hd_ext_hdr_off h)" and ?o = "ucast (hd_ext_hdr_off h) :: u32"
  have o16: "?off < 65536" using unsigned_less [of "hd_ext_hdr_off h", where ?'a = nat] by simp
  then have uo: "unat ?o = ?off" by (simp add: unsigned_ucast_eq take_bit_nat_eq_self)
  then have min: "\<not> hd_head_len h < ?o + of_nat MIN_EXT_HDR_SIZE"
    using o16 assms(4) by (simp add: unat_word_ariths(1) MIN_EXT_HDR_SIZE_def word_less_nat_alt)
  have "unat (?o - 1024) = ?off - 1024" using uo assms(3) by (simp add: unat_sub word_le_nat_alt DC_BASE_SIZE_def)
  then have sum: "\<not> hd_head_len h < ?o + - 1024" using assms(4) by (simp add: word_less_nat_alt)
  have "rd (?off + 4) 4 h = Some (slice (?off + 4) 4 h)" using assms(4,5) by simp
  moreover have "rd (?off + 4) (unat (- 1024 - 4 :: u32)) h = None" using assms(6) by (simp add: rd_def)
  ultimately show ?thesis
    using assms(1-3,7) min sum by (simp add: get_ext_header_def Let_def fld_def DC_BASE_SIZE_def MIN_EXT_HDR_SIZE_def del: rd_Some)
qed

text \<open>
  \<^verbatim>\<open>CP_SLOT_RANDOM\<close> fills only the part of the slot behind \<open>len\<close>: with the full slot size nothing is overwritten and
  the old wrapped key stays.
\<close>

theorem random_slot_keeps_payload:
  assumes "slots_in_buffer h" "0 \<le> idx" "idx < int (unat (hd_key_slot_count h))"
  shows "\<exists>g. cp_set_slot H (Some h) idx Keep Special (int (slot_size_of h)) w = Some (ST_OK, Some g, w) \<and>
    slice (slot_off h (nat idx)) (slot_size_of h) g = slice (slot_off h (nat idx)) (slot_size_of h) h"
proof -
  have i: "nat idx < unat (hd_key_slot_count h)" using assms(2,3) by (simp add: nat_less_iff)
  note r = slot_ranges [OF assms(1) i]
  obtain c where c: "slot_crc h (nat idx) = Some c" using slot_crc_eq [OF assms(1) i] by simp
  have "wr (info_off h (nat idx)) (le_bytes 4 c) h = Some (overlay (info_off h (nat idx)) (le_bytes 4 c) h)" using r by simp
  then have "cp_set_slot H (Some h) idx Keep Special (int (slot_size_of h)) w =
      Some (ST_OK, Some (overlay (info_off h (nat idx)) (le_bytes 4 c) h), w)"
    using assms c by (simp add: cp_set_slot_def slots_in_buffer_def Let_def not_le not_less del: wr_Some)
  then show ?thesis using slot_sealed_facts(10) [OF assms(1) i c] by blast
qed

end
