(* ===== verification/HeaderIO.thy ===== *)
theory HeaderIO
  imports HeadUtil
begin

text \<open>
  Reading and writing a header on a device (\<^verbatim>\<open>io_read_header\<close>, \<^verbatim>\<open>io_read_header_full\<close>, \<^verbatim>\<open>io_write_header\<close> of
  \<^verbatim>\<open>DCrypt/volume_lib/header_io.c\<close>).  Positions are 64-bit words, lengths 32-bit words as in the source; a
  division by a sector size of zero is \<^const>\<open>None\<close> like an access out of bounds.  The read length
  is a natural number; where the source compares a header length as \<^verbatim>\<open>int\<close>, so does the model.
\<close>

unbundle bit_operations_syntax

section \<open>The code\<close>

definition PAGE_SIZE :: nat where "PAGE_SIZE = 0x1000"

definition HF_UPDATE_BASE :: u32 where "HF_UPDATE_BASE = 1"
definition HF_UPDATE_SLOTS :: u32 where "HF_UPDATE_SLOTS = 2"
definition HF_UPDATE_EXT :: u32 where "HF_UPDATE_EXT = 4"
definition HF_CLEAR_SLOTS :: u32 where "HF_CLEAR_SLOTS = 0x10"
definition HF_HEADER_FILL :: u32 where "HF_HEADER_FILL = 0x20"
definition HF_UPDATE_ALL :: u32 where "HF_UPDATE_ALL = HF_UPDATE_BASE OR HF_UPDATE_SLOTS OR HF_UPDATE_EXT"

lemmas hf_defs = HF_UPDATE_BASE_def HF_UPDATE_SLOTS_def HF_UPDATE_EXT_def HF_CLEAR_SLOTS_def HF_HEADER_FILL_def HF_UPDATE_ALL_def

definition ROUND_TO_FULL_SECTORS :: "u32 \<Rightarrow> u32 \<Rightarrow> u32 option" where
  "ROUND_TO_FULL_SECTORS len bps = (if bps = 0 then None else Some ((len + bps - 1) div bps * bps))"

text \<open>
  The second half of a read: \<open>header\<close> is the buffer whose first area is already decrypted, \<open>hdr_len\<close> what was
  read so far.  The result is the buffer that replaces it, or none when it was released.
\<close>

definition read_rest ::
  "'w env \<Rightarrow> 'w dc_rw_fn \<Rightarrow> dc_dev \<Rightarrow> u64 \<Rightarrow> bytes \<Rightarrow> bytes \<Rightarrow> nat \<Rightarrow> 'w \<Rightarrow> (status \<times> bytes option \<times> bytes option \<times> bytes option \<times> nat \<times> 'w) option" where
  "read_rest H rw dev pos header buff hdr_len w =
     (let head_len = unat (hd_head_len header); buff2 = buff
      in do {
        buff_len \<leftarrow> ROUND_TO_FULL_SECTORS (of_nat (max head_len PAGE_SIZE)) (d_bps dev);
        case dc_alloc H (unat buff_len) w of
          (None, w) \<Rightarrow> Some (ST_NOMEM, Some header, None, Some buff2, hdr_len, w)
        | (Some buff, w) \<Rightarrow> do {
            x \<leftarrow> rd 0 hdr_len buff2;
            buff \<leftarrow> wr 0 x buff;
            x \<leftarrow> rd 0 hdr_len header;
            buff2 \<leftarrow> wr 0 x buff2;
            let w = dc_free H (Some header) w;
            buff_len \<leftarrow> ROUND_TO_FULL_SECTORS (hd_head_len buff2) (d_bps dev);
            case dc_alloc H (unat buff_len) w of
              (None, w) \<Rightarrow> Some (ST_NOMEM, None, Some buff, Some buff2, hdr_len, w)
            | (Some header, w) \<Rightarrow> do {
                x \<leftarrow> rd 0 hdr_len buff2;
                header \<leftarrow> wr 0 x header;
                let w = dc_free H (Some buff2) w;
                (resl, y, w) \<leftarrow> rw (drop hdr_len buff) (of_nat (unat (hd_head_len header) - hdr_len)) (pos + of_nat hdr_len) True w;
                buff \<leftarrow> wr hdr_len y buff;
                if resl \<noteq> ST_OK then Some (resl, Some header, Some buff, None, hdr_len, w)
                else Some (ST_OK, Some header, Some buff, None, unat (hd_head_len header), w) } } })"

definition finish_read :: "xts_selected \<Rightarrow> xts_key \<Rightarrow> bytes \<Rightarrow> bytes \<Rightarrow> nat \<Rightarrow> bytes option" where
  "finish_read S hdr_key header buff hdr_len =
     do { header \<leftarrow> (if hdr_len > DC_AREA_SIZE
                     then do { y \<leftarrow> xts_decrypt S hdr_key (drop DC_AREA_SIZE buff) (of_nat (hdr_len - DC_AREA_SIZE)) (of_nat DC_AREA_SIZE);
                               wr DC_AREA_SIZE y header }
                     else Some header);
          if hd_feature_flags header AND FF_KEY_SLOTS \<noteq> 0
          then do { (r, header) \<leftarrow> cp_copy_keylots header buff header; Some header }
          else Some header }"

definition io_read_header_full ::
  "xts_selected \<Rightarrow> 'w env \<Rightarrow> 'w dc_rw_fn \<Rightarrow> dc_dev \<Rightarrow> u64 \<Rightarrow> bytes \<Rightarrow> xts_key \<Rightarrow> nat \<Rightarrow> 'w \<Rightarrow> (status \<times> bytes option \<times> 'w) option" where
  "io_read_header_full S H rw dev pos header hdr_key hdr_len w =
     do { buff_len \<leftarrow> ROUND_TO_FULL_SECTORS (of_nat (max hdr_len PAGE_SIZE)) (d_bps dev);
          if hd_version header < DC_HDR_VERSION_2 then Some (ST_OK, Some header, w)
          else case dc_alloc H (unat buff_len) w of
            (None, w) \<Rightarrow> Some (ST_NOMEM, None, dc_free H (Some header) w)
          | (Some buff, w) \<Rightarrow> do {
              (resl, buff, w) \<leftarrow> rw buff (of_nat hdr_len) pos True w;
              if resl \<noteq> ST_OK then Some (resl, None, dc_free H (Some buff) (dc_free H (Some header) w))
              else do {
                (resl, header, bf, buff2, hdr_len, w) \<leftarrow>
                  (if int hdr_len < sint (hd_head_len header) then read_rest H rw dev pos header buff hdr_len w
                   else Some (ST_OK, Some header, Some buff, None, hdr_len, w));
                if resl \<noteq> ST_OK
                then Some (resl, None, dc_free H buff2 (dc_free H bf (dc_free H header w)))
                else do { h \<leftarrow> finish_read S hdr_key (the header) (the bf) hdr_len;
                          Some (ST_OK, Some h, dc_free H buff2 (dc_free H bf w)) } } } }"

text \<open>\<open>want_key\<close> says whether the caller passed \<^verbatim>\<open>out_key\<close>, \<open>kdf\<close> is what \<^verbatim>\<open>out_kdf\<close> points to.\<close>

definition io_read_header ::
  "xts_selected \<Rightarrow> 'w env \<Rightarrow> 'w dc_rw_fn \<Rightarrow> 'w intr \<Rightarrow> dc_dev \<Rightarrow> u64 \<Rightarrow> bool \<Rightarrow> dc_pass \<Rightarrow> int option \<Rightarrow> 'w \<Rightarrow>
   (status \<times> bytes option \<times> xts_key option \<times> int option \<times> 'w) option" where
  "io_read_header S H rw intr dev pos want_key password kdf w =
     do { len \<leftarrow> ROUND_TO_FULL_SECTORS (of_int (max (sint (d_head_len dev)) (cp_get_min_header_len password))) (d_bps dev);
          let hdr_len = unat len;
          case dc_alloc H hdr_len w of
            (None, w) \<Rightarrow> Some (ST_NOMEM, None, None, kdf, w)
          | (Some header, w) \<Rightarrow> do {
              (resl, header, w) \<leftarrow> rw header len pos True w;
              let (resl, hdr_key, w) =
                (if resl = ST_OK then case dc_alloc H (e_sizeof_xts_key H) w of
                     (None, w) \<Rightarrow> (ST_NOMEM, None, w) | (Some b, w) \<Rightarrow> (ST_OK, Some (e_key_block H), w)
                 else (resl, None, w));
              (resl, header, hdr_key, kdf, w) \<leftarrow>
                (if resl = ST_OK then do {
                   (r, o2, w) \<leftarrow> cp_decrypt_header S H intr
                      \<lparr>out_key = the hdr_key, out_header = header, out_dk = None, out_slot = None, out_kdf = kdf\<rparr> (int hdr_len) password w;
                   Some ((if r = 0 then ST_PASS_ERR else ST_OK), out_header o2, Some (out_key o2), out_kdf o2, w) }
                 else Some (resl, header, hdr_key, kdf, w));
              (resl, hd, w) \<leftarrow>
                (if resl = ST_OK then io_read_header_full S H rw dev pos header (the hdr_key) hdr_len w else Some (resl, Some header, w));
              if resl \<noteq> ST_OK then Some (resl, None, None, kdf, dc_free H hdr_key (dc_free H hd w))
              else if want_key then Some (ST_OK, hd, hdr_key, kdf, w)
              else Some (ST_OK, hd, None, kdf, dc_free H hdr_key w) } }"

text \<open>
  What a write covers: length of the header, bytes of it to seal, offset and length of the write.  The first two
  are natural numbers, where the source has an \<^verbatim>\<open>int\<close> for the bytes to seal; the theorems are about headers of
  less than \<open>2 ^ 31\<close> bytes, for which the two agree.
\<close>

record write_range =
  wr_hdr_len :: nat
  wr_mem_len :: nat
  wr_offset :: u64
  wr_length :: u32

text \<open>The choice of the range for an update of a version 2 header; \<open>Inl\<close> is an early return.\<close>

definition update_range :: "dc_dev \<Rightarrow> bytes \<Rightarrow> xts_key option \<Rightarrow> u32 \<Rightarrow> nat \<Rightarrow> (status + (write_range \<times> u32)) option" where
  "update_range dev h hdr_key flags hdr_len =
     (let slots = hd_feature_flags h AND FF_KEY_SLOTS \<noteq> 0;
          slots_end = of_nat (DC_BASE_SIZE + unat (hd_slot_area_len h) + unat (hd_key_slot_count h) * unat (hd_slot_info_size h)) :: u32;
          len = (if slots then slots_end else of_nat DC_BASE_SIZE);
          ext = (ucast (hd_ext_hdr_off h) :: u32)
      in if hdr_key = None then Some (Inl ST_ERROR)
         else if flags AND HF_UPDATE_EXT \<noteq> 0 \<and> ext \<noteq> 0 \<and> (ext + of_nat MIN_EXT_HDR_SIZE \<ge> hd_head_len h \<or> ext < len)
         then Some (Inl ST_INV_VOLUME)
         else let flags = (if flags AND HF_UPDATE_EXT \<noteq> 0 \<and> ext = 0 then flags AND NOT HF_UPDATE_EXT else flags)
              in if flags AND HF_UPDATE_SLOTS \<noteq> 0 \<and> slots \<and> hd_head_len h \<le> len then Some (Inl ST_INV_VOLUME)
                 else let flags = (if flags AND HF_UPDATE_SLOTS \<noteq> 0 \<and> \<not> slots then flags AND NOT HF_UPDATE_SLOTS else flags)
                      in if flags AND HF_UPDATE_ALL = 0 then Some (Inl ST_OK)
                         else if d_bps dev = 0 then None
                         else let offset = (if flags AND HF_UPDATE_BASE \<noteq> 0 then 0
                                            else if flags AND HF_UPDATE_SLOTS \<noteq> 0 then of_nat DC_BASE_SIZE
                                            else (ucast ext :: u64));
                                  offset = (offset div ucast (d_bps dev)) * ucast (d_bps dev);
                                  len = (if flags AND HF_UPDATE_EXT \<noteq> 0 then hd_head_len h
                                         else if flags AND HF_UPDATE_SLOTS \<noteq> 0 then slots_end
                                         else of_nat DC_BASE_SIZE);
                                  len = (ucast (((ucast len - offset + ucast (d_bps dev) - 1) div ucast (d_bps dev)) * ucast (d_bps dev) :: u64) :: u32)
                              in if offset + ucast len > ucast (hd_head_len h) then Some (Inl ST_INV_VOLUME)
                                 else Some (Inr (\<lparr>wr_hdr_len = hdr_len, wr_mem_len = unat (hd_head_len h), wr_offset = offset, wr_length = len\<rparr>, flags)))"

definition plan_write :: "dc_dev \<Rightarrow> bytes \<Rightarrow> xts_key option \<Rightarrow> u32 \<Rightarrow> (status + (write_range \<times> u32)) option" where
  "plan_write dev h hdr_key flags =
     do { area \<leftarrow> ROUND_TO_FULL_SECTORS (of_nat DC_AREA_SIZE) (d_bps dev);
          if hd_version h \<ge> DC_HDR_VERSION_2 then do {
            len \<leftarrow> ROUND_TO_FULL_SECTORS (hd_head_len h) (d_bps dev);
            if flags AND HF_UPDATE_ALL \<noteq> 0 \<and> flags AND HF_UPDATE_ALL \<noteq> HF_UPDATE_ALL
            then update_range dev h hdr_key flags (unat len)
            else Some (Inr (\<lparr>wr_hdr_len = unat len, wr_mem_len = unat (hd_head_len h), wr_offset = 0, wr_length = len\<rparr>, flags)) }
          else Some (Inr (\<lparr>wr_hdr_len = unat area, wr_mem_len = DC_AREA_SIZE, wr_offset = 0, wr_length = area\<rparr>, flags)) }"

text \<open>The slots of a header that asks for clearing them: random bytes, descriptors zeroed.\<close>

definition clear_slots :: "'w env \<Rightarrow> bytes \<Rightarrow> u32 \<Rightarrow> 'w \<Rightarrow> (bytes \<times> 'w) option" where
  "clear_slots H h flags w =
     (if hd_version h \<ge> DC_HDR_VERSION_2 \<and> flags AND HF_CLEAR_SLOTS \<noteq> 0 \<and> hd_feature_flags h AND FF_KEY_SLOTS \<noteq> 0
      then case dc_rand H (unat (hd_slot_area_len h)) w of (r, w) \<Rightarrow>
             do { g \<leftarrow> wr DC_BASE_SIZE r h;
                  g \<leftarrow> wr (DC_BASE_SIZE + unat (hd_slot_area_len h)) (replicate (unat (hd_key_slot_count h) * unat (hd_slot_info_size h)) 0) g;
                  Some (g, w) }
      else Some (h, w))"

text \<open>
  The key of a write: the caller's, with the salt of the header, or a new one derived from the password and a
  fresh salt.  Gives the status, the salt, the key, the copy and whether the key has to be released.
\<close>

definition seal_key ::
  "'w env \<Rightarrow> bytes \<Rightarrow> bytes \<Rightarrow> xts_key option \<Rightarrow> dc_pass option \<Rightarrow> 'w \<Rightarrow> (status \<times> bytes \<times> xts_key option \<times> bytes \<times> 'w) option" where
  "seal_key H header hcopy hdr_key password w =
     (case hdr_key of
        Some k \<Rightarrow> do { salt \<leftarrow> rd 0 HEADER_SALT_SIZE header; Some (ST_OK, salt, Some k, hcopy, w) }
      | None \<Rightarrow>
          (case dc_alloc H (e_sizeof_xts_key H) w of
             (None, w) \<Rightarrow> Some (ST_NOMEM, [], None, hcopy, w)
           | (Some b, w) \<Rightarrow> do {
               x \<leftarrow> rd 0 DC_AREA_SIZE header;
               let w = dc_rand_seed H x w;
               case dc_rand H HEADER_SALT_SIZE w of (salt, w) \<Rightarrow> do {
                 hcopy \<leftarrow> wr 0 salt hcopy;
                 pass \<leftarrow> password;
                 case cp_set_header_key H (e_key_block H) salt (hd_alg_1 header) pass w of (r, k, w) \<Rightarrow>
                   Some ((if r = 0 then ST_INVALID_PARAM else ST_OK), salt, Some k, hcopy, w) } }))"

definition seal_and_write ::
  "xts_selected \<Rightarrow> 'w env \<Rightarrow> 'w dc_rw_fn \<Rightarrow> u64 \<Rightarrow> bytes \<Rightarrow> bytes \<Rightarrow> bytes \<Rightarrow> xts_key \<Rightarrow> write_range \<Rightarrow> u32 \<Rightarrow> 'w \<Rightarrow> (status \<times> 'w) option" where
  "seal_and_write S H rw pos header hcopy salt key rng flags w =
     (let mem_len = wr_mem_len rng; offset = wr_offset rng; len = wr_length rng
      in do {
        y \<leftarrow> xts_encrypt S key hcopy (of_nat mem_len) 0;
        hcopy \<leftarrow> wr 0 y hcopy;
        hcopy \<leftarrow> wr 0 salt hcopy;
        (r, hcopy) \<leftarrow> (if hd_version header \<ge> DC_HDR_VERSION_2 \<and> flags AND HF_CLEAR_SLOTS = 0 \<and>
                          hd_feature_flags header AND FF_KEY_SLOTS \<noteq> 0 \<and> offset + ucast len > of_nat DC_BASE_SIZE \<and>
                          offset < of_nat (DC_BASE_SIZE + unat (hd_slot_area_len header))
                       then cp_copy_keylots header header hcopy else Some (0, hcopy));
        (hcopy, w) \<leftarrow> (if offset + ucast len > of_nat mem_len
                       then case dc_rand H (unat (offset + ucast len) - mem_len) w of (x, w) \<Rightarrow> do { g \<leftarrow> wr mem_len x hcopy; Some (g, w) }
                       else Some (hcopy, w));
        (resl, b, w) \<leftarrow> rw (drop (unat offset) hcopy) len (offset + pos) False w;
        Some (resl, w) })"

definition io_write_header ::
  "xts_selected \<Rightarrow> 'w env \<Rightarrow> 'w dc_rw_fn \<Rightarrow> dc_dev \<Rightarrow> u64 \<Rightarrow> bytes \<Rightarrow> xts_key option \<Rightarrow> dc_pass option \<Rightarrow> u32 \<Rightarrow> 'w \<Rightarrow>
   (status \<times> bytes \<times> 'w) option" where
  "io_write_header S H rw dev pos header hdr_key password flags w =
     (if (case hdr_key of Some k \<Rightarrow> encrypt_p k = xts_null | None \<Rightarrow> False) then Some (ST_ERROR, header, w)
      else if (case password of Some p \<Rightarrow> p_size p = 0 | None \<Rightarrow> False) then Some (ST_ERROR, header, w)
      else do {
        plan \<leftarrow> plan_write dev header hdr_key flags;
        case plan of
          Inl resl \<Rightarrow> Some (resl, header, w)
        | Inr (rng, flags) \<Rightarrow> do {
            (header, w) \<leftarrow> clear_slots H header flags w;
            if wr_mem_len rng mod XTS_SECTOR_SIZE \<noteq> 0 then Some (ST_INV_DATA_SIZE, header, w)
            else case dc_alloc H (max (wr_hdr_len rng) PAGE_SIZE) w of
              (None, w) \<Rightarrow> Some (ST_NOMEM, header, w)
            | (Some hcopy, w) \<Rightarrow> do {
                x \<leftarrow> rd 0 (wr_mem_len rng) header;
                hcopy \<leftarrow> wr 0 x hcopy;
                ok \<leftarrow> is_volume_header_correct (Some hcopy);
                if \<not> ok then Some (ST_INV_VOLUME, header, dc_free H (Some hcopy) w)
                else do {
                  (resl, salt, key, hcopy, w) \<leftarrow> seal_key H header hcopy hdr_key password w;
                  (resl, w) \<leftarrow> (if resl = ST_OK then seal_and_write S H rw pos header hcopy salt (the key) rng flags w else Some (resl, w));
                  let w = (if hdr_key = None then dc_free H key w else w);
                  Some (resl, header, dc_free H (Some hcopy) w) } } } })"

section \<open>Lengths and prefixes\<close>

lemma round_up_mono: "a \<le> b \<Longrightarrow> round_up a k \<le> round_up b k"
  unfolding round_up_def by (intro mult_le_mono1 div_le_mono) simp

lemma full_sectors:
  assumes "len + unat bps \<le> 2 ^ 32" "0 < unat bps"
  shows "\<exists>r. ROUND_TO_FULL_SECTORS (of_nat len) bps = Some r \<and> unat r = round_up len (unat bps)"
proof -
  have "bps \<noteq> 0" using assms(2) by auto
  have len: "unat (of_nat len :: u32) = len" using assms by simp
  have "of_nat len + bps - 1 = (of_nat (len + unat bps - 1) :: u32)"
    using assms(2) by (simp add: of_nat_diff)
  moreover have "unat (of_nat (len + unat bps - 1) :: u32) = len + unat bps - 1" using assms by (intro unat_word_small) simp
  ultimately have s: "unat (of_nat len + bps - 1) = len + unat bps - 1" by (simp only:)
  have "round_up len (unat bps) < 2 ^ 32" using round_up_less [OF assms(2), of len] assms(1) by linarith
  then have "unat ((of_nat len + bps - 1) div bps * bps) = round_up len (unat bps)"
    by (simp add: unat_word_ariths(2) unat_div s round_up_def)
  then show ?thesis using \<open>bps \<noteq> 0\<close> by (simp add: ROUND_TO_FULL_SECTORS_def)
qed

lemma sint_small: "unat (x :: u32) < 2 ^ 31 \<Longrightarrow> sint x = int (unat x)"
proof -
  assume "unat x < 2 ^ 31"
  then have "int (unat x) < int (2 ^ 31)" by (simp only: of_nat_less_iff)
  then have "uint x < 2 ^ 31" by simp
  moreover have "- (2 ^ 31) \<le> uint x" by (rule order_trans [OF _ uint_ge_0]) simp
  ultimately have "signed_take_bit 31 (uint x) = uint x" by (intro signed_take_bit_int_eq_self)
  then show ?thesis by (simp add: sint_uint)
qed

lemma by_blocks_prefix: "16 * n \<le> m \<Longrightarrow> by_blocks g s (take m inp) n = by_blocks g s inp n"
  unfolding by_blocks_def by (auto simp: slice_def drop_take min_def intro!: arg_cong [of _ _ concat])

text \<open>A routine looks only at the part of its input that the length covers.\<close>

lemma blockwise_prefix:
  assumes "blockwise F g" "xts_len_ok inp len"
  shows "F (take (unat len) inp) len off = F inp len off"
proof -
  have "xts_len_ok (take (unat len) inp) len" using assms(2) by (auto simp: xts_len_ok_def)
  then show ?thesis using assms by (simp add: blockwise_def by_blocks_prefix)
qed

text \<open>A header with another salt: every field and the slots are the same.\<close>

definition with_salt :: "bytes \<Rightarrow> bytes \<Rightarrow> bytes" where
  "with_salt salt h = salt @ drop 64 h"

lemma with_salt_overlay: "length salt = 64 \<Longrightarrow> with_salt salt h = overlay 0 salt h"
  by (simp add: with_salt_def overlay_def)

lemma with_salt_same: "with_salt (slice 0 64 h) h = h"
  by (simp add: with_salt_def slice_def)

lemma with_salt_slice: "length salt = 64 \<Longrightarrow> 64 \<le> off \<Longrightarrow> slice off n (with_salt salt h) = slice off n h"
  by (simp add: with_salt_def slice_def)

lemma with_salt_fields:
  assumes "length salt = 64"
  shows "hd_version (with_salt salt h) = hd_version h" "hd_feature_flags (with_salt salt h) = hd_feature_flags h"
    "hd_key_slot_count (with_salt salt h) = hd_key_slot_count h" "hd_slot_area_len (with_salt salt h) = hd_slot_area_len h"
    "hd_slot_info_size (with_salt salt h) = hd_slot_info_size h" "hd_head_len (with_salt salt h) = hd_head_len h"
    "hd_footer_cnt (with_salt salt h) = hd_footer_cnt h" "hd_sign (with_salt salt h) = hd_sign h"
    "hd_hdr_crc (with_salt salt h) = hd_hdr_crc h" "hd_alg_1 (with_salt salt h) = hd_alg_1 h" "hd_salt (with_salt salt h) = salt"
    "slot_size_of (with_salt salt h) = slot_size_of h" "slot_enabled (with_salt salt h) i = slot_enabled h i"
    "slots_copied (with_salt salt h) = slots_copied h" "clear_slot_byte (with_salt salt h) k = clear_slot_byte h k"
    "crc_area_len (with_salt salt h) = crc_area_len h" "layout_ok (with_salt salt h) n = layout_ok h n"
proof -
  note sl = with_salt_slice [OF assms]
  show f: "hd_version (with_salt salt h) = hd_version h" "hd_feature_flags (with_salt salt h) = hd_feature_flags h"
    "hd_key_slot_count (with_salt salt h) = hd_key_slot_count h" "hd_slot_area_len (with_salt salt h) = hd_slot_area_len h"
    "hd_slot_info_size (with_salt salt h) = hd_slot_info_size h" "hd_head_len (with_salt salt h) = hd_head_len h"
    "hd_footer_cnt (with_salt salt h) = hd_footer_cnt h" "hd_sign (with_salt salt h) = hd_sign h"
    "hd_hdr_crc (with_salt salt h) = hd_hdr_crc h" "hd_alg_1 (with_salt salt h) = hd_alg_1 h"
    by (simp_all add: hd_defs fld_def sl)
  show "hd_salt (with_salt salt h) = salt" using assms by (simp add: hd_salt_def vol_sizes with_salt_def slice_def)
  show ss: "slot_size_of (with_salt salt h) = slot_size_of h" by (simp add: slot_size_of_def f)
  show en: "slot_enabled (with_salt salt h) i = slot_enabled h i" for i by (simp add: slot_enabled_def f fld_def sl vol_sizes)
  show sc: "slots_copied (with_salt salt h) = slots_copied h" by (simp add: slots_copied_def f)
  show "clear_slot_byte (with_salt salt h) k = clear_slot_byte h k" by (simp add: clear_slot_byte_def sc ss f in_copied_slot_def en)
  show "crc_area_len (with_salt salt h) = crc_area_len h" by (simp add: crc_area_len_def f)
  show "layout_ok (with_salt salt h) n = layout_ok h n" by (simp add: layout_ok_def sc ss f)
qed

lemma with_salt_sealable:
  assumes "sealable h n" "length salt = 64" "\<exists>x \<in> set salt. x \<noteq> 0"
  shows "sealable (with_salt salt h) n"
proof -
  have len: "length h = n" "2048 \<le> n" using assms(1) by (simp_all add: sealable_def)
  then have "length (with_salt salt h) = n" using assms(2) by (simp add: with_salt_def)
  then show ?thesis
    using assms len by (simp add: sealable_def with_salt_fields header_valid_def with_salt_slice)
qed

text \<open>
  The copy that a write seals is a longer buffer than the header; what the encryption, the salt and the slots
  make of it starts with the image that \<^verbatim>\<open>cp_encrypt_header\<close> makes of the header with that salt.
\<close>

lemma sealed_copy:
  assumes loc: "xts_local (xts_encrypt S key) (xts_decrypt S key) e d" and key: "encrypt_p key \<noteq> xts_null"
    and h: "length h = n" "sealable (with_salt salt h) n" "length salt = 64" and hc: "take n hcopy = with_salt salt h" "n \<le> length hcopy"
  obtains c g r g2 b where "xts_encrypt S key hcopy (of_nat n) 0 = Some c" "wr 0 c hcopy = Some (overlay 0 c hcopy)"
    "wr 0 salt (overlay 0 c hcopy) = Some g" "cp_copy_keylots h h g = Some (r, g2)" "hd_feature_flags h AND FF_KEY_SLOTS = 0 \<Longrightarrow> g2 = g"
    "length g2 = length hcopy" "cp_encrypt_header S (Some (with_salt salt h)) (int n) (Some key) (Some (with_salt salt h)) = Some (ST_OK, Some b)"
    "length b = n" "take n g2 = b"
proof -
  let ?h = "with_salt salt h"
  note f = with_salt_fields [OF h(3)]
  have n: "2048 \<le> n" "layout_ok h n" "length ?h = n" "n < 2 ^ 31" using h(2) by (simp_all add: sealable_def f)
  obtain c b where c: "xts_encrypt S key ?h (of_nat n) 0 = Some c" "length c = n"
    and b: "cp_encrypt_header S (Some ?h) (int n) (Some key) (Some ?h) = Some (ST_OK, Some b)" "length b = n"
      "\<forall>k < n. b ! k = (if k < 64 \<or> clear_slot_byte ?h k then ?h ! k else c ! k)"
    using seal_bytes [OF loc key h(2) n(3)] by blast
  have lok: "xts_len_ok hcopy (of_nat n)" using sealable_len [OF h(2)] hc(2) by (auto simp: xts_len_ok_def)
  have enc: "xts_encrypt S key hcopy (of_nat n) 0 = Some c"
    using blockwise_prefix [OF _ lok, of "xts_encrypt S key" e 0] loc c(1) hc(1) n(4) by (simp add: xts_local_def)
  define g where "g = overlay 0 salt (overlay 0 c hcopy)"
  have lg: "length g = length hcopy" using hc(2) c(2) h(3) n(1) by (simp add: g_def length_overlay)
  have g: "g ! k = (if k < 64 then salt ! k else c ! k)" if "k < n" for k
    using that hc(2) c(2) h(3) n(1) by (auto simp: g_def length_overlay nth_overlay)
  obtain r g2 where g2: "cp_copy_keylots h h g = Some (r, g2)" "length g2 = length g"
      "\<forall>k < length g. g2 ! k = (if clear_slot_byte h k then h ! k else g ! k)"
    using copy_keylots_nth [OF n(2), of h g] h(1) lg hc(2) by auto
  have "take n g2 = b"
  proof (rule nth_equalityI)
    fix k assume "k < length (take n g2)"
    then have k: "k < n" by simp
    have "?h ! k = (if k < 64 then salt ! k else h ! k)" using h(1,3) k by (simp add: with_salt_def nth_append)
    then show "take n g2 ! k = b ! k"
      using k g2(2,3) lg g [OF k] b(3) hc(2) clear_slot_byte_range [of h k] by (auto simp: f)
  qed (use g2(2) lg b(2) hc(2) in simp)
  moreover have "g2 = g" if "hd_feature_flags h AND FF_KEY_SLOTS = 0" using that g2(1) by (simp add: cp_copy_keylots_def)
  ultimately show thesis
    using that [of c g r g2 b] enc g2 lg b c(2) hc(2) h(3) n(1) by (simp add: g_def length_overlay)
qed

section \<open>Completing an opened header\<close>

lemma append_layout:
  assumes "layout_ok q (length q)" "1024 \<le> length q"
  shows "layout_ok (q @ j) (length q)" "clear_slot_byte (q @ j) k = clear_slot_byte q k" "hd_feature_flags (q @ j) = hd_feature_flags q"
proof -
  note f = base_fields [of "q @ j" q]
  have base: "\<forall>k < 1024. (q @ j) ! k = q ! k" using assms(2) by (simp add: nth_append)
  have eq: "hd_feature_flags (q @ j) = hd_feature_flags q" "hd_key_slot_count (q @ j) = hd_key_slot_count q"
    "hd_slot_area_len (q @ j) = hd_slot_area_len q" "hd_slot_info_size (q @ j) = hd_slot_info_size q" "hd_head_len (q @ j) = hd_head_len q"
    using f assms(2) base by simp_all
  then have sc: "slots_copied (q @ j) = slots_copied q" "slot_size_of (q @ j) = slot_size_of q" by (simp_all add: slots_copied_def slot_size_of_def)
  show "hd_feature_flags (q @ j) = hd_feature_flags q" by (rule eq)
  show "layout_ok (q @ j) (length q)" using assms(1) by (simp add: layout_ok_def sc eq)
  have "slot_enabled (q @ j) i = slot_enabled q i" if "slots_copied q" "i < unat (hd_key_slot_count q)" for i
  proof -
    let ?a = "DC_BASE_SIZE + unat (hd_slot_area_len q)" and ?s = "unat (hd_slot_info_size q)"
    have "?a + unat (hd_key_slot_count q) * ?s \<le> length q" "8 \<le> ?s" using that(1) assms(1) by (auto simp: layout_ok_def slots_copied_def)
    then have "?a + ?s * i + 8 \<le> length q" by (rule info_fits [OF that(2)])
    then have "(fld (?a + ?s * i + 4) 4 (q @ j) :: u32) = fld (?a + ?s * i + 4) 4 q" by (intro fld_nth_cong) (auto simp: nth_append)
    then show ?thesis by (simp add: slot_enabled_def eq)
  qed
  then show "clear_slot_byte (q @ j) k = clear_slot_byte q k" by (auto simp: clear_slot_byte_def sc eq in_copied_slot_def)
qed

text \<open>\<^verbatim>\<open>restore_slots\<close> in buffers that are longer than the header.\<close>

lemma restore_slots_long:
  assumes "almost_plain h q" "layout_ok h (length h)" "1024 \<le> length h" "length b = length h"
    "\<forall>k < length h. clear_slot_byte h k \<longrightarrow> b ! k = h ! k"
  shows "(if hd_feature_flags (q @ j) AND FF_KEY_SLOTS \<noteq> 0 then do { (r, g) \<leftarrow> cp_copy_keylots (q @ j) (b @ j') (q @ j); Some g } else Some (q @ j)) =
    Some (h @ j)"
proof -
  have len: "length q = length h" using assms(1) by (simp add: almost_plain_def)
  note sl = almost_plain_slots [OF assms(1-3)]
  have q: "1024 \<le> length q" using assms(3) len by simp
  note al = append_layout [OF sl(1) q, of j]
  obtain r out where out: "cp_copy_keylots (q @ j) (b @ j') (q @ j) = Some (r, out)" "length out = length (q @ j)"
      "\<forall>k < length (q @ j). out ! k = (if clear_slot_byte h k then (b @ j') ! k else (q @ j) ! k)"
    using copy_keylots_nth [OF al(1), of "b @ j'" "q @ j"] al(2) sl(2) len assms(4) by auto
  have range: "k < length h" if "clear_slot_byte h k" for k
  proof -
    have "in_copied_slot h (slot_size_of h) (unat (hd_key_slot_count h)) k" "slots_copied h" using that by (auto simp: clear_slot_byte_def)
    then obtain i where i: "i < unat (hd_key_slot_count h)" "k < DC_BASE_SIZE + slot_size_of h * i + slot_size_of h"
      by (auto simp: in_copied_slot_def)
    then have "slot_size_of h * i + slot_size_of h \<le> slot_size_of h * unat (hd_key_slot_count h)"
      by (metis Suc_leI mult_Suc_right add.commute mult_le_mono2)
    then show ?thesis
      using i(2) slot_area_fits [of h] \<open>slots_copied h\<close> assms(2) by (simp add: layout_ok_def slots_copied_def)
  qed
  have "out = h @ j"
    by (rule nth_equalityI) (use out len assms(1,4,5) range in \<open>auto simp: almost_plain_def nth_append\<close>)
  moreover have "out = q @ j" if "hd_feature_flags (q @ j) AND FF_KEY_SLOTS = 0"
    using that out(1) by (simp add: cp_copy_keylots_def)
  ultimately show ?thesis using out(1) by auto
qed

text \<open>
  \<open>b\<close> is the sealed image of \<open>h\<close>, \<open>hc\<close> its first area decrypted.  A buffer that starts with the salt and the
  decrypted rest of that area has the base of \<open>h\<close>; decrypting the tail and putting the slots back completes it.
\<close>

lemma opened_area:
  assumes loc: "xts_local (xts_encrypt S key) (xts_decrypt S key) e d"
    and h: "sealable h n" and c: "xts_encrypt S key h (of_nat n) 0 = Some c"
    and b: "length b = n" "\<forall>k < n. b ! k = (if k < 64 \<or> clear_slot_byte h k then h ! k else c ! k)"
    and hc: "xts_decrypt S key b 2048 0 = Some hc"
  obtains q where "almost_plain h q" "take 64 b @ drop 64 hc = take 2048 q" "length hc = 2048"
    "2048 < n \<Longrightarrow> xts_decrypt S key (drop 2048 b) (of_nat (n - 2048)) 2048 = Some (drop 2048 q)"
proof -
  have n: "2048 \<le> n" using h by (simp add: sealable_def)
  obtain p where p: "xts_decrypt S key b 2048 0 = Some (take 2048 p)" "length p = n"
      "2048 < n \<Longrightarrow> xts_decrypt S key (drop 2048 b) (of_nat (n - 2048)) 2048 = Some (drop 2048 p)"
    and q: "almost_plain h (overlay 0 (slice 0 64 b) p)"
    using decrypt_sealed [OF loc h c b] by metis
  show thesis
  proof (rule that [OF q])
    show "take 64 b @ drop 64 hc = take 2048 (overlay 0 (slice 0 64 b) p)" "length hc = 2048"
      using hc p(1,2) b(1) n by (auto simp: overlay_def slice_def drop_take)
    have "drop 2048 (overlay 0 (slice 0 64 b) p) = drop 2048 p" using b(1) n by (simp add: overlay_def slice_def)
    then show "xts_decrypt S key (drop 2048 b) (of_nat (n - 2048)) 2048 = Some (drop 2048 (overlay 0 (slice 0 64 b) p))" if "2048 < n"
      using p(3) [OF that] by simp
  qed
qed

lemma opened_base:
  assumes "almost_plain h q" "1024 \<le> length h" "take 2048 header = take 2048 q"
  shows "\<forall>k < 1024. header ! k = h ! k"
proof (intro allI impI)
  fix k :: nat assume k: "k < 1024"
  have "header ! k = take 2048 header ! k" "take 2048 q ! k = q ! k" using k by simp_all
  then show "header ! k = h ! k" using assms(3) almost_plain_base [OF assms(1,2) k] by simp
qed

lemma finish_read_sealed:
  assumes loc: "xts_local (xts_encrypt S key) (xts_decrypt S key) e d" and h: "sealable h n"
    and b: "length b = n" "\<forall>k < n. clear_slot_byte h k \<longrightarrow> b ! k = h ! k" and q: "almost_plain h q"
    and p: "2048 < n \<Longrightarrow> xts_decrypt S key (drop 2048 b) (of_nat (n - 2048)) 2048 = Some (drop 2048 q)"
    and header: "n \<le> length header" "take 2048 header = take 2048 q"
  shows "finish_read S key header (b @ j) n = Some (h @ drop n header)"
proof -
  have n: "2048 \<le> n" "layout_ok h n" "length h = n" "n < 2 ^ 31" "512 dvd n" using h by (simp_all add: sealable_def)
  have lq: "length q = n" using q n(3) by (simp add: almost_plain_def)
  have tail: "(if n > DC_AREA_SIZE
      then do { y \<leftarrow> xts_decrypt S key (drop DC_AREA_SIZE (b @ j)) (of_nat (n - DC_AREA_SIZE)) (of_nat DC_AREA_SIZE); wr DC_AREA_SIZE y header }
      else Some header) = Some (q @ drop n header)"
  proof (cases "2048 < n")
    case True
    have small: "unat (of_nat (n - 2048) :: u64) = n - 2048" using n(4) by simp
    have "xts_len_ok (drop 2048 (b @ j)) (of_nat (n - 2048))"
      unfolding xts_len_ok_def small using True b(1) n(5) by (auto intro: dvd_diff_nat)
    then have "xts_decrypt S key (drop 2048 (b @ j)) (of_nat (n - 2048)) 2048 = Some (drop 2048 q)"
      using blockwise_prefix [of "xts_decrypt S key" d "drop 2048 (b @ j)" "of_nat (n - 2048)" 2048] loc p True small b(1)
      by (simp add: xts_local_def del: of_nat_diff)
    moreover have "overlay 2048 (drop 2048 q) header = q @ drop n header"
      using True header(2) lq append_take_drop_id [of 2048 q] by (simp add: overlay_def)
    ultimately show ?thesis using True lq header(1) by (simp add: DC_AREA_SIZE_def wr_in del: of_nat_diff wr_Some)
  next
    case False
    then have "q @ drop n header = header" using header(2) n(1) lq append_take_drop_id [of n header] by simp
    then show ?thesis using False by (simp add: DC_AREA_SIZE_def)
  qed
  show ?thesis
    unfolding finish_read_def tail bind.bind_lunit
    by (rule restore_slots_long) (use q n b in auto)
qed

text \<open>
  A tail that is not a whole number of sectors: \<^verbatim>\<open>io_write_header\<close> refuses such a header, the read has no such
  check, and the sector loop leaves the buffer.
\<close>

lemma unaligned_tail_leaves_buffer:
  assumes A: "aes_core_ok A" and set: "xts_set_key key alg skey = (1, skey')"
    and n: "2048 < n" "n < 2 ^ 32" "\<not> 512 dvd n" and buff: "length buff < 2 ^ 64"
  shows "finish_read (scalar_selection A) skey' header buff n = None"
proof -
  have "unat (of_nat (n - 2048) :: u64) = n - 2048" using n(2) by simp
  moreover have "\<not> 512 dvd n - 2048" using n(1,3) dvd_diffD [of 512 n 2048] by auto
  ultimately have "\<not> xts_len_ok (drop 2048 buff) (of_nat (n - 2048))" by (simp add: xts_len_ok_def del: of_nat_diff)
  then have "xts_decrypt (scalar_selection A) skey' (drop 2048 buff) (of_nat (n - 2048)) 2048 = None"
    using xts_pair.reject [OF xts_set_key_pair [OF A set]] buff by simp
  then show ?thesis using n(1) by (simp add: finish_read_def DC_AREA_SIZE_def del: of_nat_diff)
qed

section \<open>Opening with a derived key\<close>

text \<open>
  The search stops at the algorithm of the header: none before it accepts the image, and the stored salt does
  not happen to decrypt to zeroes (the check looks at the decrypted copy, where the salt is decrypted as well).
\<close>

definition opens_first :: "aes_core \<Rightarrow> bytes \<Rightarrow> bytes \<Rightarrow> int \<Rightarrow> bool" where
  "opens_first A dk b alg \<longleftrightarrow> (\<forall>a \<in> {0..<alg}. is_volume_header_correct (Some (plain_under A dk b a)) = Some False) \<and>
     (\<exists>x \<in> set (take 64 (plain_under A dk b alg)). x \<noteq> 0)"

lemma find_first:
  assumes "\<forall>a \<in> {0..<alg}. \<not> P a" "P alg" "0 \<le> alg" "alg \<le> m"
  shows "find P [0..m] = Some (alg :: int)"
proof -
  have split: "[0..m] = [0..alg - 1] @ alg # [alg + 1..m]" using upto_split1 [OF assms(3,4)] upto_rec1 [OF assms(4)] by simp
  have "find P (xs @ ys) = find P ys" if "\<forall>a \<in> set xs. \<not> P a" for xs ys using that by (induction xs) auto
  then show ?thesis using assms(1,2) by (simp add: split)
qed

lemma plain_under_prefix:
  assumes "aes_core_ok A" "alg \<in> {0..<CF_CIPHERS_NUM}" "2048 \<le> length b" "take 2048 b = take 2048 b'"
  shows "plain_under A dk b alg = plain_under A dk b' alg"
proof -
  have one: "fst (xts_set_key dk alg undefined) = 1" using assms(2) by (auto simp: xts_set_key_def cf_defs)
  then obtain e d where "xts_local (xts_encrypt (scalar_selection A) (snd (xts_set_key dk alg undefined)))
      (xts_decrypt (scalar_selection A) (snd (xts_set_key dk alg undefined))) e d"
    using xts_set_key_local [OF assms(1)] unfolding local_pair_def by (metis prod.collapse)
  then have bw: "blockwise (xts_decrypt (scalar_selection A) (snd (xts_set_key dk alg undefined))) d" by (simp add: xts_local_def)
  have len: "2048 \<le> length b'" using assms(3,4) by (metis length_take min.absorb_iff2)
  have ok: "xts_len_ok x (of_nat DC_AREA_SIZE)" if "2048 \<le> length x" for x using header_area_ok [of x] that by (simp add: vol_sizes)
  show ?thesis
    using blockwise_prefix [OF bw ok [OF assms(3)], of 0] blockwise_prefix [OF bw ok [OF len], of 0] assms(4)
    by (simp add: plain_under_def vol_sizes)
qed

lemma checked_with_other_salt:
  assumes "header_valid h" "DC_HDR_VERSION_2 \<le> hd_version h" "0 \<le> hd_footer_cnt h" "2048 \<le> length h" "length hc = 2048"
    and "\<forall>k < 1024. 64 \<le> k \<longrightarrow> hc ! k = h ! k" "\<exists>x \<in> set (take 64 hc). x \<noteq> 0"
  shows "is_volume_header_correct (Some hc) = Some True"
proof -
  let ?s = "take 64 hc"
  have s: "length ?s = 64" using assms(5) by simp
  have len: "length (with_salt ?s h) = length h" using s assms(4) by (simp add: with_salt_def)
  have valid: "header_valid (with_salt ?s h)"
    using assms(1,7) len by (simp add: header_valid_def with_salt_fields [OF s] with_salt_slice [OF s])
  have "hc ! k = with_salt ?s h ! k" if "k < 1024" for k
    using that assms(4-6) by (cases "k < 64") (simp_all add: with_salt_def nth_append)
  then have "header_valid hc"
    using header_valid_base [OF valid, of hc] assms(2-5) len by (simp add: with_salt_fields [OF s])
  then show ?thesis using is_volume_header_correct_iff [of hc] assms(5) by simp
qed

lemma key_local:
  assumes "aes_core_ok A" "alg \<in> {0..<CF_CIPHERS_NUM}"
  shows "local_pair (xts_encrypt (scalar_selection A) (snd (xts_set_key dk alg k))) (xts_decrypt (scalar_selection A) (snd (xts_set_key dk alg k)))"
    "encrypt_p (snd (xts_set_key dk alg k)) \<noteq> xts_null"
proof -
  have one: "fst (xts_set_key dk alg k) = 1" using assms(2) by (auto simp: xts_set_key_def cf_defs)
  then show "local_pair (xts_encrypt (scalar_selection A) (snd (xts_set_key dk alg k))) (xts_decrypt (scalar_selection A) (snd (xts_set_key dk alg k)))"
    using xts_set_key_local [OF assms(1)] by (metis prod.collapse)
  show "encrypt_p (snd (xts_set_key dk alg k)) \<noteq> xts_null"
    using assms(2) by (auto simp: xts_set_key_def cf_defs)
qed

text \<open>A sealed image opens with the key it was sealed with.\<close>

lemma image_opens:
  assumes A: "aes_core_ok A" and h: "sealable h n" and alg: "alg \<in> {0..<CF_CIPHERS_NUM}"
    and c: "xts_encrypt (scalar_selection A) (snd (xts_set_key dk alg k0)) h (of_nat n) 0 = Some c"
    and b: "length b = n" "\<forall>k < n. b ! k = (if k < 64 \<or> clear_slot_byte h k then h ! k else c ! k)"
    and first: "opens_first A dk b alg"
  obtains q where "almost_plain h q" "take 64 b @ drop 64 (plain_under A dk b alg) = take 2048 q" "length (plain_under A dk b alg) = 2048"
    "\<And>k. 2048 < n \<Longrightarrow> xts_decrypt (scalar_selection A) (snd (xts_set_key dk alg k)) (drop 2048 b) (of_nat (n - 2048)) 2048 = Some (drop 2048 q)"
    "is_volume_header_correct (Some (plain_under A dk b alg)) = Some True"
proof -
  let ?S = "scalar_selection A" and ?key = "snd (xts_set_key dk alg k0)"
  have n: "length h = n" "2048 \<le> n" "header_valid h" "DC_HDR_VERSION_2 \<le> hd_version h" "0 \<le> hd_footer_cnt h"
    using h by (simp_all add: sealable_def)
  obtain e d where loc: "xts_local (xts_encrypt ?S ?key) (xts_decrypt ?S ?key) e d"
    using key_local [OF A alg] unfolding local_pair_def by metis
  define hc where "hc = plain_under A dk b alg"
  have hc: "xts_decrypt ?S ?key b 2048 0 = Some hc"
    using plain_under_decrypt(1) [OF A alg, of b dk k0] b(1) n(2) by (simp add: hc_def vol_sizes)
  obtain q where q: "almost_plain h q" "take 64 b @ drop 64 hc = take 2048 q" "length hc = 2048"
      "2048 < n \<Longrightarrow> xts_decrypt ?S ?key (drop 2048 b) (of_nat (n - 2048)) 2048 = Some (drop 2048 q)"
    using opened_area [OF loc h c b hc] by metis
  have base: "hc ! k = h ! k" if "64 \<le> k" "k < 1024" for k
  proof -
    have "hc ! k = (take 64 b @ drop 64 hc) ! k" using that b(1) n(2) q(3) by (simp add: nth_append)
    then show ?thesis using q(2) that almost_plain_base [OF q(1) _ that(2)] n by simp
  qed
  have "is_volume_header_correct (Some hc) = Some True"
    using first n q(3) base by (intro checked_with_other_salt [of h]) (auto simp: opens_first_def hc_def)
  moreover have "xts_decrypt ?S (snd (xts_set_key dk alg k)) (drop 2048 b) (of_nat (n - 2048)) 2048 = Some (drop 2048 q)" if "2048 < n" for k
    using q(4) [OF that] xts_decrypt_set_key [OF alg, of A dk k k0] by metis
  ultimately show thesis using that [of q] q(1-3) by (simp add: hc_def)
qed

section \<open>The contract of a device with its host\<close>

text \<open>The key derivation of a password succeeds, is a function of the salt, and leaves the device alone.\<close>

definition derives :: "'w env \<Rightarrow> ('w \<Rightarrow> bytes) \<Rightarrow> ('w \<Rightarrow> bool) \<Rightarrow> dc_pass \<Rightarrow> int \<Rightarrow> (bytes \<Rightarrow> bytes) \<Rightarrow> bool" where
  "derives H disk ok p kdf F \<longleftrightarrow> (\<forall>salt w. length salt = 64 \<longrightarrow> ok w \<longrightarrow>
     (\<exists>w'. dc_derive_key H p kdf salt (replicate PKCS_DERIVE_MAX 0) w = (1, F salt, w') \<and> ok w' \<and> disk w' = disk w))"

text \<open>Bytes that the random generator of the host gave in some state.\<close>

definition drawn :: "'w env \<Rightarrow> ('w \<Rightarrow> bool) \<Rightarrow> bytes \<Rightarrow> bool" where
  "drawn H ok x \<longleftrightarrow> (\<exists>w. ok w \<and> x = fst (e_rand_bytes H (length x) w))"

text \<open>
  A block device together with a host whose services do not touch it: allocation succeeds, random bytes come in
  the number asked for, and allocation, release and seeding keep the device as it is.
\<close>

locale header_device = block_device rw disk inv
  for rw :: "'w dc_rw_fn" and disk :: "'w \<Rightarrow> bytes" and inv :: "'w \<Rightarrow> bool" +
  fixes H :: "'w env"
  assumes alloc: "inv w \<Longrightarrow> \<exists>b w'. e_secure_alloc H n w = (Some b, w') \<and> length b = n \<and> inv w' \<and> disk w' = disk w"
    and free: "inv w \<Longrightarrow> inv (e_secure_free H w) \<and> disk (e_secure_free H w) = disk w"
    and rand: "inv w \<Longrightarrow> length (fst (e_rand_bytes H n w)) = n \<and> inv (snd (e_rand_bytes H n w)) \<and> disk (snd (e_rand_bytes H n w)) = disk w"
    and seed: "inv w \<Longrightarrow> e_rand_add_seed H = Some f \<Longrightarrow> inv (f b w) \<and> disk (f b w) = disk w"
begin

lemma quiet_free: "inv w \<Longrightarrow> inv (dc_free H p w) \<and> disk (dc_free H p w) = disk w"
  using free by (simp add: dc_free_def)

lemma quiet_seed: "inv w \<Longrightarrow> inv (dc_rand_seed H b w) \<and> disk (dc_rand_seed H b w) = disk w"
  using seed by (simp add: dc_rand_seed_def split: option.splits)

lemma quiet_rand:
  assumes "inv w"
  obtains x w' where "dc_rand H n w = (x, w')" "length x = n" "inv w'" "disk w' = disk w"
  using rand [OF assms, of n] by (cases "e_rand_bytes H n w") (simp add: dc_rand_def)

lemma quiet_alloc:
  assumes "inv w"
  obtains b w' where "dc_alloc H n w = (Some b, w')" "length b = n" "inv w'" "disk w' = disk w"
  using alloc [OF assms, of n] by (auto simp: dc_alloc_def)

text \<open>Random filling behind the header, as far as the write reaches.\<close>

lemma pad_rest:
  assumes "inv w" "n \<le> m" "m \<le> length g"
  obtains x w' where "(if m > n then case dc_rand H (m - n) w of (x, w) \<Rightarrow> do { g \<leftarrow> wr n x g; Some (g, w) } else Some (g, w)) =
      Some (overlay n x g, w')" "length x = m - n" "drawn H inv x" "inv w'" "disk w' = disk w"
proof (cases "m > n")
  case True
  obtain x w' where x: "dc_rand H (m - n) w = (x, w')" "length x = m - n" "inv w'" "disk w' = disk w"
    using quiet_rand [OF assms(1)] by metis
  then have "drawn H inv x" using assms(1) by (auto simp: drawn_def dc_rand_def)
  then show thesis using x True assms that [of x w'] by (simp add: wr_in del: wr_Some)
next
  case False
  have "drawn H inv []" using rand [OF assms(1), of 0] assms(1) by (auto simp: drawn_def)
  then show thesis using False that [of "[]" w] assms by simp
qed

lemma seal_and_write_full:
  assumes inv: "inv w" and loc: "xts_local (xts_encrypt S key) (xts_decrypt S key) e d" and key: "encrypt_p key \<noteq> xts_null"
    and h: "length h = n" "sealable (with_salt salt h) n" "length salt = 64"
    and hc: "take n hcopy = with_salt salt h" "m \<le> length hcopy" and m: "n \<le> m" "m < 2 ^ 32"
    and flags: "flags AND HF_CLEAR_SLOTS = 0" and room: "unat pos + m \<le> length (disk w)"
  shows "\<exists>b x w'. cp_encrypt_header S (Some (with_salt salt h)) (int n) (Some key) (Some (with_salt salt h)) = Some (ST_OK, Some b) \<and>
    length b = n \<and> length x = m - n \<and> drawn H inv x \<and> inv w' \<and> disk w' = overlay (unat pos) (b @ x) (disk w) \<and>
    seal_and_write S H rw pos h hcopy salt key \<lparr>wr_hdr_len = m, wr_mem_len = n, wr_offset = 0, wr_length = of_nat m\<rparr> flags w = Some (ST_OK, w')"
proof -
  have n: "2048 \<le> n" "DC_HDR_VERSION_2 \<le> hd_version h" "n < 2 ^ 31"
    using h(2) by (simp_all add: sealable_def with_salt_fields [OF h(3)])
  have hn: "n \<le> length hcopy" using hc(2) m(1) by simp
  obtain c g r g2 b where c: "xts_encrypt S key hcopy (of_nat n) 0 = Some c" "wr 0 c hcopy = Some (overlay 0 c hcopy)"
      "wr 0 salt (overlay 0 c hcopy) = Some g"
    and g2: "cp_copy_keylots h h g = Some (r, g2)" "hd_feature_flags h AND FF_KEY_SLOTS = 0 \<Longrightarrow> g2 = g" "length g2 = length hcopy"
    and b: "cp_encrypt_header S (Some (with_salt salt h)) (int n) (Some key) (Some (with_salt salt h)) = Some (ST_OK, Some b)"
      "length b = n" "take n g2 = b"
    by (rule sealed_copy [OF loc key h hc(1) hn]) blast
  have um: "unat (ucast (of_nat m :: u32) :: u64) = m" using m(2) by simp
  have cover: "(of_nat DC_BASE_SIZE :: u64) < 0 + ucast (of_nat m :: u32)" "(0 :: u64) < of_nat (DC_BASE_SIZE + unat (hd_slot_area_len h))"
  proof -
    show "(of_nat DC_BASE_SIZE :: u64) < 0 + ucast (of_nat m :: u32)" using um m n(1) by (simp add: word_less_nat_alt vol_sizes)
    have "unat (hd_slot_area_len h) < 65536" using unsigned_less [of "hd_slot_area_len h", where ?'a = nat] by simp
    then show "(0 :: u64) < of_nat (DC_BASE_SIZE + unat (hd_slot_area_len h))" by (simp add: word_less_nat_alt vol_sizes del: of_nat_add)
  qed
  obtain r' where copy: "(if DC_HDR_VERSION_2 \<le> hd_version h \<and> flags AND HF_CLEAR_SLOTS = 0 \<and> hd_feature_flags h AND FF_KEY_SLOTS \<noteq> 0 \<and>
        0 + ucast (of_nat m :: u32) > (of_nat DC_BASE_SIZE :: u64) \<and> (0 :: u64) < of_nat (DC_BASE_SIZE + unat (hd_slot_area_len h))
      then cp_copy_keylots h h g else Some (0, g)) = Some (r', g2)"
    using g2(1,2) n(2) flags cover by (cases "hd_feature_flags h AND FF_KEY_SLOTS = 0") simp_all
  obtain x w1 where x: "(if m > n then case dc_rand H (m - n) w of (x, w) \<Rightarrow> do { g \<leftarrow> wr n x g2; Some (g, w) } else Some (g2, w)) =
      Some (overlay n x g2, w1)" "length x = m - n" "inv w1" "disk w1 = disk w" and drawn: "drawn H inv x"
    using pad_rest [OF inv m(1), of g2] hc(2) g2(3) by metis
  have whole: "take m (overlay n x g2) = b @ x" "m \<le> length (overlay n x g2)"
    using b(2,3) x(2) m(1) hc(2) g2(3) by (simp_all add: overlay_def)
  have gt: "(of_nat n < (0 :: u64) + ucast (of_nat m :: u32)) = (n < m)" using um n(3) by (simp add: word_less_nat_alt)
  have pad: "(if (of_nat n :: u64) < 0 + ucast (of_nat m :: u32)
      then case dc_rand H (unat ((0 :: u64) + ucast (of_nat m :: u32)) - n) w of (x, w) \<Rightarrow> do { g \<leftarrow> wr n x g2; Some (g, w) } else Some (g2, w)) =
      Some (overlay n x g2, w1)"
    using x(1) by (simp only: gt) (simp only: um add_0)
  obtain w' where w': "rw (overlay n x g2) (of_nat m) (0 + pos) False w1 = Some (ST_OK, overlay n x g2, w')" "inv w'"
      "disk w' = overlay (unat pos) (b @ x) (disk w)"
    using rw_write [OF x(3), of pos "of_nat m" "overlay n x g2"] room m(2) whole x(4) by auto
  have "seal_and_write S H rw pos h hcopy salt key \<lparr>wr_hdr_len = m, wr_mem_len = n, wr_offset = 0, wr_length = of_nat m\<rparr> flags w = Some (ST_OK, w')"
    using c copy pad w'(1) by (simp add: seal_and_write_def Let_def del: wr_Some split del: if_split)
  then show ?thesis using b x w' drawn by blast
qed

text \<open>The plan of a full write, and the copy it works on.\<close>

lemma write_copy:
  assumes "sealable h n" "n = unat (hd_head_len h)" "0 < unat (d_bps dev)" "n + unat (d_bps dev) \<le> 2 ^ 31"
    and "flags AND HF_UPDATE_ALL = 0 \<or> flags AND HF_UPDATE_ALL = HF_UPDATE_ALL" "flags AND HF_CLEAR_SLOTS = 0" "inv w"
  defines "m \<equiv> round_up n (unat (d_bps dev))"
  obtains hcopy w1 where "plan_write dev h key flags = Some (Inr (\<lparr>wr_hdr_len = m, wr_mem_len = n, wr_offset = 0, wr_length = of_nat m\<rparr>, flags))"
    "clear_slots H h flags w = Some (h, w)" "n mod XTS_SECTOR_SIZE = 0" "n \<le> m" "m < 2 ^ 32"
    "dc_alloc H (max m PAGE_SIZE) w = (Some hcopy, w1)" "length hcopy = max m PAGE_SIZE" "inv w1" "disk w1 = disk w"
proof -
  have n: "2048 \<le> n" "512 dvd n" "length h = n" "DC_HDR_VERSION_2 \<le> hd_version h" using assms(1) by (simp_all add: sealable_def)
  obtain r where r: "ROUND_TO_FULL_SECTORS (hd_head_len h) (d_bps dev) = Some r" "unat r = m"
    using full_sectors [of n "d_bps dev"] assms(2-4) by (auto simp: m_def)
  have "DC_AREA_SIZE + unat (d_bps dev) \<le> 2 ^ 32" using n(1) assms(4) by (simp add: vol_sizes)
  then obtain q where q: "ROUND_TO_FULL_SECTORS (of_nat DC_AREA_SIZE) (d_bps dev) = Some q"
    using full_sectors [of DC_AREA_SIZE "d_bps dev"] assms(3) by auto
  obtain hcopy w1 where "dc_alloc H (max m PAGE_SIZE) w = (Some hcopy, w1)" "length hcopy = max m PAGE_SIZE" "inv w1" "disk w1 = disk w"
    using quiet_alloc [OF assms(7)] by metis
  moreover have "plan_write dev h key flags = Some (Inr (\<lparr>wr_hdr_len = m, wr_mem_len = n, wr_offset = 0, wr_length = of_nat m\<rparr>, flags))"
    using r q n(4) assms(2,5) by (auto simp: plan_write_def simp flip: r(2))
  moreover have "n \<le> m" "m < 2 ^ 32" using round_up_bounds [OF assms(3), of n] assms(4) by (simp_all add: m_def)
  ultimately show thesis
    using that assms(6) n(2) by (simp add: clear_slots_def XTS_SECTOR_SIZE_def mod_eq_0_iff_dvd)
qed

lemma sealable_copy:
  assumes "sealable h n" "n \<le> length hcopy" "length hcopy < 2 ^ 31"
  shows "rd 0 n h = Some h" "wr 0 h hcopy = Some (overlay 0 h hcopy)" "take n (overlay 0 h hcopy) = h" "length (overlay 0 h hcopy) = length hcopy"
    "is_volume_header_correct (Some (overlay 0 h hcopy)) = Some True"
proof -
  have n: "length h = n" "2048 \<le> n" "DC_HDR_VERSION_2 \<le> hd_version h" "header_valid h" "0 \<le> hd_footer_cnt h"
    using assms(1) by (simp_all add: sealable_def)
  show "rd 0 n h = Some h" "wr 0 h hcopy = Some (overlay 0 h hcopy)" "take n (overlay 0 h hcopy) = h" using n assms(2) by (simp_all add: overlay_def)
  show len: "length (overlay 0 h hcopy) = length hcopy" using n(1) assms(2) by (simp add: length_overlay)
  have "header_valid (overlay 0 h hcopy)"
    using n len assms(2) by (intro header_valid_base [OF n(4,3,5)]) (auto simp: nth_overlay)
  then show "is_volume_header_correct (Some (overlay 0 h hcopy)) = Some True"
    using is_volume_header_correct_iff [of "overlay 0 h hcopy"] len assms(3) by simp
qed

text \<open>A full write, for whatever way the key and the salt are chosen.\<close>

lemma write_full:
  assumes inv: "inv w" and Q: "\<And>salt key. Q salt key \<Longrightarrow> length salt = 64 \<and> (\<exists>x \<in> set salt. x \<noteq> 0) \<and> encrypt_p key \<noteq> xts_null \<and>
        local_pair (xts_encrypt S key) (xts_decrypt S key)"
    and h: "sealable h n" "n = unat (hd_head_len h)"
    and bps: "0 < unat (d_bps dev)" "n + unat (d_bps dev) \<le> 2 ^ 31"
    and flags: "flags AND HF_UPDATE_ALL = 0 \<or> flags AND HF_UPDATE_ALL = HF_UPDATE_ALL" "flags AND HF_CLEAR_SLOTS = 0"
    and room: "unat pos + round_up n (unat (d_bps dev)) \<le> length (disk w)"
    and args: "\<forall>k. hk = Some k \<longrightarrow> encrypt_p k \<noteq> xts_null" "\<forall>p. pw = Some p \<longrightarrow> p_size p \<noteq> 0"
    and key: "\<And>hcopy w. inv w \<Longrightarrow> n \<le> length hcopy \<Longrightarrow> take n hcopy = h \<Longrightarrow>
      \<exists>salt key w'. Q salt key \<and> seal_key H h hcopy hk pw w = Some (ST_OK, salt, Some key, overlay 0 salt hcopy, w') \<and> inv w' \<and> disk w' = disk w"
  obtains salt key b x w' where "Q salt key"
    "cp_encrypt_header S (Some (with_salt salt h)) (int n) (Some key) (Some (with_salt salt h)) = Some (ST_OK, Some b)"
    "length b = n" "length x = round_up n (unat (d_bps dev)) - n" "inv w'" "disk w' = overlay (unat pos) (b @ x) (disk w)"
    "io_write_header S H rw dev pos h hk pw flags w = Some (ST_OK, h, w')" "drawn H inv x"
proof -
  define m where "m = round_up n (unat (d_bps dev))"
  let ?rng = "\<lparr>wr_hdr_len = m, wr_mem_len = n, wr_offset = 0, wr_length = of_nat m\<rparr>"
  have n: "length h = n" "2048 \<le> n" using h(1) by (simp_all add: sealable_def)
  obtain hc w1 where plan: "plan_write dev h hk flags = Some (Inr (?rng, flags))" "clear_slots H h flags w = Some (h, w)"
      "n mod XTS_SECTOR_SIZE = 0" "n \<le> m" "m < 2 ^ 32"
    and hc: "dc_alloc H (max m PAGE_SIZE) w = (Some hc, w1)" "length hc = max m PAGE_SIZE" "inv w1" "disk w1 = disk w"
    using write_copy [OF h bps flags inv, of hk] unfolding m_def by metis
  have "m < 2 ^ 31" using round_up_less [OF bps(1), of n] bps(2) by (simp add: m_def)
  then have lh: "n \<le> length hc" "length hc < 2 ^ 31" using plan(4) hc(2) by (simp_all add: PAGE_SIZE_def)
  define hc1 where "hc1 = overlay 0 h hc"
  note cp = sealable_copy [OF h(1) lh, folded hc1_def]
  obtain salt key w2 where q: "Q salt key"
    and w2: "seal_key H h hc1 hk pw w1 = Some (ST_OK, salt, Some key, overlay 0 salt hc1, w2)" "inv w2" "disk w2 = disk w"
    using key [OF hc(3), of hc1] cp(3,4) lh hc(4) by metis
  obtain e d where loc: "xts_local (xts_encrypt S key) (xts_decrypt S key) e d" using Q [OF q] by (auto simp: local_pair_def)
  have salt: "length salt = 64" "\<exists>x \<in> set salt. x \<noteq> 0" and ek: "encrypt_p key \<noteq> xts_null" using Q [OF q] by simp_all
  have hc2: "take n (overlay 0 salt hc1) = with_salt salt h" "m \<le> length (overlay 0 salt hc1)"
    using salt(1) n hc(2) cp(3,4) by (auto simp: overlay_def with_salt_def take_drop drop_take)
  have room2: "unat pos + m \<le> length (disk w2)" using room w2(3) by (simp add: m_def)
  obtain b x w3 where b: "cp_encrypt_header S (Some (with_salt salt h)) (int n) (Some key) (Some (with_salt salt h)) = Some (ST_OK, Some b)"
      "length b = n" "length x = m - n" "inv w3" "disk w3 = overlay (unat pos) (b @ x) (disk w2)"
      "seal_and_write S H rw pos h (overlay 0 salt hc1) salt key ?rng flags w2 = Some (ST_OK, w3)" and drawn: "drawn H inv x"
    using seal_and_write_full [OF w2(2) loc ek n(1) with_salt_sealable [OF h(1) salt] salt(1) hc2 plan(4,5) flags(2) room2] by blast
  define w4 where "w4 = dc_free H (Some (overlay 0 salt hc1)) (if hk = None then dc_free H (Some key) w3 else w3)"
  have w4: "inv w4" "disk w4 = disk w3" using b(4) by (simp_all add: w4_def quiet_free)
  have "io_write_header S H rw dev pos h hk pw flags w = Some (ST_OK, h, w4)"
    using args plan(1,2,3) hc(1) cp(1,2,5) w2(1) b(6)
    by (cases hk; cases pw) (simp_all add: io_write_header_def w4_def Let_def del: rd_Some wr_Some)
  then show thesis using that [OF q b(1,2) _ w4(1), of x] b(3,5) w4(2) w2(3) drawn by (simp add: m_def)
qed

text \<open>The two sources of the key.\<close>

lemma seal_key_given:
  assumes "2048 \<le> n" "length h = n" "n \<le> length hcopy" "take n hcopy = h"
  shows "seal_key H h hcopy (Some key) pw w = Some (ST_OK, slice 0 64 h, Some key, overlay 0 (slice 0 64 h) hcopy, w)"
proof -
  have "overlay 0 (slice 0 64 h) hcopy = hcopy"
  proof (rule nth_equalityI)
    fix i assume "i < length (overlay 0 (slice 0 64 h) hcopy)"
    then have i: "i < length hcopy" using assms by (simp add: length_overlay)
    have "hcopy ! i = h ! i" if "i < n" using that assms(3,4) by (metis nth_take)
    then show "overlay 0 (slice 0 64 h) hcopy ! i = hcopy ! i" using i assms by (simp add: nth_overlay nth_slice)
  qed (use assms in \<open>simp add: length_overlay\<close>)
  then show ?thesis using assms by (simp add: seal_key_def vol_sizes rd_in del: rd_Some)
qed

lemma seal_key_derived:
  assumes inv: "inv w" and h: "2048 \<le> length h" "64 \<le> length hcopy"
    and dk: "derives H disk inv p (p_kdf p) F" and alg: "hd_alg_1 h \<in> {0..<CF_CIPHERS_NUM}"
  shows "\<exists>salt w0 w'. salt = fst (e_rand_bytes H 64 w0) \<and> length salt = 64 \<and>
    seal_key H h hcopy None (Some p) w =
      Some (ST_OK, salt, Some (snd (xts_set_key (F salt) (hd_alg_1 h) (e_key_block H))), overlay 0 salt hcopy, w') \<and> inv w' \<and> disk w' = disk w"
proof -
  obtain b w1 where b: "dc_alloc H (e_sizeof_xts_key H) w = (Some b, w1)" "inv w1" "disk w1 = disk w" using quiet_alloc [OF inv] by metis
  define w2 where "w2 = dc_rand_seed H (slice 0 2048 h) w1"
  have w2: "inv w2" "disk w2 = disk w" using quiet_seed b by (simp_all add: w2_def)
  obtain x w3 where x: "dc_rand H 64 w2 = (x, w3)" "length x = 64" "inv w3" "disk w3 = disk w" using quiet_rand [OF w2(1)] w2(2) by metis
  obtain w4 where w4: "dc_derive_key H p (p_kdf p) x (replicate PKCS_DERIVE_MAX 0) w3 = (1, F x, w4)" "inv w4" "disk w4 = disk w"
    using dk x(2-4) unfolding derives_def by metis
  have one: "fst (xts_set_key (F x) (hd_alg_1 h) (e_key_block H)) = 1" using alg by (auto simp: xts_set_key_def cf_defs)
  have "rd 0 2048 h = Some (slice 0 2048 h)" "wr 0 x hcopy = Some (overlay 0 x hcopy)" using h x(2) by simp_all
  then have "seal_key H h hcopy None (Some p) w =
      Some (ST_OK, x, Some (snd (xts_set_key (F x) (hd_alg_1 h) (e_key_block H))), overlay 0 x hcopy, w4)"
    using b(1) x(1) w4(1) one by (simp add: seal_key_def vol_sizes w2_def cp_set_header_key_def case_prod_beta del: rd_Some wr_Some)
  moreover have "x = fst (e_rand_bytes H 64 w2)" using x(1) by (simp add: dc_rand_def)
  ultimately show ?thesis using w4 x(2) by blast
qed

text \<open>Reading a range of the device into the start of a buffer.\<close>

lemma read_range:
  assumes "inv w" "unat pos + l \<le> length (disk w)" "l \<le> length buf" "l < 2 ^ 32"
  shows "rw buf (of_nat l) pos True w = Some (ST_OK, slice (unat pos) l (disk w) @ drop l buf, w)"
proof -
  have "min l (length (disk w) - unat pos) = l" using assms(2) by simp
  then show ?thesis using rw_read [OF assms(1), of pos "of_nat l" buf] assms by (simp add: overlay_def)
qed

lemma alloc_sectors:
  assumes "inv w" "len + unat bps \<le> 2 ^ 32" "0 < unat bps"
  obtains r b w' where "ROUND_TO_FULL_SECTORS (of_nat len) bps = Some r" "unat r = round_up len (unat bps)"
    "dc_alloc H (unat r) w = (Some b, w')" "len \<le> length b" "inv w'" "disk w' = disk w"
proof -
  obtain r where r: "ROUND_TO_FULL_SECTORS (of_nat len) bps = Some r" "unat r = round_up len (unat bps)"
    using full_sectors [OF assms(2,3)] by blast
  then obtain b w' where "dc_alloc H (unat r) w = (Some b, w')" "length b = unat r" "inv w'" "disk w' = disk w"
    using quiet_alloc [OF assms(1)] by metis
  then show thesis using that [OF r] r(2) round_up_ge [OF assms(3), of len] by simp
qed

lemma read_rest_sealed:
  assumes inv: "inv w" and l: "l < n" "l \<le> length header" "l \<le> length buff" and n: "n = unat (hd_head_len header)" "1024 \<le> l"
    and bps: "0 < unat (d_bps dev)" "max n PAGE_SIZE + unat (d_bps dev) \<le> 2 ^ 31"
    and room: "unat pos + n \<le> length (disk w)" "length (disk w) < 2 ^ 64" and buff: "take l buff = slice (unat pos) l (disk w)"
  obtains header' j w' where "read_rest H rw dev pos header buff l w = Some (ST_OK, Some header', Some (slice (unat pos) n (disk w) @ j), None, n, w')"
    "take l header' = take l header" "n \<le> length header'" "inv w'" "disk w' = disk w"
proof -
  have small: "max n PAGE_SIZE + unat (d_bps dev) \<le> 2 ^ 32" "n + unat (d_bps dev) \<le> 2 ^ 32" "n < 2 ^ 31"
    using bps by simp_all
  obtain r1 b1 w1 where b1: "ROUND_TO_FULL_SECTORS (of_nat (max n PAGE_SIZE)) (d_bps dev) = Some r1" "dc_alloc H (unat r1) w = (Some b1, w1)"
      "max n PAGE_SIZE \<le> length b1" "inv w1" "disk w1 = disk w"
    using alloc_sectors [OF inv small(1) bps(1)] by metis
  define buff2 where "buff2 = overlay 0 (slice 0 l header) buff"
  have l2: "take l buff2 = take l header" using l(2,3) by (simp add: buff2_def overlay_def slice_def min_def)
  have hl: "hd_head_len buff2 = hd_head_len header" unfolding hd_head_len_def by (rule fld_prefix [OF _ l2]) (use n(2) in simp)
  define w2 where "w2 = dc_free H (Some header) w1"
  have w2: "inv w2" "disk w2 = disk w" using b1 by (simp_all add: w2_def quiet_free)
  obtain r3 g w3 where g: "ROUND_TO_FULL_SECTORS (of_nat n) (d_bps dev) = Some r3" "dc_alloc H (unat r3) w2 = (Some g, w3)" "n \<le> length g"
      "inv w3" "disk w3 = disk w"
    using alloc_sectors [OF w2(1) small(2) bps(1)] w2(2) by metis
  define g2 where "g2 = overlay 0 (slice 0 l buff2) g"
  have g2: "take l g2 = take l header" "length g2 = length g"
  proof -
    have "l \<le> length buff2" using l(2,3) by (simp add: buff2_def length_overlay)
    then have "take l g2 = take l buff2" using g(3) l(1) by (simp add: g2_def overlay_def slice_def min_def)
    then show "take l g2 = take l header" by (simp add: l2)
    show "length g2 = length g" using g(3) l(1) by (simp add: g2_def length_overlay)
  qed
  have "hd_head_len g2 = hd_head_len header" unfolding hd_head_len_def by (rule fld_prefix [OF _ g2(1)]) (use n(2) in simp)
  then have hg: "unat (hd_head_len g2) = n" using n(1) by simp
  define b2 where "b2 = overlay 0 (slice 0 l buff) b1"
  define w4 where "w4 = dc_free H (Some buff2) w3"
  have w4: "inv w4" "disk w4 = disk w" using g by (simp_all add: w4_def quiet_free)
  have "take l b2 = take l buff" using l b1(3) by (simp add: b2_def overlay_def slice_def min_def)
  then have lb2: "length b2 = length b1" "take l b2 = slice (unat pos) l (disk w)"
    using l b1(3) buff by (simp_all add: b2_def length_overlay)
  have up: "unat (pos + of_nat l) = unat pos + l"
    using room l(1) small(3) by (simp add: unat_word_ariths(1))
  define y where "y = slice (unat pos + l) (n - l) (disk w) @ drop (n - l) (drop l b2)"
  have rd: "rw (drop l b2) (of_nat (n - l)) (pos + of_nat l) True w4 = Some (ST_OK, y, w4)"
  proof -
    have "n - l \<le> length (drop l b2)" "n - l < 2 ^ 32" "unat (pos + of_nat l) + (n - l) \<le> length (disk w4)"
      using room(1) l(1) lb2(1) b1(3) small(3) by (auto simp: up w4(2))
    from read_range [OF w4(1) this(3,1,2)] show ?thesis by (simp only: up w4(2) y_def)
  qed
  have ly: "l + length y = length b1" using room(1) l(1) lb2(1) b1(3) by (simp add: y_def)
  have "overlay l y b2 = slice (unat pos) l (disk w) @ y" using ly lb2 by (simp add: overlay_def)
  also have "\<dots> = slice (unat pos) n (disk w) @ drop (n - l) (drop l b2)"
    using take_add [of l "n - l" "drop (unat pos) (disk w)"] l(1) by (simp add: y_def slice_def add.commute)
  finally have whole: "overlay l y b2 = slice (unat pos) n (disk w) @ drop (n - l) (drop l b2)" .
  have steps: "rd 0 l buff = Some (slice 0 l buff)" "wr 0 (slice 0 l buff) b1 = Some b2" "rd 0 l header = Some (slice 0 l header)"
    "wr 0 (slice 0 l header) buff = Some buff2" "rd 0 l buff2 = Some (slice 0 l buff2)" "wr 0 (slice 0 l buff2) g = Some g2"
    "wr l y b2 = Some (overlay l y b2)"
    using l b1(3) g(3) ly lb2(1) by (auto simp: b2_def buff2_def g2_def length_overlay)
  have "read_rest H rw dev pos header buff l w = Some (ST_OK, Some g2, Some (overlay l y b2), None, n, w4)"
    using b1(1,2) g(1,2) rd steps hl hg n(1)
    by (simp add: read_rest_def Let_def w2_def [symmetric] w4_def [symmetric] del: rd_Some wr_Some of_nat_diff)
  then show thesis using that [of g2 "drop (n - l) (drop l b2)" w4] whole g2 g(3) w4 by simp
qed

lemma read_full_sealed:
  assumes inv: "inv w" and loc: "xts_local (xts_encrypt S key) (xts_decrypt S key) e d"
    and h: "sealable h n" "n = unat (hd_head_len h)"
    and b: "slice (unat pos) n (disk w) = b" "\<forall>k < n. clear_slot_byte h k \<longrightarrow> b ! k = h ! k" and q: "almost_plain h q"
    and p: "2048 < n \<Longrightarrow> xts_decrypt S key (drop 2048 b) (of_nat (n - 2048)) 2048 = Some (drop 2048 q)"
    and bps: "0 < unat (d_bps dev)" "max n PAGE_SIZE + unat (d_bps dev) \<le> 2 ^ 31"
    and room: "unat pos + n \<le> length (disk w)" "length (disk w) < 2 ^ 64"
    and l: "2048 \<le> l" "l \<le> n" and header: "length header = l" "take 2048 header = take 2048 q"
  shows "\<exists>j w'. io_read_header_full S H rw dev pos header key l w = Some (ST_OK, Some (h @ j), w') \<and> inv w' \<and> disk w' = disk w"
proof -
  have n: "length h = n" "n < 2 ^ 31" "DC_HDR_VERSION_2 \<le> hd_version h" using h(1) by (simp_all add: sealable_def)
  have lb: "length b = n" using b(1) room(1) by auto
  have base: "\<forall>k < 1024. header ! k = h ! k" using opened_base [OF q _ header(2)] n(1) l by simp
  have f: "hd_version header = hd_version h" "hd_head_len header = hd_head_len h"
    using base_fields [of header h] base header(1) n(1) l by simp_all
  have "sint (hd_head_len h) = int n"
    using n(2) by (simp add: h(2) sint_small)
  then have less: "(int l < sint (hd_head_len header)) = (l < n)" by (simp add: f)
  have "max l PAGE_SIZE + unat (d_bps dev) \<le> 2 ^ 32" using bps(2) l(2) by simp
  then obtain r buff w1 where buff: "ROUND_TO_FULL_SECTORS (of_nat (max l PAGE_SIZE)) (d_bps dev) = Some r" "dc_alloc H (unat r) w = (Some buff, w1)"
      "max l PAGE_SIZE \<le> length buff" "inv w1" "disk w1 = disk w"
    using alloc_sectors [OF inv _ bps(1)] by metis
  define buff1 where "buff1 = slice (unat pos) l (disk w) @ drop l buff"
  have rd: "rw buff (of_nat l) pos True w1 = Some (ST_OK, buff1, w1)"
    using read_range [OF buff(4), of pos l buff] room(1) l(2) buff(3,5) n(2) by (simp add: buff1_def)
  have more: "\<exists>g j w2. (if int l < sint (hd_head_len header) then read_rest H rw dev pos header buff1 l w1
       else Some (ST_OK, Some header, Some buff1, None, l, w1)) = Some (ST_OK, Some g, Some (b @ j), None, n, w2) \<and>
     take 2048 g = take 2048 header \<and> n \<le> length g \<and> inv w2 \<and> disk w2 = disk w"
  proof (cases "l < n")
    case True
    have "take l buff1 = slice (unat pos) l (disk w1)" "l \<le> length buff1"
      using room(1) l(2) buff(5) by (simp_all add: buff1_def min_def)
    then obtain g j w2 where g: "read_rest H rw dev pos header buff1 l w1 = Some (ST_OK, Some g, Some (slice (unat pos) n (disk w1) @ j), None, n, w2)"
        "take l g = take l header" "n \<le> length g" "inv w2" "disk w2 = disk w1"
      using read_rest_sealed [OF buff(4) True, of header buff1 dev pos] header(1) f(2) h(2) l bps room buff(5) by auto
    have "take 2048 g = take 2048 header" using g(2) l(1) by (metis min.absorb1 take_take)
    then show ?thesis using g True less b(1) buff(5) by auto
  next
    case False
    then have "buff1 = b @ drop n buff" "l = n" using b(1) l(2) by (auto simp: buff1_def)
    then show ?thesis using False less header(1) buff(4,5) by auto
  qed
  then obtain g j w2 where g: "(if int l < sint (hd_head_len header) then read_rest H rw dev pos header buff1 l w1
       else Some (ST_OK, Some header, Some buff1, None, l, w1)) = Some (ST_OK, Some g, Some (b @ j), None, n, w2)"
     "take 2048 g = take 2048 q" "n \<le> length g" "inv w2" "disk w2 = disk w" using header(2) by metis
  have "finish_read S key g (b @ j) n = Some (h @ drop n g)"
    using finish_read_sealed [OF loc h(1) lb b(2) q p g(3,2)] by blast
  then have "io_read_header_full S H rw dev pos header key l w = Some (ST_OK, Some (h @ drop n g), dc_free H (Some (b @ j)) w2)"
    using buff(1,2) rd g(1) f(1) leD [OF n(3)]
    by (simp add: io_read_header_full_def dc_free_def [of H None] split del: if_split)
  then show ?thesis using g(4,5) by (auto simp: quiet_free)
qed

lemma open_by_password:
  assumes inv: "inv w" and A: "aes_core_ok A" and p: "- 1 \<le> p_kdf p" "p_slot p = 0" and F: "derives H disk inv p (p_kdf p) F"
    and raw: "2048 \<le> length (out_header o1)" "out_dk o1 = None" "out_slot o1 = None"
    and alg: "alg \<in> {0..<CF_CIPHERS_NUM}" and first: "opens_first A (F (hd_salt (out_header o1))) (out_header o1) alg"
    and ok: "is_volume_header_correct (Some (plain_under A (F (hd_salt (out_header o1))) (out_header o1) alg)) = Some True"
  shows "\<exists>k w'. cp_decrypt_header (scalar_selection A) H None o1 l p w =
      Some (1, o1\<lparr>out_key := snd (xts_set_key (F (hd_salt (out_header o1))) alg k),
                  out_header := opened (out_header o1) (plain_under A (F (hd_salt (out_header o1))) (out_header o1) alg),
                  out_kdf := map_option (\<lambda>_. p_kdf p) (out_kdf o1)\<rparr>, w') \<and> inv w' \<and> disk w' = disk w"
proof -
  let ?raw = "out_header o1" and ?dk = "F (hd_salt (out_header o1))"
  let ?hc = "plain_under A ?dk ?raw alg"
  obtain b w1 where b: "dc_alloc H DC_AREA_SIZE w = (Some b, w1)" "length b = DC_AREA_SIZE" "inv w1" "disk w1 = disk w"
    using quiet_alloc [OF inv] by metis
  have "length (hd_salt ?raw) = 64" using raw(1) by (simp add: hd_salt_def vol_sizes)
  then obtain w2 where w2: "dc_derive_key H p (p_kdf p) (hd_salt ?raw) (replicate PKCS_DERIVE_MAX 0) w1 = (1, ?dk, w2)" "inv w2" "disk w2 = disk w"
    using F b(3,4) unfolding derives_def by metis
  have len: "DC_AREA_SIZE \<le> length ?raw" using raw(1) by (simp add: vol_sizes)
  have find: "find (\<lambda>a. is_volume_header_correct (Some (plain_under A ?dk ?raw a)) \<noteq> Some False) [0..CF_CIPHERS_NUM - 1] = Some alg"
    using first ok alg by (intro find_first) (auto simp: opens_first_def)
  obtain k where k: "try_decrypt_header (scalar_selection A) ?dk (out_key o1) ?raw b = Some (1, snd (xts_set_key ?dk alg k), ?hc)"
    using try_ciphers_find [OF A len, of 0 b ?dk "out_key o1"] b(2) ok alg by (auto simp: find try_decrypt_header_def)
  have hc: "length ?hc = 2048" using plain_under_decrypt(2) [OF A alg len] by (simp add: vol_sizes)
  have "cp_decrypt_header_with_kdf (scalar_selection A) H o1 l p (p_kdf p) w =
      Some (1, o1\<lparr>out_key := snd (xts_set_key ?dk alg k), out_header := opened ?raw ?hc\<rparr>, dc_free H (Some ?hc) w2)"
    using b(1) w2(1) k restore_plain_opened [OF hc raw(1)] p(2) raw(2,3)
    by (simp add: cp_decrypt_header_with_kdf_def open_with_key_def)
  then have "cp_decrypt_header (scalar_selection A) H None o1 l p w =
      Some (1, o1\<lparr>out_key := snd (xts_set_key ?dk alg k), out_header := opened ?raw ?hc, out_kdf := map_option (\<lambda>_. p_kdf p) (out_kdf o1)\<rparr>,
            dc_free H (Some ?hc) w2)"
    using p(1) by (simp add: cp_decrypt_header_def interrupted_def)
  then show ?thesis using w2 by (metis quiet_free)
qed

lemma read_length:
  assumes "p_slot p = 0" "0 < unat (d_bps dev)" "unat (d_bps dev) dvd n" "unat (d_head_len dev) \<le> n" "2048 \<le> n"
    "n + unat (d_bps dev) \<le> 2 ^ 31"
  obtains r where "ROUND_TO_FULL_SECTORS (of_int (max (sint (d_head_len dev)) (cp_get_min_header_len p))) (d_bps dev) = Some r"
    "2048 \<le> unat r" "unat r \<le> n"
proof -
  let ?m = "max (unat (d_head_len dev)) 2048"
  have "sint (d_head_len dev) = int (unat (d_head_len dev))" using assms by (intro sint_small) simp
  then have m: "max (sint (d_head_len dev)) (cp_get_min_header_len p) = int ?m"
    using assms(1) by (simp add: cp_get_min_header_len_def vol_sizes of_nat_max)
  have le: "?m \<le> n" using assms by simp
  obtain r where r: "ROUND_TO_FULL_SECTORS (of_nat ?m) (d_bps dev) = Some r" "unat r = round_up ?m (unat (d_bps dev))"
  proof -
    have "?m + unat (d_bps dev) \<le> 2 ^ 31" using le assms(6) by linarith
    then have "?m + unat (d_bps dev) \<le> 2 ^ 32" by simp
    from full_sectors [OF this assms(2)] show thesis using that by blast
  qed
  have "round_up ?m (unat (d_bps dev)) \<le> round_up n (unat (d_bps dev))" by (rule round_up_mono [OF le])
  then have "unat r \<le> n" "2048 \<le> unat r" using r(2) round_up_exact [OF assms(2,3)] round_up_ge [OF assms(2), of ?m] by simp_all
  then show thesis using that [of r] r(1) by (simp add: m)
qed

lemma read_header_sealed:
  assumes inv: "inv w" and A: "aes_core_ok A" and p: "- 1 \<le> p_kdf p" "p_slot p = 0" and F: "derives H disk inv p (p_kdf p) F"
    and h: "sealable h n" "n = unat (hd_head_len h)" "hd_alg_1 h \<in> {0..<CF_CIPHERS_NUM}"
    and c: "xts_encrypt (scalar_selection A) (snd (xts_set_key (F (hd_salt h)) (hd_alg_1 h) k0)) h (of_nat n) 0 = Some c"
    and b: "slice (unat pos) n (disk w) = b" "\<forall>k < n. b ! k = (if k < 64 \<or> clear_slot_byte h k then h ! k else c ! k)"
    and first: "opens_first A (F (hd_salt h)) b (hd_alg_1 h)"
    and dev: "0 < unat (d_bps dev)" "unat (d_bps dev) dvd n" "unat (d_head_len dev) \<le> n" "max n PAGE_SIZE + unat (d_bps dev) \<le> 2 ^ 31"
    and room: "unat pos + n \<le> length (disk w)" "length (disk w) < 2 ^ 64"
  shows "\<exists>key j w'. io_read_header (scalar_selection A) H rw None dev pos True p kdf w =
      Some (ST_OK, Some (h @ j), Some key, map_option (\<lambda>_. p_kdf p) kdf, w') \<and> inv w' \<and> disk w' = disk w"
proof -
  let ?S = "scalar_selection A" and ?dk = "F (hd_salt h)" and ?alg = "hd_alg_1 h"
  have n: "length h = n" "2048 \<le> n" "n < 2 ^ 31" using h(1) by (simp_all add: sealable_def)
  have lb: "length b = n" using b(1) room(1) by auto
  define hc where "hc = plain_under A ?dk b ?alg"
  obtain q where q: "almost_plain h q" "take 64 b @ drop 64 hc = take 2048 q" "length hc = 2048"
      "\<And>k. 2048 < n \<Longrightarrow> xts_decrypt ?S (snd (xts_set_key ?dk ?alg k)) (drop 2048 b) (of_nat (n - 2048)) 2048 = Some (drop 2048 q)"
    and ok: "is_volume_header_correct (Some hc) = Some True"
    by (rule image_opens [OF A h(1,3) c lb b(2) first, folded hc_def]) blast
  obtain r where r: "ROUND_TO_FULL_SECTORS (of_int (max (sint (d_head_len dev)) (cp_get_min_header_len p))) (d_bps dev) = Some r"
      "2048 \<le> unat r" "unat r \<le> n"
    by (rule read_length [OF p(2) dev(1-3) n(2)]) (use dev(4) in auto)
  obtain buf w1 where buf: "dc_alloc H (unat r) w = (Some buf, w1)" "length buf = unat r" "inv w1" "disk w1 = disk w"
    using quiet_alloc [OF inv] by metis
  define raw where "raw = take (unat r) b"
  have "slice (unat pos) (unat r) (disk w) = raw" using b(1) r(3) by (auto simp: raw_def slice_def min_def)
  then have rd: "rw buf r pos True w1 = Some (ST_OK, raw, w1)"
    using read_range [OF buf(3), of pos "unat r" buf] room(1) r(3) buf(2,4) n(3) by simp
  have raw: "length raw = unat r" "take 2048 raw = take 2048 b" "take 64 raw = take 64 b" using r(2,3) lb by (simp_all add: raw_def min_def)
  have salt: "hd_salt raw = hd_salt h"
    using b(2) lb n(1,2) raw r(2) by (auto simp: hd_salt_def vol_sizes slice_def intro!: nth_equalityI)
  have same: "plain_under A ?dk raw a = plain_under A ?dk b a" if "a \<in> {0..<CF_CIPHERS_NUM}" for a
    using plain_under_prefix [OF A that, of raw b] raw r(2) by simp
  obtain kb w2 where kb: "dc_alloc H (e_sizeof_xts_key H) w1 = (Some kb, w2)" "inv w2" "disk w2 = disk w" using quiet_alloc [OF buf(3)] buf(4) by metis
  let ?o = "\<lparr>out_key = e_key_block H, out_header = raw, out_dk = None, out_slot = None, out_kdf = kdf\<rparr>"
  have hcr: "plain_under A ?dk raw ?alg = hc" using same [OF h(3)] by (simp add: hc_def)
  have f2: "opens_first A (F (hd_salt (out_header ?o))) (out_header ?o) ?alg"
    using first same h(3) by (simp add: opens_first_def salt)
  obtain k w3 where op: "cp_decrypt_header ?S H None ?o (int (unat r)) p w2 =
      Some (1, ?o\<lparr>out_key := snd (xts_set_key ?dk ?alg k), out_header := opened raw hc, out_kdf := map_option (\<lambda>_. p_kdf p) kdf\<rparr>, w3)"
      "inv w3" "disk w3 = disk w"
    using open_by_password [OF kb(2) A p F _ _ _ h(3) f2, of "int (unat r)"] raw(1) r(2) hcr ok kb(3) by (auto simp: salt)
  obtain e d where loc: "xts_local (xts_encrypt ?S (snd (xts_set_key ?dk ?alg k))) (xts_decrypt ?S (snd (xts_set_key ?dk ?alg k))) e d"
    using key_local [OF A h(3)] unfolding local_pair_def by metis
  have opened: "take 2048 (opened raw hc) = take 2048 q" "length (opened raw hc) = unat r"
    using q(2,3) raw r(2) lb n(2) by (simp_all add: opened_def)
  have "\<exists>j w'. io_read_header_full ?S H rw dev pos (opened raw hc) (snd (xts_set_key ?dk ?alg k)) (unat r) w3 = Some (ST_OK, Some (h @ j), w') \<and>
      inv w' \<and> disk w' = disk w3"
    by (rule read_full_sealed [OF op(2) loc h(1,2) _ _ q(1) _ dev(1,4) _ _ r(2,3) opened(2,1)])
      (use b room op(3) q(4) in auto)
  then obtain j w4 where fin: "io_read_header_full ?S H rw dev pos (opened raw hc) (snd (xts_set_key ?dk ?alg k)) (unat r) w3 = Some (ST_OK, Some (h @ j), w4)"
      "inv w4" "disk w4 = disk w" using op(3) by metis
  have "io_read_header ?S H rw None dev pos True p kdf w =
      Some (ST_OK, Some (h @ j), Some (snd (xts_set_key ?dk ?alg k)), map_option (\<lambda>_. p_kdf p) kdf, w4)"
    using r(1) buf(1) rd kb(1) op(1) fin(1) by (simp add: io_read_header_def Let_def)
  then show ?thesis using fin by blast
qed

end

text \<open>The memory device with a host that hands out zeroed blocks and random bytes from a fixed seed.\<close>

definition buffer_env :: "bytes \<Rightarrow> dc_buffer env" where
  "buffer_env seed = \<lparr>e_secure_alloc = (\<lambda>n w. (Some (replicate n 0), w)), e_secure_free = (\<lambda>w. w),
     e_rand_bytes = (\<lambda>n w. (take n (seed @ replicate n 7), w)), e_rand_add_seed = None, e_wipe = None,
     e_argon2id = (\<lambda>t m p pw salt out w. (False, out, w)), e_sizeof_xts_key = 0, e_key_block = undefined\<rparr>"

interpretation buffer_header: header_device dc_buffer_rw buffer_disk buffer_inv "buffer_env seed" for seed
  by unfold_locales (auto simp: buffer_env_def)

context header_device
begin

lemma write_given:
  assumes "aes_core_ok A" and "xts_set_key dk alg k = (1, key)" and "inv w"
    and "sealable h n" and "n = unat (hd_head_len h)" and "0 < unat (d_bps dev)" and "n + unat (d_bps dev) \<le> 2 ^ 31"
    and "flags AND HF_UPDATE_ALL = 0 \<or> flags AND HF_UPDATE_ALL = HF_UPDATE_ALL" and "flags AND HF_CLEAR_SLOTS = 0"
    and "unat pos + round_up n (unat (d_bps dev)) \<le> length (disk w)" and "\<forall>p. pw = Some p \<longrightarrow> p_size p \<noteq> 0"
  shows "\<exists>b x w'. io_write_header (scalar_selection A) H rw dev pos h (Some key) pw flags w = Some (ST_OK, h, w') \<and>
    cp_encrypt_header (scalar_selection A) (Some h) (int n) (Some key) (Some h) = Some (ST_OK, Some b) \<and>
    length b = n \<and> length (b @ x) = round_up n (unat (d_bps dev)) \<and> drawn H inv x \<and> inv w' \<and> disk w' = overlay (unat pos) (b @ x) (disk w)"
proof -
  have h: "2048 \<le> n" "length h = n" "\<exists>x \<in> set (slice 0 64 h). x \<noteq> 0"
    using assms(4) by (simp_all add: sealable_def header_valid_def hd_salt_def vol_sizes)
  have ek: "encrypt_p key \<noteq> xts_null" using assms(2) by (auto simp: xts_set_key_def split: if_splits)
  have len: "n \<le> round_up n (unat (d_bps dev))" by (rule round_up_ge [OF assms(6)])
  let ?Q = "\<lambda>salt key'. salt = slice 0 64 h \<and> key' = key"
  obtain b x w' where b: "cp_encrypt_header (scalar_selection A) (Some (with_salt (slice 0 64 h) h)) (int n) (Some key) (Some (with_salt (slice 0 64 h) h)) =
        Some (ST_OK, Some b)" "length b = n" "length x = round_up n (unat (d_bps dev)) - n" "inv w'"
      "disk w' = overlay (unat pos) (b @ x) (disk w)" "io_write_header (scalar_selection A) H rw dev pos h (Some key) pw flags w = Some (ST_OK, h, w')" "drawn H inv x"
  proof (rule write_full [OF assms(3) _ assms(4-10) _ assms(11), where Q = ?Q and hk = "Some key" and S = "scalar_selection A"])
    show "length salt = 64 \<and> (\<exists>x \<in> set salt. x \<noteq> 0) \<and> encrypt_p key' \<noteq> xts_null \<and>
        local_pair (xts_encrypt (scalar_selection A) key') (xts_decrypt (scalar_selection A) key')" if "?Q salt key'" for salt key'
      using that h ek xts_set_key_local [OF assms(1,2)] by simp
    show "\<exists>salt key' w'. ?Q salt key' \<and> seal_key H h hcopy (Some key) pw w = Some (ST_OK, salt, Some key', overlay 0 salt hcopy, w') \<and> inv w' \<and> disk w' = disk w"
      if "inv w" "n \<le> length hcopy" "take n hcopy = h" for hcopy w
      using seal_key_given [OF h(1,2) that(2,3), of key pw w] that(1) by auto
  qed (use ek in auto)
  have "length (b @ x) = round_up n (unat (d_bps dev))" using b(2,3) len by simp
  then show ?thesis using b unfolding with_salt_same by blast
qed

end

section \<open>Properties\<close>

text \<open>
  C16 (refinement): a full write of a header with a given key stores what sealing in memory makes.  On every
  device that keeps the block device contract, for each of the seven algorithms, the write succeeds; the sectors
  at the position hold the image that \<^verbatim>\<open>cp_encrypt_header\<close> gives for the header, followed up to the
  sector boundary by bytes that the random generator of the host gave, and the rest of the device is unchanged.
\<close>

theorem io_write_header_image:
  assumes "header_device rw disk ok H" and "aes_core_ok A" and "xts_set_key dk alg k = (1, key)" and "ok w"
    and "sealable h n" and "n = unat (hd_head_len h)" and "0 < unat (d_bps dev)" and "n + unat (d_bps dev) \<le> 2 ^ 31"
    and "flags AND HF_UPDATE_ALL = 0 \<or> flags AND HF_UPDATE_ALL = HF_UPDATE_ALL" and "flags AND HF_CLEAR_SLOTS = 0"
    and "unat pos + round_up n (unat (d_bps dev)) \<le> length (disk w)" and "\<forall>p. pw = Some p \<longrightarrow> p_size p \<noteq> 0"
  shows "\<exists>b x w'. io_write_header (scalar_selection A) H rw dev pos h (Some key) pw flags w = Some (ST_OK, h, w') \<and>
    cp_encrypt_header (scalar_selection A) (Some h) (int n) (Some key) (Some h) = Some (ST_OK, Some b) \<and>
    length b = n \<and> length (b @ x) = round_up n (unat (d_bps dev)) \<and> drawn H ok x \<and> ok w' \<and> disk w' = overlay (unat pos) (b @ x) (disk w)"
  by (rule header_device.write_given [OF assms])

text \<open>The image that is stored for a header under a derived key, and the salts for which a reader finds it.\<close>

definition image_under :: "aes_core \<Rightarrow> bytes \<Rightarrow> xts_key \<Rightarrow> bytes \<Rightarrow> bytes" where
  "image_under A dk k h =
     the (snd (the (cp_encrypt_header (scalar_selection A) (Some h) (int (length h)) (Some (snd (xts_set_key dk (hd_alg_1 h) k))) (Some h))))"

definition usable_salt :: "aes_core \<Rightarrow> (bytes \<Rightarrow> bytes) \<Rightarrow> xts_key \<Rightarrow> bytes \<Rightarrow> bytes \<Rightarrow> bool" where
  "usable_salt A F k h salt \<longleftrightarrow> (\<exists>x \<in> set salt. x \<noteq> 0) \<and>
     opens_first A (F salt) (image_under A (F salt) k (with_salt salt h)) (hd_alg_1 h)"

text \<open>
  C5 (roundtrip): a header written with a password opens with that password.  The write draws a fresh salt,
  derives the key from it and stores the sealed header; reading at the same position with the same password
  derives the key again from the stored salt, finds the algorithm, reads the rest, and gives back every byte of
  the header with the new salt.  The hypothesis on the random salts excludes a salt of zeroes (which the check
  refuses), a salt that decrypts to zeroes, and an image that an earlier algorithm of the search accepts.
\<close>

theorem header_write_open:
  assumes "header_device rw disk ok H" and "aes_core_ok A" and "ok w" and "sealable h n" and "n = unat (hd_head_len h)"
    and "hd_alg_1 h \<in> {0..<CF_CIPHERS_NUM}" and "- 1 \<le> p_kdf p" and "p_slot p = 0" and "p_size p \<noteq> 0" and "derives H disk ok p (p_kdf p) F"
    and "\<forall>w. usable_salt A F (e_key_block H) h (fst (e_rand_bytes H 64 w))"
    and "0 < unat (d_bps dev)" and "unat (d_bps dev) dvd n" and "unat (d_head_len dev) \<le> n" and "max n PAGE_SIZE + unat (d_bps dev) \<le> 2 ^ 31"
    and "flags AND HF_UPDATE_ALL = 0 \<or> flags AND HF_UPDATE_ALL = HF_UPDATE_ALL" and "flags AND HF_CLEAR_SLOTS = 0"
    and "unat pos + n \<le> length (disk w)" and "length (disk w) < 2 ^ 64"
  shows "\<exists>salt key j w' w''. io_write_header (scalar_selection A) H rw dev pos h None (Some p) flags w = Some (ST_OK, h, w') \<and>
    length salt = 64 \<and> io_read_header (scalar_selection A) H rw None dev pos True p kdf w' =
      Some (ST_OK, Some (with_salt salt h @ j), Some key, map_option (\<lambda>_. p_kdf p) kdf, w'') \<and> disk w'' = disk w'"
proof -
  let ?S = "scalar_selection A" and ?k = "e_key_block H" and ?alg = "hd_alg_1 h"
  have h: "2048 \<le> n" "length h = n" using assms(4) by (simp_all add: sealable_def)
  have up: "round_up n (unat (d_bps dev)) = n" by (rule round_up_exact [OF assms(12,13)])
  let ?Q = "\<lambda>salt key. length salt = 64 \<and> usable_salt A F ?k h salt \<and> key = snd (xts_set_key (F salt) ?alg ?k)"
  obtain salt key b x w' where q: "?Q salt key"
    and b: "cp_encrypt_header ?S (Some (with_salt salt h)) (int n) (Some key) (Some (with_salt salt h)) = Some (ST_OK, Some b)"
      "length b = n" "length x = round_up n (unat (d_bps dev)) - n" "ok w'" "disk w' = overlay (unat pos) (b @ x) (disk w)"
      "io_write_header ?S H rw dev pos h None (Some p) flags w = Some (ST_OK, h, w')"
  proof (rule header_device.write_full [OF assms(1,3) _ assms(4,5,12) _ assms(16,17), where Q = ?Q and hk = None and S = ?S and pw = "Some p"])
    show "length salt = 64 \<and> (\<exists>x \<in> set salt. x \<noteq> 0) \<and> encrypt_p key \<noteq> xts_null \<and> local_pair (xts_encrypt ?S key) (xts_decrypt ?S key)"
      if "?Q salt key" for salt key
      using that key_local [OF assms(2,6)] by (auto simp: usable_salt_def)
    show "\<exists>salt key w'. ?Q salt key \<and> seal_key H h hcopy None (Some p) w = Some (ST_OK, salt, Some key, overlay 0 salt hcopy, w') \<and> ok w' \<and> disk w' = disk w"
      if "ok w" "n \<le> length hcopy" "take n hcopy = h" for hcopy w
      using header_device.seal_key_derived [OF assms(1) that(1) _ _ assms(10,6), of hcopy] that(2) h assms(11) by fastforce
  qed (use assms(9,15,18) up in auto)
  define g where "g = with_salt salt h"
  have salt: "length salt = 64" "\<exists>x \<in> set salt. x \<noteq> 0" "key = snd (xts_set_key (F salt) ?alg ?k)" using q by (auto simp: usable_salt_def)
  note f = with_salt_fields [OF salt(1), of h, folded g_def]
  have g: "sealable g n" unfolding g_def by (rule with_salt_sealable [OF assms(4) salt(1,2)])
  then have lg: "length g = n" by (simp add: sealable_def)
  have img: "image_under A (F salt) ?k g = b" using b(1) by (simp add: image_under_def g_def [symmetric] lg f salt(3))
  have first: "opens_first A (F (hd_salt g)) b (hd_alg_1 g)" using q img by (simp add: usable_salt_def g_def [symmetric] f)
  obtain e d where loc: "xts_local (xts_encrypt ?S key) (xts_decrypt ?S key) e d"
    using key_local(1) [OF assms(2,6)] unfolding local_pair_def salt(3) by metis
  obtain c where c: "xts_encrypt ?S key g (of_nat n) 0 = Some c" and bk: "\<forall>k < n. b ! k = (if k < 64 \<or> clear_slot_byte g k then g ! k else c ! k)"
    using seal_bytes [OF loc _ g lg] key_local(2) [OF assms(2,6)] b(1) salt(3) by (auto simp: g_def [symmetric])
  have dk: "slice (unat pos) n (disk w') = b" "length (disk w') = length (disk w)"
    using b(2,3,5) up assms(18) slice_overlay_same [of "unat pos" b "disk w"] by (simp_all add: length_overlay)
  have "\<exists>key j w''. io_read_header ?S H rw None dev pos True p kdf w' = Some (ST_OK, Some (g @ j), Some key, map_option (\<lambda>_. p_kdf p) kdf, w'') \<and>
      ok w'' \<and> disk w'' = disk w'"
    by (rule header_device.read_header_sealed [OF assms(1) b(4) assms(2,7,8,10) g _ _ _ dk(1) bk first assms(12-15)])
      (use assms(5,6,18,19) c dk(2) salt(3) in \<open>auto simp: f\<close>)
  then show ?thesis using b(6) salt(1) unfolding g_def by blast
qed

section \<open>Instances\<close>

text \<open>A header of one area with its length set, a memory device of eight sectors, and a password used as the key.\<close>

definition disk_header :: bytes where
  "disk_header = (let h = replicate 64 1 @ replicate 1984 0;
                      h = set_fld 64 4 DC_VOLUME_SIGN h; h = set_fld 72 2 DC_HDR_VERSION_2 h; h = set_fld 614 4 (2048 :: u32) h
                  in set_fld 68 4 (crc32 (slice 72 952 h)) h)"

definition disk_dev :: dc_dev where
  "disk_dev = \<lparr>d_bps = 512, d_dsk_size = 4096, d_head_len = 2048, d_tail_len = 2048, d_stor_len = 0, d_stor_off = 0, d_opt = 0\<rparr>"

definition disk_buffer :: dc_buffer where
  "disk_buffer = \<lparr>b_data = Some (replicate 4096 0), b_size = 4096\<rparr>"

definition disk_pass :: dc_pass where
  "disk_pass = \<lparr>p_size = 256, p_pass = replicate 256 9, p_kdf = -1, p_slot = 0, p_flags = 0, p_label = replicate 20 0\<rparr>"

lemma le_word_zero [simp]: "le_word (replicate n 0) = 0"
  by (induction n) simp_all

lemma fld_zero: "off + n \<le> m \<Longrightarrow> fld off n (replicate m 0) = 0"
  by (simp add: fld_def slice_def min_def)

lemma fld_set_other:
  assumes "off + n \<le> length h" "o' + m \<le> length h" "o' + m \<le> off \<or> off + n \<le> o'"
  shows "(fld o' m (set_fld off n (v :: 'b::len word) h) :: 'a::len word) = fld o' m h"
  using assms by (simp add: set_fld_def fld_overlay_other)

lemma disk_header_fields:
  "length disk_header = 2048" "hd_version disk_header = DC_HDR_VERSION_2" "hd_footer_cnt disk_header = 0"
  "hd_sign disk_header = DC_VOLUME_SIGN" "hd_salt disk_header = replicate 64 1" "hd_head_len disk_header = 2048"
  "hd_feature_flags disk_header = 0" "hd_alg_1 disk_header = 0" "hd_hdr_crc disk_header = crc32 (slice 72 952 disk_header)"
proof -
  let ?z = "replicate 64 1 @ replicate 1984 0 :: bytes"
  let ?h = "set_fld 614 4 (2048 :: u32) (set_fld 72 2 DC_HDR_VERSION_2 (set_fld 64 4 DC_VOLUME_SIGN ?z))"
  have s: "disk_header = set_fld 68 4 (crc32 (slice 72 952 ?h)) ?h" by (simp add: disk_header_def Let_def)
  have zero: "(fld off n ?z :: 'a::len word) = 0" if "64 \<le> off" "off + n \<le> 2048" for off n
  proof -
    have "slice off n ?z = replicate n 0" using that by (simp add: slice_def)
    then show ?thesis by (simp add: fld_def)
  qed
  show "length disk_header = 2048" by (simp add: s)
  show "hd_version disk_header = DC_HDR_VERSION_2" "hd_sign disk_header = DC_VOLUME_SIGN" "hd_head_len disk_header = 2048"
    by (simp_all add: s hd_version_def hd_sign_def hd_head_len_def fld_set_other fld_set_same)
  show "hd_footer_cnt disk_header = 0" "hd_feature_flags disk_header = 0" "hd_alg_1 disk_header = 0"
    by (simp_all add: s hd_footer_cnt_def hd_feature_flags_def hd_alg_1_def fld_set_other zero)
  show "hd_salt disk_header = replicate 64 1"
    by (simp add: s hd_salt_def HEADER_SALT_SIZE_def set_fld_def slice_def overlay_def)
  have "slice 72 952 disk_header = slice 72 952 ?h"
    unfolding s by (subst set_fld_def, subst slice_overlay_other) simp_all
  then show "hd_hdr_crc disk_header = crc32 (slice 72 952 disk_header)"
    unfolding hd_hdr_crc_def by (simp only: s) (simp add: fld_set_same)
qed

lemma disk_header_sealable: "sealable disk_header 2048"
proof -
  have "\<not> slots_copied disk_header" by (simp add: slots_copied_def disk_header_fields)
  then show ?thesis
    by (simp add: sealable_def layout_ok_def disk_header_fields header_valid_def crc_area_len_def vol_sizes)
qed

lemma disk_buffer_facts: "buffer_inv disk_buffer" "length (buffer_disk disk_buffer) = 4096"
  by (simp_all add: buffer_inv_def buffer_disk_def disk_buffer_def)

text \<open>A write to sectors of 4096 bytes, so that 2048 random bytes follow the header.\<close>

theorem io_write_header_image_witness:
  "\<exists>b x w'. io_write_header (scalar_selection fips197_core) (buffer_env [3]) dc_buffer_rw (disk_dev\<lparr>d_bps := 4096\<rparr>) 0 disk_header
      (Some (snd (xts_set_key (replicate 192 5) CF_TWOFISH_SERPENT undefined))) None HF_HEADER_FILL disk_buffer = Some (ST_OK, disk_header, w') \<and>
    cp_encrypt_header (scalar_selection fips197_core) (Some disk_header) (int 2048)
      (Some (snd (xts_set_key (replicate 192 5) CF_TWOFISH_SERPENT undefined))) (Some disk_header) = Some (ST_OK, Some b) \<and>
    length b = 2048 \<and> x = 3 # replicate 2047 7 \<and> buffer_disk w' = b @ x"
proof -
  let ?key = "snd (xts_set_key (replicate 192 5) CF_TWOFISH_SERPENT undefined)"
  have key: "xts_set_key (replicate 192 5) CF_TWOFISH_SERPENT undefined = (1, ?key)"
    by (simp add: xts_set_key_def cf_defs)
  have "\<exists>b x w'. io_write_header (scalar_selection fips197_core) (buffer_env [3]) dc_buffer_rw (disk_dev\<lparr>d_bps := 4096\<rparr>) 0 disk_header
      (Some ?key) None HF_HEADER_FILL disk_buffer = Some (ST_OK, disk_header, w') \<and>
    cp_encrypt_header (scalar_selection fips197_core) (Some disk_header) (int 2048) (Some ?key) (Some disk_header) = Some (ST_OK, Some b) \<and>
    length b = 2048 \<and> length (b @ x) = round_up 2048 (unat (d_bps (disk_dev\<lparr>d_bps := 4096\<rparr>))) \<and> drawn (buffer_env [3]) buffer_inv x \<and>
    buffer_inv w' \<and> buffer_disk w' = overlay (unat (0 :: u64)) (b @ x) (buffer_disk disk_buffer)"
    by (rule io_write_header_image [OF buffer_header.header_device_axioms fips197_core_ok key disk_buffer_facts(1) disk_header_sealable])
      (simp_all add: disk_header_fields disk_buffer_facts hf_defs round_up_def)
  then obtain b x w' where w: "io_write_header (scalar_selection fips197_core) (buffer_env [3]) dc_buffer_rw (disk_dev\<lparr>d_bps := 4096\<rparr>) 0 disk_header
      (Some ?key) None HF_HEADER_FILL disk_buffer = Some (ST_OK, disk_header, w')"
    "cp_encrypt_header (scalar_selection fips197_core) (Some disk_header) (int 2048) (Some ?key) (Some disk_header) = Some (ST_OK, Some b)"
    "length b = 2048" "length (b @ x) = 4096" "drawn (buffer_env [3]) buffer_inv x"
    "buffer_disk w' = overlay 0 (b @ x) (buffer_disk disk_buffer)"
    by (auto simp: round_up_def)
  have "x = take 2048 (3 # replicate 2048 7)" using w(3-5) by (auto simp: drawn_def buffer_env_def)
  then have "x = 3 # replicate 2047 7" by (simp add: take_Cons')
  moreover have "buffer_disk w' = b @ x" using w(4,6) disk_buffer_facts(2) by (simp add: overlay_def)
  ultimately show ?thesis using w(1-3) by blast
qed

text \<open>A salt that decrypts to a repeated byte under the password's key, chosen among two so that it is not zero.\<close>

definition block_salt :: "u8 \<Rightarrow> bytes" where
  "block_salt v = take 64 (the (xts_encrypt (scalar_selection fips197_core) (snd (xts_set_key (replicate 192 9) 0 undefined)) (replicate 2048 v) 2048 0))"

definition disk_salt :: bytes where
  "disk_salt = (if block_salt 1 = replicate 64 0 then block_salt 2 else block_salt 1)"

lemma block_salt_plain:
  "length (block_salt v) = 64"
  "length b = 2048 \<Longrightarrow> take 64 b = block_salt v \<Longrightarrow> take 64 (plain_under fips197_core (replicate 192 9) b 0) = replicate 64 v"
proof -
  let ?S = "scalar_selection fips197_core" and ?key = "snd (xts_set_key (replicate 192 9) 0 undefined)"
  have alg: "0 \<in> {0..<CF_CIPHERS_NUM}" by (simp add: cf_defs)
  obtain e d where loc: "xts_local (xts_encrypt ?S ?key) (xts_decrypt ?S ?key) e d"
    using key_local(1) [OF fips197_core_ok alg] unfolding local_pair_def by metis
  have ok: "xts_len_ok (replicate 2048 v) 2048" by (simp add: xts_len_ok_def)
  obtain c where c: "xts_encrypt ?S ?key (replicate 2048 v) 2048 0 = Some c" "length c = 2048"
    using xts_local.encrypt_some [OF loc ok, of 0] by auto
  then show "length (block_salt v) = 64" by (simp add: block_salt_def)
  assume b: "length b = 2048" "take 64 b = block_salt v"
  have same: "b ! k = c ! k" if "k < 2048" "\<not> 64 \<le> k" for k
    using arg_cong [OF b(2), of "\<lambda>xs. xs ! k"] that by (simp add: block_salt_def c(1))
  have closed: "64 \<le> k'" if "64 \<le> k" "k' div 16 = k div 16" for k k' :: nat
  proof -
    have "4 \<le> k' div 16" using that by simp
    then show ?thesis by linarith
  qed
  obtain p where p: "xts_decrypt ?S ?key b 2048 0 = Some p" "length p = 2048" "\<forall>k < 2048. \<not> 64 \<le> k \<longrightarrow> p ! k = replicate 2048 v ! k"
    using xts_local.unpatched_bytes [OF loc ok c(1), of b "\<lambda>k. 64 \<le> k"] b(1) same closed by auto
  have "plain_under fips197_core (replicate 192 9) b 0 = p" by (simp add: plain_under_def vol_sizes p(1))
  then show "take 64 (plain_under fips197_core (replicate 192 9) b 0) = replicate 64 v"
    using p(2,3) by (auto intro: nth_equalityI)
qed

lemma disk_salt_facts: "length disk_salt = 64" "\<exists>x \<in> set disk_salt. x \<noteq> 0" "\<exists>v. v \<noteq> 0 \<and> disk_salt = block_salt v"
proof -
  show len: "length disk_salt = 64" by (simp add: disk_salt_def block_salt_plain(1))
  show "\<exists>v. v \<noteq> 0 \<and> disk_salt = block_salt v"
    unfolding disk_salt_def by (auto intro: exI [of _ "1 :: u8"] exI [of _ "2 :: u8"])
  have "disk_salt \<noteq> replicate 64 0"
  proof
    assume zero: "disk_salt = replicate 64 0"
    then have "block_salt 1 = replicate 64 0" "block_salt 2 = replicate 64 0" by (auto simp: disk_salt_def split: if_splits)
    then have "replicate 64 (1 :: u8) = replicate 64 2"
      using block_salt_plain(2) [of "replicate 2048 0" 1] block_salt_plain(2) [of "replicate 2048 0" 2] by simp
    then show False by simp
  qed
  then show "\<exists>x \<in> set disk_salt. x \<noteq> 0" using len by (metis replicate_length_same)
qed

lemma disk_salt_usable: "usable_salt fips197_core (\<lambda>_. replicate 192 9) undefined disk_header disk_salt"
proof -
  let ?g = "with_salt disk_salt disk_header" and ?S = "scalar_selection fips197_core" and ?key = "snd (xts_set_key (replicate 192 9) 0 undefined)"
  have alg: "0 \<in> {0..<CF_CIPHERS_NUM}" by (simp add: cf_defs)
  obtain e d where loc: "xts_local (xts_encrypt ?S ?key) (xts_decrypt ?S ?key) e d"
    using key_local(1) [OF fips197_core_ok alg] unfolding local_pair_def by metis
  have g: "sealable ?g 2048" "length ?g = 2048"
    using with_salt_sealable [OF disk_header_sealable disk_salt_facts(1,2)] by (simp_all add: sealable_def)
  obtain c b where b: "cp_encrypt_header ?S (Some ?g) (int 2048) (Some ?key) (Some ?g) = Some (ST_OK, Some b)" "length b = 2048"
      "\<forall>k < 2048. b ! k = (if k < 64 \<or> clear_slot_byte ?g k then ?g ! k else c ! k)"
    using seal_bytes [OF loc key_local(2) [OF fips197_core_ok alg] g] by blast
  have "image_under fips197_core (replicate 192 9) undefined ?g = b"
    using b(1) g(2) by (simp add: image_under_def with_salt_fields [OF disk_salt_facts(1)] disk_header_fields)
  moreover have "take 64 b = disk_salt"
    using b(2,3) disk_salt_facts(1) by (auto simp: with_salt_def nth_append intro!: nth_equalityI)
  ultimately show ?thesis
    using disk_salt_facts(2,3) block_salt_plain(2) [OF b(2)] by (auto simp: usable_salt_def opens_first_def disk_header_fields)
qed

theorem header_write_open_witness:
  "\<exists>salt key j w' w''. io_write_header (scalar_selection fips197_core) (buffer_env disk_salt) dc_buffer_rw disk_dev 1024 disk_header None
      (Some disk_pass) HF_UPDATE_ALL disk_buffer = Some (ST_OK, disk_header, w') \<and> length salt = 64 \<and>
    io_read_header (scalar_selection fips197_core) (buffer_env disk_salt) dc_buffer_rw None disk_dev 1024 True disk_pass (Some 0) w' =
      Some (ST_OK, Some (with_salt salt disk_header @ j), Some key, map_option (\<lambda>_. p_kdf disk_pass) (Some (0 :: int)), w'') \<and>
    buffer_disk w'' = buffer_disk w'"
proof (rule header_write_open [OF buffer_header.header_device_axioms fips197_core_ok disk_buffer_facts(1) disk_header_sealable])
  show "derives (buffer_env disk_salt) buffer_disk buffer_inv disk_pass (p_kdf disk_pass) (\<lambda>_. replicate 192 9)"
    by (simp add: derives_def dc_derive_key_def disk_pass_def kdf_defs vol_sizes)
  show "\<forall>w. usable_salt fips197_core (\<lambda>_. replicate 192 9) (e_key_block (buffer_env disk_salt)) disk_header (fst (e_rand_bytes (buffer_env disk_salt) 64 w))"
    using disk_salt_usable by (simp add: buffer_env_def disk_salt_facts)
qed (simp_all add: disk_header_fields disk_buffer_facts disk_dev_def disk_pass_def hf_defs cf_defs PAGE_SIZE_def)

end
