(* ===== verification/VolumeHead.thy ===== *)
theory VolumeHead
  imports HeaderIO
begin

text \<open>
  Operations on the headers of a mounted volume (\<^verbatim>\<open>DCrypt/volume_lib/volume_head.c\<close>): exchanging the header key in
  all slots, setting the password of one slot, and keeping the backup header in step with the primary one.  A
  division by a slot count of zero is \<^const>\<open>None\<close>.  The header is changed in place; the operations that get it
  give the changed bytes back, also when they fail.
\<close>

unbundle bit_operations_syntax

section \<open>The code\<close>

definition DC_SLOT_TYPE_0 :: u16 where "DC_SLOT_TYPE_0 = 0"

text \<open>The checksum of the descriptor after its first field, and its combination with that of the slot.\<close>

definition slot_info_crc :: "bytes \<Rightarrow> nat \<Rightarrow> u32 option" where
  "slot_info_crc h i = map_option crc32 (rd (info_off h i + 4) (unat ((ucast (hd_slot_info_size h) :: u32) - 4)) h)"

definition with_slot_crc :: "bytes \<Rightarrow> nat \<Rightarrow> u32 \<Rightarrow> u32 option" where
  "with_slot_crc h i info_crc =
     do { y \<leftarrow> rd (slot_off h i) (slot_size_of h) h; crc32_combine info_crc (crc32 y) (of_nat (slot_size_of h)) }"

text \<open>
  The loop of \<^verbatim>\<open>dc_update_key_slots\<close> over the remaining slot numbers: an active slot whose checksum is right gets
  the new key, any other is filled with random bytes.
\<close>

fun update_slots :: "'w env \<Rightarrow> bytes \<Rightarrow> bytes \<Rightarrow> nat list \<Rightarrow> bytes \<Rightarrow> nat \<Rightarrow> 'w \<Rightarrow> (status \<times> bytes \<times> nat \<times> 'w) option" where
  "update_slots H old_dk new_dk [] h used w = Some (ST_OK, h, used, w)"
| "update_slots H old_dk new_dk (i # is) h used w =
     (let so = slot_off h i; io = info_off h i; ss = slot_size_of h
      in do {
        f \<leftarrow> rd (io + 4) 4 h;
        let flags = (le_word f :: u32);
        (intact, info_crc, h) \<leftarrow>
          (if flags AND SF_ACTIVE \<noteq> 0 \<and> flags AND SF_CORRUPT = 0
           then do { ic \<leftarrow> slot_info_crc h i;
                     crc \<leftarrow> with_slot_crc h i ic;
                     if si_crc io h = crc then Some (True, ic, h)
                     else do { g \<leftarrow> wr (io + 4) (le_bytes 4 (flags OR SF_CORRUPT)) h; Some (False, ic, g) } }
           else Some (False, 0, h));
        if intact
        then do {
          t \<leftarrow> rd (io + 8) 2 h;
          (r, s) \<leftarrow> cp_swap_slot_key (drop so h) old_dk new_dk (int (unat (le_word t :: u16)));
          h \<leftarrow> wr so s h;
          if r = 0 then Some (ST_SLOT_NOT_OK, h, used, w)
          else do { crc \<leftarrow> with_slot_crc h i info_crc;
                    h \<leftarrow> wr io (le_bytes 4 crc) h;
                    update_slots H old_dk new_dk is h (used + 1) w } }
        else case dc_rand H ss w of (x, w) \<Rightarrow> do {
          h \<leftarrow> wr so x h;
          h \<leftarrow> wr io (le_bytes 4 (0 :: u32)) h;
          update_slots H old_dk new_dk is h used w } })"

text \<open>
  \<open>dk0\<close> and \<open>dk1\<close> are what the two key buffers on the stack hold before the derivations, whose results the code
  does not look at; \<open>hk\<close> is what \<^verbatim>\<open>*hdr_key\<close> holds.
\<close>

definition dc_update_key_slots ::
  "'w env \<Rightarrow> bytes \<Rightarrow> bytes \<Rightarrow> bytes \<Rightarrow> xts_key option \<Rightarrow> dc_pass \<Rightarrow> dc_pass \<Rightarrow> 'w \<Rightarrow> (status \<times> bytes \<times> xts_key option \<times> 'w) option" where
  "dc_update_key_slots H dk0 dk1 h hk old_pass new_pass w =
     (case dc_derive_key H old_pass (p_kdf old_pass) (hd_salt h) dk0 w of (r, old_dk, w) \<Rightarrow>
      case dc_derive_key H new_pass (p_kdf new_pass) (hd_salt h) dk1 w of (r, new_dk, w) \<Rightarrow>
        if hd_key_slot_count h = 0 then None
        else do {
          (resl, h, used, w) \<leftarrow> update_slots H old_dk new_dk [0..<unat (hd_key_slot_count h)] h 0 w;
          if used > 0
          then (case dc_alloc H (e_sizeof_xts_key H) w of
                  (None, w) \<Rightarrow> Some (ST_NOMEM, h, None, w)
                | (Some b, w) \<Rightarrow>
                    (case cp_set_header_key H (e_key_block H) (hd_salt h) (hd_alg_1 h) new_pass w of (r, k, w) \<Rightarrow>
                       Some ((if r = 0 then ST_INVALID_PARAM else resl), h, Some k, w)))
          else Some (resl, h, hk, w) })"

definition dc_change_slot_pass :: "'w env \<Rightarrow> bytes \<Rightarrow> dc_pass \<Rightarrow> dc_pass \<Rightarrow> 'w \<Rightarrow> (status \<times> bytes \<times> 'w) option" where
  "dc_change_slot_pass H h old_pass new_pass w =
     (if hd_version h < DC_HDR_VERSION_2 \<or> hd_feature_flags h AND FF_KEY_SLOTS = 0 then Some (ST_INVALID_PARAM, h, w)
      else if p_slot new_pass < 1 \<or> p_slot new_pass > int (unat (hd_key_slot_count h)) then Some (ST_INVALID_PARAM, h, w)
      else if hd_key_slot_count h = 0 \<or> hd_slot_area_len h = 0 \<or> unat (hd_slot_info_size h) < SLOT_INFO_SIZE then Some (ST_INV_VOLUME, h, w)
      else let i = nat (p_slot new_pass - 1); so = slot_off h i; io = info_off h i; ss = slot_size_of h
           in if so + ss > unat (hd_head_len h) then Some (ST_INV_VOLUME, h, w)
              else if io + unat (hd_slot_info_size h) > unat (hd_head_len h) then Some (ST_INV_VOLUME, h, w)
              else case dc_derive_key H old_pass (p_kdf old_pass) (hd_salt h) (replicate PKCS_DERIVE_MAX 0) w of (r, dk, w) \<Rightarrow>
                if r = 0 then Some (ST_INVALID_PARAM, h, w)
                else case dc_derive_key H new_pass (p_kdf new_pass) (hd_salt h) (replicate PKCS_DERIVE_MAX 0) w of (r, sk, w) \<Rightarrow>
                  if r = 0 then Some (ST_INVALID_PARAM, h, w)
                  else do {
                    f \<leftarrow> rd (io + 4) 4 h;
                    let flags = ((le_word f :: u32) OR SF_ACTIVE) AND NOT SF_CORRUPT;
                    h \<leftarrow> wr (io + 4) (le_bytes 4 flags) h;
                    h \<leftarrow> wr (io + 8) (le_bytes 2 DC_SLOT_TYPE_0) h;
                    h \<leftarrow> wr (io + 30) (le_bytes 1 (of_int (p_kdf new_pass) :: u8)) h;
                    (r, s) \<leftarrow> cp_wrap_header_key (drop so h) sk dk (int (unat DC_SLOT_TYPE_0));
                    h \<leftarrow> wr so s h;
                    if r = 0 then Some (ST_SLOT_NOT_OK, h, w)
                    else do { ic \<leftarrow> slot_info_crc h i;
                              crc \<leftarrow> with_slot_crc h i ic;
                              h \<leftarrow> wr io (le_bytes 4 crc) h;
                              Some (ST_OK, h, w) } })"

text \<open>The position of the backup header: the disk size less the header length, in 64 bits.\<close>

definition backup_pos :: "dc_dev \<Rightarrow> u64" where
  "backup_pos dev = d_dsk_size dev - ucast (d_head_len dev)"

text \<open>The copy of the primary header over the backup: all but the salt and the slots with their descriptors.\<close>

definition copy_primary :: "dc_dev \<Rightarrow> nat \<Rightarrow> bytes \<Rightarrow> bytes \<Rightarrow> bytes option" where
  "copy_primary dev slots_len header hback =
     do { x \<leftarrow> rd HEADER_SALT_SIZE (DC_BASE_SIZE - HEADER_SALT_SIZE) header;
          hback \<leftarrow> wr HEADER_SALT_SIZE x hback;
          if DC_BASE_SIZE + slots_len < unat (d_head_len dev)
          then do { x \<leftarrow> rd (DC_BASE_SIZE + slots_len) (unat (d_head_len dev) - DC_BASE_SIZE - slots_len) header;
                    wr (DC_BASE_SIZE + slots_len) x hback }
          else Some hback }"

text \<open>Random bytes over the slots of a header, zeroes over the descriptors, with the layout of \<open>header\<close>.\<close>

definition clear_slot_area :: "'w env \<Rightarrow> bytes \<Rightarrow> bytes \<Rightarrow> 'w \<Rightarrow> (bytes \<times> 'w) option" where
  "clear_slot_area H header h w =
     (case dc_rand H (unat (hd_slot_area_len header)) w of (x, w) \<Rightarrow> do {
        h \<leftarrow> wr DC_BASE_SIZE x h;
        h \<leftarrow> wr (DC_BASE_SIZE + unat (hd_slot_area_len header)) (replicate (unat (hd_key_slot_count header) * unat (hd_slot_info_size header)) 0) h;
        Some (h, w) })"

definition dc_change_pass_bak ::
  "xts_selected \<Rightarrow> 'w env \<Rightarrow> 'w dc_rw_fn \<Rightarrow> 'w intr \<Rightarrow> bytes \<Rightarrow> bytes \<Rightarrow> dc_dev \<Rightarrow> bytes \<Rightarrow> dc_pass \<Rightarrow> dc_pass \<Rightarrow> u32 \<Rightarrow> bool \<Rightarrow> 'w \<Rightarrow>
   (status \<times> 'w) option" where
  "dc_change_pass_bak S H rw intr dk0 dk1 dev header old_pass new_pass flags wipe w =
     do { (resl, hback, bak_key, kdf, w) \<leftarrow> io_read_header S H rw intr dev (backup_pos dev) True old_pass None w;
          if resl \<noteq> ST_OK then Some (ST_INV_VOLUME, dc_free H bak_key (dc_free H hback w))
          else do {
            let slots = (hd_version header \<ge> DC_HDR_VERSION_2 \<and> hd_feature_flags header AND FF_KEY_SLOTS \<noteq> 0);
            let slots_len = (if slots then unat (hd_slot_area_len header) + unat (hd_key_slot_count header) * unat (hd_slot_info_size header) else 0);
            let hb = the hback;
            let slots_valid = (slots \<and> hd_slot_area_len hb = hd_slot_area_len header \<and> hd_key_slot_count hb = hd_key_slot_count header \<and>
                               hd_slot_info_size hb = hd_slot_info_size header);
            hb \<leftarrow> copy_primary dev slots_len header hb;
            (resl, hb, bak_key, flags, w) \<leftarrow>
              (if p_slot new_pass \<noteq> 0
               then do { (resl, hb, w) \<leftarrow> dc_change_slot_pass H hb old_pass new_pass w;
                         Some (resl, hb, bak_key, (if resl = ST_OK then flags OR HF_UPDATE_SLOTS else flags), w) }
               else let w = dc_free H bak_key w
                    in if slots_valid \<and> flags AND HF_CLEAR_SLOTS = 0
                       then do { (resl, hb, bak_key, w) \<leftarrow> dc_update_key_slots H dk0 dk1 hb None old_pass new_pass w;
                                 Some (resl, hb, bak_key, flags, w) }
                       else if slots_len > 0
                       then do { (hb, w) \<leftarrow> clear_slot_area H header hb w; Some (ST_OK, hb, None, flags, w) }
                       else Some (ST_OK, hb, None, flags, w));
            if resl \<noteq> ST_OK then Some (resl, dc_free H bak_key (dc_free H (Some hb) w))
            else do {
              let w = (if flags AND HF_HEADER_FILL \<noteq> 0 then dc_wipe H wipe (backup_pos dev) (sint (d_head_len dev)) w else w);
              (resl, hb, w) \<leftarrow> io_write_header S H rw dev (backup_pos dev) hb bak_key (Some new_pass) flags w;
              Some (resl, dc_free H bak_key (dc_free H (Some hb) w)) } } }"

text \<open>The loop of \<^verbatim>\<open>dc_update_backup\<close> that brings the checksums in the descriptors up to date.\<close>

fun refresh_crcs :: "nat list \<Rightarrow> bytes \<Rightarrow> bytes option" where
  "refresh_crcs [] h = Some h"
| "refresh_crcs (i # is) h =
     do { f \<leftarrow> rd (info_off h i + 4) 4 h;
          let flags = (le_word f :: u32);
          h \<leftarrow> (if flags AND SF_ACTIVE \<noteq> 0 \<and> flags AND SF_CORRUPT = 0
                then do { ic \<leftarrow> slot_info_crc h i; crc \<leftarrow> with_slot_crc h i ic; wr (info_off h i) (le_bytes 4 crc) h }
                else Some h);
          refresh_crcs is h }"

text \<open>
  The slots of the backup: cleared, taken from the caller, or read back from the device.  Gives the status, the
  copy and the block that holds the old backup.
\<close>

definition backup_slots ::
  "'w env \<Rightarrow> 'w dc_rw_fn \<Rightarrow> dc_dev \<Rightarrow> bytes \<Rightarrow> bytes \<Rightarrow> bytes option \<Rightarrow> u32 \<Rightarrow> 'w \<Rightarrow> (status \<times> bytes \<times> bytes option \<times> 'w) option" where
  "backup_slots H rw dev header hcopy key_slots flags w =
     (if flags AND HF_CLEAR_SLOTS \<noteq> 0
      then do { (hcopy, w) \<leftarrow> clear_slot_area H header hcopy w; Some (ST_OK, hcopy, None, w) }
      else do {
        (resl, hcopy, old_backup, w) \<leftarrow>
          (case key_slots of
             Some ks \<Rightarrow> do { x \<leftarrow> rd 0 (unat (hd_slot_area_len header)) ks;
                             hcopy \<leftarrow> wr DC_BASE_SIZE x hcopy;
                             Some (ST_OK, hcopy, None, w) }
           | None \<Rightarrow>
               (case dc_alloc H (unat (d_head_len dev)) w of
                  (None, w) \<Rightarrow> Some (ST_NOMEM, hcopy, None, w)
                | (Some old, w) \<Rightarrow> do {
                    (resl, old, w) \<leftarrow> rw old (d_head_len dev) (backup_pos dev) True w;
                    if resl \<noteq> ST_OK then Some (resl, hcopy, Some old, w)
                    else do { x \<leftarrow> rd DC_BASE_SIZE (unat (hd_slot_area_len header)) old;
                              hcopy \<leftarrow> wr DC_BASE_SIZE x hcopy;
                              Some (ST_OK, hcopy, Some old, w) } }));
        if resl \<noteq> ST_OK then Some (resl, hcopy, old_backup, w)
        else if hd_key_slot_count hcopy = 0 then None
        else do { hcopy \<leftarrow> refresh_crcs [0..<unat (hd_key_slot_count hcopy)] hcopy; Some (ST_OK, hcopy, old_backup, w) } })"

definition dc_update_backup ::
  "xts_selected \<Rightarrow> 'w env \<Rightarrow> 'w dc_rw_fn \<Rightarrow> dc_dev \<Rightarrow> bytes option \<Rightarrow> bytes option \<Rightarrow> xts_key option \<Rightarrow> bytes option \<Rightarrow> u32 \<Rightarrow> 'w \<Rightarrow>
   (status \<times> 'w) option" where
  "dc_update_backup S H rw dev header bak_salt bak_key key_slots flags w =
     (if d_opt dev AND DC_DEV_BACKUP_HEADER = 0 then Some (ST_ERROR, w)
      else do {
        ok \<leftarrow> is_volume_header_correct header;
        if \<not> ok then Some (ST_INV_VOLUME, w)
        else if (case (bak_salt, bak_key) of (Some s, Some k) \<Rightarrow> encrypt_p k = xts_null | _ \<Rightarrow> True) then Some (ST_ERROR, w)
        else if (if d_opt dev AND DC_DEV_STORAGE_ON_END \<noteq> 0 then d_stor_len dev < d_head_len dev * 2 else d_tail_len dev < d_head_len dev)
        then Some (ST_NF_SPACE, w)
        else let h = the header
             in case dc_alloc H (unat (d_head_len dev)) w of
                  (None, w) \<Rightarrow> Some (ST_NOMEM, w)
                | (Some hcopy, w) \<Rightarrow> do {
                    x \<leftarrow> rd 0 (unat (d_head_len dev)) h;
                    hcopy \<leftarrow> wr 0 x hcopy;
                    salt \<leftarrow> rd 0 HEADER_SALT_SIZE (the bak_salt);
                    hcopy \<leftarrow> wr 0 salt hcopy;
                    (resl, hcopy, old_backup, w) \<leftarrow>
                      (if hd_version h \<ge> DC_HDR_VERSION_2 \<and> hd_feature_flags h AND FF_KEY_SLOTS \<noteq> 0 \<and> hd_slot_area_len h > 0
                       then if DC_BASE_SIZE + unat (hd_slot_area_len h) > unat (d_head_len dev) then Some (ST_INV_VOLUME, hcopy, None, w)
                            else backup_slots H rw dev h hcopy key_slots flags w
                       else Some (ST_OK, hcopy, None, w));
                    (resl, hcopy, w) \<leftarrow>
                      (if resl = ST_OK then io_write_header S H rw dev (backup_pos dev) hcopy bak_key None flags w else Some (resl, hcopy, w));
                    Some (resl, dc_free H (Some hcopy) (dc_free H old_backup w)) } })"

section \<open>Slots as pairs of byte ranges\<close>

text \<open>A buffer of the same length with the same base: the layout of the slots is the same.\<close>

definition same_base :: "bytes \<Rightarrow> bytes \<Rightarrow> bool" where
  "same_base h g \<longleftrightarrow> length g = length h \<and> (\<forall>k < 1024. g ! k = h ! k)"

lemma same_base_refl [simp]: "same_base h h"
  by (simp add: same_base_def)

lemma same_base_trans: "same_base h g \<Longrightarrow> same_base g f \<Longrightarrow> same_base h f"
  by (simp add: same_base_def)

lemma same_base_overlay: "1024 \<le> off \<Longrightarrow> off + length x \<le> length h \<Longrightarrow> same_base h (overlay off x h)"
  by (simp add: same_base_def length_overlay nth_overlay)

lemma same_base_layout:
  assumes "same_base h g" "slots_in_buffer h"
  shows "slots_in_buffer g" "slot_off g = slot_off h" "info_off g = info_off h" "slot_size_of g = slot_size_of h"
    "hd_key_slot_count g = hd_key_slot_count h" "hd_slot_info_size g = hd_slot_info_size h" "hd_salt g = hd_salt h" "hd_alg_1 g = hd_alg_1 h"
proof -
  have len: "length g = length h" "1024 \<le> length h" using assms by (auto simp: same_base_def slots_in_buffer_def vol_sizes)
  have same: "\<forall>k < 1024. g ! k = h ! k" using assms(1) by (simp add: same_base_def)
  note f = base_fields [of g h, unfolded len(1), OF len(2,2) same]
  have "cp_has_key_slots (Some g) = cp_has_key_slots (Some h)" by (simp add: cp_has_key_slots_def f)
  then show "slots_in_buffer g" "slot_off g = slot_off h" "info_off g = info_off h" "slot_size_of g = slot_size_of h"
    "hd_key_slot_count g = hd_key_slot_count h" "hd_slot_info_size g = hd_slot_info_size h" "hd_salt g = hd_salt h" "hd_alg_1 g = hd_alg_1 h"
    using assms(2) by (simp_all add: slots_in_buffer_def slot_size_of_def slot_off_def info_off_def fun_eq_iff len hd_alg_1_def fld_def f)
qed

text \<open>The descriptor and the slot with number \<open>i\<close>, and the bytes they occupy.\<close>

definition slot_desc :: "bytes \<Rightarrow> nat \<Rightarrow> bytes" where
  "slot_desc h i = slice (info_off h i) (unat (hd_slot_info_size h)) h"

definition slot_data :: "bytes \<Rightarrow> nat \<Rightarrow> bytes" where
  "slot_data h i = slice (slot_off h i) (slot_size_of h) h"

definition slot_byte :: "bytes \<Rightarrow> nat \<Rightarrow> nat \<Rightarrow> bool" where
  "slot_byte h i k \<longleftrightarrow> (slot_off h i \<le> k \<and> k < slot_off h i + slot_size_of h) \<or>
     (info_off h i \<le> k \<and> k < info_off h i + unat (hd_slot_info_size h))"

lemma slot_parts_cong:
  assumes "same_base h g" "slots_in_buffer h" "i < unat (hd_key_slot_count h)" "\<And>k. slot_byte h i k \<Longrightarrow> k < length h \<Longrightarrow> g ! k = h ! k"
  shows "slot_desc g i = slot_desc h i" "slot_data g i = slot_data h i"
proof -
  note r = slot_ranges [OF assms(2,3)] and l = same_base_layout [OF assms(1,2)]
  have len: "length g = length h" using assms(1) by (simp add: same_base_def)
  show "slot_desc g i = slot_desc h i" unfolding slot_desc_def l
    by (rule fld_nth_cong) (use r len assms(4) in \<open>auto simp: slot_byte_def\<close>)
  show "slot_data g i = slot_data h i" unfolding slot_data_def l
    by (rule fld_nth_cong) (use r len assms(4) in \<open>auto simp: slot_byte_def\<close>)
qed

lemma mult_disjoint:
  assumes "i \<noteq> j" "a + i * s \<le> k" "k < a + i * s + s" "a + j * s \<le> k" "k < a + j * s + (s :: nat)"
  shows False
proof -
  have "i * s < j * s + s" "j * s < i * s + s" using assms by linarith+
  then have "i < Suc j" "j < Suc i" by (metis mult_Suc add.commute mult_less_cancel2)+
  then show False using assms(1) by simp
qed

lemma slots_disjoint:
  assumes "slots_in_buffer h" "i < unat (hd_key_slot_count h)" "j < unat (hd_key_slot_count h)" "i \<noteq> j" "slot_byte h i k"
  shows "\<not> slot_byte h j k"
proof
  assume "slot_byte h j k"
  have area: "slot_off h m + slot_size_of h \<le> DC_BASE_SIZE + unat (hd_slot_area_len h)" if "m < unat (hd_key_slot_count h)" for m
  proof -
    have "hd_key_slot_count h \<noteq> 0" using that by auto
    moreover have "m * slot_size_of h + slot_size_of h \<le> unat (hd_key_slot_count h) * slot_size_of h"
      using that by (metis Suc_leI mult_Suc mult_le_mono1 add.commute)
    ultimately show ?thesis using slot_area_fits [of h] by (simp add: slot_off_def mult.commute)
  qed
  have info: "DC_BASE_SIZE + unat (hd_slot_area_len h) \<le> info_off h m" for m by (simp add: info_off_def)
  show False
    using assms(5) \<open>slot_byte h j k\<close> area [OF assms(2)] area [OF assms(3)] info [of i] info [of j]
      mult_disjoint [OF assms(4), of DC_BASE_SIZE "slot_size_of h" k]
      mult_disjoint [OF assms(4), of "DC_BASE_SIZE + unat (hd_slot_area_len h)" "unat (hd_slot_info_size h)" k]
    by (auto simp: slot_byte_def slot_off_def info_off_def)
qed

text \<open>A slot that the code accepts: active, not marked corrupt, checksum right.\<close>

definition intact :: "bytes \<Rightarrow> bytes \<Rightarrow> bool" where
  "intact d s \<longleftrightarrow> (fld 4 4 d :: u32) AND SF_ACTIVE \<noteq> 0 \<and> (fld 4 4 d :: u32) AND SF_CORRUPT = 0 \<and> fld 0 4 d = crc32 (drop 4 d @ s)"

lemma desc_fields:
  assumes "slots_in_buffer h" "i < unat (hd_key_slot_count h)"
  shows "length (slot_desc h i) = unat (hd_slot_info_size h)" "length (slot_data h i) = slot_size_of h"
    "rd (info_off h i + 4) 4 h = Some (slice 4 4 (slot_desc h i))" "rd (info_off h i + 8) 2 h = Some (slice 8 2 (slot_desc h i))"
    "si_crc (info_off h i) h = fld 0 4 (slot_desc h i)" "slot_info_crc h i = Some (crc32 (drop 4 (slot_desc h i)))"
    "with_slot_crc h i (crc32 (drop 4 (slot_desc h i))) = Some (crc32 (drop 4 (slot_desc h i) @ slot_data h i))"
proof -
  note r = slot_ranges [OF assms]
  show "length (slot_desc h i) = unat (hd_slot_info_size h)" "length (slot_data h i) = slot_size_of h"
    using r by (simp_all add: slot_desc_def slot_data_def)
  have sub: "slice m n (slot_desc h i) = slice (info_off h i + m) n h" if "m + n \<le> 32" for m n
    using that r by (simp add: slot_desc_def slice_slice)
  show "rd (info_off h i + 4) 4 h = Some (slice 4 4 (slot_desc h i))" "rd (info_off h i + 8) 2 h = Some (slice 8 2 (slot_desc h i))"
    "si_crc (info_off h i) h = fld 0 4 (slot_desc h i)"
    using r by (simp_all add: sub si_crc_def fld_def)
  have d4: "drop 4 (slot_desc h i) = slice (info_off h i + 4) (unat (hd_slot_info_size h) - 4) h"
    by (simp add: slot_desc_def slice_def drop_take add.commute)
  then show info: "slot_info_crc h i = Some (crc32 (drop 4 (slot_desc h i)))"
    using r by (simp add: slot_info_crc_def info_size_minus)
  have "slot_crc h i = with_slot_crc h i (crc32 (drop 4 (slot_desc h i)))"
    using r by (simp add: slot_crc_def with_slot_crc_def info_size_minus d4 rd_in del: rd_Some)
  then show "with_slot_crc h i (crc32 (drop 4 (slot_desc h i))) = Some (crc32 (drop 4 (slot_desc h i) @ slot_data h i))"
    using slot_crc_eq [OF assms] by (simp add: d4 slot_data_def)
qed

text \<open>Writes inside a slot or inside its descriptor: the other part and all other bytes stay.\<close>

definition slot_only :: "bytes \<Rightarrow> nat \<Rightarrow> bytes \<Rightarrow> bool" where
  "slot_only h i g \<longleftrightarrow> same_base h g \<and> (\<forall>k < length h. \<not> slot_byte h i k \<longrightarrow> g ! k = h ! k)"

lemma slot_only_refl [simp]: "slot_only h i h"
  by (simp add: slot_only_def)

lemma slot_only_trans:
  "slots_in_buffer h \<Longrightarrow> slot_only h i g \<Longrightarrow> slot_only g i f \<Longrightarrow> slot_only h i f"
  by (auto simp: slot_only_def slot_byte_def same_base_layout intro: same_base_trans) (auto simp: same_base_def)

lemma slice_overlay_in:
  assumes "a \<le> off" "off + length x \<le> a + n" "a + n \<le> length h"
  shows "slice a n (overlay off x h) = overlay (off - a) x (slice a n h)"
  by (rule nth_equalityI) (use assms in \<open>auto simp: length_overlay nth_slice nth_overlay add.commute\<close>)

lemma write_data:
  assumes "slots_in_buffer h" "i < unat (hd_key_slot_count h)" "length x \<le> slot_size_of h"
  shows "wr (slot_off h i) x h = Some (overlay (slot_off h i) x h)" "slot_only h i (overlay (slot_off h i) x h)"
    "slot_desc (overlay (slot_off h i) x h) i = slot_desc h i" "slot_data (overlay (slot_off h i) x h) i = overlay 0 x (slot_data h i)"
proof -
  note r = slot_ranges [OF assms(1,2)]
  have in_buf: "slot_off h i + length x \<le> length h" using r(6) assms(3) by simp
  have sb: "same_base h (overlay (slot_off h i) x h)" using in_buf r(1) by (intro same_base_overlay) simp_all
  note l = same_base_layout [OF sb assms(1)]
  show "wr (slot_off h i) x h = Some (overlay (slot_off h i) x h)" using in_buf by simp
  show "slot_only h i (overlay (slot_off h i) x h)" using sb in_buf assms(3) by (auto simp: slot_only_def slot_byte_def nth_overlay)
  show "slot_desc (overlay (slot_off h i) x h) i = slot_desc h i"
    unfolding slot_desc_def l using r assms(3) in_buf by (intro slice_overlay_other) auto
  show "slot_data (overlay (slot_off h i) x h) i = overlay 0 x (slot_data h i)"
    unfolding slot_data_def l using r(6) assms(3) slice_overlay_in [of "slot_off h i" "slot_off h i" x "slot_size_of h" h] by simp
qed

lemma write_desc:
  assumes "slots_in_buffer h" "i < unat (hd_key_slot_count h)" "m + length x \<le> unat (hd_slot_info_size h)"
  shows "wr (info_off h i + m) x h = Some (overlay (info_off h i + m) x h)" "slot_only h i (overlay (info_off h i + m) x h)"
    "slot_data (overlay (info_off h i + m) x h) i = slot_data h i" "slot_desc (overlay (info_off h i + m) x h) i = overlay m x (slot_desc h i)"
proof -
  note r = slot_ranges [OF assms(1,2)]
  have in_buf: "info_off h i + m + length x \<le> length h" using r(4) assms(3) by simp
  have sb: "same_base h (overlay (info_off h i + m) x h)" using in_buf r(3) by (intro same_base_overlay) simp_all
  note l = same_base_layout [OF sb assms(1)]
  show "wr (info_off h i + m) x h = Some (overlay (info_off h i + m) x h)" using in_buf by simp
  show "slot_only h i (overlay (info_off h i + m) x h)" using sb in_buf assms(3) by (auto simp: slot_only_def slot_byte_def nth_overlay)
  show "slot_data (overlay (info_off h i + m) x h) i = slot_data h i"
    unfolding slot_data_def l using r assms(3) in_buf by (intro slice_overlay_other) auto
  show "slot_desc (overlay (info_off h i + m) x h) i = overlay m x (slot_desc h i)"
    unfolding slot_desc_def l using r(4) assms(3) slice_overlay_in [of "info_off h i" "info_off h i + m" x "unat (hd_slot_info_size h)" h] by simp
qed

lemma slot_only_layout:
  assumes "slot_only h i g" "slots_in_buffer h"
  shows "slots_in_buffer g" "slot_off g = slot_off h" "info_off g = info_off h" "slot_size_of g = slot_size_of h"
    "hd_key_slot_count g = hd_key_slot_count h" "hd_slot_info_size g = hd_slot_info_size h" "length g = length h"
  using same_base_layout [OF _ assms(2), of g] assms(1) by (auto simp: slot_only_def same_base_def)

lemma overlay_tail: "off + length x \<le> length h \<Longrightarrow> overlay off (x @ drop (length x) (drop off h)) h = overlay off x h"
  by (simp add: overlay_def add.commute)

text \<open>A routine that gets a pointer into the header and changes its first bytes.\<close>

lemma write_tail:
  assumes "slots_in_buffer h" "i < unat (hd_key_slot_count h)" "length x \<le> slot_size_of h"
  shows "wr (slot_off h i) (x @ drop (length x) (drop (slot_off h i) h)) h = Some (overlay (slot_off h i) x h)"
proof -
  note r = slot_ranges [OF assms(1,2)]
  have "slot_off h i + length x \<le> length h" using r(6) assms(3) by simp
  then show ?thesis using overlay_tail [of "slot_off h i" x h] by simp
qed

lemma take_slot_data: "n \<le> slot_size_of h \<Longrightarrow> take n (drop (slot_off h i) h) = take n (slot_data h i)"
  by (simp add: slot_data_def slice_def min_def)

section \<open>One turn of the update\<close>

definition exchanged :: "bytes \<Rightarrow> bytes \<Rightarrow> bytes \<Rightarrow> bytes \<Rightarrow> bytes \<Rightarrow> bytes \<Rightarrow> bool" where
  "exchanged old_dk new_dk d s d' s' \<longleftrightarrow>
     (if intact d s
      then s' = xor_bytes (xor_bytes (take 192 s) old_dk) new_dk @ drop 192 s \<and> drop 4 d' = drop 4 d \<and> intact d' s'
      else fld 0 4 d' = (0 :: u32) \<and> drop 8 d' = drop 8 d)"

lemma fld_drop: "4 \<le> off \<Longrightarrow> drop 4 a = drop 4 b \<Longrightarrow> (fld off n a :: 'a::len word) = fld off n b"
  by (metis (no_types, lifting) add_diff_inverse_nat drop_drop fld_def not_less slice_def add.commute)

lemma fld_0_overlay: "4 \<le> length d \<Longrightarrow> (fld 0 4 (overlay 0 (le_bytes 4 (c :: u32)) d) :: u32) = c"
  using fld_set_same [of 0 4 d c] by (simp add: set_fld_def)

lemma swap_turn:
  assumes h: "slots_in_buffer h" "i < unat (hd_key_slot_count h)" "192 \<le> slot_size_of h"
    and dk: "length old_dk = 192" "length new_dk = 192" and s: "intact (slot_desc h i) (slot_data h i)" "fld 8 2 (slot_desc h i) = (0 :: u16)"
  obtains g where "slot_only h i g" "exchanged old_dk new_dk (slot_desc h i) (slot_data h i) (slot_desc g i) (slot_data g i)"
    "update_slots H old_dk new_dk (i # is) h used w = update_slots H old_dk new_dk is g (used + 1) w"
proof -
  note r = slot_ranges [OF h(1,2)] and d = desc_fields [OF h(1,2)]
  define x where "x = xor_bytes (xor_bytes (take 192 (slot_data h i)) old_dk) new_dk"
  have lx: "length x = 192" using dk h(3) d(2) by (simp add: x_def)
  define g1 where "g1 = overlay (slot_off h i) x h"
  have xle: "length x \<le> slot_size_of h" using lx h(3) by simp
  note g1 = write_data [OF h(1,2) xle, folded g1_def]
  note l1 = slot_only_layout [OF g1(2) h(1)]
  have i1: "i < unat (hd_key_slot_count g1)" using h(2) l1 by simp
  note d1 = desc_fields [OF l1(1) i1]
  let ?c = "crc32 (drop 4 (slot_desc h i) @ slot_data g1 i)"
  define g where "g = overlay (info_off h i + 0) (le_bytes 4 ?c) g1"
  have room: "0 + length (le_bytes 4 ?c) \<le> unat (hd_slot_info_size g1)" using r(5) l1 by simp
  note g = write_desc [OF l1(1) i1 room, unfolded l1, folded g_def]
  have swap: "cp_swap_slot_key (drop (slot_off h i) h) old_dk new_dk 0 = Some (1, x @ drop 192 (drop (slot_off h i) h))"
    using cp_swap_slot_key_xor [of old_dk new_dk "drop (slot_off h i) h"] dk r(6) h(3) take_slot_data [OF h(3), of i]
    by (simp add: x_def)
  have flags: "(le_word (slice 4 4 (slot_desc h i)) :: u32) AND SF_ACTIVE \<noteq> 0" "(le_word (slice 4 4 (slot_desc h i)) :: u32) AND SF_CORRUPT = 0"
    "fld 0 4 (slot_desc h i) = crc32 (drop 4 (slot_desc h i) @ slot_data h i)"
    using s(1) by (simp_all add: intact_def fld_def)
  have ty: "(le_word (slice 8 2 (slot_desc h i)) :: u16) = 0" using s(2) by (simp add: fld_def)
  have "wr (slot_off h i) (x @ drop 192 (drop (slot_off h i) h)) h = Some g1"
    using write_tail [OF h(1,2) xle] by (simp add: g1_def lx)
  then have "update_slots H old_dk new_dk (i # is) h used w = update_slots H old_dk new_dk is g (used + 1) w"
    using d flags ty swap d1(7) g(1) by (simp add: Let_def g1(3) del: rd_Some wr_Some)
  moreover have "slot_only h i g" using slot_only_trans [OF h(1) g1(2) g(2)] .
  moreover have "exchanged old_dk new_dk (slot_desc h i) (slot_data h i) (slot_desc g i) (slot_data g i)"
  proof -
    have sd: "slot_data g i = x @ drop 192 (slot_data h i)" using g(3) g1(4) lx h(3) d(2) by (simp add: overlay_def)
    have len: "32 \<le> length (slot_desc h i)" using d(1) r(5) by simp
    have sde: "slot_desc g i = overlay 0 (le_bytes 4 ?c) (slot_desc h i)" using g(4) g1(3) by simp
    then have d4: "drop 4 (slot_desc g i) = drop 4 (slot_desc h i)" by (simp add: overlay_def)
    have "(fld 4 4 (slot_desc g i) :: u32) = fld 4 4 (slot_desc h i)" by (rule fld_drop [OF _ d4]) simp
    moreover have "(fld 0 4 (slot_desc g i) :: u32) = ?c" unfolding sde by (rule fld_0_overlay) (use len in simp)
    ultimately have "intact (slot_desc g i) (slot_data g i)" using s(1) g(3) by (simp add: intact_def d4)
    then show ?thesis using s(1) sd d4 by (simp add: exchanged_def x_def)
  qed
  ultimately show thesis using that by blast
qed

lemma random_turn:
  assumes h: "slots_in_buffer h" "i < unat (hd_key_slot_count h)" and rnd: "rand_ok H"
    and s: "\<not> intact (slot_desc h i) (slot_data h i)"
  obtains g w' where "slot_only h i g" "exchanged old_dk new_dk (slot_desc h i) (slot_data h i) (slot_desc g i) (slot_data g i)"
    "update_slots H old_dk new_dk (i # is) h used w = update_slots H old_dk new_dk is g used w'"
proof -
  note r = slot_ranges [OF h(1,2)] and d = desc_fields [OF h(1,2)]
  let ?f = "le_word (slice 4 4 (slot_desc h i)) :: u32"
  define mark where "mark \<longleftrightarrow> ?f AND SF_ACTIVE \<noteq> 0 \<and> ?f AND SF_CORRUPT = 0"
  define g1 where "g1 = (if mark then overlay (info_off h i + 4) (le_bytes 4 (?f OR SF_CORRUPT)) h else h)"
  have room: "4 + length (le_bytes 4 (?f OR SF_CORRUPT)) \<le> unat (hd_slot_info_size h)" using r(5) by simp
  note wd = write_desc [OF h(1,2) room]
  have g1: "slot_only h i g1" "drop 8 (slot_desc g1 i) = drop 8 (slot_desc h i)"
    using wd(2,4) by (auto simp: g1_def overlay_def min_def)
  note l1 = slot_only_layout [OF g1(1) h(1)]
  have i1: "i < unat (hd_key_slot_count g1)" using h(2) l1 by simp
  obtain x w' where x: "dc_rand H (slot_size_of h) w = (x, w')" by (cases "dc_rand H (slot_size_of h) w")
  have "length (fst (e_rand_bytes H (slot_size_of h) w)) = slot_size_of h" using rnd by (simp add: rand_ok_def)
  then have lx: "length x \<le> slot_size_of g1" using x l1 by (simp add: dc_rand_def)
  note g2 = write_data [OF l1(1) i1 lx]
  define g2' where "g2' = overlay (slot_off g1 i) x g1"
  note g2 = g2 [folded g2'_def]
  note l2 = slot_only_layout [OF g2(2) l1(1)]
  have i2: "i < unat (hd_key_slot_count g2')" using i1 l2 by simp
  define g where "g = overlay (info_off g2' i + 0) (le_bytes 4 (0 :: u32)) g2'"
  have "0 + length (le_bytes 4 (0 :: u32)) \<le> unat (hd_slot_info_size g2')" using r(5) l1 l2 by simp
  note g = write_desc [OF l2(1) i2 this, folded g_def]
  have test: "(if ?f AND SF_ACTIVE \<noteq> 0 \<and> ?f AND SF_CORRUPT = 0
        then do { ic \<leftarrow> slot_info_crc h i; crc \<leftarrow> with_slot_crc h i ic;
                  if si_crc (info_off h i) h = crc then Some (True, ic, h)
                  else do { g \<leftarrow> wr (info_off h i + 4) (le_bytes 4 (?f OR SF_CORRUPT)) h; Some (False, ic, g) } }
        else Some (False, 0, h)) = Some (False, if mark then crc32 (drop 4 (slot_desc h i)) else 0, g1)"
  proof (cases mark)
    case True
    then have "fld 0 4 (slot_desc h i) \<noteq> crc32 (drop 4 (slot_desc h i) @ slot_data h i)"
      using s by (simp add: mark_def intact_def fld_def)
    then show ?thesis using True d wd(1) by (simp add: mark_def g1_def del: wr_Some)
  next
    case False
    then show ?thesis unfolding mark_def [symmetric] g1_def by simp
  qed
  have wrs: "wr (slot_off h i) x g1 = Some g2'" "wr (info_off h i) (le_bytes 4 (0 :: u32)) g2' = Some g"
    using g2(1) g(1) by (simp_all add: l1 l2 del: wr_Some)
  have "update_slots H old_dk new_dk (i # is) h used w = update_slots H old_dk new_dk is g used w'"
    using test x d(3) wrs by (simp add: Let_def del: wr_Some rd_Some split del: if_split)
  moreover have "slot_only h i g" using slot_only_trans [OF h(1) g1(1)] slot_only_trans [OF l1(1) g2(2) g(2)] by blast
  moreover have "exchanged old_dk new_dk (slot_desc h i) (slot_data h i) (slot_desc g i) (slot_data g i)"
  proof -
    have sde: "slot_desc g i = overlay 0 (le_bytes 4 (0 :: u32)) (slot_desc g1 i)" using g(4) g2(3) by simp
    have "4 \<le> length (slot_desc g1 i)" using desc_fields(1) [OF l1(1) i1] r(5) l1 by simp
    then have "(fld 0 4 (slot_desc g i) :: u32) = 0" unfolding sde by (rule fld_0_overlay)
    moreover have "drop 8 (slot_desc g i) = drop 8 (slot_desc g1 i)" by (simp add: sde overlay_def)
    ultimately show ?thesis using s g1(2) by (simp add: exchanged_def)
  qed
  ultimately show thesis using that by blast
qed

definition slot_ok :: "bytes \<Rightarrow> nat \<Rightarrow> bool" where
  "slot_ok h i \<longleftrightarrow> intact (slot_desc h i) (slot_data h i)"

lemma turn:
  assumes "slots_in_buffer h" "i < unat (hd_key_slot_count h)" "192 \<le> slot_size_of h" "rand_ok H" "length old_dk = 192" "length new_dk = 192"
    "slot_ok h i \<Longrightarrow> fld 8 2 (slot_desc h i) = (0 :: u16)"
  obtains g w' where "slot_only h i g" "exchanged old_dk new_dk (slot_desc h i) (slot_data h i) (slot_desc g i) (slot_data g i)"
    "update_slots H old_dk new_dk (i # is) h used w = update_slots H old_dk new_dk is g (used + (if slot_ok h i then 1 else 0)) w'"
proof (cases "slot_ok h i")
  case True
  then have ok: "intact (slot_desc h i) (slot_data h i)" by (simp add: slot_ok_def)
  show thesis by (rule swap_turn [OF assms(1-3,5,6) ok assms(7) [OF True], of H "is" used w]) (use True that in simp)
next
  case False
  then have bad: "\<not> intact (slot_desc h i) (slot_data h i)" by (simp add: slot_ok_def)
  show thesis by (rule random_turn [OF assms(1,2,4) bad, of old_dk new_dk "is" used w]) (use False that in simp)
qed

lemma update_slots_all:
  assumes "distinct is" "\<forall>i \<in> set is. i < unat (hd_key_slot_count h)" "slots_in_buffer h" "192 \<le> slot_size_of h" "rand_ok H"
    "length old_dk = 192" "length new_dk = 192" "\<forall>i \<in> set is. slot_ok h i \<longrightarrow> fld 8 2 (slot_desc h i) = (0 :: u16)"
  shows "\<exists>g w'. update_slots H old_dk new_dk is h used w = Some (ST_OK, g, used + length (filter (slot_ok h) is), w') \<and> same_base h g \<and>
    (\<forall>i \<in> set is. exchanged old_dk new_dk (slot_desc h i) (slot_data h i) (slot_desc g i) (slot_data g i)) \<and>
    (\<forall>k < length h. (\<forall>i \<in> set is. \<not> slot_byte h i k) \<longrightarrow> g ! k = h ! k)"
  using assms
proof (induction "is" arbitrary: h used w)
  case (Cons i "is")
  have i: "i < unat (hd_key_slot_count h)" "i \<notin> set is" using Cons.prems by simp_all
  obtain g1 w1 where g1: "slot_only h i g1" "exchanged old_dk new_dk (slot_desc h i) (slot_data h i) (slot_desc g1 i) (slot_data g1 i)"
      "update_slots H old_dk new_dk (i # is) h used w = update_slots H old_dk new_dk is g1 (used + (if slot_ok h i then 1 else 0)) w1"
    using turn [OF Cons.prems(3) i(1) Cons.prems(4-7)] Cons.prems(8) by (metis list.set_intros(1))
  note l = slot_only_layout [OF g1(1) Cons.prems(3)]
  have sb1: "same_base h g1" using g1(1) by (simp add: slot_only_def)
  have others: "slot_desc g1 j = slot_desc h j" "slot_data g1 j = slot_data h j" if "j \<in> set is" for j
  proof -
    have j: "j < unat (hd_key_slot_count h)" "i \<noteq> j" using that Cons.prems(2) i(2) by auto
    have "g1 ! k = h ! k" if "slot_byte h j k" "k < length h" for k
      using that g1(1) slots_disjoint [OF Cons.prems(3) j(1) i(1) j(2) [symmetric]] by (simp add: slot_only_def)
    then show "slot_desc g1 j = slot_desc h j" "slot_data g1 j = slot_data h j"
      using slot_parts_cong [OF sb1 Cons.prems(3) j(1)] by blast+
  qed
  then have okj: "slot_ok g1 j = slot_ok h j" if "j \<in> set is" for j using that by (simp add: slot_ok_def)
  then have filt: "filter (slot_ok g1) is = filter (slot_ok h) is" by (rule filter_cong [OF refl])
  have byte: "slot_byte g1 j = slot_byte h j" for j by (simp add: fun_eq_iff slot_byte_def l)
  have IH: "\<exists>g w'. update_slots H old_dk new_dk is g1 (used + (if slot_ok h i then 1 else 0)) w1 =
        Some (ST_OK, g, used + (if slot_ok h i then 1 else 0) + length (filter (slot_ok g1) is), w') \<and> same_base g1 g \<and>
      (\<forall>j \<in> set is. exchanged old_dk new_dk (slot_desc g1 j) (slot_data g1 j) (slot_desc g j) (slot_data g j)) \<and>
      (\<forall>k < length g1. (\<forall>j \<in> set is. \<not> slot_byte g1 j k) \<longrightarrow> g ! k = g1 ! k)"
    by (rule Cons.IH) (use Cons.prems l okj others in auto)
  then obtain g w' where g: "update_slots H old_dk new_dk is g1 (used + (if slot_ok h i then 1 else 0)) w1 =
        Some (ST_OK, g, used + (if slot_ok h i then 1 else 0) + length (filter (slot_ok g1) is), w')" "same_base g1 g"
      "\<forall>j \<in> set is. exchanged old_dk new_dk (slot_desc g1 j) (slot_data g1 j) (slot_desc g j) (slot_data g j)"
      "\<forall>k < length g1. (\<forall>j \<in> set is. \<not> slot_byte g1 j k) \<longrightarrow> g ! k = g1 ! k" by blast
  have "g ! k = g1 ! k" if "slot_byte g1 i k" "k < length g1" for k
  proof -
    have "\<not> slot_byte g1 j k" if "j \<in> set is" for j
      using slots_disjoint [OF Cons.prems(3) i(1), of j k] Cons.prems(2) i(2) that \<open>slot_byte g1 i k\<close> by (auto simp: byte)
    then show ?thesis using g(4) that(2) by blast
  qed
  then have same: "slot_desc g i = slot_desc g1 i" "slot_data g i = slot_data g1 i"
    using slot_parts_cong [OF g(2) l(1), of i] i(1) l(5) by auto
  have frame: "g ! k = h ! k" if "k < length h" "\<forall>j \<in> set (i # is). \<not> slot_byte h j k" for k
    using that g(4) g1(1) by (simp add: byte l(7) slot_only_def)
  show ?case
    using g1(2,3) g(1,3) frame same others same_base_trans [OF sb1 g(2)] by (auto simp: filt)
qed simp

section \<open>Setting the password of a slot\<close>

text \<open>Storing the checksum makes the slot readable: what \<^verbatim>\<open>cp_get_slot_info\<close> says of it.\<close>

lemma store_crc:
  assumes h: "slots_in_buffer h" "i < unat (hd_key_slot_count h)"
  obtains c g where "slot_info_crc h i = Some (crc32 (drop 4 (slot_desc h i)))" "with_slot_crc h i (crc32 (drop 4 (slot_desc h i))) = Some c"
    "wr (info_off h i) (le_bytes 4 c) h = Some g" "slot_only h i g" "slot_data g i = slot_data h i" "drop 4 (slot_desc g i) = drop 4 (slot_desc h i)"
    "fld 0 4 (slot_desc g i) = crc32 (drop 4 (slot_desc g i) @ slot_data g i)"
proof -
  note r = slot_ranges [OF h] and d = desc_fields [OF h]
  let ?c = "crc32 (drop 4 (slot_desc h i) @ slot_data h i)"
  have "0 + length (le_bytes 4 ?c) \<le> unat (hd_slot_info_size h)" using r(5) by simp
  note g = write_desc [OF h this]
  define g' where "g' = overlay (info_off h i + 0) (le_bytes 4 ?c) h"
  note g = g [folded g'_def]
  have len: "4 \<le> length (slot_desc h i)" using d(1) r(5) by simp
  have d4: "drop 4 (slot_desc g' i) = drop 4 (slot_desc h i)" by (simp only: g(4)) (simp add: overlay_def)
  show thesis
  proof (rule that [OF d(6,7)])
    show "wr (info_off h i) (le_bytes 4 ?c) h = Some g'" using g(1) by (simp only: add_0_right)
    show "fld 0 4 (slot_desc g' i) = crc32 (drop 4 (slot_desc g' i) @ slot_data g' i)"
      by (simp only: d4 g(3)) (simp only: g(4) fld_0_overlay [OF len])
  qed (rule g(2,3) d4)+
qed

lemma read_slot_info:
  assumes g: "slots_in_buffer g" "0 \<le> idx" "idx < int (unat (hd_key_slot_count g))" "length info = 32"
    and crc: "fld 0 4 (slot_desc g (nat idx)) = crc32 (drop 4 (slot_desc g (nat idx)) @ slot_data g (nat idx))"
  shows "cp_get_slot_info (Some g) idx info = Some (ST_OK, take 32 (slot_desc g (nat idx)))"
proof -
  have i: "nat idx < unat (hd_key_slot_count g)" using g(2,3) by (simp add: nat_less_iff)
  note d = desc_fields [OF g(1) i] and r = slot_ranges [OF g(1) i]
  have "slot_crc g (nat idx) = Some (si_crc (info_off g (nat idx)) g)"
    using slot_crc_eq [OF g(1) i] crc d(5) by (simp add: slot_desc_def slot_data_def slice_def drop_take add.commute)
  then show ?thesis
    using get_slot_info_sealed [OF g] r(5) by (simp add: slot_desc_def slice_def min_def)
qed

lemma new_flags:
  "((f OR SF_ACTIVE) AND NOT SF_CORRUPT) AND SF_ACTIVE \<noteq> 0" "((f OR SF_ACTIVE) AND NOT SF_CORRUPT) AND SF_CORRUPT = 0"
proof -
  have "bit (((f OR SF_ACTIVE) AND NOT SF_CORRUPT) AND SF_ACTIVE) 0" by (simp add: sf_defs bit_simps)
  then show "((f OR SF_ACTIVE) AND NOT SF_CORRUPT) AND SF_ACTIVE \<noteq> 0" by auto
  show "((f OR SF_ACTIVE) AND NOT SF_CORRUPT) AND SF_CORRUPT = 0" by (simp add: bit_eq_iff bit_simps)
qed

text \<open>The descriptor after the update, before its checksum is stored.\<close>

definition active_desc :: "u8 \<Rightarrow> bytes \<Rightarrow> bytes" where
  "active_desc kdf d = overlay 30 (le_bytes 1 kdf) (overlay 8 (le_bytes 2 DC_SLOT_TYPE_0)
     (overlay 4 (le_bytes 4 (((fld 4 4 d :: u32) OR SF_ACTIVE) AND NOT SF_CORRUPT)) d))"

lemma active_desc_fields:
  assumes "32 \<le> length d"
  shows "length (active_desc kdf d) = length d" "(fld 4 4 (active_desc kdf d) :: u32) = ((fld 4 4 d OR SF_ACTIVE) AND NOT SF_CORRUPT)"
    "(fld 30 1 (active_desc kdf d) :: u8) = kdf" "(fld 8 2 (active_desc kdf d) :: u16) = 0"
proof -
  let ?f = "((fld 4 4 d :: u32) OR SF_ACTIVE) AND NOT SF_CORRUPT"
  have a: "active_desc kdf d = set_fld 30 1 kdf (set_fld 8 2 DC_SLOT_TYPE_0 (set_fld 4 4 ?f d))" by (simp add: active_desc_def set_fld_def)
  show "length (active_desc kdf d) = length d" "(fld 4 4 (active_desc kdf d) :: u32) = ?f" "(fld 30 1 (active_desc kdf d) :: u8) = kdf"
    "(fld 8 2 (active_desc kdf d) :: u16) = 0"
    using assms by (simp_all add: a fld_set_other fld_set_same DC_SLOT_TYPE_0_def)
qed

lemma activate_slot:
  assumes h: "slots_in_buffer h" "i < unat (hd_key_slot_count h)"
  obtains g1 g2 g3 where "wr (info_off h i + 4) (le_bytes 4 (((fld 4 4 (slot_desc h i) :: u32) OR SF_ACTIVE) AND NOT SF_CORRUPT)) h = Some g1"
    "wr (info_off h i + 8) (le_bytes 2 DC_SLOT_TYPE_0) g1 = Some g2" "wr (info_off h i + 30) (le_bytes 1 kdf) g2 = Some g3"
    "slot_only h i g3" "slot_desc g3 i = active_desc kdf (slot_desc h i)" "slot_data g3 i = slot_data h i"
proof -
  note r = slot_ranges [OF h]
  let ?f = "((fld 4 4 (slot_desc h i) :: u32) OR SF_ACTIVE) AND NOT SF_CORRUPT"
  have "4 + length (le_bytes 4 ?f) \<le> unat (hd_slot_info_size h)" using r(5) by simp
  note g1 = write_desc [OF h this]
  define g1' where "g1' = overlay (info_off h i + 4) (le_bytes 4 ?f) h"
  note g1 = g1 [folded g1'_def] and l1 = slot_only_layout [OF g1(2) [folded g1'_def] h(1)]
  have i1: "i < unat (hd_key_slot_count g1')" using h(2) l1 by simp
  have "8 + length (le_bytes 2 DC_SLOT_TYPE_0) \<le> unat (hd_slot_info_size g1')" using r(5) l1 by simp
  note g2 = write_desc [OF l1(1) i1 this, unfolded l1]
  define g2' where "g2' = overlay (info_off h i + 8) (le_bytes 2 DC_SLOT_TYPE_0) g1'"
  note g2 = g2 [folded g2'_def] and l2 = slot_only_layout [OF g2(2) [folded g2'_def] l1(1)]
  have i2: "i < unat (hd_key_slot_count g2')" using i1 l2 by simp
  have "30 + length (le_bytes 1 kdf) \<le> unat (hd_slot_info_size g2')" using r(5) l1 l2 by simp
  note g3 = write_desc [OF l2(1) i2 this, unfolded l2 l1]
  define g3' where "g3' = overlay (info_off h i + 30) (le_bytes 1 kdf) g2'"
  note g3 = g3 [folded g3'_def]
  show thesis
  proof (rule that [OF g1(1) g2(1) g3(1)])
    show "slot_only h i g3'" using slot_only_trans [OF h(1) g1(2)] slot_only_trans [OF l1(1) g2(2) g3(2)] by blast
    show "slot_desc g3' i = active_desc kdf (slot_desc h i)" by (simp only: g3(4) g2(4) g1(4) active_desc_def)
    show "slot_data g3' i = slot_data h i" by (simp only: g3(3) g2(3) g1(3))
  qed
qed

lemma wrap_slot:
  assumes h: "slots_in_buffer h" "i < unat (hd_key_slot_count h)" "192 \<le> slot_size_of h" and dk: "length dk = 192" "length sk = 192"
  obtains s g1 c g where "cp_wrap_header_key (drop (slot_off h i) h) sk dk 0 = Some (1, s)" "wr (slot_off h i) s h = Some g1"
    "slot_info_crc g1 i = Some (crc32 (drop 4 (slot_desc g1 i)))" "with_slot_crc g1 i (crc32 (drop 4 (slot_desc g1 i))) = Some c"
    "wr (info_off h i) (le_bytes 4 c) g1 = Some g" "slot_only h i g" "take 192 (slot_data g i) = xor_bytes sk dk"
    "drop 4 (slot_desc g i) = drop 4 (slot_desc h i)" "fld 0 4 (slot_desc g i) = crc32 (drop 4 (slot_desc g i) @ slot_data g i)"
proof -
  define x where "x = xor_bytes sk dk"
  have lx: "length x = 192" "length x \<le> slot_size_of h" using h(3) dk by (simp_all add: x_def)
  have wrap: "cp_wrap_header_key (drop (slot_off h i) h) sk dk 0 = Some (1, x @ drop (length x) (drop (slot_off h i) h))"
    using cp_wrap_header_key_xor [of dk "drop (slot_off h i) h" sk] h(3) dk slot_ranges(6) [OF h(1,2)] by (simp add: x_def)
  define g1 where "g1 = overlay (slot_off h i) x h"
  note g1 = write_data [OF h(1,2) lx(2), folded g1_def] and w1 = write_tail [OF h(1,2) lx(2), folded g1_def]
  note l1 = slot_only_layout [OF g1(2) h(1)]
  have i1: "i < unat (hd_key_slot_count g1)" using h(2) l1 by simp
  obtain c g where c: "slot_info_crc g1 i = Some (crc32 (drop 4 (slot_desc g1 i)))" "with_slot_crc g1 i (crc32 (drop 4 (slot_desc g1 i))) = Some c"
      "wr (info_off g1 i) (le_bytes 4 c) g1 = Some g"
    and g: "slot_only g1 i g" "slot_data g i = slot_data g1 i" "drop 4 (slot_desc g i) = drop 4 (slot_desc g1 i)"
      "fld 0 4 (slot_desc g i) = crc32 (drop 4 (slot_desc g i) @ slot_data g i)"
    by (rule store_crc [OF l1(1) i1])
  show thesis
  proof (rule that [OF wrap w1 c(1,2) c(3) [unfolded l1]])
    show "slot_only h i g" by (rule slot_only_trans [OF h(1) g1(2) g(1)])
    show "take 192 (slot_data g i) = xor_bytes sk dk" using g(2) g1(4) lx(1) by (simp add: overlay_def x_def)
    show "drop 4 (slot_desc g i) = drop 4 (slot_desc h i)" by (simp only: g(3) g1(3))
  qed (rule g(4))
qed

lemma fld_take: "off + n \<le> m \<Longrightarrow> (fld off n (take m d) :: 'a::len word) = fld off n d"
  by (simp add: fld_def slice_def drop_take min_def)

text \<open>A slot key that unwrapped the old key from an intact slot unwraps the new key after the exchange.\<close>

lemma exchanged_unwraps:
  assumes "same_base h g" "slots_in_buffer h" "i < unat (hd_key_slot_count h)" "192 \<le> slot_size_of h" "length old_dk = 192" "length new_dk = 192"
    and ex: "exchanged old_dk new_dk (slot_desc h i) (slot_data h i) (slot_desc g i) (slot_data g i)" "slot_ok h i"
    and sd: "length sd = 192" "length buf = 192" "try_decrypt_slot sd (drop (slot_off h i) h) buf 0 = Some (1, old_dk)"
  shows "try_decrypt_slot sd (drop (slot_off h i) g) buf 0 = Some (1, new_dk)"
proof -
  note l = same_base_layout [OF assms(1,2)] and r = slot_ranges [OF assms(2,3)]
  have len: "length g = length h" using assms(1) by (simp add: same_base_def)
  let ?s = "take 192 (slot_data h i)"
  have s: "length ?s = 192" using desc_fields(2) [OF assms(2,3)] assms(4) by simp
  have old: "xor_bytes ?s sd = old_dk"
    using sd try_decrypt_slot_xor [of sd "drop (slot_off h i) h" buf] take_slot_data [OF assms(4), of i] r(6) assms(4) by simp
  have "take 192 (slot_data g i) = xor_bytes (xor_bytes ?s old_dk) new_dk"
    using ex s assms(5,6) by (simp add: exchanged_def slot_ok_def)
  also have "xor_bytes ?s old_dk = sd"
    using s sd(1) xor_bytes_cancel [of sd ?s] by (simp add: old [symmetric] xor_bytes_commute [of ?s])
  finally have "take 192 (slot_data g i) = xor_bytes sd new_dk" .
  moreover have "take 192 (drop (slot_off h i) g) = take 192 (slot_data g i)" using take_slot_data [of 192 g i] l assms(4) by simp
  ultimately show ?thesis
    using try_decrypt_slot_xor [of sd "drop (slot_off h i) g" buf] sd(1,2) r(6) assms(4,6) len by (simp add: xor_bytes_commute [of sd new_dk])
qed

section \<open>The slots of the backup\<close>

definition active :: "bytes \<Rightarrow> nat \<Rightarrow> bool" where
  "active h i \<longleftrightarrow> (fld 4 4 (slot_desc h i) :: u32) AND SF_ACTIVE \<noteq> 0 \<and> (fld 4 4 (slot_desc h i) :: u32) AND SF_CORRUPT = 0"

lemma refresh_turn:
  assumes h: "slots_in_buffer h" "i < unat (hd_key_slot_count h)"
  obtains g where "refresh_crcs (i # is) h = refresh_crcs is g" "slot_only h i g" "drop 4 (slot_desc g i) = drop 4 (slot_desc h i)"
    "active h i \<Longrightarrow> slot_ok g i" "\<forall>k < length h. k < info_off h i \<or> info_off h i + 4 \<le> k \<longrightarrow> g ! k = h ! k"
proof -
  note d = desc_fields [OF h]
  have act: "((le_word (slice 4 4 (slot_desc h i)) :: u32) AND SF_ACTIVE \<noteq> 0 \<and> (le_word (slice 4 4 (slot_desc h i)) :: u32) AND SF_CORRUPT = 0) = active h i"
    by (simp add: active_def fld_def)
  obtain c g where c: "slot_info_crc h i = Some (crc32 (drop 4 (slot_desc h i)))" "with_slot_crc h i (crc32 (drop 4 (slot_desc h i))) = Some c"
      "wr (info_off h i) (le_bytes 4 c) h = Some g"
    and g: "slot_only h i g" "slot_data g i = slot_data h i" "drop 4 (slot_desc g i) = drop 4 (slot_desc h i)"
      "fld 0 4 (slot_desc g i) = crc32 (drop 4 (slot_desc g i) @ slot_data g i)"
    by (rule store_crc [OF h])
  have run: "refresh_crcs (i # is) h = refresh_crcs is (if active h i then g else h)"
    using d(3) c act by (auto simp: Let_def simp del: rd_Some wr_Some)
  have "slot_ok g i" if "active h i"
    using that g(4) fld_drop [OF _ g(3), of 4 4, where ?'a = 32] by (simp add: slot_ok_def intact_def active_def)
  moreover have "\<forall>k < length h. k < info_off h i \<or> info_off h i + 4 \<le> k \<longrightarrow> g ! k = h ! k" using c(3) by (auto simp: nth_overlay)
  ultimately show thesis using that [OF run] g(1,3) by simp
qed

lemma refresh_crcs_all:
  assumes "distinct is" "\<forall>i \<in> set is. i < unat (hd_key_slot_count h)" "slots_in_buffer h"
  shows "\<exists>g. refresh_crcs is h = Some g \<and> same_base h g \<and> (\<forall>i \<in> set is. active h i \<longrightarrow> slot_ok g i) \<and>
    (\<forall>k < length h. (\<forall>i \<in> set is. k < info_off h i \<or> info_off h i + 4 \<le> k) \<longrightarrow> g ! k = h ! k)"
  using assms
proof (induction "is" arbitrary: h)
  case (Cons i "is")
  have i: "i < unat (hd_key_slot_count h)" "i \<notin> set is" using Cons.prems by simp_all
  obtain g1 where g1: "refresh_crcs (i # is) h = refresh_crcs is g1" "slot_only h i g1" "active h i \<Longrightarrow> slot_ok g1 i"
      "\<forall>k < length h. k < info_off h i \<or> info_off h i + 4 \<le> k \<longrightarrow> g1 ! k = h ! k"
    by (rule refresh_turn [OF Cons.prems(3) i(1), of "is"]) blast
  note l = slot_only_layout [OF g1(2) Cons.prems(3)]
  have sb1: "same_base h g1" using g1(2) by (simp add: slot_only_def)
  obtain g where g: "refresh_crcs is g1 = Some g" "same_base g1 g" "\<forall>j \<in> set is. active g1 j \<longrightarrow> slot_ok g j"
      "\<forall>k < length g1. (\<forall>j \<in> set is. k < info_off g1 j \<or> info_off g1 j + 4 \<le> k) \<longrightarrow> g ! k = g1 ! k"
    using Cons.IH [of g1] Cons.prems l by auto
  have "active g1 j = active h j" if "j \<in> set is" for j
  proof -
    have j: "j < unat (hd_key_slot_count h)" "i \<noteq> j" using that Cons.prems(2) i(2) by auto
    have "g1 ! k = h ! k" if "slot_byte h j k" "k < length h" for k
      using that g1(2) slots_disjoint [OF Cons.prems(3) j(1) i(1) j(2) [symmetric]] by (simp add: slot_only_def)
    then show ?thesis using slot_parts_cong(1) [OF sb1 Cons.prems(3) j(1)] by (simp add: active_def)
  qed
  moreover have "slot_ok g i = slot_ok g1 i"
  proof -
    have i1: "i < unat (hd_key_slot_count g1)" using i(1) l by simp
    have "g ! k = g1 ! k" if k: "slot_byte g1 i k" "k < length g1" for k
    proof -
      have "k < info_off g1 j \<or> info_off g1 j + 4 \<le> k" if "j \<in> set is" for j
      proof -
        have j: "j < unat (hd_key_slot_count g1)" "i \<noteq> j" using that Cons.prems(2) i(2) l by auto
        then have "\<not> slot_byte g1 j k" using slots_disjoint [OF l(1) i1 j(1,2) k(1)] by simp
        then show ?thesis using slot_ranges(5) [OF l(1) j(1)] by (auto simp: slot_byte_def)
      qed
      then show ?thesis using g(4) k(2) by blast
    qed
    then show ?thesis using slot_parts_cong [OF g(2) l(1) i1] by (simp add: slot_ok_def)
  qed
  moreover have "g ! k = h ! k" if "k < length h" "\<forall>j \<in> set (i # is). k < info_off h j \<or> info_off h j + 4 \<le> k" for k
    using that g(4) g1(4) l(3,7) by auto
  ultimately show ?case
    using g1(1,3) g(1,3) same_base_trans [OF sb1 g(2)] by auto
qed simp

text \<open>The header that becomes the backup: own salt, the slots found on the device, fresh checksums.\<close>

definition backup_of :: "bytes \<Rightarrow> bytes \<Rightarrow> bytes \<Rightarrow> bytes option" where
  "backup_of h salt slots = refresh_crcs [0..<unat (hd_key_slot_count h)] (overlay DC_BASE_SIZE slots (with_salt salt h))"

lemma backup_of_facts:
  assumes h: "sealable h n" "slots_in_buffer h" and salt: "length salt = 64" "\<exists>x \<in> set salt. x \<noteq> 0" and sl: "length slots = unat (hd_slot_area_len h)"
  obtains g where "backup_of h salt slots = Some g" "sealable g n" "take 64 g = salt" "\<forall>k < 1024. 64 \<le> k \<longrightarrow> g ! k = h ! k"
    "slice 1024 (unat (hd_slot_area_len h)) g = slots" "\<forall>i < unat (hd_key_slot_count h). active h i \<longrightarrow> slot_ok g i"
    "hd_slot_area_len g = hd_slot_area_len h" "hd_head_len g = hd_head_len h"
proof -
  have n: "length h = n" "2048 \<le> n" using h(1) by (simp_all add: sealable_def)
  define hs where "hs = with_salt salt h"
  have hs: "sealable hs n" "length hs = n" using with_salt_sealable [OF h(1) salt] by (simp_all add: hs_def sealable_def)
  note f = with_salt_fields [OF salt(1), of h, folded hs_def]
  have area: "1024 + unat (hd_slot_area_len h) \<le> n" using h(2) n(1) by (simp add: slots_in_buffer_def vol_sizes)
  define ho where "ho = overlay 1024 slots hs"
  have sbo: "same_base hs ho" unfolding ho_def by (rule same_base_overlay) (use area sl hs(2) in simp_all)
  have sibs: "slots_in_buffer hs" using h(2) hs(2) n(1) by (auto simp: slots_in_buffer_def cp_has_key_slots_def f split: if_splits)
  note lo = same_base_layout [OF sbo sibs]
  obtain g where g: "refresh_crcs [0..<unat (hd_key_slot_count h)] ho = Some g" "same_base ho g"
      "\<forall>i \<in> set [0..<unat (hd_key_slot_count h)]. active ho i \<longrightarrow> slot_ok g i"
      "\<forall>k < length ho. (\<forall>i \<in> set [0..<unat (hd_key_slot_count h)]. k < info_off ho i \<or> info_off ho i + 4 \<le> k) \<longrightarrow> g ! k = ho ! k"
    using refresh_crcs_all [OF distinct_upt _ lo(1), of 0 "unat (hd_key_slot_count h)"] lo(5) f(3) by auto
  have sb: "same_base hs g" by (rule same_base_trans [OF sbo g(2)])
  have lg: "length g = n" "\<forall>k < 1024. g ! k = hs ! k" using sb hs(2) by (simp_all add: same_base_def)
  note bf = base_fields [of g hs, unfolded lg(1) hs(2), OF _ _ lg(2)]
  have eq: "hd_version g = hd_version hs" "hd_feature_flags g = hd_feature_flags hs" "hd_key_slot_count g = hd_key_slot_count hs"
    "hd_slot_area_len g = hd_slot_area_len hs" "hd_slot_info_size g = hd_slot_info_size hs" "hd_head_len g = hd_head_len hs" "hd_footer_cnt g = hd_footer_cnt hs"
    using bf n(2) by simp_all
  have seal: "sealable g n"
  proof -
    have hv: "header_valid hs" "DC_HDR_VERSION_2 \<le> hd_version hs" "0 \<le> hd_footer_cnt hs" "layout_ok hs n" using hs(1) by (simp_all add: sealable_def)
    have "header_valid g" by (rule header_valid_base [OF hv(1-3)]) (use lg hs(2) n(2) in simp_all)
    moreover have "layout_ok g n" using hv(4) by (simp add: layout_ok_def slots_copied_def slot_size_of_def eq)
    ultimately show ?thesis using h(1) hv lg(1) by (simp add: sealable_def eq)
  qed
  have desc: "slot_desc ho i = slot_desc h i" for i
  proof -
    have "info_off ho i = info_off h i" "hd_slot_info_size ho = hd_slot_info_size h" "64 \<le> info_off h i"
      "1024 + unat (hd_slot_area_len h) \<le> info_off h i" by (simp_all add: lo f info_off_def vol_sizes)
    moreover have "drop m ho = drop m h" if "1024 + unat (hd_slot_area_len h) \<le> m" for m
      using that sl area hs(2) salt(1) by (simp add: ho_def hs_def overlay_def with_salt_def)
    ultimately show ?thesis by (simp add: slot_desc_def slice_def)
  qed
  have "slice 1024 (unat (hd_slot_area_len h)) g = slice 1024 (unat (hd_slot_area_len h)) ho"
    by (rule fld_nth_cong) (use g(4) area lg(1) hs(2) sbo in \<open>auto simp: same_base_def lo info_off_def f vol_sizes\<close>)
  also have "\<dots> = slots" using slice_overlay_same [of 1024 slots hs] area sl hs(2) by (simp add: ho_def)
  finally have slots: "slice 1024 (unat (hd_slot_area_len h)) g = slots" .
  show thesis
  proof (rule that [OF _ seal _ _ slots])
    show "backup_of h salt slots = Some g" using g(1) by (simp add: backup_of_def ho_def hs_def DC_BASE_SIZE_def)
    show "take 64 g = salt" using lg n(2) salt(1) by (auto simp: hs_def with_salt_def nth_append intro!: nth_equalityI)
    show "\<forall>k < 1024. 64 \<le> k \<longrightarrow> g ! k = h ! k" using lg(2) salt(1) n by (auto simp: hs_def with_salt_def nth_append)
    show "\<forall>i < unat (hd_key_slot_count h). active h i \<longrightarrow> slot_ok g i" using g(3) desc by (simp add: active_def)
  qed (simp_all add: eq f)
qed

lemma clear_slot_byte_area:
  assumes "clear_slot_byte g k"
  shows "1024 \<le> k" "k < 1024 + unat (hd_slot_area_len g)"
proof -
  show "1024 \<le> k" by (rule clear_slot_byte_range [OF assms])
  obtain i where i: "i < unat (hd_key_slot_count g)" "k < 1024 + slot_size_of g * i + slot_size_of g" "hd_key_slot_count g \<noteq> 0"
    using assms by (auto simp: clear_slot_byte_def in_copied_slot_def slots_copied_def DC_BASE_SIZE_def)
  then have "slot_size_of g * i + slot_size_of g \<le> slot_size_of g * unat (hd_key_slot_count g)"
    by (metis Suc_leI mult_Suc_right add.commute mult_le_mono2)
  then show "k < 1024 + unat (hd_slot_area_len g)" using i(2) slot_area_fits [OF i(3)] by linarith
qed

context header_device
begin

lemma backup_slots_kept:
  assumes inv: "inv w" and h: "length h = n" "2048 \<le> n" "n < 2 ^ 31" "slots_in_buffer h" and dev: "n = unat (d_head_len dev)"
    and room: "unat (backup_pos dev) + n \<le> length (disk w)" and flags: "flags AND HF_CLEAR_SLOTS = 0" and salt: "length salt = 64"
    and slots: "slots = slice (unat (backup_pos dev) + 1024) (unat (hd_slot_area_len h)) (disk w)" and g: "backup_of h salt slots = Some g"
  shows "\<exists>old w'. backup_slots H rw dev h (with_salt salt h) None flags w = Some (ST_OK, g, Some old, w') \<and> inv w' \<and> disk w' = disk w"
proof -
  have area: "1024 + unat (hd_slot_area_len h) \<le> n" using h(1,4) by (simp add: slots_in_buffer_def vol_sizes)
  have len: "length (with_salt salt h) = n" using h(1,2) salt by (simp add: with_salt_def)
  obtain old w1 where old: "dc_alloc H n w = (Some old, w1)" "length old = n" "inv w1" "disk w1 = disk w" using quiet_alloc [OF inv] by metis
  let ?raw = "slice (unat (backup_pos dev)) n (disk w)"
  have rd: "rw old (d_head_len dev) (backup_pos dev) True w1 = Some (ST_OK, ?raw, w1)"
    using read_range [OF old(3), of "backup_pos dev" n old] room old(2,4) h(3) dev by simp
  have "rd DC_BASE_SIZE (unat (hd_slot_area_len h)) ?raw = Some slots"
    using area room by (simp add: slots slice_slice DC_BASE_SIZE_def)
  moreover have "length slots = unat (hd_slot_area_len h)" using slots room area by simp
  then have "wr DC_BASE_SIZE slots (with_salt salt h) = Some (overlay DC_BASE_SIZE slots (with_salt salt h))"
    using len area by (simp add: DC_BASE_SIZE_def)
  moreover have "hd_key_slot_count (overlay DC_BASE_SIZE slots (with_salt salt h)) = hd_key_slot_count h"
    using base_overlay(5) [of 1024 slots "with_salt salt h"] len area \<open>length slots = _\<close> with_salt_fields(3) [OF salt, of h] by (simp add: DC_BASE_SIZE_def)
  moreover have "hd_key_slot_count h \<noteq> 0" using h(4) by (auto simp: slots_in_buffer_def cp_has_key_slots_def split: if_splits)
  ultimately show ?thesis
    using old rd g flags dev by (simp add: backup_slots_def backup_of_def del: rd_Some wr_Some)
qed

lemma update_backup_run:
  assumes inv: "inv w" and h: "sealable h n" "n = unat (hd_head_len h)" "slots_in_buffer h" and dev: "d_head_len dev = hd_head_len h"
    "d_opt dev AND DC_DEV_BACKUP_HEADER \<noteq> 0"
    "if d_opt dev AND DC_DEV_STORAGE_ON_END \<noteq> 0 then 2 * n \<le> unat (d_stor_len dev) else n \<le> unat (d_tail_len dev)"
    and room: "unat (backup_pos dev) + n \<le> length (disk w)" and flags: "flags AND HF_CLEAR_SLOTS = 0"
    and salt: "length salt = 64" and key: "encrypt_p key \<noteq> xts_null"
    and slots: "slots = slice (unat (backup_pos dev) + 1024) (unat (hd_slot_area_len h)) (disk w)" and g: "backup_of h salt slots = Some g"
    and wrt: "\<And>w. inv w \<Longrightarrow> disk w = disk w0 \<Longrightarrow>
      \<exists>w'. io_write_header S H rw dev (backup_pos dev) g (Some key) None flags w = Some (ST_OK, g, w') \<and> inv w' \<and> disk w' = D" and "disk w0 = disk w"
  shows "\<exists>w'. dc_update_backup S H rw dev (Some h) (Some salt) (Some key) None flags w = Some (ST_OK, w') \<and> inv w' \<and> disk w' = D"
proof -
  have n: "length h = n" "2048 \<le> n" "n < 2 ^ 31" "header_valid h" using h(1) by (simp_all add: sealable_def)
  have ok: "is_volume_header_correct (Some h) = Some True" using is_volume_header_correct_iff [of h] n by simp
  have store: "\<not> (if d_opt dev AND DC_DEV_STORAGE_ON_END \<noteq> 0 then d_stor_len dev < d_head_len dev * 2 else d_tail_len dev < d_head_len dev)"
    using dev h(2) n(3) by (auto simp: word_less_nat_alt unat_word_ariths(2) split: if_splits)
  have area: "1024 + unat (hd_slot_area_len h) \<le> n" using h(3) n(1) by (simp add: slots_in_buffer_def vol_sizes)
  have has: "DC_HDR_VERSION_2 \<le> hd_version h" "hd_feature_flags h AND FF_KEY_SLOTS \<noteq> 0" "0 < hd_slot_area_len h"
    using h(3) by (auto simp: slots_in_buffer_def cp_has_key_slots_def word_gt_0 split: if_splits)
  obtain hc w1 where hc: "dc_alloc H n w = (Some hc, w1)" "length hc = n" "inv w1" "disk w1 = disk w" using quiet_alloc [OF inv] by metis
  have nn: "n = unat (d_head_len dev)" using dev(1) h(2) by simp
  obtain old w2 where sl: "backup_slots H rw dev h (with_salt salt h) None flags w1 = Some (ST_OK, g, Some old, w2)" "inv w2" "disk w2 = disk w"
    using backup_slots_kept [OF hc(3) n(1-3) h(3) nn _ flags salt _ g] room hc(4) slots by auto
  obtain w3 where w3: "io_write_header S H rw dev (backup_pos dev) g (Some key) None flags w2 = Some (ST_OK, g, w3)" "inv w3" "disk w3 = D"
    using wrt [OF sl(2)] sl(3) assms(15) by auto
  have cp: "rd 0 n h = Some h" "wr 0 h hc = Some h" "rd 0 HEADER_SALT_SIZE salt = Some salt" "wr 0 salt h = Some (with_salt salt h)"
    using n(1,2) hc(2) salt by (simp_all add: vol_sizes with_salt_overlay)
  have "dc_update_backup S H rw dev (Some h) (Some salt) (Some key) None flags w = Some (ST_OK, dc_free H (Some g) (dc_free H (Some old) w3))"
    using dev(2) ok key store hc(1) cp has leD [OF area] sl(1) w3(1)
    by (simp add: dc_update_backup_def nn [symmetric] DC_BASE_SIZE_def del: rd_Some wr_Some split del: if_split)
  then show ?thesis using w3 by (simp add: quiet_free)
qed

end

section \<open>Properties\<close>

text \<open>
  C18 (functional): the password of a key slot.  For a slot within the header, with both keys derived, the call
  succeeds: the slot unwraps with the key of the new password to the key of the old one, its descriptor is
  active, not corrupt, carries the key derivation function of the new password and reads back with a right
  checksum, and no byte outside the slot and its descriptor changes.
\<close>

theorem change_slot_pass_opens:
  assumes "slots_in_buffer h" and "DC_BASE_SIZE + unat (hd_slot_area_len h) + unat (hd_key_slot_count h) * unat (hd_slot_info_size h) \<le> unat (hd_head_len h)"
    and "1 \<le> p_slot new_pass" and "p_slot new_pass \<le> int (unat (hd_key_slot_count h))" and "192 \<le> slot_size_of h"
    and "dc_derive_key H old_pass (p_kdf old_pass) (hd_salt h) (replicate PKCS_DERIVE_MAX 0) w = (1, dk, w1)" and "length dk = 192"
    and "dc_derive_key H new_pass (p_kdf new_pass) (hd_salt h) (replicate PKCS_DERIVE_MAX 0) w1 = (1, sk, w2)" and "length sk = 192"
    and "length buf = 192" and "length info = 32"
  shows "\<exists>g info'. dc_change_slot_pass H h old_pass new_pass w = Some (ST_OK, g, w2) \<and> length g = length h \<and>
    try_decrypt_slot sk (drop (slot_off h (nat (p_slot new_pass - 1))) g) buf 0 = Some (1, dk) \<and>
    cp_get_slot_info (Some g) (p_slot new_pass - 1) info = Some (ST_OK, info') \<and>
    si_flags 0 info' AND SF_ACTIVE \<noteq> 0 \<and> si_flags 0 info' AND SF_CORRUPT = 0 \<and> (fld 30 1 info' :: u8) = of_int (p_kdf new_pass) \<and>
    (\<forall>k < length h. \<not> slot_byte h (nat (p_slot new_pass - 1)) k \<longrightarrow> g ! k = h ! k)"
proof -
  define i where "i = nat (p_slot new_pass - 1)"
  have i: "i < unat (hd_key_slot_count h)" using assms(3,4) by (simp add: i_def nat_less_iff)
  note r = slot_ranges [OF assms(1) i] and d = desc_fields [OF assms(1) i]
  obtain g1 g2 g3 where act: "wr (info_off h i + 4) (le_bytes 4 (((fld 4 4 (slot_desc h i) :: u32) OR SF_ACTIVE) AND NOT SF_CORRUPT)) h = Some g1"
      "wr (info_off h i + 8) (le_bytes 2 DC_SLOT_TYPE_0) g1 = Some g2" "wr (info_off h i + 30) (le_bytes 1 (of_int (p_kdf new_pass) :: u8)) g2 = Some g3"
    and g3: "slot_only h i g3" "slot_desc g3 i = active_desc (of_int (p_kdf new_pass)) (slot_desc h i)" "slot_data g3 i = slot_data h i"
    by (rule activate_slot [OF assms(1) i, of "of_int (p_kdf new_pass)"])
  note l3 = slot_only_layout [OF g3(1) assms(1)]
  have h3: "i < unat (hd_key_slot_count g3)" "192 \<le> slot_size_of g3" using i assms(5) l3 by simp_all
  obtain s g4 c g where wrap: "cp_wrap_header_key (drop (slot_off g3 i) g3) sk dk 0 = Some (1, s)" "wr (slot_off g3 i) s g3 = Some g4"
      "slot_info_crc g4 i = Some (crc32 (drop 4 (slot_desc g4 i)))" "with_slot_crc g4 i (crc32 (drop 4 (slot_desc g4 i))) = Some c"
      "wr (info_off g3 i) (le_bytes 4 c) g4 = Some g"
    and g: "slot_only g3 i g" "take 192 (slot_data g i) = xor_bytes sk dk" "drop 4 (slot_desc g i) = drop 4 (slot_desc g3 i)"
      "fld 0 4 (slot_desc g i) = crc32 (drop 4 (slot_desc g i) @ slot_data g i)"
    by (rule wrap_slot [OF l3(1) h3 assms(7,9)])
  have only: "slot_only h i g" by (rule slot_only_trans [OF assms(1) g3(1) g(1)])
  note l = slot_only_layout [OF only assms(1)]
  have has: "\<not> hd_version h < DC_HDR_VERSION_2" "hd_feature_flags h AND FF_KEY_SLOTS \<noteq> 0" "hd_key_slot_count h \<noteq> 0" "hd_slot_area_len h \<noteq> 0"
    using assms(1) by (auto simp: slots_in_buffer_def cp_has_key_slots_def split: if_splits)
  have fits: "\<not> unat (hd_head_len h) < slot_off h i + slot_size_of h" "\<not> unat (hd_head_len h) < info_off h i + unat (hd_slot_info_size h)"
  proof -
    have "i * unat (hd_slot_info_size h) + unat (hd_slot_info_size h) \<le> unat (hd_key_slot_count h) * unat (hd_slot_info_size h)"
      using i by (metis Suc_leI mult_Suc mult_le_mono1 add.commute)
    then show "\<not> unat (hd_head_len h) < info_off h i + unat (hd_slot_info_size h)" using assms(2) by (simp add: info_off_def)
    then show "\<not> unat (hd_head_len h) < slot_off h i + slot_size_of h" using r(2) by linarith
  qed
  have flags: "rd (info_off h i + 4) 4 h = Some (slice 4 4 (slot_desc h i))" "(le_word (slice 4 4 (slot_desc h i)) :: u32) = fld 4 4 (slot_desc h i)"
    using d(3) by (simp_all only: fld_def)
  have run: "dc_change_slot_pass H h old_pass new_pass w = Some (ST_OK, g, w2)"
    unfolding dc_change_slot_pass_def Let_def i_def [symmetric]
    using has fits leD [OF r(5)] leD [OF assms(3)] leD [OF assms(4)] assms(6,8) flags act wrap l3(2,3)
    by (simp add: SLOT_INFO_SIZE_def DC_SLOT_TYPE_0_def del: rd_Some wr_Some)
  have len: "32 \<le> length (slot_desc h i)" "32 \<le> length (slot_desc g i)" using d(1) desc_fields(1) [OF l(1), of i] i l r(5) by simp_all
  note ad = active_desc_fields [OF len(1), of "of_int (p_kdf new_pass)", folded g3(2)]
  have "si_flags 0 (take 32 (slot_desc g i)) = ((fld 4 4 (slot_desc h i) OR SF_ACTIVE) AND NOT SF_CORRUPT)"
    "(fld 30 1 (take 32 (slot_desc g i)) :: u8) = of_int (p_kdf new_pass)"
    using fld_drop [OF _ g(3), of 4 4, where ?'a = 32] fld_drop [OF _ g(3), of 30 1, where ?'a = 8] ad(2,3)
    by (simp_all add: si_flags_def fld_take)
  moreover have "try_decrypt_slot sk (drop (slot_off h i) g) buf 0 = Some (1, dk)"
    using try_decrypt_slot_xor [of sk "drop (slot_off h i) g" buf] g(2) take_slot_data [of 192 g i] l r(6) assms(5,7,9,10)
    by (simp add: xor_bytes_commute [of sk dk])
  moreover have "cp_get_slot_info (Some g) (p_slot new_pass - 1) info = Some (ST_OK, take 32 (slot_desc g i))"
    using read_slot_info [OF l(1), of "p_slot new_pass - 1" info] g(4) assms(3,4,11) l by (simp add: i_def)
  ultimately show ?thesis
    using run only l(7) new_flags [of "fld 4 4 (slot_desc h i)"] unfolding i_def [symmetric] by (auto simp: slot_only_def)
qed

text \<open>
  C17 (functional): a new header key reaches every slot.  When both keys are derived from the same salt, each
  slot that was active with a right checksum is so again, and whatever slot key unwrapped the old header key from
  it now unwraps the new one; every other slot loses its checksum.  The base of the header does not change, and
  the caller gets the schedule of the new key exactly when some slot is in use.
\<close>

theorem update_key_slots_rewraps:
  assumes "slots_in_buffer h" and "192 \<le> slot_size_of h" and "rand_ok H" and "length old_dk = 192" and "length new_dk = 192"
    and "length dk0 = 192" and "length dk1 = 192" and "hd_alg_1 h \<in> {0..<CF_CIPHERS_NUM}"
    and "\<forall>d w. length d = 192 \<longrightarrow> (\<exists>w'. dc_derive_key H old_pass (p_kdf old_pass) (hd_salt h) d w = (1, old_dk, w'))"
    and "\<forall>d w. length d = 192 \<longrightarrow> (\<exists>w'. dc_derive_key H new_pass (p_kdf new_pass) (hd_salt h) d w = (1, new_dk, w'))"
    and "\<forall>n w. \<exists>b w'. e_secure_alloc H n w = (Some b, w')"
    and "\<forall>i < unat (hd_key_slot_count h). slot_ok h i \<longrightarrow> si_type (info_off h i) h = DC_SLOT_TYPE_0"
  shows "\<exists>g hk' w'. dc_update_key_slots H dk0 dk1 h hk old_pass new_pass w = Some (ST_OK, g, hk', w') \<and> length g = length h \<and>
    (\<forall>k < 1024. g ! k = h ! k) \<and>
    (\<forall>i < unat (hd_key_slot_count h). slot_ok h i \<longrightarrow> slot_ok g i \<and>
       (\<forall>sd buf. length sd = 192 \<and> length buf = 192 \<and> try_decrypt_slot sd (drop (slot_off h i) h) buf 0 = Some (1, old_dk) \<longrightarrow>
          try_decrypt_slot sd (drop (slot_off h i) g) buf 0 = Some (1, new_dk))) \<and>
    (\<forall>i < unat (hd_key_slot_count h). \<not> slot_ok h i \<longrightarrow> si_crc (info_off h i) g = 0) \<and>
    hk' = (if \<exists>i < unat (hd_key_slot_count h). slot_ok h i then Some (snd (xts_set_key new_dk (hd_alg_1 h) (e_key_block H))) else hk)"
proof -
  let ?is = "[0..<unat (hd_key_slot_count h)]"
  have len192: "PKCS_DERIVE_MAX = 192" by (simp add: vol_sizes)
  obtain w1 where w1: "dc_derive_key H old_pass (p_kdf old_pass) (hd_salt h) dk0 w = (1, old_dk, w1)" using assms(6,9) by blast
  obtain w2 where w2: "dc_derive_key H new_pass (p_kdf new_pass) (hd_salt h) dk1 w1 = (1, new_dk, w2)" using assms(7,10) by blast
  have ty: "\<forall>i \<in> set ?is. slot_ok h i \<longrightarrow> fld 8 2 (slot_desc h i) = (0 :: u16)"
  proof (intro ballI impI)
    fix i assume "i \<in> set ?is" "slot_ok h i"
    then have i: "i < unat (hd_key_slot_count h)" and t: "si_type (info_off h i) h = 0" using assms(12) by (auto simp: DC_SLOT_TYPE_0_def)
    have "slice 8 2 (slot_desc h i) = slice (info_off h i + 8) 2 h" using desc_fields(4) [OF assms(1) i] by simp
    then show "fld 8 2 (slot_desc h i) = (0 :: u16)" using t by (simp add: si_type_def fld_def)
  qed
  obtain g w3 where g: "update_slots H old_dk new_dk ?is h 0 w2 = Some (ST_OK, g, 0 + length (filter (slot_ok h) ?is), w3)" "same_base h g"
      "\<forall>i \<in> set ?is. exchanged old_dk new_dk (slot_desc h i) (slot_data h i) (slot_desc g i) (slot_data g i)"
    using update_slots_all [OF distinct_upt _ assms(1-5) ty, of 0 w2] by auto
  note l = same_base_layout [OF g(2) assms(1)]
  have used: "(0 < length (filter (slot_ok h) ?is)) = (\<exists>i < unat (hd_key_slot_count h). slot_ok h i)" by (auto simp: filter_empty_conv)
  have count: "hd_key_slot_count h \<noteq> 0" using assms(1) by (auto simp: slots_in_buffer_def cp_has_key_slots_def split: if_splits)
  obtain b w4 where b: "dc_alloc H (e_sizeof_xts_key H) w3 = (Some b, w4)" using assms(11) unfolding dc_alloc_def by blast
  obtain w5 where w5: "dc_derive_key H new_pass (p_kdf new_pass) (hd_salt h) (replicate PKCS_DERIVE_MAX 0) w4 = (1, new_dk, w5)"
    using assms(10) len192 by (metis length_replicate)
  have one: "fst (xts_set_key new_dk (hd_alg_1 h) (e_key_block H)) = 1" using assms(8) by (auto simp: xts_set_key_def cf_defs)
  have run: "\<exists>w'. dc_update_key_slots H dk0 dk1 h hk old_pass new_pass w = Some (ST_OK, g,
      (if \<exists>i < unat (hd_key_slot_count h). slot_ok h i then Some (snd (xts_set_key new_dk (hd_alg_1 h) (e_key_block H))) else hk), w')"
    using w1 w2 g(1) b w5 one count unfolding used [symmetric] by (simp add: dc_update_key_slots_def cp_set_header_key_def l case_prod_beta)
  have "slot_ok g i" if "i < unat (hd_key_slot_count h)" "slot_ok h i" for i
  proof -
    have "exchanged old_dk new_dk (slot_desc h i) (slot_data h i) (slot_desc g i) (slot_data g i)" using g(3) that(1) by simp
    then show ?thesis using that(2) by (auto simp: exchanged_def slot_ok_def)
  qed
  moreover have "si_crc (info_off h i) g = 0" if "i < unat (hd_key_slot_count h)" "\<not> slot_ok h i" for i
    using that g(3) desc_fields(5) [OF l(1), of i] by (simp add: exchanged_def slot_ok_def l)
  moreover have "try_decrypt_slot sd (drop (slot_off h i) g) buf 0 = Some (1, new_dk)"
    if "i < unat (hd_key_slot_count h)" "slot_ok h i" "length sd = 192" "length buf = 192" "try_decrypt_slot sd (drop (slot_off h i) h) buf 0 = Some (1, old_dk)"
    for i sd buf
    using exchanged_unwraps [OF g(2) assms(1) that(1) assms(2,4,5) _ that(2-5)] g(3) that(1) by simp
  ultimately show ?thesis using run g(2) unfolding same_base_def by blast
qed

text \<open>
  C12 (refinement): an update of the backup header without \<^verbatim>\<open>HF_CLEAR_SLOTS\<close> and without key slots of the caller
  keeps the backup's own key slots.  When the device has room and the header is valid, the call stores at the
  end of the device the sealed image of a header with the salt that was passed, the base of the primary header
  and the slot area that the old backup had; every active slot of it has a right checksum again, and on the
  device the bytes of the enabled slots are those that were there before, so the slot passwords of the backup
  still open it.  A caller that passes key slots, as \<^verbatim>\<open>enc_dec.c\<close> does with \<^verbatim>\<open>bak_key_slots\<close>, or asks for clearing,
  replaces the slots; that is outside this theorem.
\<close>

theorem update_backup_keeps_slots:
  assumes "header_device rw disk ok H" and "aes_core_ok A" and "xts_set_key dk alg k = (1, key)" and "ok w"
    and "sealable h n" and "n = unat (hd_head_len h)" and "slots_in_buffer h" and "d_head_len dev = hd_head_len h"
    and "d_opt dev AND DC_DEV_BACKUP_HEADER \<noteq> 0"
    and "if d_opt dev AND DC_DEV_STORAGE_ON_END \<noteq> 0 then 2 * n \<le> unat (d_stor_len dev) else n \<le> unat (d_tail_len dev)"
    and "0 < unat (d_bps dev)" and "unat (d_bps dev) dvd n" and "n + unat (d_bps dev) \<le> 2 ^ 31"
    and "flags AND HF_UPDATE_ALL = 0 \<or> flags AND HF_UPDATE_ALL = HF_UPDATE_ALL" and "flags AND HF_CLEAR_SLOTS = 0"
    and "unat (backup_pos dev) + n \<le> length (disk w)" and "length salt = 64" and "\<exists>x \<in> set salt. x \<noteq> 0"
  shows "\<exists>g b w'. dc_update_backup (scalar_selection A) H rw dev (Some h) (Some salt) (Some key) None flags w = Some (ST_OK, w') \<and>
    cp_encrypt_header (scalar_selection A) (Some g) (int n) (Some key) (Some g) = Some (ST_OK, Some b) \<and> length b = n \<and>
    disk w' = overlay (unat (backup_pos dev)) b (disk w) \<and> take 64 g = salt \<and> (\<forall>j < 1024. 64 \<le> j \<longrightarrow> g ! j = h ! j) \<and>
    slice 1024 (unat (hd_slot_area_len h)) g = slice (unat (backup_pos dev) + 1024) (unat (hd_slot_area_len h)) (disk w) \<and>
    (\<forall>i < unat (hd_key_slot_count h). active h i \<longrightarrow> slot_ok g i) \<and>
    (\<forall>j < n. clear_slot_byte g j \<longrightarrow> disk w' ! (unat (backup_pos dev) + j) = disk w ! (unat (backup_pos dev) + j))"
proof -
  let ?S = "scalar_selection A" and ?pos = "unat (backup_pos dev)" and ?area = "unat (hd_slot_area_len h)"
  define slots where "slots = slice (?pos + 1024) ?area (disk w)"
  have n: "length h = n" using assms(5) by (simp add: sealable_def)
  have area: "1024 + ?area \<le> n" using assms(7) n by (simp add: slots_in_buffer_def vol_sizes)
  have ls: "length slots = ?area" using area assms(16) by (simp add: slots_def)
  obtain g where g: "backup_of h salt slots = Some g" "sealable g n" "take 64 g = salt" "\<forall>j < 1024. 64 \<le> j \<longrightarrow> g ! j = h ! j"
      "slice 1024 ?area g = slots" "\<forall>i < unat (hd_key_slot_count h). active h i \<longrightarrow> slot_ok g i"
      "hd_slot_area_len g = hd_slot_area_len h" "hd_head_len g = hd_head_len h"
    by (rule backup_of_facts [OF assms(5,7,17,18) ls])
  have ek: "encrypt_p key \<noteq> xts_null" using assms(3) by (auto simp: xts_set_key_def split: if_splits)
  obtain e d where loc: "xts_local (xts_encrypt ?S key) (xts_decrypt ?S key) e d"
    using xts_set_key_local [OF assms(2,3)] by (auto simp: local_pair_def)
  have lg: "length g = n" using g(2) by (simp add: sealable_def)
  obtain c b where b: "cp_encrypt_header ?S (Some g) (int n) (Some key) (Some g) = Some (ST_OK, Some b)" "length b = n"
      "\<forall>j < n. b ! j = (if j < 64 \<or> clear_slot_byte g j then g ! j else c ! j)"
    using seal_bytes [OF loc ek g(2) lg] by blast
  have up: "round_up n (unat (d_bps dev)) = n" by (rule round_up_exact [OF assms(11,12)])
  have wrt: "\<exists>w'. io_write_header ?S H rw dev (backup_pos dev) g (Some key) None flags v = Some (ST_OK, g, w') \<and> ok w' \<and> disk w' = overlay ?pos b (disk w)"
    if v: "ok v" "disk v = disk w" for v
    using header_device.write_given [OF assms(1-3) v(1) g(2) _ assms(11,13-15), of "backup_pos dev" None] b(1,2) up assms(6,16) g(8) v(2) by auto
  obtain w' where w': "dc_update_backup ?S H rw dev (Some h) (Some salt) (Some key) None flags w = Some (ST_OK, w')" "disk w' = overlay ?pos b (disk w)"
    using header_device.update_backup_run [OF assms(1,4-10,16,15,17) ek slots_def g(1) wrt refl] by blast
  have kept: "disk w' ! (?pos + j) = disk w ! (?pos + j)" if j: "j < n" "clear_slot_byte g j" for j
  proof -
    have r: "1024 \<le> j" "j < 1024 + ?area" using clear_slot_byte_area [OF j(2)] g(7) by simp_all
    then have "g ! j = slots ! (j - 1024)" using g(5) ls lg area by (metis nth_slice le_add_diff_inverse less_diff_conv2 add.commute j(1))
    also have "\<dots> = disk w ! (?pos + j)" using r area assms(16) by (simp add: slots_def nth_slice)
    finally show ?thesis using b(2,3) j w'(2) assms(16) by (simp add: nth_overlay)
  qed
  show ?thesis using w' b(1,2) g(3-6) kept unfolding slots_def by blast
qed

section \<open>Instances\<close>

text \<open>A header with two slots, the first one in use, and two passwords that are used as keys.\<close>

definition two_slots :: bytes where
  "two_slots = set_fld 614 4 (2048 :: u32) slot_header"

definition other_pass :: dc_pass where
  "other_pass = disk_pass\<lparr>p_pass := replicate 256 4, p_slot := 1\<rparr>"

lemma two_slots_fields:
  "length two_slots = 2048" "hd_version two_slots = 3" "hd_feature_flags two_slots = 1" "hd_slot_area_len two_slots = 384"
  "hd_key_slot_count two_slots = 2" "hd_slot_info_size two_slots = 32" "hd_head_len two_slots = 2048"
proof -
  have h: "hd_version two_slots = hd_version slot_header" "hd_feature_flags two_slots = hd_feature_flags slot_header"
    "hd_slot_area_len two_slots = hd_slot_area_len slot_header" "hd_key_slot_count two_slots = hd_key_slot_count slot_header"
    "hd_slot_info_size two_slots = hd_slot_info_size slot_header"
    by (simp_all add: two_slots_def hd_version_def hd_feature_flags_def hd_slot_area_len_def hd_key_slot_count_def hd_slot_info_size_def
        fld_set_other slot_header_fields(1))
  show "length two_slots = 2048" "hd_version two_slots = 3" "hd_feature_flags two_slots = 1" "hd_slot_area_len two_slots = 384"
    "hd_key_slot_count two_slots = 2" "hd_slot_info_size two_slots = 32"
    by (simp_all add: h slot_header_fields) (simp add: two_slots_def slot_header_fields)
  show "hd_head_len two_slots = 2048" by (simp add: two_slots_def hd_head_len_def fld_set_same slot_header_fields)
qed

lemma two_slots_in_buffer: "slots_in_buffer two_slots" "slot_size_of two_slots = 192"
  by (simp_all add: slots_in_buffer_def cp_has_key_slots_def two_slots_fields slot_size_of_def vol_sizes DC_HDR_VERSION_2_def FF_KEY_SLOTS_def)

lemma pass_as_key:
  "length d = 192 \<Longrightarrow> dc_derive_key H disk_pass (p_kdf disk_pass) salt d w = (1, replicate 192 9, w)"
  "length d = 192 \<Longrightarrow> dc_derive_key H other_pass (p_kdf other_pass) salt d w = (1, replicate 192 4, w)"
  by (simp_all add: dc_derive_key_def other_pass_def disk_pass_def kdf_defs vol_sizes)

theorem change_slot_pass_opens_witness:
  "\<exists>g info'. dc_change_slot_pass plain_env two_slots disk_pass other_pass 5 = Some (ST_OK, g, 5) \<and> length g = length two_slots \<and>
    try_decrypt_slot (replicate 192 4) (drop (slot_off two_slots (nat (p_slot other_pass - 1))) g) (replicate 192 0) 0 = Some (1, replicate 192 9) \<and>
    cp_get_slot_info (Some g) (p_slot other_pass - 1) (replicate 32 0) = Some (ST_OK, info') \<and>
    si_flags 0 info' AND SF_ACTIVE \<noteq> 0 \<and> si_flags 0 info' AND SF_CORRUPT = 0 \<and> (fld 30 1 info' :: u8) = of_int (p_kdf other_pass) \<and>
    (\<forall>k < length two_slots. \<not> slot_byte two_slots (nat (p_slot other_pass - 1)) k \<longrightarrow> g ! k = two_slots ! k)"
proof (rule change_slot_pass_opens [OF two_slots_in_buffer(1)])
  show "dc_derive_key plain_env disk_pass (p_kdf disk_pass) (hd_salt two_slots) (replicate PKCS_DERIVE_MAX 0) 5 = (1, replicate 192 9, 5)"
    "dc_derive_key plain_env other_pass (p_kdf other_pass) (hd_salt two_slots) (replicate PKCS_DERIVE_MAX 0) 5 = (1, replicate 192 4, 5)"
    by (rule pass_as_key, simp add: vol_sizes)+
qed (simp_all add: two_slots_fields two_slots_in_buffer other_pass_def vol_sizes)

text \<open>The same header with its first slot marked active and its checksum stored.\<close>

definition used_slot :: bytes where
  "used_slot = the (refresh_crcs [0] (set_fld 1412 4 (1 :: u32) two_slots))"

lemma slot_header_zero: "640 \<le> off \<Longrightarrow> off + n \<le> 2048 \<Longrightarrow> (fld off n two_slots :: 'a::len word) = 0"
proof -
  assume "640 \<le> off" "off + n \<le> 2048"
  then show ?thesis by (simp add: two_slots_def slot_header_def fld_set_other fld_zero)
qed

lemma used_slot_facts:
  "same_base two_slots used_slot" "slots_in_buffer used_slot" "slot_size_of used_slot = 192" "hd_key_slot_count used_slot = 2"
  "slot_ok used_slot 0" "\<forall>i < 2. si_type (info_off used_slot i) used_slot = DC_SLOT_TYPE_0" "hd_alg_1 used_slot = 0"
proof -
  define h where "h = set_fld 1412 4 (1 :: u32) two_slots"
  have sb: "same_base two_slots h" unfolding h_def set_fld_def by (rule same_base_overlay) (simp_all add: two_slots_fields)
  note l = same_base_layout [OF sb two_slots_in_buffer(1)]
  obtain g where g: "refresh_crcs [0] h = Some g" "same_base h g" "active h 0 \<Longrightarrow> slot_ok g 0"
      "\<forall>k < length h. (k < info_off h 0 \<or> info_off h 0 + 4 \<le> k) \<longrightarrow> g ! k = h ! k"
    using refresh_crcs_all [of "[0]" h] l two_slots_fields(5) by auto
  have gu: "used_slot = g" by (simp only: used_slot_def h_def [symmetric] g(1) option.sel)
  have off: "info_off h i = 1408 + 32 * i" for i by (simp add: l info_off_def two_slots_fields vol_sizes)
  have lh: "length h = 2048" by (simp add: h_def two_slots_fields)
  have "fld 4 4 (slot_desc h 0) = (1 :: u32)"
  proof -
    have "(fld 4 4 (slot_desc h 0) :: u32) = fld 1412 4 h" by (simp add: slot_desc_def fld_def l two_slots_fields off [of 0] slice_slice off [of 0, unfolded l])
    then show ?thesis by (simp add: h_def fld_set_same two_slots_fields)
  qed
  then have ok: "slot_ok g 0" using g(3) by (simp add: active_def sf_defs)
  have sb2: "same_base two_slots g" by (rule same_base_trans [OF sb g(2)])
  note l2 = same_base_layout [OF sb2 two_slots_in_buffer(1)]
  have type: "si_type (info_off g i) g = 0" if "i < 2" for i
  proof -
    have "info_off g i = 1408 + 32 * i" by (simp add: l2 info_off_def two_slots_fields vol_sizes)
    moreover have "(fld (1408 + 32 * i + 8) 2 g :: u16) = fld (1408 + 32 * i + 8) 2 h"
      by (rule fld_nth_cong) (use that g(2,4) lh off [of 0] in \<open>auto simp: same_base_def\<close>)
    moreover have "(fld (1408 + 32 * i + 8) 2 h :: u16) = 0"
      unfolding h_def by (subst fld_set_other) (use that in \<open>auto simp: two_slots_fields slot_header_zero\<close>)
    ultimately show ?thesis by (simp add: si_type_def)
  qed
  have "(fld 82 4 two_slots :: u32) = 0"
    by (simp add: two_slots_def slot_header_def fld_set_other fld_zero)
  then have "hd_alg_1 two_slots = 0" by (simp add: hd_alg_1_def)
  then show "same_base two_slots used_slot" "slots_in_buffer used_slot" "slot_size_of used_slot = 192" "hd_key_slot_count used_slot = 2"
    "slot_ok used_slot 0" "\<forall>i < 2. si_type (info_off used_slot i) used_slot = DC_SLOT_TYPE_0" "hd_alg_1 used_slot = 0"
    using sb2 l2 ok type by (simp_all add: gu two_slots_in_buffer two_slots_fields DC_SLOT_TYPE_0_def)
qed

theorem update_key_slots_rewraps_witness:
  "\<exists>g hk' w'. dc_update_key_slots plain_env (replicate 192 0) (replicate 192 0) used_slot None disk_pass other_pass 3 = Some (ST_OK, g, hk', w') \<and>
    slot_ok g 0 \<and> hk' = Some (snd (xts_set_key (replicate 192 4) (hd_alg_1 used_slot) (e_key_block plain_env)))"
proof -
  have "\<exists>g hk' w'. dc_update_key_slots plain_env (replicate 192 0) (replicate 192 0) used_slot None disk_pass other_pass 3 = Some (ST_OK, g, hk', w') \<and>
    length g = length used_slot \<and> (\<forall>k < 1024. g ! k = used_slot ! k) \<and>
    (\<forall>i < unat (hd_key_slot_count used_slot). slot_ok used_slot i \<longrightarrow> slot_ok g i \<and>
       (\<forall>sd buf. length sd = 192 \<and> length buf = 192 \<and> try_decrypt_slot sd (drop (slot_off used_slot i) used_slot) buf 0 = Some (1, replicate 192 9) \<longrightarrow>
          try_decrypt_slot sd (drop (slot_off used_slot i) g) buf 0 = Some (1, replicate 192 4))) \<and>
    (\<forall>i < unat (hd_key_slot_count used_slot). \<not> slot_ok used_slot i \<longrightarrow> si_crc (info_off used_slot i) g = 0) \<and>
    hk' = (if \<exists>i < unat (hd_key_slot_count used_slot). slot_ok used_slot i
           then Some (snd (xts_set_key (replicate 192 4) (hd_alg_1 used_slot) (e_key_block plain_env))) else None)"
    by (rule update_key_slots_rewraps) (simp_all add: used_slot_facts plain_env_rand pass_as_key cf_defs, simp add: plain_env_def)
  then obtain g hk' w' where run: "dc_update_key_slots plain_env (replicate 192 0) (replicate 192 0) used_slot None disk_pass other_pass 3 = Some (ST_OK, g, hk', w')"
    and slots: "\<forall>i < unat (hd_key_slot_count used_slot). slot_ok used_slot i \<longrightarrow> slot_ok g i"
    and hk: "hk' = (if \<exists>i < unat (hd_key_slot_count used_slot). slot_ok used_slot i
           then Some (snd (xts_set_key (replicate 192 4) (hd_alg_1 used_slot) (e_key_block plain_env))) else None)" by blast
  have zero: "0 < unat (hd_key_slot_count used_slot)" by (simp add: used_slot_facts)
  have "hk' = Some (snd (xts_set_key (replicate 192 4) (hd_alg_1 used_slot) (e_key_block plain_env)))" using hk zero used_slot_facts(5) by auto
  then show ?thesis using run slots zero used_slot_facts(5) by blast
qed

text \<open>The header with two slots as the header of a volume on a device with a backup.\<close>

definition volume_header :: bytes where
  "volume_header = (let h = set_fld 64 4 DC_VOLUME_SIGN (with_salt (replicate 64 1) two_slots) in set_fld 68 4 (crc32 (slice 72 952 h)) h)"

definition backup_dev :: dc_dev where
  "backup_dev = disk_dev\<lparr>d_opt := DC_DEV_BACKUP_HEADER\<rparr>"

lemma volume_header_facts:
  "sealable volume_header 2048" "hd_head_len volume_header = 2048" "slots_in_buffer volume_header" "hd_slot_area_len volume_header = 384"
proof -
  let ?w = "with_salt (replicate 64 1) two_slots" and ?h = "set_fld 64 4 DC_VOLUME_SIGN (with_salt (replicate 64 1) two_slots)"
  have v: "volume_header = set_fld 68 4 (crc32 (slice 72 952 ?h)) ?h" by (simp add: volume_header_def Let_def)
  have lw: "length ?w = 2048" by (simp add: with_salt_def two_slots_fields)
  then have len: "length volume_header = 2048" by (simp add: v)
  have "slice off n volume_header = slice off n two_slots" if "72 \<le> off" "off + n \<le> 2048" for off n
    using that lw with_salt_slice [of "replicate 64 1" off n two_slots] by (simp add: v set_fld_def slice_overlay_other length_overlay)
  then have fl: "(fld off n volume_header :: 'a::len word) = fld off n two_slots" if "72 \<le> off" "off + n \<le> 2048" for off n
    using that by (simp add: fld_def)
  have f: "hd_version volume_header = 3" "hd_feature_flags volume_header = 1" "hd_slot_area_len volume_header = 384"
    "hd_key_slot_count volume_header = 2" "hd_slot_info_size volume_header = 32" "hd_head_len volume_header = 2048"
    using two_slots_fields by (simp_all add: hd_version_def hd_feature_flags_def hd_slot_area_len_def hd_key_slot_count_def hd_slot_info_size_def hd_head_len_def fl)
  then show "hd_head_len volume_header = 2048" "hd_slot_area_len volume_header = 384" by simp_all
  show "slots_in_buffer volume_header"
    by (simp add: slots_in_buffer_def cp_has_key_slots_def f len vol_sizes DC_HDR_VERSION_2_def FF_KEY_SLOTS_def)
  have "(fld 627 1 two_slots :: u8) = 0"
    by (simp add: two_slots_def slot_header_def fld_set_other fld_zero)
  then have cnt: "hd_footer_cnt volume_header = 0" by (simp add: hd_footer_cnt_def fl)
  have salt: "hd_salt volume_header = replicate 64 1"
    by (simp add: v hd_salt_def HEADER_SALT_SIZE_def set_fld_def with_salt_def slice_def overlay_def)
  have sign: "hd_sign volume_header = DC_VOLUME_SIGN" by (simp add: v hd_sign_def fld_set_other fld_set_same lw)
  have "slice 72 952 volume_header = slice 72 952 ?h" unfolding v using lw by (subst set_fld_def, subst slice_overlay_other) simp_all
  then have "hd_hdr_crc volume_header = crc32 (slice 72 952 volume_header)"
    unfolding hd_hdr_crc_def by (simp only: v) (simp add: fld_set_same lw)
  then have "header_valid volume_header"
    by (simp add: header_valid_def salt sign crc_area_len_def f cnt len vol_sizes DC_HDR_VERSION_2_def)
  then show "sealable volume_header 2048"
    by (simp add: sealable_def len f cnt layout_ok_def slots_copied_def slot_size_of_def DC_HDR_VERSION_2_def)
qed

theorem update_backup_keeps_slots_witness:
  "\<exists>g b w'. dc_update_backup (scalar_selection fips197_core) (buffer_env [3]) dc_buffer_rw backup_dev (Some volume_header) (Some (replicate 64 2))
      (Some (snd (xts_set_key (replicate 192 5) CF_AES undefined))) None HF_UPDATE_ALL disk_buffer = Some (ST_OK, w') \<and>
    cp_encrypt_header (scalar_selection fips197_core) (Some g) (int 2048) (Some (snd (xts_set_key (replicate 192 5) CF_AES undefined))) (Some g) =
      Some (ST_OK, Some b) \<and> length b = 2048 \<and> buffer_disk w' = overlay (unat (backup_pos backup_dev)) b (buffer_disk disk_buffer) \<and> take 64 g = replicate 64 2"
proof -
  have key: "xts_set_key (replicate 192 5) CF_AES undefined = (1, snd (xts_set_key (replicate 192 5) CF_AES undefined))"
    by (simp add: xts_set_key_def cf_defs)
  have pos: "unat (backup_pos backup_dev) = 2048" by (simp add: backup_pos_def backup_dev_def disk_dev_def)
  have dev: "d_head_len backup_dev = hd_head_len volume_header" "d_opt backup_dev AND DC_DEV_BACKUP_HEADER \<noteq> 0"
    "if d_opt backup_dev AND DC_DEV_STORAGE_ON_END \<noteq> 0 then 2 * 2048 \<le> unat (d_stor_len backup_dev) else 2048 \<le> unat (d_tail_len backup_dev)"
    "unat (d_bps backup_dev) = 512"
    by (simp_all add: backup_dev_def disk_dev_def volume_header_facts DC_DEV_BACKUP_HEADER_def DC_DEV_STORAGE_ON_END_def)
  show ?thesis
    using update_backup_keeps_slots [OF buffer_header.header_device_axioms fips197_core_ok key disk_buffer_facts(1) volume_header_facts(1) _
        volume_header_facts(3) dev(1-3), of HF_UPDATE_ALL "replicate 64 2" "[3]"] volume_header_facts(2) dev(4) pos disk_buffer_facts(2)
    by (simp add: hf_defs) blast
qed

end
