(* ===== verification/DeviceIo.thy ===== *)
theory DeviceIo
  imports HeaderIO
begin

text \<open>
  Synchronous input and output of the driver on the device below it (\<^verbatim>\<open>DCrypt/driver/device_io.c\<close>,
  \<^verbatim>\<open>driver/include/devhook.h\<close>, \<^verbatim>\<open>devhook.c\<close>).  The I/O manager and the lower driver are a parameter: building
  a request, which fails when memory is short, and calling the driver with it.  Transfers larger than the device
  takes at once are cut; \<^verbatim>\<open>dc_hook_rw\<close> is the device the volume library sees in the driver.
\<close>

unbundle bit_operations_syntax

section \<open>The device record\<close>

definition F_ENABLED :: u32 where "F_ENABLED = 0x0001"
definition F_SYNC :: u32 where "F_SYNC = 0x0002"
definition F_REMOVABLE :: u32 where "F_REMOVABLE = 0x0008"
definition F_UNSUPRT :: u32 where "F_UNSUPRT = 0x0040"
definition F_DISABLE :: u32 where "F_DISABLE = 0x0080"
definition F_REENCRYPT :: u32 where "F_REENCRYPT = 0x0100"
definition F_FORMATTING :: u32 where "F_FORMATTING = 0x0200"
definition F_NO_AUTO_MOUNT :: u32 where "F_NO_AUTO_MOUNT = 0x0400"
definition F_PROTECT_DCSYS :: u32 where "F_PROTECT_DCSYS = 0x0800"
definition F_PREVENT_ENC :: u32 where "F_PREVENT_ENC = 0x1000"
definition F_CDROM :: u32 where "F_CDROM = 0x2000"
definition F_NO_REDIRECT :: u32 where "F_NO_REDIRECT = 0x4000"
definition F_SSD :: u32 where "F_SSD = 0x8000"
definition F_FS_RAW :: u32 where "F_FS_RAW = 0x00020000"
definition F_HEAD_BACKUP :: u32 where "F_HEAD_BACKUP = 0x00040000"

lemmas f_defs = F_ENABLED_def F_SYNC_def F_REMOVABLE_def F_UNSUPRT_def F_DISABLE_def F_REENCRYPT_def F_FORMATTING_def
  F_NO_AUTO_MOUNT_def F_PROTECT_DCSYS_def F_PREVENT_ENC_def F_CDROM_def F_NO_REDIRECT_def F_SSD_def F_FS_RAW_def F_HEAD_BACKUP_def

definition IS_STORAGE_ON_END :: "u32 \<Rightarrow> bool" where
  "IS_STORAGE_ON_END flags \<longleftrightarrow> flags AND F_ENABLED \<noteq> 0 \<and> flags AND F_CDROM = 0 \<and> flags AND F_PROTECT_DCSYS = 0 \<and> flags AND F_NO_REDIRECT = 0"

datatype dc_pnp_state = NotStarted | Started | Stopped | SurpriseRemove | Deleted

text \<open>The fields of \<^verbatim>\<open>dev_hook\<close> that input, output and transcryption use.\<close>

record dev_hook =
  dh_flags :: u32
  dh_max_chunk :: u32
  dh_dsk_size :: u64
  dh_use_size :: u64
  dh_bps :: u32
  dh_tmp_size :: u64
  dh_stor_off :: u64
  dh_stor_len :: u32
  dh_head_len :: u32
  dh_tail_off :: u64
  dh_tail_len :: u32
  dh_dsk_key :: "xts_key option"
  dh_tmp_key :: "xts_key option"
  dh_pnp_state :: dc_pnp_state

definition dc_dev_of :: "dev_hook \<Rightarrow> dc_dev" where
  "dc_dev_of hook =
     \<lparr>d_bps = dh_bps hook, d_dsk_size = dh_dsk_size hook, d_head_len = dh_head_len hook, d_tail_len = dh_tail_len hook,
      d_stor_len = dh_stor_len hook, d_stor_off = dh_stor_off hook,
      d_opt = (if dh_flags hook AND F_HEAD_BACKUP \<noteq> 0 then DC_DEV_BACKUP_HEADER else 0) OR
              (if IS_STORAGE_ON_END (dh_flags hook) then DC_DEV_STORAGE_ON_END else 0)\<rparr>"

section \<open>Requests to the lower driver\<close>

type_synonym ntstatus = u32

definition STATUS_SUCCESS :: ntstatus where "STATUS_SUCCESS = 0"
definition STATUS_PENDING :: ntstatus where "STATUS_PENDING = 0x103"
definition STATUS_INVALID_PARAMETER :: ntstatus where "STATUS_INVALID_PARAMETER = 0xC000000D"
definition STATUS_NO_SUCH_DEVICE :: ntstatus where "STATUS_NO_SUCH_DEVICE = 0xC000000E"
definition STATUS_ACCESS_DENIED :: ntstatus where "STATUS_ACCESS_DENIED = 0xC0000022"
definition STATUS_INSUFFICIENT_RESOURCES :: ntstatus where "STATUS_INSUFFICIENT_RESOURCES = 0xC000009A"
definition STATUS_DEVICE_DOES_NOT_EXIST :: ntstatus where "STATUS_DEVICE_DOES_NOT_EXIST = 0xC00000C0"
definition STATUS_NO_MEDIA_IN_DEVICE :: ntstatus where "STATUS_NO_MEDIA_IN_DEVICE = 0xC0000013"
definition STATUS_INVALID_DEVICE_STATE :: ntstatus where "STATUS_INVALID_DEVICE_STATE = 0xC0000184"

lemmas status_defs = STATUS_SUCCESS_def STATUS_PENDING_def STATUS_INVALID_PARAMETER_def STATUS_NO_SUCH_DEVICE_def STATUS_ACCESS_DENIED_def
  STATUS_INSUFFICIENT_RESOURCES_def STATUS_DEVICE_DOES_NOT_EXIST_def STATUS_NO_MEDIA_IN_DEVICE_def STATUS_INVALID_DEVICE_STATE_def

definition NT_SUCCESS :: "ntstatus \<Rightarrow> bool" where "NT_SUCCESS status \<longleftrightarrow> 0 \<le> sint status"

definition ST_NO_MEDIA :: status where "ST_NO_MEDIA = 38"
definition ST_MEDIA_CHANGED :: status where "ST_MEDIA_CHANGED = 37"

text \<open>
  \<open>im_build\<close> is \<^verbatim>\<open>IoBuildSynchronousFsdRequest\<close>, \<open>im_alloc\<close> the allocation of an IRP, an MDL or a buffer.  \<open>im_call\<close> is
  \<^verbatim>\<open>IoCallDriver\<close> and the completion of the request: the buffer, a length, an offset and the direction, giving status
  and \<^verbatim>\<open>Information\<close> of the status block and the buffer after the transfer.
\<close>

record 'w io_mgr =
  im_build :: "'w \<Rightarrow> bool \<times> 'w"
  im_alloc :: "'w \<Rightarrow> bool \<times> 'w"
  im_call :: "bytes \<Rightarrow> u32 \<Rightarrow> u64 \<Rightarrow> bool \<Rightarrow> 'w \<Rightarrow> (ntstatus \<times> u32 \<times> bytes \<times> 'w) option"

definition DC_MEM_RETRY_TIME :: nat where "DC_MEM_RETRY_TIME = 10"
definition DC_MEM_RETRY_TIMEOUT :: nat where "DC_MEM_RETRY_TIMEOUT = 1000 * 30"

primrec build_request :: "'w io_mgr \<Rightarrow> nat \<Rightarrow> 'w \<Rightarrow> bool \<times> 'w" where
  "build_request M 0 w = (False, w)"
| "build_request M (Suc n) w = (case im_build M w of (True, w) \<Rightarrow> (True, w) | (False, w) \<Rightarrow> build_request M n w)"

definition io_device_request :: "'w io_mgr \<Rightarrow> bytes \<Rightarrow> u32 \<Rightarrow> u64 \<Rightarrow> bool \<Rightarrow> 'w \<Rightarrow> (ntstatus \<times> bytes \<times> 'w) option" where
  "io_device_request M buff len offset is_read w =
     (case build_request M (DC_MEM_RETRY_TIMEOUT div DC_MEM_RETRY_TIME) w of
        (True, w) \<Rightarrow> do { (status, info, buff, w) \<leftarrow> im_call M buff len offset is_read w; Some (status, buff, w) }
      | (False, w) \<Rightarrow> Some (STATUS_INSUFFICIENT_RESOURCES, buff, w))"

text \<open>The loop of \<^verbatim>\<open>io_hook_rw\<close>; \<open>pos\<close> is how far the buffer pointer has moved.\<close>

function hook_rw_loop :: "'w io_mgr \<Rightarrow> dev_hook \<Rightarrow> bytes \<Rightarrow> nat \<Rightarrow> u32 \<Rightarrow> u64 \<Rightarrow> bool \<Rightarrow> 'w \<Rightarrow> (status \<times> bytes \<times> 'w) option" where
  "hook_rw_loop M hook buff pos len offset is_read w =
     (if len = 0 \<or> dh_max_chunk hook = 0 then Some (ST_OK, buff, w)
      else let bsize = min len (dh_max_chunk hook)
           in case io_device_request M (drop pos buff) bsize offset is_read w of
                None \<Rightarrow> None
              | Some (status, y, w) \<Rightarrow>
                  let buff = take pos buff @ y
                  in if \<not> NT_SUCCESS status
                     then Some ((if dh_flags hook AND (F_REMOVABLE OR F_CDROM) \<noteq> 0 \<and>
                                    (status = STATUS_NO_SUCH_DEVICE \<or> status = STATUS_DEVICE_DOES_NOT_EXIST \<or> status = STATUS_NO_MEDIA_IN_DEVICE)
                                 then ST_NO_MEDIA else ST_RW_ERR), buff, w)
                     else hook_rw_loop M hook buff (pos + unat bsize) (len - bsize) (offset + ucast bsize) is_read w)"
  by pat_completeness auto
termination
proof (relation "measure (\<lambda>(M, hook, buff, pos, len, offset, is_read, w). unat len)")
  fix hook :: dev_hook and len bsize :: u32
  assume "\<not> (len = 0 \<or> dh_max_chunk hook = 0)" "bsize = min len (dh_max_chunk hook)"
  then have "bsize \<noteq> 0" "bsize \<le> len" by (auto simp: min_def)
  then have "0 < unat bsize" "unat (len - bsize) = unat len - unat bsize" "unat bsize \<le> unat len"
    by (simp_all add: unat_sub word_le_nat_alt zero_less_iff_neq_zero unat_eq_zero)
  then have "unat (len - bsize) < unat len" by linarith
  then show "((M, hook, b, p, len - bsize, off, r, v), (M', hook, b', p', len, off', r', v')) \<in> measure (\<lambda>(M, hook, buff, pos, len, offset, is_read, w). unat len)"
    for M M' b p off r v b' p' off' r' v' by simp
qed simp_all

declare hook_rw_loop.simps [simp del]

definition io_hook_rw :: "'w io_mgr \<Rightarrow> dev_hook \<Rightarrow> bytes \<Rightarrow> u32 \<Rightarrow> u64 \<Rightarrow> bool \<Rightarrow> 'w \<Rightarrow> (status \<times> bytes \<times> 'w) option" where
  "io_hook_rw M hook buff len offset is_read w =
     (if dh_pnp_state hook \<noteq> Started \<or> dh_max_chunk hook = 0 then Some (ST_RW_ERR, buff, w)
      else hook_rw_loop M hook buff 0 len offset is_read w)"

definition dc_hook_rw :: "'w io_mgr \<Rightarrow> dev_hook \<Rightarrow> 'w dc_rw_fn" where
  "dc_hook_rw M hook buff len offset is_read w = io_hook_rw M hook buff len offset is_read w"

text \<open>
  \<^verbatim>\<open>io_hook_rw_skip_bads\<close>: after a failed transfer the range is tried again in blocks of 4096 bytes, errors skipped;
  the result is that of the last block.
\<close>

function skip_bads_loop :: "'w io_mgr \<Rightarrow> dev_hook \<Rightarrow> bytes \<Rightarrow> nat \<Rightarrow> u32 \<Rightarrow> u64 \<Rightarrow> bool \<Rightarrow> status \<Rightarrow> 'w \<Rightarrow> (status \<times> bytes \<times> 'w) option" where
  "skip_bads_loop M hook buff pos len offset is_read resl w =
     (if len = 0 then Some (resl, buff, w)
      else let block = min len 4096
           in case io_hook_rw M hook (drop pos buff) block offset is_read w of
                None \<Rightarrow> None
              | Some (resl, y, w) \<Rightarrow>
                  let buff = take pos buff @ y
                  in if resl = ST_MEDIA_CHANGED \<or> resl = ST_NO_MEDIA then Some (resl, buff, w)
                     else skip_bads_loop M hook buff (pos + unat block) (len - block) (offset + ucast block) is_read resl w)"
  by pat_completeness auto
termination
proof (relation "measure (\<lambda>(M, hook, buff, pos, len, offset, is_read, resl, w). unat len)")
  fix len block :: u32
  assume "len \<noteq> 0" "block = min len 4096"
  then have "block \<noteq> 0" "block \<le> len" by (auto simp: min_def)
  then have "0 < unat block" "unat (len - block) = unat len - unat block" "unat block \<le> unat len"
    by (simp_all add: unat_sub word_le_nat_alt zero_less_iff_neq_zero unat_eq_zero)
  then have "unat (len - block) < unat len" by linarith
  then show "((M, hook, b, p, len - block, off, r, s, v), (M', hook', b', p', len, off', r', s', v')) \<in> measure (\<lambda>(M, hook, buff, pos, len, offset, is_read, resl, w). unat len)"
    for M M' hook hook' b p off r s v b' p' off' r' s' v' by simp
qed simp_all

declare skip_bads_loop.simps [simp del]

definition io_hook_rw_skip_bads :: "'w io_mgr \<Rightarrow> dev_hook \<Rightarrow> bytes \<Rightarrow> u32 \<Rightarrow> u64 \<Rightarrow> bool \<Rightarrow> 'w \<Rightarrow> (status \<times> bytes \<times> 'w) option" where
  "io_hook_rw_skip_bads M hook buff len offset is_read w =
     do { (resl, buff, w) \<leftarrow> io_hook_rw M hook buff len offset is_read w;
          if resl = ST_RW_ERR then skip_bads_loop M hook buff 0 len offset is_read resl w else Some (resl, buff, w) }"

section \<open>The contract of the lower driver\<close>

lemma overlay_adjacent:
  "p + length x + length y \<le> length b \<Longrightarrow> overlay (p + length x) y (overlay p x b) = overlay p (x @ y) b"
proof (cases "length b \<le> p")
  case True
  moreover assume "p + length x + length y \<le> length b"
  ultimately have "length x = 0" "length y = 0" by linarith+
  then show ?thesis by simp
qed (auto simp: overlay_def min_def ac_simps)

lemma overlay_front: "p \<le> length b \<Longrightarrow> take p b @ overlay 0 x (drop p b) = overlay p x b"
  by (simp add: overlay_def ac_simps)

lemma slice_adjacent: "slice p m b @ slice (p + m) n b = slice p (m + n) b"
  by (simp add: slice_def take_add add.commute)

locale device_stack =
  fixes M :: "'w io_mgr" and disk :: "'w \<Rightarrow> bytes" and inv :: "'w \<Rightarrow> bool"
  assumes build: "inv w \<Longrightarrow> im_build M w = (True, w)"
    and alloc: "inv w \<Longrightarrow> im_alloc M w = (True, w)"
    and size: "inv w \<Longrightarrow> length (disk w) < 2 ^ 64"
    and call_read: "inv w \<Longrightarrow> unat off + unat len \<le> length (disk w) \<Longrightarrow> unat len \<le> length buf \<Longrightarrow>
      im_call M buf len off True w = Some (STATUS_SUCCESS, len, overlay 0 (slice (unat off) (unat len) (disk w)) buf, w)"
    and call_write: "inv w \<Longrightarrow> unat off + unat len \<le> length (disk w) \<Longrightarrow> unat len \<le> length buf \<Longrightarrow>
      \<exists>w'. im_call M buf len off False w = Some (STATUS_SUCCESS, len, buf, w') \<and> inv w' \<and> disk w' = overlay (unat off) (take (unat len) buf) (disk w)"
    and call_range: "inv w \<Longrightarrow> length (disk w) < unat off + unat len \<Longrightarrow> 0 < unat len \<Longrightarrow> unat len \<le> length buf \<Longrightarrow>
      \<exists>status info buf' w'. \<not> NT_SUCCESS status \<and> im_call M buf len off dir w = Some (status, info, buf', w')"
begin

lemma request_call:
  "inv w \<Longrightarrow> io_device_request M buf len off dir w = Option.bind (im_call M buf len off dir w) (\<lambda>(status, info, buff, w). Some (status, buff, w))"
proof -
  assume "inv w"
  have "build_request M (DC_MEM_RETRY_TIMEOUT div DC_MEM_RETRY_TIME) w = (True, w)"
  proof -
    have "DC_MEM_RETRY_TIMEOUT div DC_MEM_RETRY_TIME = Suc 2999" by (simp add: DC_MEM_RETRY_TIMEOUT_def DC_MEM_RETRY_TIME_def)
    then show ?thesis using build [OF \<open>inv w\<close>] by (simp only: build_request.simps prod.case bool.case)
  qed
  then show ?thesis by (simp add: io_device_request_def)
qed

lemma success [simp]: "NT_SUCCESS STATUS_SUCCESS"
  by (simp add: NT_SUCCESS_def STATUS_SUCCESS_def)

text \<open>The next piece of a transfer: its size, and what is left after it.\<close>

lemma piece:
  fixes len mc :: u32 and off :: u64
  assumes "len \<noteq> 0" "mc \<noteq> 0" "unat off + unat (min len mc) < 2 ^ 64"
  shows "unat (len - min len mc) < unat len" "unat (min len mc) \<le> unat len" "unat (len - min len mc) = unat len - unat (min len mc)"
    "unat (off + ucast (min len mc)) = unat off + unat (min len mc)"
proof -
  have "min len mc \<noteq> 0" "min len mc \<le> len" using assms by (auto simp: min_def)
  then show "unat (min len mc) \<le> unat len" "unat (len - min len mc) = unat len - unat (min len mc)" and "unat (len - min len mc) < unat len"
    by (simp_all add: unat_sub word_le_nat_alt) (metis diff_less gr0I le_zero_eq unat_eq_zero)
  have "unat (ucast x :: u64) = unat x" for x :: u32
    using unsigned_less [of x, where ?'a = nat] by (simp add: unsigned_ucast_eq take_bit_nat_eq_self)
  then show "unat (off + ucast (min len mc)) = unat off + unat (min len mc)" using assms(3) by (simp add: unat_word_ariths(1))
qed

lemma loop_read:
  assumes "dh_max_chunk hook \<noteq> 0" "inv w" "unat off + unat len \<le> length (disk w)" "pos + unat len \<le> length buf"
  shows "hook_rw_loop M hook buf pos len off True w = Some (ST_OK, overlay pos (slice (unat off) (unat len) (disk w)) buf, w)"
  using assms(3,4)
proof (induction "unat len" arbitrary: len off pos buf rule: less_induct)
  case less
  show ?case
  proof (cases "len = 0")
    case True
    then show ?thesis by (subst hook_rw_loop.simps) (simp add: slice_def)
  next
    case False
    let ?b = "min len (dh_max_chunk hook)"
    have le: "unat ?b \<le> unat len" by (simp add: min_def word_le_nat_alt)
    have nw: "unat off + unat ?b < 2 ^ 64" using le less.prems(1) size [OF assms(2)] by linarith
    note p = piece [OF False assms(1) nw]
    let ?s = "slice (unat off) (unat ?b) (disk w)"
    have ls: "length ?s = unat ?b" using le less.prems(1) by simp
    have "unat off + unat ?b \<le> length (disk w)" "unat ?b \<le> length (drop pos buf)" using le less.prems by simp_all
    then have "io_device_request M (drop pos buf) ?b off True w = Some (STATUS_SUCCESS, overlay 0 ?s (drop pos buf), w)"
      by (simp add: request_call [OF assms(2)] call_read [OF assms(2)])
    moreover have "take pos buf @ overlay 0 ?s (drop pos buf) = overlay pos ?s buf" using less.prems by (simp add: overlay_front)
    ultimately have "hook_rw_loop M hook buf pos len off True w = hook_rw_loop M hook (overlay pos ?s buf) (pos + unat ?b) (len - ?b) (off + ucast ?b) True w"
      using False assms(1) by (subst hook_rw_loop.simps) (simp add: Let_def)
    also have "\<dots> = Some (ST_OK, overlay (pos + unat ?b) (slice (unat off + unat ?b) (unat len - unat ?b) (disk w)) (overlay pos ?s buf), w)"
      using less.hyps [OF p(1), of "off + ucast ?b" "pos + unat ?b" "overlay pos ?s buf"] p less.prems ls by (simp add: length_overlay)
    also have "overlay (pos + unat ?b) (slice (unat off + unat ?b) (unat len - unat ?b) (disk w)) (overlay pos ?s buf) =
        overlay pos (slice (unat off) (unat len) (disk w)) buf"
      using overlay_adjacent [of pos ?s "slice (unat off + unat ?b) (unat len - unat ?b) (disk w)" buf] slice_adjacent [of "unat off" "unat ?b" "disk w" "unat len - unat ?b"]
        ls p(2) less.prems by simp
    finally show ?thesis .
  qed
qed

lemma loop_write:
  assumes "dh_max_chunk hook \<noteq> 0" "inv w" "unat off + unat len \<le> length (disk w)" "pos + unat len \<le> length buf"
  shows "\<exists>w'. hook_rw_loop M hook buf pos len off False w = Some (ST_OK, buf, w') \<and> inv w' \<and>
    disk w' = overlay (unat off) (slice pos (unat len) buf) (disk w)"
  using assms(2-)
proof (induction "unat len" arbitrary: len off pos w rule: less_induct)
  case less
  show ?case
  proof (cases "len = 0")
    case True
    then show ?thesis using less.prems by (subst hook_rw_loop.simps) (simp add: slice_def)
  next
    case False
    let ?b = "min len (dh_max_chunk hook)"
    have le: "unat ?b \<le> unat len" by (simp add: min_def word_le_nat_alt)
    have nw: "unat off + unat ?b < 2 ^ 64" using le less.prems(2) size [OF less.prems(1)] by linarith
    note p = piece [OF False assms(1) nw]
    have range: "unat off + unat ?b \<le> length (disk w)" "unat ?b \<le> length (drop pos buf)" using le less.prems by simp_all
    obtain w1 where w1: "im_call M (drop pos buf) ?b off False w = Some (STATUS_SUCCESS, ?b, drop pos buf, w1)" "inv w1"
        "disk w1 = overlay (unat off) (slice pos (unat ?b) buf) (disk w)"
      using call_write [OF less.prems(1) range] by (auto simp: slice_def)
    have ls: "length (slice pos (unat ?b) buf) = unat ?b" using range(2) by simp
    have l1: "length (disk w1) = length (disk w)" using w1(3) ls range(1) by (simp add: length_overlay)
    have run: "hook_rw_loop M hook buf pos len off False w = hook_rw_loop M hook buf (pos + unat ?b) (len - ?b) (off + ucast ?b) False w1"
      using False assms(1) w1(1) by (subst hook_rw_loop.simps) (simp add: Let_def request_call [OF less.prems(1)])
    obtain w' where w': "hook_rw_loop M hook buf (pos + unat ?b) (len - ?b) (off + ucast ?b) False w1 = Some (ST_OK, buf, w')" "inv w'"
        "disk w' = overlay (unat off + unat ?b) (slice (pos + unat ?b) (unat len - unat ?b) buf) (disk w1)"
      using less.hyps [OF p(1) w1(2), of "off + ucast ?b" "pos + unat ?b"] p less.prems l1 by auto
    have "disk w' = overlay (unat off) (slice pos (unat len) buf) (disk w)"
      using overlay_adjacent [of "unat off" "slice pos (unat ?b) buf" "slice (pos + unat ?b) (unat len - unat ?b) buf" "disk w"]
        slice_adjacent [of pos "unat ?b" buf "unat len - unat ?b"] ls le less.prems w'(3) w1(3) by simp
    then show ?thesis using run w' by auto
  qed
qed

lemma failed_status:
  "(if b then ST_NO_MEDIA else ST_RW_ERR) \<noteq> ST_OK"
  by (simp add: ST_NO_MEDIA_def ST_RW_ERR_def ST_OK_def)

text \<open>A transfer that leaves the device fails, at the latest with its last piece.\<close>

lemma loop_range:
  assumes "dh_max_chunk hook \<noteq> 0" "inv w" "length (disk w) < unat off + unat len" "0 < unat len" "pos + unat len \<le> length buf"
  shows "\<exists>r buf' w'. r \<noteq> ST_OK \<and> hook_rw_loop M hook buf pos len off dir w = Some (r, buf', w')"
  using assms(2-)
proof (induction "unat len" arbitrary: len off pos buf w rule: less_induct)
  case less
  let ?b = "min len (dh_max_chunk hook)"
  have nz: "len \<noteq> 0" using less.prems(3) by auto
  have le: "unat ?b \<le> unat len" by (simp add: min_def word_le_nat_alt)
  have pos: "0 < unat ?b" using nz assms(1) by (auto simp: min_def unat_eq_zero intro!: Nat.gr0I)
  have room: "unat ?b \<le> length (drop pos buf)" using le less.prems(4) by simp
  show ?case
  proof (cases "unat off + unat ?b \<le> length (disk w)")
    case False
    then obtain status info y w' where "\<not> NT_SUCCESS status" "im_call M (drop pos buf) ?b off dir w = Some (status, info, y, w')"
      using call_range [OF less.prems(1) _ pos room] by force
    then show ?thesis
      using nz assms(1) by (subst hook_rw_loop.simps) (simp add: Let_def request_call [OF less.prems(1)] ST_NO_MEDIA_def ST_RW_ERR_def ST_OK_def)
  next
    case True
    have "unat off + unat ?b < 2 ^ 64" using True size [OF less.prems(1)] by linarith
    note p = piece [OF nz assms(1) this]
    obtain y w1 where y: "im_call M (drop pos buf) ?b off dir w = Some (STATUS_SUCCESS, ?b, y, w1)" "inv w1" "length (disk w1) = length (disk w)"
        "length y = length (drop pos buf)"
    proof (cases dir)
      case True
      then show thesis using that call_read [OF less.prems(1) \<open>unat off + unat ?b \<le> length (disk w)\<close> room] less.prems(1) room
        \<open>unat off + unat ?b \<le> length (disk w)\<close> by (simp add: length_overlay)
    next
      case False
      then show thesis using that call_write [OF less.prems(1) \<open>unat off + unat ?b \<le> length (disk w)\<close> room] room
        \<open>unat off + unat ?b \<le> length (disk w)\<close> by (auto simp: length_overlay)
    qed
    have "hook_rw_loop M hook buf pos len off dir w = hook_rw_loop M hook (take pos buf @ y) (pos + unat ?b) (len - ?b) (off + ucast ?b) dir w1"
      using nz assms(1) y(1) by (subst hook_rw_loop.simps) (simp add: Let_def request_call [OF less.prems(1)])
    then show ?thesis
      using less.hyps [OF p(1) y(2), of "off + ucast ?b" "pos + unat ?b" "take pos buf @ y"] p y(3,4) less.prems True by simp
  qed
qed

lemma hook_device:
  assumes "dh_pnp_state hook = Started" "dh_max_chunk hook \<noteq> 0"
  shows "block_device (dc_hook_rw M hook) disk inv"
proof
  fix w :: 'w and off :: u64 and len :: u32 and buf :: bytes and dir :: bool
  assume inv: "inv w"
  show "dc_hook_rw M hook buf len off True w = Some (ST_OK, overlay 0 (slice (unat off) (unat len) (disk w)) buf, w)"
    if "unat off + unat len \<le> length (disk w)" "unat len \<le> length buf"
    using loop_read [OF assms(2) inv, of off len 0 buf] that assms by (simp add: dc_hook_rw_def io_hook_rw_def)
  show "\<exists>w'. dc_hook_rw M hook buf len off False w = Some (ST_OK, buf, w') \<and> inv w' \<and> disk w' = overlay (unat off) (take (unat len) buf) (disk w)"
    if "unat off + unat len \<le> length (disk w)" "unat len \<le> length buf"
    using loop_write [OF assms(2) inv, of off len 0 buf] that assms by (simp add: dc_hook_rw_def io_hook_rw_def slice_def)
  show "\<exists>r buf' w'. r \<noteq> ST_OK \<and> dc_hook_rw M hook buf len off dir w = Some (r, buf', w')"
    if "length (disk w) < unat off + unat len" "0 < unat len" "unat len \<le> length buf"
    using loop_range [OF assms(2) inv, of off len 0 buf dir] that assms by (simp add: dc_hook_rw_def io_hook_rw_def)
qed

end

text \<open>The lower driver over a memory buffer.\<close>

definition buffer_stack :: "dc_buffer io_mgr" where
  "buffer_stack = \<lparr>im_build = (\<lambda>b. (True, b)), im_alloc = (\<lambda>b. (True, b)),
     im_call = (\<lambda>buf len off is_read b. map_option (\<lambda>(r, buf, b). if r = ST_OK then (STATUS_SUCCESS, len, buf, b) else (STATUS_INVALID_PARAMETER, 0, buf, b))
                  (dc_buffer_rw buf len off is_read b))\<rparr>"

interpretation buffer_stack: device_stack buffer_stack buffer_disk buffer_inv
proof
  fix w :: dc_buffer and off :: u64 and len :: u32 and buf :: bytes and dir :: bool
  assume inv: "buffer_inv w"
  show "im_build buffer_stack w = (True, w)" "im_alloc buffer_stack w = (True, w)" by (simp_all add: buffer_stack_def)
  show "length (buffer_disk w) < 2 ^ 64"
    using inv unsigned_less [of "b_size w", where ?'a = nat] by (auto simp: buffer_inv_def buffer_disk_def)
  show "im_call buffer_stack buf len off True w = Some (STATUS_SUCCESS, len, overlay 0 (slice (unat off) (unat len) (buffer_disk w)) buf, w)"
    if "unat off + unat len \<le> length (buffer_disk w)" "unat len \<le> length buf"
    using buffer.rw_read [OF inv that] by (simp add: buffer_stack_def)
  show "\<exists>w'. im_call buffer_stack buf len off False w = Some (STATUS_SUCCESS, len, buf, w') \<and> buffer_inv w' \<and>
      buffer_disk w' = overlay (unat off) (take (unat len) buf) (buffer_disk w)"
    if "unat off + unat len \<le> length (buffer_disk w)" "unat len \<le> length buf"
    using buffer.rw_write [OF inv that] by (auto simp: buffer_stack_def)
  show "\<exists>status info buf' w'. \<not> NT_SUCCESS status \<and> im_call buffer_stack buf len off dir w = Some (status, info, buf', w')"
    if "length (buffer_disk w) < unat off + unat len" "0 < unat len" "unat len \<le> length buf"
  proof -
    have "\<not> NT_SUCCESS STATUS_INVALID_PARAMETER" by (simp add: NT_SUCCESS_def STATUS_INVALID_PARAMETER_def)
    moreover have "\<exists>r buf' w'. r \<noteq> ST_OK \<and> dc_buffer_rw buf len off dir w = Some (r, buf', w')" by (rule buffer.rw_range [OF inv that])
    then obtain r buf' w' where "r \<noteq> ST_OK" "dc_buffer_rw buf len off dir w = Some (r, buf', w')" by blast
    ultimately show ?thesis by (simp add: buffer_stack_def)
  qed
qed

section \<open>Properties\<close>

text \<open>
  C7 (refinement): the driver's device is the device the volume library asks for.  Over a lower driver that
  transfers what lies on the disk and refuses what does not, \<^verbatim>\<open>dc_hook_rw\<close> reads and writes exactly the bytes asked
  for, however small the pieces the device takes, and fails for a range that leaves the disk; a device that is
  not started is never asked.
\<close>

theorem hook_rw_is_block_device:
  assumes "device_stack M disk ok"
  shows "(dh_pnp_state hook = Started \<longrightarrow> dh_max_chunk hook \<noteq> 0 \<longrightarrow> block_device (dc_hook_rw M hook) disk ok) \<and>
    (dh_pnp_state hook \<noteq> Started \<longrightarrow> dc_hook_rw M hook buff len off dir w = Some (ST_RW_ERR, buff, w))"
  using device_stack.hook_device [OF assms] by (simp add: dc_hook_rw_def io_hook_rw_def)

definition sample_hook :: dev_hook where
  "sample_hook = \<lparr>dh_flags = F_ENABLED, dh_max_chunk = 3, dh_dsk_size = 8, dh_use_size = 8, dh_bps = 1, dh_tmp_size = 0, dh_stor_off = 0,
     dh_stor_len = 0, dh_head_len = 0, dh_tail_off = 0, dh_tail_len = 0, dh_dsk_key = None, dh_tmp_key = None, dh_pnp_state = Started\<rparr>"

theorem hook_rw_is_block_device_witness:
  "\<exists>w'. dc_hook_rw buffer_stack sample_hook [1, 2, 3, 4, 5, 6, 7] 7 1 False \<lparr>b_data = Some (replicate 8 0), b_size = 8\<rparr> =
     Some (ST_OK, [1, 2, 3, 4, 5, 6, 7], w') \<and> buffer_disk w' = [0, 1, 2, 3, 4, 5, 6, 7]"
proof -
  let ?b = "\<lparr>b_data = Some (replicate 8 0), b_size = 8\<rparr> :: dc_buffer"
  have "block_device (dc_hook_rw buffer_stack sample_hook) buffer_disk buffer_inv"
    using hook_rw_is_block_device [OF buffer_stack.device_stack_axioms, of sample_hook] by (simp add: sample_hook_def)
  from block_device.rw_write [OF this, of ?b 1 7 "[1, 2, 3, 4, 5, 6, 7]"]
  obtain w' where "dc_hook_rw buffer_stack sample_hook [1, 2, 3, 4, 5, 6, 7] 7 1 False ?b = Some (ST_OK, [1, 2, 3, 4, 5, 6, 7], w')"
      "buffer_disk w' = overlay 1 [1, 2, 3, 4, 5, 6, 7] (replicate 8 0)"
    by (auto simp: buffer_inv_def buffer_disk_def)
  moreover have "overlay 1 [1, 2, 3, 4, 5, 6, 7] (replicate 8 0) = [0, 1, 2, 3, 4, 5, 6, 7 :: u8]" by (simp add: overlay_def)
  ultimately show ?thesis by metis
qed

end
