(* ===== verification/SectorView.thy ===== *)
theory SectorView
  imports XtsLocal HeaderLayout
begin

text \<open>
  Buffers as rows of 512-byte sectors, and what a client of the XTS routines may rely on at that grain: each
  sector of the output depends on the sector at its place and on its number.  The driver's request paths and
  its transcryption are stated over this contract (locale \<open>sector_cipher\<close>), which the seven algorithms satisfy.
\<close>

unbundle bit_operations_syntax

section \<open>Sectors\<close>

definition sec :: "nat \<Rightarrow> 'a list \<Rightarrow> 'a list" where
  "sec i b = slice (512 * i) 512 b"

definition sectors :: "(u64 \<Rightarrow> bytes \<Rightarrow> bytes) \<Rightarrow> u64 \<Rightarrow> bytes \<Rightarrow> nat \<Rightarrow> bytes" where
  "sectors g s inp n = concat (map (\<lambda>i. g (s + of_nat i) (sec i inp)) [0..<n])"

lemma length_sec [simp]: "512 * Suc i \<le> length b \<Longrightarrow> length (sec i b) = 512"
  by (simp add: sec_def)

lemma sec_slice: "i < n \<Longrightarrow> sec i (slice (512 * p) (512 * n) b) = sec (p + i) b"
  by (auto simp: sec_def slice_def drop_take min_def algebra_simps)

lemma sec_take: "512 * Suc i \<le> n \<Longrightarrow> sec i (take n b) = sec i b"
  by (simp add: sec_def slice_def drop_take min_def)

lemma sec_drop: "sec i (drop (512 * p) b) = sec (p + i) b"
  by (simp add: sec_def slice_def algebra_simps)

lemma sec_append:
  "512 * Suc i \<le> length a \<Longrightarrow> sec i (a @ b) = sec i a"
  "length a = 512 * p \<Longrightarrow> p \<le> i \<Longrightarrow> sec i (a @ b) = sec (i - p) b"
  by (simp_all add: sec_def slice_def drop_append right_diff_distrib')

text \<open>Two rows of the same number of sectors are equal when their sectors are.\<close>

lemma sec_eqI:
  assumes "length a = 512 * n" "length b = 512 * n" "\<And>i. i < n \<Longrightarrow> sec i a = sec i b"
  shows "a = b"
proof (rule nth_equalityI)
  show "length a = length b" using assms by simp
  fix k assume "k < length a"
  then have k: "k div 512 < n" "512 * (k div 512) + k mod 512 < 512 * n" using assms(1) by auto
  have nth: "sec (k div 512) x ! (k mod 512) = x ! k" if "length x = 512 * n" for x :: "'a list"
    using k that by (simp add: sec_def nth_slice)
  show "a ! k = b ! k" using nth [OF assms(1)] nth [OF assms(2)] assms(3) [OF k(1)] by simp
qed

lemma sec_overlay:
  assumes "length x = 512 * n" "512 * p + length x \<le> length b" "512 * Suc i \<le> length b"
  shows "sec i (overlay (512 * p) x b) = (if p \<le> i \<and> i < p + n then sec (i - p) x else sec i b)"
proof (cases "p \<le> i \<and> i < p + n")
  case True
  then have "512 * i = 512 * p + 512 * (i - p)" "512 * (i - p) + 512 \<le> length x" using assms(1) by auto
  then have "sec i (overlay (512 * p) x b) = sec (i - p) x"
    using assms(2) by (simp add: sec_def slice_def overlay_def min_def)
  then show ?thesis using True by simp
next
  case False
  then have "512 * i + 512 \<le> 512 * p \<or> 512 * p + length x \<le> 512 * i" using assms(1) by auto
  then have "sec i (overlay (512 * p) x b) = sec i b"
    unfolding sec_def using assms by (intro slice_overlay_other) auto
  then show ?thesis using False by auto
qed

lemma sectors_uniform:
  assumes "\<And>s b. length b = 512 \<Longrightarrow> length (g s b) = 512" "512 * n \<le> length inp"
  shows "length (sectors g s inp n) = 512 * n" "i < n \<Longrightarrow> sec i (sectors g s inp n) = g (s + of_nat i) (sec i inp)"
proof -
  have len: "length (sectors g s inp k) = 512 * k" if "k \<le> n" for k
    using that by (induction k) (use assms in \<open>simp_all add: sectors_def\<close>)
  show "length (sectors g s inp n) = 512 * n" by (rule len) simp
  assume i: "i < n"
  have "[0..<n] = [0..<Suc i] @ [Suc i..<n]" using i upt_add_eq_append [of 0 "Suc i" "n - Suc i"] by simp
  then have "sectors g s inp n = sectors g s inp (Suc i) @ concat (map (\<lambda>i. g (s + of_nat i) (sec i inp)) [Suc i..<n])"
    by (simp only: sectors_def map_append concat_append)
  also have "sectors g s inp (Suc i) = sectors g s inp i @ g (s + of_nat i) (sec i inp)"
    by (simp add: sectors_def)
  finally show "sec i (sectors g s inp n) = g (s + of_nat i) (sec i inp)"
    using i assms len [of i] by (simp add: sec_def slice_def [of "512 * i" 512 "_ @ _"])
qed

lemma by_blocks_sectors:
  "by_blocks e s inp (32 * m) = sectors (\<lambda>s b. by_blocks e s b 32) s inp m"
proof (induction m)
  case (Suc m)
  let ?g = "\<lambda>j. e (s + of_nat (j div 32)) (j mod 32) (slice (16 * j) 16 inp)"
  have sl: "slice (16 * j) 16 (sec m inp) = slice (16 * (32 * m + j)) 16 inp" if "j < 32" for j
    using that by (simp add: sec_def slice_slice algebra_simps)
  have "by_blocks e (s + of_nat m) (sec m inp) 32 = concat (map (\<lambda>j. ?g (32 * m + j)) [0..<32])"
    by (auto simp: by_blocks_def sl simp del: upt_rec_numeral intro!: arg_cong [of _ _ concat])
  also have "map (\<lambda>j. ?g (32 * m + j)) [0..<32] = map ?g [32 * m..<32 * m + 32]"
    by (simp add: map_add_upt [symmetric] add.commute comp_def del: upt_rec_numeral)
  finally have "by_blocks e (s + of_nat m) (sec m inp) 32 = concat (map ?g [32 * m..<32 * m + 32])" .
  moreover have "[0..<32 * Suc m] = [0..<32 * m] @ [32 * m..<32 * m + 32]"
    using upt_add_eq_append [of 0 "32 * m" 32] by (simp add: add.commute)
  ultimately show ?case using Suc by (simp add: by_blocks_def [of e s inp] sectors_def)
qed (simp add: by_blocks_def sectors_def)

lemma take_slices: "concat (map (\<lambda>j. slice (c * j) c b) [0..<n]) = take (c * n) b"
proof (induction n)
  case (Suc n)
  then show ?case using take_add [of "c * n" c b] by (simp add: slice_def add.commute)
qed simp

section \<open>The contract of a sector cipher\<close>

definition sectorwise :: "xts_fun \<Rightarrow> (u64 \<Rightarrow> bytes \<Rightarrow> bytes) \<Rightarrow> bool" where
  "sectorwise F g \<longleftrightarrow> (\<forall>s b. length b = 512 \<longrightarrow> length (g s b) = 512) \<and>
     (\<forall>inp len off. xts_len_ok inp len \<longrightarrow> F inp len off = Some (sectors g (off div 512) inp (unat len div 512)))"

lemma sectorwise_run:
  assumes "sectorwise F g" "xts_len_ok inp len"
  shows "\<exists>out. F inp len off = Some out \<and> length out = unat len \<and> (\<forall>i < unat len div 512. sec i out = g (off div 512 + of_nat i) (sec i inp))"
  using sectors_uniform [where g = g and n = "unat len div 512" and inp = inp and s = "off div 512"] assms
  by (auto simp: sectorwise_def xts_len_ok_def elim!: dvdE)

text \<open>The number of a sector behind an offset, when the offsets do not wrap around.\<close>

lemma sector_number:
  "unat off + 512 * p < 2 ^ 64 \<Longrightarrow> (off + of_nat (512 * p)) div 512 = (off :: u64) div 512 + of_nat p"
proof -
  assume off: "unat off + 512 * p < 2 ^ 64"
  then have "unat (of_nat (512 * p) :: u64) = 512 * p" by (intro unat_word64_small) simp
  then have "unat (off + of_nat (512 * p)) = unat off + 512 * p" using off by (simp add: unat_word_ariths(1) del: of_nat_mult)
  then show ?thesis by (simp add: word_arith_nat_div)
qed

locale sector_cipher =
  fixes E D :: xts_fun and es ds :: "u64 \<Rightarrow> bytes \<Rightarrow> bytes"
  assumes enc: "sectorwise E es" and dec: "sectorwise D ds" and dec_enc: "length b = 512 \<Longrightarrow> ds s (es s b) = b"

lemma by_blocks_length: "blockwise F g \<Longrightarrow> length b = 512 \<Longrightarrow> length (by_blocks g s b 32) = 512"
  using by_blocks_uniform(1) [of g 32 b s] by (simp add: blockwise_def)

lemma blockwise_sectorwise: "blockwise F g \<Longrightarrow> sectorwise F (\<lambda>s b. by_blocks g s b 32)"
proof -
  assume F: "blockwise F g"
  have "F inp len off = Some (sectors (\<lambda>s b. by_blocks g s b 32) (off div 512) inp (unat len div 512))"
    if ok: "xts_len_ok inp len" for inp len off
  proof -
    obtain m where "unat len = 512 * m" using ok by (auto simp: xts_len_ok_def elim!: dvdE)
    then show ?thesis using F ok by (simp add: blockwise_def flip: by_blocks_sectors)
  qed
  then show ?thesis using F by (simp add: sectorwise_def by_blocks_length)
qed

sublocale xts_local \<subseteq> sector_cipher E D "\<lambda>s b. by_blocks e s b 32" "\<lambda>s b. by_blocks d s b 32"
proof
  show "sectorwise E (\<lambda>s b. by_blocks e s b 32)" "sectorwise D (\<lambda>s b. by_blocks d s b 32)"
    using enc dec by (simp_all add: blockwise_sectorwise)
  show "by_blocks d s (by_blocks e s b 32) 32 = b" if b: "length b = 512" for b s
  proof -
    have "d (s + of_nat (j div 32)) (j mod 32) (slice (16 * j) 16 (by_blocks e s b 32)) = slice (16 * j) 16 b" if j: "j < 32" for j
    proof -
      have "slice (16 * j) 16 (by_blocks e s b 32) = e (s + of_nat (j div 32)) (j mod 32) (slice (16 * j) 16 b)"
        by (rule by_blocks_uniform(2)) (use enc b j in \<open>simp_all add: blockwise_def\<close>)
      moreover have "length (slice (16 * j) 16 b) = 16" using b j by simp
      ultimately show ?thesis by (simp add: dec_enc)
    qed
    then have "by_blocks d s (by_blocks e s b 32) 32 = concat (map (\<lambda>j. slice (16 * j) 16 b) [0..<32])"
      unfolding by_blocks_def [of d] by (intro arg_cong [of _ _ concat] map_cong) simp_all
    then show ?thesis using b take_slices [of 16 b 32] by simp
  qed
qed

context xts_local
begin

lemma sector_pair: "sector_cipher E D (\<lambda>s b. by_blocks e s b 32) (\<lambda>s b. by_blocks d s b 32)"
  by (rule sector_cipher_axioms)

end

text \<open>Every key of \<^verbatim>\<open>xts_set_key\<close> gives a sector cipher.\<close>

lemma xts_set_key_sectors:
  assumes "aes_core_ok A" and "xts_set_key key alg skey = (1, skey')"
  obtains es ds where "sector_cipher (xts_encrypt (scalar_selection A) skey') (xts_decrypt (scalar_selection A) skey') es ds"
proof -
  obtain e d where "xts_local (xts_encrypt (scalar_selection A) skey') (xts_decrypt (scalar_selection A) skey') e d"
    using xts_set_key_local [OF assms] by (auto simp: local_pair_def)
  from xts_local.sector_pair [OF this] that show ?thesis by blast
qed

end
