(* ===== verification/FastCrypt.thy ===== *)
theory FastCrypt
  imports SectorView "HOL-Library.Multiset"
begin

text \<open>
  Parallel encryption of a buffer (\<^verbatim>\<open>DCrypt/driver/fast_crypt.c\<close>): a request is cut into parts, the parts go to a
  lock-free list, and whichever worker thread takes a part encrypts it and subtracts its length from the
  request; the one that brings the request to zero calls the completion routine.  A part is one step here, and
  the parts are taken in any order.  A loop that does not end, a division by zero processors and a part behind
  the array of parts are \<^const>\<open>None\<close>.
\<close>

unbundle bit_operations_syntax

section \<open>The code\<close>

definition F_MIN_REQ :: u32 where "F_MIN_REQ = 2048"
definition F_OP_THRESOLD :: u32 where "F_OP_THRESOLD = 4096"

text \<open>The size of the arrays per processor: 64 on x64, 32 on the other targets.\<close>

definition MAX_CPU_COUNT :: "bool \<Rightarrow> nat" where "MAX_CPU_COUNT x64 = (if x64 then 64 else 32)"

definition align_up :: "u32 \<Rightarrow> u32 \<Rightarrow> u32" where
  "align_up sz a = (sz + (a - 1)) AND NOT (a - 1)"

record req_part =
  pt_offset :: u32
  pt_length :: u32

text \<open>\<open>rq_in\<close> is none when input and output are the same buffer; \<open>rq_completed\<close> counts calls of \<^verbatim>\<open>on_complete\<close>.\<close>

record req_item =
  rq_encrypt :: bool
  rq_length :: u32
  rq_in :: "bytes option"
  rq_out :: bytes
  rq_offset :: u64
  rq_key :: xts_key
  rq_completed :: nat

definition xts_crypt :: "xts_selected \<Rightarrow> bool \<Rightarrow> xts_key \<Rightarrow> xts_fun" where
  "xts_crypt S is_encrypt key = (if is_encrypt then xts_encrypt S key else xts_decrypt S key)"

partial_function (option) make_parts :: "u32 \<Rightarrow> u32 \<Rightarrow> u32 \<Rightarrow> req_part list option" where
  "make_parts part_sz part_of len =
     (let part_sz = min part_sz len; part = \<lparr>pt_offset = part_of, pt_length = part_sz\<rparr>
      in if len - part_sz = 0 then Some [part]
         else do { parts \<leftarrow> make_parts part_sz (part_of + part_sz) (len - part_sz); Some (part # parts) })"

definition cp_worker_part :: "xts_selected \<Rightarrow> req_part \<Rightarrow> req_item \<Rightarrow> req_item option" where
  "cp_worker_part S part item =
     (let inp = (case rq_in item of None \<Rightarrow> rq_out item | Some b \<Rightarrow> b); off = pt_offset part; len = pt_length part
      in do { y \<leftarrow> xts_crypt S (rq_encrypt item) (rq_key item) (drop (unat off) inp) (ucast len) (rq_offset item + ucast off);
              out \<leftarrow> wr (unat off) y (rq_out item);
              Some (item\<lparr>rq_out := out, rq_length := rq_length item - len,
                         rq_completed := rq_completed item + (if rq_length item = len then 1 else 0)\<rparr>) })"

fun cp_worker_parts :: "xts_selected \<Rightarrow> req_part list \<Rightarrow> req_item \<Rightarrow> req_item option" where
  "cp_worker_parts S [] item = Some item"
| "cp_worker_parts S (part # parts) item = do { item \<leftarrow> cp_worker_part S part item; cp_worker_parts S parts item }"

text \<open>
  Small requests, and those for which no memory is there (\<open>mem\<close>), are done at once: the result is the output
  buffer, \<^verbatim>\<open>on_complete\<close> has been called.  Others give the request and its parts for the workers.
\<close>

definition cp_parallelized_crypt ::
  "xts_selected \<Rightarrow> bool \<Rightarrow> u32 \<Rightarrow> bool \<Rightarrow> bool \<Rightarrow> xts_key \<Rightarrow> bytes option \<Rightarrow> bytes \<Rightarrow> u32 \<Rightarrow> u64 \<Rightarrow> (bytes + (req_item \<times> req_part list)) option" where
  "cp_parallelized_crypt S x64 cpu_count mem is_encrypt key inp out len offset =
     (if len < F_OP_THRESOLD \<or> \<not> mem
      then do { y \<leftarrow> xts_crypt S is_encrypt key (case inp of None \<Rightarrow> out | Some b \<Rightarrow> b) (ucast len) offset; out \<leftarrow> wr 0 y out; Some (Inl out) }
      else if cpu_count = 0 then None
      else do { parts \<leftarrow> make_parts (align_up (len div cpu_count) F_MIN_REQ) 0 len;
                if MAX_CPU_COUNT x64 < length parts then None
                else Some (Inr (\<lparr>rq_encrypt = is_encrypt, rq_length = len, rq_in = inp, rq_out = out, rq_offset = offset,
                                  rq_key = key, rq_completed = 0\<rparr>, parts)) })"

text \<open>The caller that waits: the parts are done in the order of the array, any other gives the same.\<close>

definition cp_fast_crypt_op ::
  "xts_selected \<Rightarrow> bool \<Rightarrow> u32 \<Rightarrow> bool \<Rightarrow> bool \<Rightarrow> xts_key \<Rightarrow> bytes option \<Rightarrow> bytes \<Rightarrow> u32 \<Rightarrow> u64 \<Rightarrow> bytes option" where
  "cp_fast_crypt_op S x64 cpu_count mem is_encrypt key inp out len offset =
     do { r \<leftarrow> cp_parallelized_crypt S x64 cpu_count mem is_encrypt key inp out len offset;
          case r of Inl out \<Rightarrow> Some out | Inr (item, parts) \<Rightarrow> do { item \<leftarrow> cp_worker_parts S parts item; Some (rq_out item) } }"

section \<open>Cutting a request\<close>

abbreviation part_end :: "req_part \<Rightarrow> nat" where
  "part_end p \<equiv> unat (pt_offset p) + unat (pt_length p)"

text \<open>The parts follow each other from \<open>off\<close> on and add up to \<open>n\<close> bytes, each a positive number of sectors.\<close>

fun tiles :: "nat \<Rightarrow> nat \<Rightarrow> req_part list \<Rightarrow> bool" where
  "tiles off n [] \<longleftrightarrow> n = 0"
| "tiles off n (p # ps) \<longleftrightarrow> unat (pt_offset p) = off \<and> 0 < unat (pt_length p) \<and> 512 dvd unat (pt_length p) \<and>
     unat (pt_length p) \<le> n \<and> tiles (off + unat (pt_length p)) (n - unat (pt_length p)) ps"

lemma tiles_range: "tiles off n ps \<Longrightarrow> p \<in> set ps \<Longrightarrow> off \<le> unat (pt_offset p) \<and> part_end p \<le> off + n"
  by (induction off n ps rule: tiles.induct) force+

lemma tiles_positive: "tiles off n ps \<Longrightarrow> p \<in> set ps \<Longrightarrow> 0 < unat (pt_length p) \<and> 512 dvd unat (pt_length p)"
  by (induction off n ps rule: tiles.induct) auto

lemma tiles_aligned: "tiles off n ps \<Longrightarrow> 512 dvd off \<Longrightarrow> p \<in> set ps \<Longrightarrow> 512 dvd unat (pt_offset p)"
  by (induction off n ps rule: tiles.induct) auto

lemma tiles_sum: "tiles off n ps \<Longrightarrow> sum_list (map (\<lambda>p. unat (pt_length p)) ps) = n"
  by (induction off n ps rule: tiles.induct) auto

lemma tiles_distinct: "tiles off n ps \<Longrightarrow> distinct ps"
proof (induction off n ps rule: tiles.induct)
  case (2 off n p ps)
  then have "p \<notin> set ps" using tiles_range [of "off + unat (pt_length p)" "n - unat (pt_length p)" ps p] by fastforce
  then show ?case using 2 by simp
qed simp

lemma tiles_disjoint:
  "tiles off n ps \<Longrightarrow> p \<in> set ps \<Longrightarrow> q \<in> set ps \<Longrightarrow> p \<noteq> q \<Longrightarrow> part_end p \<le> unat (pt_offset q) \<or> part_end q \<le> unat (pt_offset p)"
proof (induction off n ps rule: tiles.induct)
  case (2 off n r ps)
  note R = tiles_range [of "off + unat (pt_length r)" "n - unat (pt_length r)" ps]
  show ?case
  proof (cases "p = r \<or> q = r")
    case True
    then show ?thesis using 2 R [of p] R [of q] by auto
  next
    case False
    then show ?thesis using 2 by auto
  qed
qed simp

lemma tiles_cover: "tiles off n ps \<Longrightarrow> off \<le> k \<Longrightarrow> k < off + n \<Longrightarrow> \<exists>p \<in> set ps. unat (pt_offset p) \<le> k \<and> k < part_end p"
proof (induction off n ps rule: tiles.induct)
  case (2 off n p ps)
  then show ?case by (cases "k < off + unat (pt_length p)") auto
qed simp

lemma make_parts_tiles:
  assumes "0 < unat sz" "512 dvd unat sz" "0 < unat len" "512 dvd unat len" "unat off + unat len < 2 ^ 32" "unat len \<le> k * unat sz"
  shows "\<exists>ps. make_parts sz off len = Some ps \<and> tiles (unat off) (unat len) ps \<and> length ps \<le> k"
  using assms
proof (induction k arbitrary: off len sz)
  case (Suc k)
  let ?sz = "min sz len"
  have usz: "unat ?sz = min (unat sz) (unat len)" by (simp add: min_def word_le_nat_alt)
  have le: "unat (len - ?sz) = unat len - unat ?sz" by (simp add: unat_sub word_le_nat_alt usz)
  have uo: "unat (off + ?sz) = unat off + unat ?sz" using Suc.prems(5) usz by (simp add: unat_word_ariths(1))
  have z: "len - ?sz = 0 \<longleftrightarrow> unat len \<le> unat sz" 
    unfolding unat_eq_zero [of "len - ?sz", symmetric] le usz by auto
  show ?case
  proof (cases "unat len \<le> unat sz")
    case True
    then have "make_parts sz off len = Some [\<lparr>pt_offset = off, pt_length = ?sz\<rparr>]"
      using z by (subst make_parts.simps) (simp add: Let_def)
    then show ?thesis using True usz Suc.prems by simp
  next
    case False
    then have s: "?sz = sz" by (simp add: min_def word_le_nat_alt)
    have "\<exists>ps. make_parts sz (off + sz) (len - sz) = Some ps \<and> tiles (unat (off + sz)) (unat (len - sz)) ps \<and> length ps \<le> k"
      using False Suc.prems le uo unfolding s by (intro Suc.IH) (auto simp: dvd_diff_nat)
    then obtain ps where ps: "make_parts sz (off + sz) (len - sz) = Some ps" "tiles (unat (off + sz)) (unat (len - sz)) ps" "length ps \<le> k"
      by blast
    then have "make_parts sz off len = Some (\<lparr>pt_offset = off, pt_length = sz\<rparr> # ps)"
      using False z s by (subst make_parts.simps) (simp add: Let_def)
    then show ?thesis using ps False uo le s Suc.prems by auto
  qed
qed simp

lemma align_2048: "unat a + 2048 \<le> 2 ^ 32 \<Longrightarrow> unat (align_up a F_MIN_REQ) = round_up (unat a) 2048"
proof -
  assume a: "unat a + 2048 \<le> 2 ^ 32"
  have m: "F_MIN_REQ - 1 = (mask 11 :: u32)" "mask 11 = (2047 :: u32)" by (simp_all add: F_MIN_REQ_def mask_eq_exp_minus_1)
  have "b AND NOT (mask 11) = push_bit 11 (drop_bit 11 b)" for b :: u32
    by (rule bit_word_eqI) (auto simp add: bit_simps simp del: m(2) mask_numeral)
  then have "align_up a F_MIN_REQ = push_bit 11 (drop_bit 11 (a + 2047))"
    unfolding align_up_def m(1) by (simp only: m(2))
  then have "align_up a F_MIN_REQ = (a + 2047) div 2048 * 2048" by (simp add: push_bit_eq_mult drop_bit_eq_div)
  moreover have u: "unat (a + 2047) = unat a + 2047" using a by (simp add: unat_word_ariths(1))
  have "(unat a + 2047) div 2048 * 2048 < 2 ^ 32"
    using a by (intro le_less_trans [OF div_times_less_eq_dividend]) simp
  then have "unat ((a + 2047) div 2048 * 2048) = (unat a + 2047) div 2048 * 2048"
    by (simp add: unat_word_ariths(2) unat_div u)
  ultimately show ?thesis by (simp add: round_up_def)
qed

text \<open>No request of whole sectors needs more parts than there are processors.\<close>

lemma parts_fit:
  assumes "0 < c" "c \<le> 64" "512 dvd n" "c \<le> n"
  shows "n \<le> c * round_up (n div c) 2048" "0 < round_up (n div c) 2048"
proof -
  let ?r = "round_up (n div c) 2048"
  have ge: "n div c \<le> ?r" by (rule round_up_ge) simp
  have "1 \<le> n div c" using assms(1,4) by (simp add: div_greater_zero_iff Suc_le_eq)
  then show "0 < ?r" using ge by linarith
  show "n \<le> c * ?r"
  proof (rule ccontr)
    assume "\<not> n \<le> c * ?r"
    then have less: "c * ?r < n" by simp
    have "n < c * (n div c) + c" using assms(1) by (metis add.commute add_less_cancel_left div_mult_mod_eq mod_less_divisor mult.commute)
    also have "\<dots> \<le> c * ?r + c" using ge by simp
    finally have "n - c * ?r < 512" using assms(2) less by linarith
    moreover have "512 dvd n - c * ?r"
      using assms(3) round_up_dvd [of 2048 "n div c"] by (intro dvd_diff_nat) (auto intro: dvd_mult dvd_trans [of 512 2048])
    ultimately show False using less dvd_imp_le [of 512 "n - c * ?r"] by simp
  qed
qed

section \<open>Workers\<close>

definition in_part :: "nat \<Rightarrow> req_part \<Rightarrow> bool" where
  "in_part i p \<longleftrightarrow> unat (pt_offset p) \<le> 512 * i \<and> 512 * i < part_end p"

text \<open>What a request looks like when the parts of \<open>P\<close> are done, and nothing else.\<close>

definition worked :: "(u64 \<Rightarrow> bytes \<Rightarrow> bytes) \<Rightarrow> u64 \<Rightarrow> bytes \<Rightarrow> bytes \<Rightarrow> req_part set \<Rightarrow> bytes \<Rightarrow> bool" where
  "worked g offset inp out0 P out \<longleftrightarrow> length out = length out0 \<and>
     (\<forall>i. 512 * Suc i \<le> length out0 \<longrightarrow> sec i out = (if \<exists>p \<in> P. in_part i p then g (offset div 512 + of_nat i) (sec i inp) else sec i out0))"

lemma ucast_u32 [simp]: "unat (ucast (x :: u32) :: u64) = unat x"
  using unsigned_less [of x, where ?'a = nat] by (simp add: unsigned_ucast_eq take_bit_nat_eq_self)

lemma worker_step:
  assumes F: "sectorwise (xts_crypt S (rq_encrypt item) (rq_key item)) g"
    and t: "tiles 0 n parts" "n \<le> length inp" "n \<le> length out0" "unat (rq_offset item) + n < 2 ^ 64"
    and p: "p \<in> set parts" "p \<notin> P" "P \<subseteq> set parts" and w: "worked g (rq_offset item) inp out0 P (rq_out item)"
    and src: "rq_in item = Some inp \<or> rq_in item = None \<and> inp = out0"
  shows "\<exists>out. cp_worker_part S p item = Some (item\<lparr>rq_out := out, rq_length := rq_length item - pt_length p,
      rq_completed := rq_completed item + (if rq_length item = pt_length p then 1 else 0)\<rparr>) \<and>
    worked g (rq_offset item) inp out0 (insert p P) out \<and> drop n out = drop n (rq_out item)"
proof -
  have "512 dvd unat (pt_offset p)" using tiles_aligned [OF t(1) _ p(1)] by simp
  moreover have "512 dvd unat (pt_length p)" "0 < unat (pt_length p)" using tiles_positive [OF t(1) p(1)] by simp_all
  ultimately obtain a c where ac: "unat (pt_offset p) = 512 * a" "unat (pt_length p) = 512 * c" "0 < c" by (auto elim!: dvdE)
  have fits: "512 * a + 512 * c \<le> n" using tiles_range [OF t(1) p(1)] ac by simp
  define b where "b = (case rq_in item of None \<Rightarrow> rq_out item | Some b \<Rightarrow> b)"
  have lb: "length b = (if rq_in item = None then length out0 else length inp)" using src w by (auto simp: b_def worked_def)
  have bs: "sec (a + k) b = sec (a + k) inp" if k: "k < c" for k
  proof -
    have "\<not> in_part (a + k) q" if q: "q \<in> P" for q
    proof -
      have "q \<in> set parts" "q \<noteq> p" using p q by auto
      then show ?thesis using tiles_disjoint [OF t(1) _ p(1), of q] k ac by (auto simp: in_part_def)
    qed
    then show ?thesis using src w k fits t(3) by (auto simp: b_def worked_def)
  qed
  have ok: "xts_len_ok (drop (512 * a) b) (ucast (pt_length p))"
    using ac fits t(2,3) lb by (auto simp: xts_len_ok_def split: if_splits)
  have uo: "ucast (pt_offset p) = (of_nat (512 * a) :: u64)" by (metis ac(1) of_nat_unat)
  have num: "(rq_offset item + ucast (pt_offset p)) div 512 = rq_offset item div 512 + of_nat a"
    unfolding uo using t(4) fits by (intro sector_number) simp
  obtain y where y: "xts_crypt S (rq_encrypt item) (rq_key item) (drop (512 * a) b) (ucast (pt_length p)) (rq_offset item + ucast (pt_offset p)) = Some y"
      "length y = 512 * c" "\<forall>i < c. sec i y = g (rq_offset item div 512 + of_nat a + of_nat i) (sec i (drop (512 * a) b))"
    using sectorwise_run [OF F ok, of "rq_offset item + ucast (pt_offset p)"] ac unfolding num by auto
  have lo: "512 * a + length y \<le> length (rq_out item)" using y(2) fits t(3) w by (simp add: worked_def)
  have "worked g (rq_offset item) inp out0 (insert p P) (overlay (512 * a) y (rq_out item))"
  proof -
    have "sec i (overlay (512 * a) y (rq_out item)) =
        (if \<exists>q \<in> insert p P. in_part i q then g (rq_offset item div 512 + of_nat i) (sec i inp) else sec i out0)"
      if i: "512 * Suc i \<le> length out0" for i
    proof -
      have ip: "in_part i p \<longleftrightarrow> a \<le> i \<and> i < a + c" using ac by (auto simp: in_part_def)
      have "sec (i - a) y = g (rq_offset item div 512 + of_nat i) (sec i inp)" if "a \<le> i" "i < a + c"
        using that y(3) bs [of "i - a"] by (simp add: sec_drop)
      then show ?thesis using sec_overlay [OF y(2) lo, of i] i w by (auto simp: worked_def ip)
    qed
    then show ?thesis using w lo by (simp add: worked_def length_overlay)
  qed
  moreover have "drop n (overlay (512 * a) y (rq_out item)) = drop n (rq_out item)"
    using y(2) fits lo by (simp add: overlay_def drop_append)
  ultimately show ?thesis
    using y(1) ac(1) lo by (intro exI [of _ "overlay (512 * a) y (rq_out item)"]) (simp add: cp_worker_part_def Let_def wr_in b_def [symmetric])
qed

abbreviation total_length :: "req_part list \<Rightarrow> nat" where
  "total_length ps \<equiv> sum_list (map (\<lambda>p. unat (pt_length p)) ps)"

text \<open>The last part of a request is the one that completes it: lengths are positive.\<close>

lemma workers_run:
  assumes "sectorwise (xts_crypt S (rq_encrypt item) (rq_key item)) g"
    and t: "tiles 0 n parts" "n \<le> length inp" "n \<le> length out0" "unat (rq_offset item) + n < 2 ^ 64"
    and "distinct ps" "set ps \<subseteq> set parts" "set ps \<inter> P = {}" "P \<subseteq> set parts" and "worked g (rq_offset item) inp out0 P (rq_out item)"
    and "rq_in item = Some inp \<or> rq_in item = None \<and> inp = out0" and "total_length ps \<le> unat (rq_length item)"
  shows "\<exists>item'. cp_worker_parts S ps item = Some item' \<and> worked g (rq_offset item) inp out0 (P \<union> set ps) (rq_out item') \<and>
    drop n (rq_out item') = drop n (rq_out item) \<and> unat (rq_length item') = unat (rq_length item) - total_length ps \<and>
    rq_completed item' = rq_completed item + (if ps \<noteq> [] \<and> unat (rq_length item) = total_length ps then 1 else 0)"
  using assms(1,5-)
proof (induction ps arbitrary: item P)
  case (Cons p ps)
  let ?r = "rq_length item" and ?c = "if rq_length item = pt_length p then 1 else 0 :: nat"
  have pp: "p \<in> set parts" "p \<notin> P" "set ps \<subseteq> set parts" "set ps \<inter> insert p P = {}" "insert p P \<subseteq> set parts" using Cons.prems by auto
  obtain out where out: "cp_worker_part S p item = Some (item\<lparr>rq_out := out, rq_length := ?r - pt_length p, rq_completed := rq_completed item + ?c\<rparr>)"
      "worked g (rq_offset item) inp out0 (insert p P) out" "drop n out = drop n (rq_out item)"
    using worker_step [OF Cons.prems(1) t(1-3) Cons.prems(2) pp(1,2) Cons.prems(6-8)] by blast
  have le: "unat (?r - pt_length p) = unat ?r - unat (pt_length p)" using Cons.prems(9) by (simp add: unat_sub word_le_nat_alt)
  have len: "(?r = pt_length p) = (unat ?r = unat (pt_length p))" by (simp add: word_eq_iff_unsigned)
  have pos: "ps = [] \<longleftrightarrow> total_length ps = 0"
    using tiles_positive [OF t(1)] pp(3) by (cases ps) auto
  define it where "it = item\<lparr>rq_out := out, rq_length := ?r - pt_length p, rq_completed := rq_completed item + ?c\<rparr>"
  have it: "rq_encrypt it = rq_encrypt item" "rq_key it = rq_key item" "rq_offset it = rq_offset item" "rq_in it = rq_in item"
      "rq_out it = out" "rq_length it = ?r - pt_length p" "rq_completed it = rq_completed item + ?c" by (simp_all add: it_def)
  have "\<exists>item'. cp_worker_parts S ps it = Some item' \<and> worked g (rq_offset it) inp out0 (insert p P \<union> set ps) (rq_out item') \<and>
      drop n (rq_out item') = drop n (rq_out it) \<and> unat (rq_length item') = unat (rq_length it) - total_length ps \<and>
      rq_completed item' = rq_completed it + (if ps \<noteq> [] \<and> unat (rq_length it) = total_length ps then 1 else 0)"
    by (rule Cons.IH) (use Cons.prems out(2) pp le in \<open>simp_all add: it\<close>)
  then obtain item' where item': "cp_worker_parts S ps it = Some item'" "worked g (rq_offset it) inp out0 (insert p P \<union> set ps) (rq_out item')"
      "drop n (rq_out item') = drop n (rq_out it)" "unat (rq_length item') = unat (rq_length it) - total_length ps"
      "rq_completed item' = rq_completed it + (if ps \<noteq> [] \<and> unat (rq_length it) = total_length ps then 1 else 0)" by blast
  have "rq_completed item' = rq_completed item + (if unat ?r = total_length (p # ps) then 1 else 0)"
    using item'(5) le len pos Cons.prems(9) unfolding it by auto
  then show ?case using item'(1-4) out(1,3) le unfolding it by (auto simp: it_def)
qed simp

lemma parallel_parts:
  assumes g: "sectorwise (xts_crypt S enc key) g" and "src = (case inp of None \<Rightarrow> out | Some b \<Rightarrow> b)"
    and "F_OP_THRESOLD \<le> len" and "512 dvd unat len" and "unat len \<le> length src" and "unat len \<le> length out"
    and "0 < unat cpu_count" and "unat cpu_count \<le> MAX_CPU_COUNT x64" and "unat len + 2048 \<le> 2 ^ 32" and "unat offset + unat len < 2 ^ 64"
  shows "\<exists>item parts y. cp_parallelized_crypt S x64 cpu_count True enc key inp out len offset = Some (Inr (item, parts)) \<and>
    length parts \<le> unat cpu_count \<and> xts_crypt S enc key src (ucast len) offset = Some y \<and> length y = unat len \<and>
    (\<forall>i < unat len div 512. sec i y = g (offset div 512 + of_nat i) (sec i src)) \<and>
    (\<forall>ps. mset ps = mset parts \<longrightarrow> (\<exists>item'. cp_worker_parts S ps item = Some item' \<and>
       rq_out item' = overlay 0 y out \<and> rq_length item' = 0 \<and> rq_completed item' = 1)) \<and>
    (\<forall>ps q qs. mset (ps @ q # qs) = mset parts \<longrightarrow> (\<exists>item'. cp_worker_parts S ps item = Some item' \<and> rq_completed item' = 0))"
proof -
  let ?n = "unat len"
  have big: "4096 \<le> ?n" using assms(3) by (simp add: F_OP_THRESOLD_def word_le_nat_alt)
  have c: "0 < unat cpu_count" "unat cpu_count \<le> 64" "unat cpu_count \<le> ?n" using assms(7,8) big by (auto simp: MAX_CPU_COUNT_def split: if_splits)
  note fit = parts_fit [OF c(1,2) assms(4) c(3)]
  have "?n div unat cpu_count \<le> ?n" by simp
  then have sz: "unat (align_up (len div cpu_count) F_MIN_REQ) = round_up (?n div unat cpu_count) 2048"
    using assms(9) by (subst align_2048) (simp_all only: unat_div)
  have "512 dvd round_up (?n div unat cpu_count) 2048" by (rule dvd_trans [OF _ round_up_dvd]) simp
  then obtain parts where parts: "make_parts (align_up (len div cpu_count) F_MIN_REQ) 0 len = Some parts" "tiles 0 ?n parts" "length parts \<le> unat cpu_count"
    using make_parts_tiles [of "align_up (len div cpu_count) F_MIN_REQ" len 0 "unat cpu_count"] fit sz assms(4,9) big by auto
  define item where "item = \<lparr>rq_encrypt = enc, rq_length = len, rq_in = inp, rq_out = out, rq_offset = offset, rq_key = key, rq_completed = 0\<rparr>"
  have call: "cp_parallelized_crypt S x64 cpu_count True enc key inp out len offset = Some (Inr (item, parts))"
    using assms(3,7,8) parts by (auto simp: cp_parallelized_crypt_def item_def)
  have ok: "xts_len_ok src (ucast len)" using assms(4,5) big by (simp add: xts_len_ok_def)
  obtain y where y: "xts_crypt S enc key src (ucast len) offset = Some y" "length y = ?n" "\<forall>i < ?n div 512. sec i y = g (offset div 512 + of_nat i) (sec i src)"
    using sectorwise_run [OF g ok, of offset] by auto
  have run: "\<exists>item'. cp_worker_parts S ps item = Some item' \<and> worked g offset src out (set ps) (rq_out item') \<and> drop ?n (rq_out item') = drop ?n out \<and>
      unat (rq_length item') = ?n - total_length ps \<and> rq_completed item' = (if ps \<noteq> [] \<and> ?n = total_length ps then 1 else 0)"
    if ps: "distinct ps" "set ps \<subseteq> set parts" "total_length ps \<le> ?n" for ps
    using workers_run [of S item g ?n parts src out ps "{}"] g parts(2) assms(2,5,6,10) ps
    by (auto simp: item_def worked_def split: option.splits)
  have perm: "distinct ps" "set ps = set parts" "total_length ps = ?n" if "mset ps = mset parts" for ps
    using that tiles_distinct [OF parts(2)] tiles_sum [OF parts(2)] mset_eq_imp_distinct_iff [OF that]
    by (auto dest: mset_eq_setD) (metis mset_map sum_mset_sum_list)
  have whole: "o' = overlay 0 y out" if o': "worked g offset src out (set parts) o'" "drop ?n o' = drop ?n out" for o'
  proof -
    obtain m where m: "?n = 512 * m" using assms(4) by auto
    have "take ?n o' = y"
    proof (rule sec_eqI [of _ m])
      show "sec i (take ?n o') = sec i y" if i: "i < m" for i
        using tiles_cover [OF parts(2), of "512 * i"] o'(1) y(3) i m assms(6) by (auto simp: worked_def in_part_def sec_take)
    qed (use o'(1) y(2) m assms(6) in \<open>simp_all add: worked_def\<close>)
    then show ?thesis using o'(2) y(2) append_take_drop_id [of ?n o'] by (simp add: overlay_def)
  qed
  have "\<exists>item'. cp_worker_parts S ps item = Some item' \<and> rq_out item' = overlay 0 y out \<and> rq_length item' = 0 \<and> rq_completed item' = 1"
    if "mset ps = mset parts" for ps
    using run [of ps] perm [OF that] whole big by (cases ps) (auto simp: unat_eq_zero)
  moreover have "\<exists>item'. cp_worker_parts S ps item = Some item' \<and> rq_completed item' = 0" if "mset (ps @ q # qs) = mset parts" for ps q qs
  proof -
    note p = perm [OF that]
    have "set ps \<subseteq> set parts" "q \<in> set parts" using p(2) by auto
    then show ?thesis using run [of ps] p(1,3) tiles_positive [OF parts(2), of q] by auto
  qed
  ultimately show ?thesis using call parts(3) y by blast
qed

text \<open>\<^verbatim>\<open>cp_fast_crypt_op\<close>: the same, waiting for the completion.\<close>

lemma fast_crypt_sectors:
  assumes g: "sectorwise (xts_crypt S enc key) g" and "src = (case inp of None \<Rightarrow> out | Some b \<Rightarrow> b)"
    and "0 < unat len" and "512 dvd unat len" and "unat len \<le> length src" and "unat len \<le> length out"
    and "0 < unat cpu_count" and "unat cpu_count \<le> MAX_CPU_COUNT x64" and "unat len + 2048 \<le> 2 ^ 32" and "unat offset + unat len < 2 ^ 64"
  shows "\<exists>y. cp_fast_crypt_op S x64 cpu_count mem enc key inp out len offset = Some (overlay 0 y out) \<and> length y = unat len \<and>
    (\<forall>i < unat len div 512. sec i y = g (offset div 512 + of_nat i) (sec i src))"
proof (cases "len < F_OP_THRESOLD \<or> \<not> mem")
  case True
  have "xts_len_ok src (ucast len)" using assms(3-5) by (simp add: xts_len_ok_def)
  from sectorwise_run [OF g this, of offset] obtain y where
    y: "xts_crypt S enc key src (ucast len) offset = Some y" "length y = unat len" "\<forall>i < unat len div 512. sec i y = g (offset div 512 + of_nat i) (sec i src)"
    by auto
  then have "cp_fast_crypt_op S x64 cpu_count mem enc key inp out len offset = Some (overlay 0 y out)"
    using True assms(2,6) by (simp add: cp_fast_crypt_op_def cp_parallelized_crypt_def wr_in)
  then show ?thesis using y by blast
next
  case False
  then have "F_OP_THRESOLD \<le> len" and m: "mem = True" by (simp_all add: not_less)
  from parallel_parts [OF g assms(2) this(1) assms(4-)] obtain item parts y where
    call: "cp_parallelized_crypt S x64 cpu_count True enc key inp out len offset = Some (Inr (item, parts))"
    and y: "length y = unat len" "\<forall>i < unat len div 512. sec i y = g (offset div 512 + of_nat i) (sec i src)"
    and run: "\<forall>ps. mset ps = mset parts \<longrightarrow> (\<exists>item'. cp_worker_parts S ps item = Some item' \<and> rq_out item' = overlay 0 y out \<and>
       rq_length item' = 0 \<and> rq_completed item' = 1)"
    by (elim exE conjE) rule
  from run obtain item' where "cp_worker_parts S parts item = Some item'" "rq_out item' = overlay 0 y out" by blast
  then have "cp_fast_crypt_op S x64 cpu_count mem enc key inp out len offset = Some (overlay 0 y out)"
    using call m by (simp add: cp_fast_crypt_op_def)
  then show ?thesis using y by blast
qed

section \<open>Properties\<close>

text \<open>
  C6 (equivalence): cutting a request and letting workers take the parts in any order gives what one call of the
  XTS routine gives on the whole buffer.  There are no more parts than processors, no access leaves the
  buffers, and the completion routine is called exactly once, by the worker that finishes last.  In place or
  from one buffer to another.
\<close>

theorem parallel_crypt_any_order:
  assumes "aes_core_ok A" and "xts_set_key dk alg k = (1, key)" and "src = (case inp of None \<Rightarrow> out | Some b \<Rightarrow> b)"
    and "F_OP_THRESOLD \<le> len" and "512 dvd unat len" and "unat len \<le> length src" and "unat len \<le> length out"
    and "0 < unat cpu_count" and "unat cpu_count \<le> MAX_CPU_COUNT x64" and "unat len + 2048 \<le> 2 ^ 32" and "unat offset + unat len < 2 ^ 64"
  shows "\<exists>item parts y. cp_parallelized_crypt (scalar_selection A) x64 cpu_count True enc key inp out len offset = Some (Inr (item, parts)) \<and>
    length parts \<le> unat cpu_count \<and> xts_crypt (scalar_selection A) enc key src (ucast len) offset = Some y \<and>
    (\<forall>ps. mset ps = mset parts \<longrightarrow> (\<exists>item'. cp_worker_parts (scalar_selection A) ps item = Some item' \<and>
       rq_out item' = overlay 0 y out \<and> rq_length item' = 0 \<and> rq_completed item' = 1)) \<and>
    (\<forall>ps q qs. mset (ps @ q # qs) = mset parts \<longrightarrow> (\<exists>item'. cp_worker_parts (scalar_selection A) ps item = Some item' \<and> rq_completed item' = 0))"
proof -
  obtain es ds where "sector_cipher (xts_encrypt (scalar_selection A) key) (xts_decrypt (scalar_selection A) key) es ds"
    by (rule xts_set_key_sectors [OF assms(1,2)])
  then obtain g where "sectorwise (xts_crypt (scalar_selection A) enc key) g" by (cases enc) (auto simp: sector_cipher_def xts_crypt_def)
  from parallel_parts [OF this assms(3-)] show ?thesis by blast
qed

theorem parallel_crypt_any_order_witness:
  "\<exists>item parts y. cp_parallelized_crypt (scalar_selection fips197_core) True 4 True True
      (snd (xts_set_key (replicate 64 5) CF_SERPENT undefined)) None (replicate 8192 7) 8192 4096 = Some (Inr (item, parts)) \<and>
    length parts \<le> 4 \<and> (\<exists>item'. cp_worker_parts (scalar_selection fips197_core) (rev parts) item = Some item' \<and>
      rq_out item' = overlay 0 y (replicate 8192 7) \<and> rq_completed item' = 1)"
proof -
  have set: "xts_set_key (replicate 64 5) CF_SERPENT undefined = (1, snd (xts_set_key (replicate 64 5) CF_SERPENT undefined))"
    by (simp add: xts_set_key_def cf_defs)
  from parallel_crypt_any_order [OF fips197_core_ok set, of "replicate 8192 7" "replicate 8192 7" None 8192 4 True 4096 True]
  show ?thesis by (simp add: F_OP_THRESOLD_def MAX_CPU_COUNT_def) (metis mset_rev)
qed

end
