(* ===== verification/ReadWrite.thy ===== *)
theory ReadWrite
  imports DeviceIo FastCrypt
begin

text \<open>
  The request path of a mounted volume (\<^verbatim>\<open>DCrypt/driver/readwrite.c\<close>, built with concurrent transcryption and
  without the read pipeline): how a request is cut into chunks, where a chunk lies on the disk and with which key
  it is encrypted.  The first sectors of the volume hold its header and live in the storage area instead, the
  last ones in the second part of the storage area when there is a backup header; during transcryption the key
  changes at a boundary, of which a request keeps the value it saw when it started.
\<close>

unbundle bit_operations_syntax

section \<open>The code\<close>

definition CONF_ENABLE_SSD_OPT :: u32 where "CONF_ENABLE_SSD_OPT = 0x0400"
definition SSD_PAGE_SIZE :: u32 where "SSD_PAGE_SIZE = 4096"
definition SSD_ERASE_BLOCK_SIZE :: u32 where "SSD_ERASE_BLOCK_SIZE = 128 * 1024"
definition CHUNK_READ_THRESHOLD :: u32 where "CHUNK_READ_THRESHOLD = 128 * 1024"
definition CHUNK_READ_CHUNK_SIZE :: u32 where "CHUNK_READ_CHUNK_SIZE = 512 * 1024"
definition CHUNK_MIN_READ_SIZE :: u32 where "CHUNK_MIN_READ_SIZE = 64 * 1024"
definition CHUNK_WRITE_THRESHOLD :: u32 where "CHUNK_WRITE_THRESHOLD = 128 * 1024"

lemmas chunk_consts = SSD_PAGE_SIZE_def SSD_ERASE_BLOCK_SIZE_def CHUNK_READ_THRESHOLD_def CHUNK_READ_CHUNK_SIZE_def
  CHUNK_MIN_READ_SIZE_def CHUNK_WRITE_THRESHOLD_def

definition IS_CHUNKING_NEEDED :: "u32 \<Rightarrow> bool \<Rightarrow> bool" where
  "IS_CHUNKING_NEEDED len is_read \<longleftrightarrow> (is_read \<and> CHUNK_READ_THRESHOLD \<le> len) \<or> (\<not> is_read \<and> CHUNK_WRITE_THRESHOLD \<le> len)"

definition is_intersect :: "u64 \<Rightarrow> u64 \<Rightarrow> u64 \<Rightarrow> u64 \<Rightarrow> bool" where
  "is_intersect start1 size1 start2 size2 \<longleftrightarrow> max start1 start2 < min (start1 + size1) (start2 + size2)"

record io_context =
  io_buff :: bytes
  io_new_buff :: bytes
  io_length :: u32
  io_offset :: u64
  io_completed :: u32
  io_encrypted :: u32
  io_trans_boundary :: u64
  io_trans_io :: bool
  io_snapshot_dsk_key :: "xts_key option"
  io_snapshot_tmp_key :: "xts_key option"
  io_chunk_diskof :: u64
  io_chunk_length :: u32
  io_chunk_offset :: u32
  io_chunk_key :: "xts_key option"
  io_expected :: bool
  io_discontinuous :: bool
  io_write_pending :: bool
  io_write_offset :: u64
  io_write_length :: u32
  io_status :: ntstatus

definition io_read_chunk_length :: "io_context \<Rightarrow> u32" where
  "io_read_chunk_length ctx =
     (let remain = io_length ctx - io_completed ctx;
          len = min (remain div 2) CHUNK_READ_CHUNK_SIZE;
          len = (if len AND (SSD_PAGE_SIZE - 1) \<noteq> 0 then len + (SSD_PAGE_SIZE - (len AND (SSD_PAGE_SIZE - 1))) else len);
          len = (if remain - len < CHUNK_MIN_READ_SIZE then len + (remain - len) else len);
          part = (io_offset ctx + ucast len) AND ucast (SSD_PAGE_SIZE - 1)
      in if io_chunk_offset ctx = 0 \<and> part \<noteq> 0 then len + ucast (ucast SSD_PAGE_SIZE - part) else len)"

definition io_write_chunk_length :: "io_context \<Rightarrow> u32" where
  "io_write_chunk_length ctx =
     (let len = SSD_ERASE_BLOCK_SIZE;
          part = (io_offset ctx + ucast len) AND ucast (SSD_ERASE_BLOCK_SIZE - 1)
      in if io_chunk_offset ctx = 0 \<and> part \<noteq> 0 then len + ucast (ucast SSD_ERASE_BLOCK_SIZE - part) else len)"

text \<open>\<open>conf\<close> is \<^verbatim>\<open>dc_conf_flags\<close>, \<open>depth\<close> what \<^verbatim>\<open>hook->io_depth\<close> is when the chunk is made.\<close>

definition place_chunk :: "u32 \<Rightarrow> u32 \<Rightarrow> dev_hook \<Rightarrow> bool \<Rightarrow> io_context \<Rightarrow> io_context" where
  "place_chunk conf depth hook is_read ctx =
     (if dh_flags hook AND F_NO_REDIRECT = 0 \<and> io_chunk_diskof ctx < ucast (dh_head_len hook)
      then ctx\<lparr>io_chunk_length := dh_head_len hook - ucast (io_chunk_diskof ctx),
               io_chunk_diskof := io_chunk_diskof ctx + dh_stor_off hook, io_discontinuous := True\<rparr>
      else if dh_flags hook AND F_HEAD_BACKUP \<noteq> 0 \<and> dh_tail_len hook \<noteq> 0 \<and>
              dh_dsk_size hook - ucast (dh_tail_len hook) \<le> io_chunk_diskof ctx
      then let end_area_offset = io_chunk_diskof ctx - (dh_dsk_size hook - ucast (dh_tail_len hook))
           in ctx\<lparr>io_chunk_length := dh_tail_len hook - ucast end_area_offset,
                  io_chunk_diskof := dh_tail_off hook + end_area_offset, io_discontinuous := True\<rparr>
      else if conf AND CONF_ENABLE_SSD_OPT \<noteq> 0 \<and> dh_flags hook AND F_SSD \<noteq> 0 \<and> depth = 1 \<and> io_expected ctx \<and>
              IS_CHUNKING_NEEDED (io_length ctx) is_read
      then ctx\<lparr>io_chunk_length := (if is_read then io_read_chunk_length ctx else io_write_chunk_length ctx)\<rparr>
      else ctx\<lparr>io_chunk_length := io_length ctx\<rparr>)"

definition bound_chunk :: "dev_hook \<Rightarrow> io_context \<Rightarrow> io_context" where
  "bound_chunk hook ctx =
     (if io_trans_io ctx \<and> io_trans_boundary ctx > 0
      then if io_chunk_diskof ctx \<ge> io_trans_boundary ctx
           then ctx\<lparr>io_chunk_key := (if dh_flags hook AND F_REENCRYPT \<noteq> 0 then io_snapshot_tmp_key ctx else None)\<rparr>
           else if io_chunk_diskof ctx + ucast (io_chunk_length ctx) > io_trans_boundary ctx
           then ctx\<lparr>io_chunk_length := ucast (io_trans_boundary ctx - io_chunk_diskof ctx)\<rparr>
           else ctx
      else ctx)"

definition io_async_make_chunk :: "u32 \<Rightarrow> u32 \<Rightarrow> dev_hook \<Rightarrow> bool \<Rightarrow> io_context \<Rightarrow> io_context" where
  "io_async_make_chunk conf depth hook is_read ctx =
     (let fin = (if is_read then io_completed ctx else io_encrypted ctx);
          ctx = ctx\<lparr>io_chunk_diskof := io_offset ctx + ucast fin, io_chunk_offset := fin,
                    io_chunk_key := io_snapshot_dsk_key ctx, io_discontinuous := False\<rparr>;
          ctx = bound_chunk hook (place_chunk conf depth hook is_read ctx)
      in if io_chunk_length ctx > io_length ctx - fin then ctx\<lparr>io_chunk_length := io_length ctx - fin\<rparr> else ctx)"

text \<open>The thread pool of \<^verbatim>\<open>fast_crypt.c\<close>: the target, the number of processors, and whether a request item can be had.\<close>

record fc_pool =
  fc_x64 :: bool
  fc_cpus :: u32
  fc_mem :: bool

text \<open>
  The work of \<^verbatim>\<open>cp_parallelized_crypt\<close> on a chunk.  The source calls it with a completion callback; here it is
  entered through its synchronous front, and the callback is a step of its own.  That the order in which the
  workers finish does not matter, and that there is one completion, is shown in theory \<^verbatim>\<open>FastCrypt\<close>.
\<close>

definition pool_crypt :: "xts_selected \<Rightarrow> fc_pool \<Rightarrow> bool \<Rightarrow> xts_key \<Rightarrow> bytes option \<Rightarrow> bytes \<Rightarrow> u32 \<Rightarrow> u64 \<Rightarrow> bytes option" where
  "pool_crypt S P is_encrypt key inp out len offset = cp_fast_crypt_op S (fc_x64 P) (fc_cpus P) (fc_mem P) is_encrypt key inp out len offset"

text \<open>
  A read, for a lower driver that completes a request before its call returns: the completion routine of a chunk
  then starts the next chunk, and only after that decrypts its own and looks whether all is done.
  \<open>depth\<close> reads \<^verbatim>\<open>hook->io_depth\<close> in the state.
\<close>

partial_function (option) io_async_read_chunk ::
  "xts_selected \<Rightarrow> fc_pool \<Rightarrow> 'w io_mgr \<Rightarrow> u32 \<Rightarrow> ('w \<Rightarrow> u32) \<Rightarrow> dev_hook \<Rightarrow> io_context \<Rightarrow> 'w \<Rightarrow> (io_context \<times> 'w) option" where
  "io_async_read_chunk S P M conf depth hook ctx w =
     (let ctx = io_async_make_chunk conf (depth w) hook True ctx; (mdl, w) = im_alloc M w
      in if \<not> mdl then Some (ctx\<lparr>io_status := STATUS_INSUFFICIENT_RESOURCES\<rparr>, w)
         else do {
           (status, len, y, w) \<leftarrow> im_call M (drop (unat (io_chunk_offset ctx)) (io_buff ctx)) (io_chunk_length ctx) (io_chunk_diskof ctx) True w;
           let pos = unat (io_chunk_offset ctx);
           let offset = io_chunk_diskof ctx;
           let chunk_key = io_chunk_key ctx;
           let ctx = ctx\<lparr>io_buff := take pos (io_buff ctx) @ y, io_completed := io_completed ctx + io_chunk_length ctx\<rparr>;
           (ctx, w) \<leftarrow>
             (if NT_SUCCESS status then do {
                (ctx, w) \<leftarrow> (if io_completed ctx < io_length ctx then io_async_read_chunk S P M conf depth hook ctx w else Some (ctx, w));
                case chunk_key of
                  None \<Rightarrow> Some (ctx, w)
                | Some key \<Rightarrow> do {
                    let offset = (if dh_flags hook AND F_NO_REDIRECT \<noteq> 0 then offset - ucast (dh_head_len hook) else offset);
                    z \<leftarrow> pool_crypt S P False key None (drop pos (io_buff ctx)) len offset;
                    Some (ctx\<lparr>io_buff := take pos (io_buff ctx) @ z\<rparr>, w) } }
              else Some (ctx, w));
           Some (if \<not> NT_SUCCESS status \<or> io_completed ctx = io_length ctx then ctx\<lparr>io_status := status\<rparr> else ctx, w) })"

text \<open>The checks at the start of \<^verbatim>\<open>io_encrypted_irp_io\<close>.\<close>

definition io_check_request :: "dev_hook \<Rightarrow> bool \<Rightarrow> u64 \<Rightarrow> u32 \<Rightarrow> ntstatus option" where
  "io_check_request hook is_read offset len =
     (if \<not> is_read \<and> dh_flags hook AND F_NO_REDIRECT = 0 \<and> is_intersect offset (ucast len) (dh_stor_off hook) (ucast (dh_stor_len hook))
      then Some STATUS_ACCESS_DENIED
      else if len = 0 \<or> len AND (of_nat SECTOR_SIZE - 1) \<noteq> 0 \<or> offset + ucast len > dh_use_size hook then Some STATUS_INVALID_PARAMETER
      else None)"

text \<open>What the entry point hands over: whether the request counts as pending, and its snapshots.\<close>

record io_snapshot =
  sn_trans_io :: bool
  sn_boundary :: u64
  sn_dsk_key :: "xts_key option"
  sn_tmp_key :: "xts_key option"

definition io_context_init :: "dev_hook \<Rightarrow> io_snapshot \<Rightarrow> u64 \<Rightarrow> u64 \<Rightarrow> u32 \<Rightarrow> bytes \<Rightarrow> io_context" where
  "io_context_init hook sn expect_off offset len buff =
     \<lparr>io_buff = buff, io_new_buff = [], io_length = len,
      io_offset = (if dh_flags hook AND F_NO_REDIRECT \<noteq> 0 then offset + ucast (dh_head_len hook) else offset),
      io_completed = 0, io_encrypted = 0, io_trans_boundary = sn_boundary sn, io_trans_io = sn_trans_io sn,
      io_snapshot_dsk_key = sn_dsk_key sn, io_snapshot_tmp_key = sn_tmp_key sn, io_chunk_diskof = 0, io_chunk_length = 0,
      io_chunk_offset = 0, io_chunk_key = None, io_expected = (expect_off = offset), io_discontinuous = False,
      io_write_pending = False, io_write_offset = 0, io_write_length = 0, io_status = STATUS_SUCCESS\<rparr>"

text \<open>
  \<^verbatim>\<open>io_encrypted_irp_io\<close> up to the first chunk: the context, an IRP and the mapping of the buffer are allocated, for a
  write also the buffer for the encrypted bytes.  \<open>expect_off\<close> is what \<^verbatim>\<open>hook->expect_off\<close> held.
\<close>

definition io_prepare ::
  "'w io_mgr \<Rightarrow> dev_hook \<Rightarrow> io_snapshot \<Rightarrow> u64 \<Rightarrow> bool \<Rightarrow> u64 \<Rightarrow> u32 \<Rightarrow> bytes \<Rightarrow> 'w \<Rightarrow> (ntstatus + io_context) \<times> 'w" where
  "io_prepare M hook sn expect_off is_read offset len buff w =
     (case im_alloc M w of
        (False, w) \<Rightarrow> (Inl STATUS_INSUFFICIENT_RESOURCES, w)
      | (True, w) \<Rightarrow>
          (case io_check_request hook is_read offset len of
             Some status \<Rightarrow> (Inl status, w)
           | None \<Rightarrow>
               (case im_alloc M w of
                  (False, w) \<Rightarrow> (Inl STATUS_INSUFFICIENT_RESOURCES, w)
                | (True, w) \<Rightarrow>
                    if is_read then (Inr (io_context_init hook sn expect_off offset len buff), w)
                    else (case im_alloc M w of
                            (False, w) \<Rightarrow> (Inl STATUS_INSUFFICIENT_RESOURCES, w)
                          | (True, w) \<Rightarrow> (Inr (io_context_init hook sn expect_off offset len buff\<lparr>io_new_buff := replicate (unat len) 0\<rparr>), w)))))"

text \<open>The status the original request gets.\<close>

definition final_status :: "ntstatus \<Rightarrow> ntstatus" where
  "final_status status = (if NT_SUCCESS status then STATUS_SUCCESS else status)"

definition io_encrypted_read ::
  "xts_selected \<Rightarrow> fc_pool \<Rightarrow> 'w io_mgr \<Rightarrow> u32 \<Rightarrow> ('w \<Rightarrow> u32) \<Rightarrow> dev_hook \<Rightarrow> io_snapshot \<Rightarrow> u64 \<Rightarrow> u64 \<Rightarrow> u32 \<Rightarrow> bytes \<Rightarrow> 'w \<Rightarrow>
   (ntstatus \<times> bytes \<times> 'w) option" where
  "io_encrypted_read S P M conf depth hook sn expect_off offset len buff w =
     (case io_prepare M hook sn expect_off True offset len buff w of
        (Inl status, w) \<Rightarrow> Some (status, buff, w)
      | (Inr ctx, w) \<Rightarrow> do { (ctx, w) \<leftarrow> io_async_read_chunk S P M conf depth hook ctx w; Some (final_status (io_status ctx), io_buff ctx, w) })"

section \<open>Where a sector lies and how it is encrypted\<close>

text \<open>The place on the disk of a sector of the device as the file system sees it, in sectors.\<close>

definition redirected :: "dev_hook \<Rightarrow> nat \<Rightarrow> nat" where
  "redirected hook s =
     (if dh_flags hook AND F_NO_REDIRECT = 0 \<and> 512 * s < unat (dh_head_len hook) then unat (dh_stor_off hook) div 512 + s
      else if dh_flags hook AND F_HEAD_BACKUP \<noteq> 0 \<and> dh_tail_len hook \<noteq> 0 \<and> unat (dh_dsk_size hook) - unat (dh_tail_len hook) \<le> 512 * s
      then unat (dh_tail_off hook) div 512 + (s - (unat (dh_dsk_size hook) - unat (dh_tail_len hook)) div 512)
      else s)"

text \<open>The key of a sector of the disk, seen with a boundary; no boundary is 0.\<close>

definition sector_key :: "dev_hook \<Rightarrow> u64 \<Rightarrow> xts_key option \<Rightarrow> xts_key option \<Rightarrow> nat \<Rightarrow> xts_key option" where
  "sector_key hook boundary dsk_key tmp_key p =
     (if boundary > 0 \<and> unat boundary \<le> 512 * p then if dh_flags hook AND F_REENCRYPT \<noteq> 0 then tmp_key else None else dsk_key)"

definition io_boundary :: "io_context \<Rightarrow> u64" where
  "io_boundary ctx = (if io_trans_io ctx then io_trans_boundary ctx else 0)"

text \<open>A layout the mount and encryption code sets up: everything whole sectors and on the disk.\<close>

definition io_layout :: "dev_hook \<Rightarrow> bool" where
  "io_layout hook \<longleftrightarrow> unat (dh_dsk_size hook) < 2 ^ 62 \<and> 512 dvd unat (dh_dsk_size hook) \<and> 512 dvd unat (dh_head_len hook) \<and>
     512 dvd unat (dh_tail_len hook) \<and> 512 dvd unat (dh_stor_off hook) \<and> 512 dvd unat (dh_tail_off hook) \<and>
     unat (dh_stor_off hook) + unat (dh_stor_len hook) \<le> unat (dh_dsk_size hook) \<and>
     (dh_flags hook AND F_NO_REDIRECT = 0 \<longrightarrow> unat (dh_head_len hook) \<le> unat (dh_stor_len hook)) \<and>
     unat (dh_tail_off hook) + unat (dh_tail_len hook) \<le> unat (dh_dsk_size hook) \<and>
     unat (dh_head_len hook) + unat (dh_tail_len hook) \<le> unat (dh_dsk_size hook) \<and>
     unat (dh_use_size hook) + (if dh_flags hook AND F_NO_REDIRECT = 0 then 0 else unat (dh_head_len hook)) \<le> unat (dh_dsk_size hook)"

definition in_redirect :: "dev_hook \<Rightarrow> nat \<Rightarrow> bool" where
  "in_redirect hook s \<longleftrightarrow> dh_flags hook AND F_NO_REDIRECT = 0 \<and> 512 * s < unat (dh_head_len hook) \<or>
     dh_flags hook AND F_HEAD_BACKUP \<noteq> 0 \<and> dh_tail_len hook \<noteq> 0 \<and> unat (dh_dsk_size hook) - unat (dh_tail_len hook) \<le> 512 * s"

text \<open>The request reaches over the place where the redirected end of the volume begins.\<close>

definition straddles :: "dev_hook \<Rightarrow> nat \<Rightarrow> nat \<Rightarrow> bool" where
  "straddles hook off len \<longleftrightarrow> dh_flags hook AND F_HEAD_BACKUP \<noteq> 0 \<and> dh_tail_len hook \<noteq> 0 \<and>
     off < unat (dh_dsk_size hook) - unat (dh_tail_len hook) \<and> unat (dh_dsk_size hook) - unat (dh_tail_len hook) < off + len"

section \<open>Chunk lengths\<close>

lemma unat_and_mask: "unat ((x :: 'a::len word) AND mask n) = unat x mod 2 ^ n"
  unfolding take_bit_eq_mask [symmetric] unsigned_take_bit_eq by (simp only: take_bit_eq_mod)

lemma page_mod: "unat ((x :: u32) AND (SSD_PAGE_SIZE - 1)) = unat x mod 4096" "unat ((y :: u64) AND ucast (SSD_PAGE_SIZE - 1)) = unat y mod 4096"
  using unat_and_mask [of x 12] unat_and_mask [of y 12] by (simp_all add: SSD_PAGE_SIZE_def mask_eq_exp_minus_1)

lemma erase_mod: "unat ((y :: u64) AND ucast (SSD_ERASE_BLOCK_SIZE - 1)) = unat y mod 131072"
  using unat_and_mask [of y 17] by (simp add: SSD_ERASE_BLOCK_SIZE_def mask_eq_exp_minus_1)

text \<open>The lengths by which a chunk grows to an aligned end are whole sectors when the request is.\<close>

lemma align_part:
  fixes y :: u64 and c :: u64
  assumes "unat c = 512 * k" "unat part = unat y mod unat c" "part \<noteq> 0" "512 dvd unat y" "0 < k" "512 * k \<le> 2 ^ 20"
  shows "512 dvd unat (ucast (c - part) :: u32)" "unat (ucast (c - part) :: u32) < 512 * k"
proof -
  have pos: "0 < unat part" by (rule ccontr) (use assms(3) in \<open>simp add: unat_eq_zero\<close>)
  have "unat part < unat c" unfolding assms(2) by (rule mod_less_divisor) (use assms(1,5) in simp)
  then have "unat (c - part) = 512 * k - unat part" using assms(1) by (simp add: unat_sub word_le_nat_alt)
  moreover from this have "unat (ucast (c - part) :: u32) = unat (c - part)"
    using assms(6) by (simp add: unsigned_ucast_eq take_bit_nat_eq_self)
  moreover have "512 dvd unat part" using assms(1,2,4) by (simp add: dvd_mod)
  ultimately show "512 dvd unat (ucast (c - part) :: u32)" "unat (ucast (c - part) :: u32) < 512 * k"
    using pos assms(5) by (simp_all add: dvd_diff_nat)
qed

lemma unat_add_small: "unat (a :: u32) + unat b < 2 ^ 32 \<Longrightarrow> unat (a + b) = unat a + unat b"
  by (simp add: unat_word_ariths(1))

lemma unat_add_u64: "unat (a :: u64) + unat b < 2 ^ 64 \<Longrightarrow> unat (a + b) = unat a + unat b"
  by (simp add: unat_word_ariths(1))

lemma grown_length:
  fixes len :: u32 and off c part :: u64
  assumes "512 dvd unat len" "0 < unat len" "unat len \<le> 2 ^ 31" "512 dvd unat off" "unat off < 2 ^ 63"
    and c: "unat c = 512 * k" "0 < k" "512 * k \<le> 2 ^ 20" "unat part = unat (off + ucast len) mod unat c"
  shows "0 < unat (if b \<and> part \<noteq> 0 then len + ucast (c - part) else len) \<and> 512 dvd unat (if b \<and> part \<noteq> 0 then len + ucast (c - part) else len)"
proof (cases "b \<and> part \<noteq> 0")
  case True
  have "unat (off + ucast len) = unat off + unat len" using assms(3,5) by (simp add: unat_add_u64)
  then have "512 dvd unat (off + ucast len)" using assms(1,4) by simp
  then have g: "512 dvd unat (ucast (c - part) :: u32)" "unat (ucast (c - part) :: u32) < 512 * k"
    using align_part [of c k part "off + ucast len"] c True by simp_all
  then have "unat (len + ucast (c - part)) = unat len + unat (ucast (c - part) :: u32)" using assms(3) c(3) by (simp add: unat_add_small)
  then have "0 < unat (len + ucast (c - part)) \<and> 512 dvd unat (len + ucast (c - part))" using g(1) assms(1,2) by (simp only: dvd_add add_pos_nonneg le0 simp_thms)
  then show ?thesis using True by (simp only: if_True simp_thms)
next
  case False
  then show ?thesis using assms(1,2) by (simp only: if_False simp_thms)
qed

lemma write_chunk_length:
  assumes "512 dvd unat (io_offset ctx)" "unat (io_offset ctx) < 2 ^ 63"
  shows "0 < unat (io_write_chunk_length ctx) \<and> 512 dvd unat (io_write_chunk_length ctx)"
  unfolding io_write_chunk_length_def Let_def
  by (rule grown_length [where k = 256]) (use assms erase_mod in \<open>simp_all add: SSD_ERASE_BLOCK_SIZE_def\<close>)

lemma read_chunk_length:
  assumes "512 dvd unat (io_offset ctx)" "unat (io_offset ctx) < 2 ^ 63" and r: "io_length ctx - io_completed ctx = r" "0 < unat r" "512 dvd unat r"
  shows "0 < unat (io_read_chunk_length ctx) \<and> 512 dvd unat (io_read_chunk_length ctx)"
proof -
  define l1 where "l1 = min (r div 2) CHUNK_READ_CHUNK_SIZE"
  define l2 where "l2 = (if l1 AND (SSD_PAGE_SIZE - 1) \<noteq> 0 then l1 + (SSD_PAGE_SIZE - (l1 AND (SSD_PAGE_SIZE - 1))) else l1)"
  define l3 where "l3 = (if r - l2 < CHUNK_MIN_READ_SIZE then l2 + (r - l2) else l2)"
  have "unat (r div 2) = unat r div 2" by (simp add: unat_div)
  then have l1: "unat l1 = min (unat r div 2) 524288" by (simp add: l1_def min_def word_le_nat_alt CHUNK_READ_CHUNK_SIZE_def)
  obtain k where k: "unat r = 512 * k" "0 < k" using r by (auto elim!: dvdE)
  have l2: "512 dvd unat l2 \<and> 0 < unat l2 \<and> unat l2 \<le> 524288"
  proof (cases "l1 AND (SSD_PAGE_SIZE - 1) = 0")
    case True
    then have "unat l1 mod 4096 = 0" using page_mod(1) [of l1] by simp
    then obtain q where "unat l1 = 4096 * q" by (auto elim!: dvdE)
    moreover have "0 < unat l1" "unat l1 \<le> 524288" using l1 k by simp_all
    ultimately show ?thesis using True by (simp add: l2_def)
  next
    case False
    then have "unat l1 mod 4096 \<noteq> 0" using page_mod(1) [of l1] unat_eq_zero [of "l1 AND (SSD_PAGE_SIZE - 1)"] by simp
    then have "unat l1 = 4096 * (unat l1 div 4096) + unat l1 mod 4096" "0 < unat l1 mod 4096" "unat l1 mod 4096 < 4096" by simp_all
    then obtain q m where q: "unat l1 = 4096 * q + m" "0 < m" "m < 4096" "unat l1 mod 4096 = m" by blast
    have "unat l1 \<le> 524288" using l1 by simp
    then have q128: "q < 128" using q by simp
    have "unat (SSD_PAGE_SIZE - (l1 AND (SSD_PAGE_SIZE - 1))) = 4096 - m"
      using q(3,4) page_mod(1) [of l1] by (subst unat_sub) (simp_all add: word_le_nat_alt SSD_PAGE_SIZE_def)
    then have "unat l2 = 4096 * q + 4096" using False q q128 by (simp add: l2_def unat_add_small)
    then show ?thesis using q128 by simp
  qed
  have l3: "512 dvd unat l3 \<and> 0 < unat l3 \<and> unat l3 \<le> 2 ^ 31"
  proof (cases "r - l2 < CHUNK_MIN_READ_SIZE")
    case True
    then have small: "unat (r - l2) < 65536" by (simp add: word_less_nat_alt CHUNK_MIN_READ_SIZE_def)
    then have "unat l2 + unat (r - l2) < 2 ^ 32" using l2 by simp
    then have "unat (l2 + (r - l2)) = unat l2 + unat (r - l2)" by (rule unat_add_small)
    moreover have "l2 + (r - l2) = r" by simp
    ultimately have "unat r \<le> 2 ^ 31" using small l2 by simp
    then show ?thesis using True r by (simp add: l3_def)
  next
    case False
    then show ?thesis using l2 by (simp add: l3_def)
  qed
  have "io_read_chunk_length ctx = (if io_chunk_offset ctx = 0 \<and> (io_offset ctx + ucast l3) AND ucast (SSD_PAGE_SIZE - 1) \<noteq> 0
      then l3 + ucast (ucast SSD_PAGE_SIZE - ((io_offset ctx + ucast l3) AND ucast (SSD_PAGE_SIZE - 1))) else l3)"
    unfolding io_read_chunk_length_def Let_def r(1) l1_def [symmetric] l2_def [symmetric] l3_def [symmetric] ..
  also have "0 < unat \<dots> \<and> 512 dvd unat \<dots>"
    by (rule grown_length [where k = 8]) (use assms(1,2) l3 page_mod(2) in \<open>simp_all add: SSD_PAGE_SIZE_def\<close>)
  finally show ?thesis .
qed

section \<open>Chunks\<close>

text \<open>A request on the disk, and the part of it that is not done: from sector \<open>s\<close> of the device on.\<close>

definition request_ok :: "dev_hook \<Rightarrow> io_context \<Rightarrow> bool" where
  "request_ok hook ctx \<longleftrightarrow> 512 dvd unat (io_offset ctx) \<and> 512 dvd unat (io_length ctx) \<and>
     unat (io_offset ctx) + unat (io_length ctx) \<le> unat (dh_dsk_size hook) \<and> 512 dvd unat (io_boundary ctx) \<and>
     \<not> straddles hook (unat (io_offset ctx)) (unat (io_length ctx))"

abbreviation chunk_set :: "u64 \<Rightarrow> u32 \<Rightarrow> u32 \<Rightarrow> xts_key option \<Rightarrow> bool \<Rightarrow> io_context \<Rightarrow> io_context" where
  "chunk_set d l fin key disc ctx \<equiv> ctx\<lparr>io_chunk_diskof := d, io_chunk_length := l, io_chunk_offset := fin, io_chunk_key := key, io_discontinuous := disc\<rparr>"

lemma place_chunk_spec:
  assumes lay: "io_layout hook" and req: "request_ok hook ctx"
    and d: "io_chunk_diskof ctx = io_offset ctx + ucast fin" and fin: "unat fin < unat (io_length ctx)" "512 dvd unat fin"
    and rd: "is_read \<Longrightarrow> fin = io_completed ctx" and nodisc: "\<not> io_discontinuous ctx"
    and s: "s = (unat (io_offset ctx) + unat fin) div 512"
  shows "\<exists>p l. place_chunk conf depth hook is_read ctx = ctx\<lparr>io_chunk_diskof := p, io_chunk_length := l, io_discontinuous := in_redirect hook s\<rparr> \<and>
    unat p = 512 * redirected hook s \<and> 0 < unat l \<and> 512 dvd unat l \<and>
    (\<forall>i. 512 * i < unat l \<longrightarrow> 512 * i < unat (io_length ctx) - unat fin \<longrightarrow> redirected hook (s + i) = redirected hook s + i)"
proof -
  let ?x = "io_chunk_diskof ctx" and ?D = "dh_dsk_size hook - ucast (dh_tail_len hook)"
  have ux: "unat ?x = unat (io_offset ctx) + unat fin"
    using lay req fin(1) unfolding d by (intro trans [OF unat_add_u64]) (auto simp: io_layout_def request_ok_def)
  have xs: "unat ?x = 512 * s" using ux s req fin(2) by (auto simp: request_ok_def elim!: dvdE)
  have dsk: "unat (dh_dsk_size hook) < 2 ^ 62" and uD: "unat ?D = unat (dh_dsk_size hook) - unat (dh_tail_len hook)"
    and dD: "512 dvd unat (dh_dsk_size hook) - unat (dh_tail_len hook)"
    using lay by (auto simp: io_layout_def unat_sub word_le_nat_alt intro!: dvd_diff_nat)
  obtain a b c e where n: "unat (dh_head_len hook) = 512 * a" "unat (dh_tail_len hook) = 512 * b" "unat (dh_stor_off hook) = 512 * c" "unat (dh_tail_off hook) = 512 * e"
    using lay by (auto simp: io_layout_def elim!: dvdE)
  obtain q where q: "unat (dh_dsk_size hook) - unat (dh_tail_len hook) = 512 * q" using dD by auto
  have low: "unat (ucast w :: u32) = unat w" if "unat w < 2 ^ 32" for w :: u64
    using that by (simp add: unsigned_ucast_eq take_bit_nat_eq_self)
  let ?h = "dh_flags hook AND F_NO_REDIRECT = 0 \<and> ?x < ucast (dh_head_len hook)"
  let ?t = "dh_flags hook AND F_HEAD_BACKUP \<noteq> 0 \<and> dh_tail_len hook \<noteq> 0 \<and> ?D \<le> ?x"
  have h: "?h \<longleftrightarrow> dh_flags hook AND F_NO_REDIRECT = 0 \<and> s < a" by (simp add: word_less_nat_alt xs n)
  have t: "?t \<longleftrightarrow> dh_flags hook AND F_HEAD_BACKUP \<noteq> 0 \<and> dh_tail_len hook \<noteq> 0 \<and> q \<le> s"
    unfolding word_le_nat_alt uD xs q by simp
  have red: "redirected hook r = (if dh_flags hook AND F_NO_REDIRECT = 0 \<and> r < a then c + r
      else if dh_flags hook AND F_HEAD_BACKUP \<noteq> 0 \<and> dh_tail_len hook \<noteq> 0 \<and> q \<le> r then e + (r - q) else r)" for r
    unfolding redirected_def q by (simp add: n)
  have inr: "in_redirect hook s \<longleftrightarrow> ?h \<or> ?t" unfolding in_redirect_def h t q by (simp add: n)
  consider (head) ?h | (tail) "\<not> ?h" ?t | (mid) "\<not> ?h" "\<not> ?t" by blast
  then show ?thesis
  proof cases
    case head
    have sa: "s < a" using head h by simp
    have "unat (ucast ?x :: u32) = 512 * s" using sa n(1) xs unsigned_less [of "dh_head_len hook", where ?'a = nat] by (subst low) simp_all
    then have l: "unat (dh_head_len hook - ucast ?x) = 512 * a - 512 * s" using sa n(1) by (simp add: unat_sub word_le_nat_alt)
    have p: "unat (?x + dh_stor_off hook) = 512 * (c + s)"
      using lay head h sa n xs dsk by (subst unat_add_u64) (auto simp: io_layout_def)
    show ?thesis
      using head sa l p inr h
      by (intro exI [of _ "?x + dh_stor_off hook"] exI [of _ "dh_head_len hook - ucast ?x"]) (auto simp: place_chunk_def red simp flip: right_diff_distrib')
  next
    case tail
    have sq: "q \<le> s" and on: "dh_flags hook AND F_HEAD_BACKUP \<noteq> 0" "dh_tail_len hook \<noteq> 0" using tail t by auto
    have "512 * s < unat (dh_dsk_size hook)" using req fin(1) xs ux by (simp add: request_ok_def)
    then have sb: "s < q + b" using q n(2) by linarith
    have z: "unat (?x - ?D) = 512 * (s - q)" using xs uD q sq by (simp add: unat_sub word_le_nat_alt right_diff_distrib')
    have "unat (ucast (?x - ?D) :: u32) = 512 * (s - q)"
      using z sb n(2) unsigned_less [of "dh_tail_len hook", where ?'a = nat] by (subst low) simp_all
    then have l: "unat (dh_tail_len hook - ucast (?x - ?D)) = 512 * b - 512 * (s - q)" using sb n(2) by (simp add: unat_sub word_le_nat_alt)
    have p: "unat (dh_tail_off hook + (?x - ?D)) = 512 * (e + (s - q))"
      using lay z sb n dsk by (subst unat_add_u64) (auto simp: io_layout_def)
    have nh: "\<not> (dh_flags hook AND F_NO_REDIRECT = 0 \<and> s < a)" using tail h by simp
    show ?thesis
      using tail sq sb l p inr nh on
      by (intro exI [of _ "dh_tail_off hook + (?x - ?D)"] exI [of _ "dh_tail_len hook - ucast (?x - ?D)"])
        (auto simp: place_chunk_def Let_def red simp flip: right_diff_distrib')
  next
    case mid
    let ?l = "if conf AND CONF_ENABLE_SSD_OPT \<noteq> 0 \<and> dh_flags hook AND F_SSD \<noteq> 0 \<and> depth = 1 \<and> io_expected ctx \<and> IS_CHUNKING_NEEDED (io_length ctx) is_read
        then if is_read then io_read_chunk_length ctx else io_write_chunk_length ctx else io_length ctx"
    have off: "512 dvd unat (io_offset ctx)" "unat (io_offset ctx) < 2 ^ 63" "512 dvd unat (io_length ctx)"
      using req dsk by (auto simp: request_ok_def)
    have rem: "unat (io_length ctx - fin) = unat (io_length ctx) - unat fin" using fin(1) by (simp add: unat_sub word_le_nat_alt)
    have "512 dvd unat (io_length ctx - fin)" "0 < unat (io_length ctx - fin)" unfolding rem using fin off(3) by (auto intro: dvd_diff_nat)
    then have l: "0 < unat ?l" "512 dvd unat ?l"
      using read_chunk_length [OF off(1,2), of "io_length ctx - fin"] write_chunk_length [OF off(1,2)] rd fin(1) off(3) by auto
    have "redirected hook (s + i) = s + i" if i: "512 * i < unat (io_length ctx) - unat fin" for i
      using mid i req xs ux q by (auto simp: red h t request_ok_def straddles_def)
    moreover from this [of 0] have "redirected hook s = s" using fin(1) by simp
    moreover have "place_chunk conf depth hook is_read ctx = ctx\<lparr>io_chunk_diskof := ?x, io_chunk_length := ?l, io_discontinuous := in_redirect hook s\<rparr>"
      using mid inr nodisc by (auto simp: place_chunk_def)
    ultimately show ?thesis using l xs by (intro exI [of _ ?x] exI [of _ ?l]) simp
  qed
qed

text \<open>The boundary cuts a chunk so that all of it has one key.\<close>

lemma bound_chunk_spec:
  assumes p: "unat (io_chunk_diskof ctx) = 512 * r" "unat (io_chunk_diskof ctx) < 2 ^ 63" and key: "io_chunk_key ctx = io_snapshot_dsk_key ctx"
    and l: "0 < unat (io_chunk_length ctx)" "512 dvd unat (io_chunk_length ctx)" and b: "512 dvd unat (io_boundary ctx)"
  shows "\<exists>l key. bound_chunk hook ctx = ctx\<lparr>io_chunk_length := l, io_chunk_key := key\<rparr> \<and> 0 < unat l \<and> unat l \<le> unat (io_chunk_length ctx) \<and> 512 dvd unat l \<and>
    (\<forall>i. 512 * i < unat l \<longrightarrow> sector_key hook (io_boundary ctx) (io_snapshot_dsk_key ctx) (io_snapshot_tmp_key ctx) (r + i) = key)"
proof (cases "io_boundary ctx > 0")
  case False
  then have "\<not> (io_trans_io ctx \<and> io_trans_boundary ctx > 0)" by (cases "io_trans_io ctx") (simp_all add: io_boundary_def)
  then have "bound_chunk hook ctx = ctx" by (simp only: bound_chunk_def if_False)
  then show ?thesis using False key l by (intro exI [of _ "io_chunk_length ctx"] exI [of _ "io_chunk_key ctx"]) (simp add: sector_key_def)
next
  case True
  let ?B = "io_trans_boundary ctx" and ?x = "io_chunk_diskof ctx" and ?l = "io_chunk_length ctx"
  have B: "io_trans_io ctx" "io_boundary ctx = ?B" "?B > 0" using True by (auto simp: io_boundary_def split: if_splits)
  have ub: "512 dvd unat ?B" using b B by simp
  have ux: "unat (?x + ucast ?l) = unat ?x + unat ?l"
    using p(2) unsigned_less [of ?l, where ?'a = nat] by (subst unat_add_u64) simp_all
  consider (above) "?B \<le> ?x" | (cut) "?x < ?B" "?B < ?x + ucast ?l" | (below) "?x < ?B" "?x + ucast ?l \<le> ?B" by fastforce
  then show ?thesis
  proof cases
    case above
    then have "unat ?B \<le> 512 * (r + i)" for i using p(1) by (simp add: word_le_nat_alt)
    then show ?thesis using above B l
      by (intro exI [of _ ?l] exI [of _ "if dh_flags hook AND F_REENCRYPT \<noteq> 0 then io_snapshot_tmp_key ctx else None"]) (simp add: bound_chunk_def sector_key_def)
  next
    case cut
    then have less: "unat ?x < unat ?B" "unat ?B < unat ?x + unat ?l" using ux by (simp_all add: word_less_nat_alt)
    then have d: "unat (?B - ?x) = unat ?B - unat ?x" by (simp add: unat_sub word_le_nat_alt)
    then have u: "unat (ucast (?B - ?x) :: u32) = unat ?B - unat ?x"
      using less unsigned_less [of ?l, where ?'a = nat] by (simp add: unsigned_ucast_eq take_bit_nat_eq_self)
    have "512 dvd unat ?B - unat ?x" using ub p(1) by (auto intro: dvd_diff_nat)
    moreover have "bound_chunk hook ctx = ctx\<lparr>io_chunk_length := ucast (?B - ?x), io_chunk_key := io_chunk_key ctx\<rparr>"
      using cut B by (simp add: bound_chunk_def not_le)
    ultimately show ?thesis using less B p(1) key u
      by (intro exI [of _ "ucast (?B - ?x)"] exI [of _ "io_chunk_key ctx"]) (auto simp: sector_key_def)
  next
    case below
    then have "unat ?x + unat ?l \<le> unat ?B" using ux by (simp add: word_le_nat_alt)
    then have "\<not> unat ?B \<le> 512 * (r + i)" if "512 * i < unat ?l" for i using that p(1) by simp
    moreover have "bound_chunk hook ctx = ctx\<lparr>io_chunk_length := ?l, io_chunk_key := io_chunk_key ctx\<rparr>"
      using below B by (simp add: bound_chunk_def not_le not_less)
    ultimately show ?thesis using B l key by (intro exI [of _ ?l] exI [of _ "io_chunk_key ctx"]) (auto simp: sector_key_def)
  qed
qed

lemma redirected_on_disk:
  assumes "io_layout hook" "512 * s < unat (dh_dsk_size hook)"
  shows "512 * redirected hook s < unat (dh_dsk_size hook)"
proof -
  have "512 dvd unat (dh_stor_off hook)" "512 dvd unat (dh_tail_off hook)" "512 dvd unat (dh_dsk_size hook) - unat (dh_tail_len hook)"
    using assms(1) by (auto simp: io_layout_def intro!: dvd_diff_nat)
  then obtain c e q where n: "unat (dh_stor_off hook) = 512 * c" "unat (dh_tail_off hook) = 512 * e" "unat (dh_dsk_size hook) - unat (dh_tail_len hook) = 512 * q"
    by (metis dvdE)
  have "512 * (e + (s - q)) < unat (dh_dsk_size hook)" if "q \<le> s"
    using assms that n by (auto simp: io_layout_def right_diff_distrib')
  then show ?thesis using assms unfolding redirected_def n by (auto simp: io_layout_def n)
qed

lemma make_chunk_spec:
  assumes lay: "io_layout hook" and req: "request_ok hook ctx"
    and fin: "fin = (if is_read then io_completed ctx else io_encrypted ctx)" "unat fin < unat (io_length ctx)" "512 dvd unat fin"
    and s: "s = (unat (io_offset ctx) + unat fin) div 512"
  obtains p l key where "io_async_make_chunk conf depth hook is_read ctx = chunk_set p l fin key (in_redirect hook s) ctx"
    "unat p = 512 * redirected hook s" "0 < unat l" "unat l \<le> unat (io_length ctx) - unat fin" "512 dvd unat l"
    "\<And>i. 512 * i < unat l \<Longrightarrow> redirected hook (s + i) = redirected hook s + i \<and>
       sector_key hook (io_boundary ctx) (io_snapshot_dsk_key ctx) (io_snapshot_tmp_key ctx) (redirected hook s + i) = key"
proof -
  let ?c = "ctx\<lparr>io_chunk_diskof := io_offset ctx + ucast fin, io_chunk_offset := fin, io_chunk_key := io_snapshot_dsk_key ctx, io_discontinuous := False\<rparr>"
  have "request_ok hook ?c" using req by (auto simp: request_ok_def io_boundary_def)
  then obtain p l where pl: "place_chunk conf depth hook is_read ?c = ?c\<lparr>io_chunk_diskof := p, io_chunk_length := l, io_discontinuous := in_redirect hook s\<rparr>"
      "unat p = 512 * redirected hook s" "0 < unat l" "512 dvd unat l"
      "\<And>i. 512 * i < unat l \<Longrightarrow> 512 * i < unat (io_length ctx) - unat fin \<Longrightarrow> redirected hook (s + i) = redirected hook s + i"
    using place_chunk_spec [OF lay, of ?c fin is_read s conf depth] fin s by auto
  let ?d = "?c\<lparr>io_chunk_diskof := p, io_chunk_length := l, io_discontinuous := in_redirect hook s\<rparr>"
  have "512 * s < unat (dh_dsk_size hook)" using req fin(2) s by (auto simp: request_ok_def)
  then have small: "unat p < 2 ^ 63" using redirected_on_disk [OF lay, of s] lay pl(2) by (simp add: io_layout_def)
  have bd: "io_boundary ?d = io_boundary ctx" "512 dvd unat (io_boundary ?d)" using req by (auto simp: request_ok_def io_boundary_def)
  obtain l2 key where b: "bound_chunk hook ?d = ?d\<lparr>io_chunk_length := l2, io_chunk_key := key\<rparr>" "0 < unat l2" "unat l2 \<le> unat l" "512 dvd unat l2"
      "\<And>i. 512 * i < unat l2 \<Longrightarrow> sector_key hook (io_boundary ctx) (io_snapshot_dsk_key ctx) (io_snapshot_tmp_key ctx) (redirected hook s + i) = key"
    using bound_chunk_spec [of ?d "redirected hook s" hook] pl(2-4) small bd by auto
  have rem: "unat (io_length ctx - fin) = unat (io_length ctx) - unat fin" "512 dvd unat (io_length ctx) - unat fin"
    using fin req by (auto simp: unat_sub word_le_nat_alt request_ok_def intro!: dvd_diff_nat)
  define l3 where "l3 = (if io_length ctx - fin < l2 then io_length ctx - fin else l2)"
  have l3: "0 < unat l3" "unat l3 \<le> unat (io_length ctx) - unat fin" "unat l3 \<le> unat l2" "512 dvd unat l3"
    using b(2,4) fin(2) rem by (auto simp: l3_def word_less_nat_alt)
  show thesis
  proof (rule that [where p = p and l = l3 and key = key])
    show "io_async_make_chunk conf depth hook is_read ctx = chunk_set p l3 fin key (in_redirect hook s) ctx"
      unfolding io_async_make_chunk_def Let_def fin(1) [symmetric] pl(1) b(1) by (simp add: l3_def)
  qed (use l3 pl(2,5) b(3,5) in auto)
qed

end
