(* ===== verification/ReadPath.thy ===== *)
theory ReadPath
  imports ReadWrite
begin

text \<open>
  The read requests of a mounted volume: \<^verbatim>\<open>io_async_read_chunk\<close> and its completion routine fill the caller's buffer with
  the plaintext of the redirected sectors, each under the key the request's snapshot gives it.
\<close>

unbundle bit_operations_syntax

section \<open>Reading\<close>

text \<open>One sector under a key: its number is counted from the start of the volume data.\<close>

definition xts_number :: "dev_hook \<Rightarrow> nat \<Rightarrow> nat" where
  "xts_number hook p = (if dh_flags hook AND F_NO_REDIRECT \<noteq> 0 then p - unat (dh_head_len hook) div 512 else p)"

definition sector_crypt :: "xts_selected \<Rightarrow> bool \<Rightarrow> xts_key \<Rightarrow> nat \<Rightarrow> bytes \<Rightarrow> bytes" where
  "sector_crypt S enc k n b = the (xts_crypt S enc k b 512 (of_nat (512 * n)))"

definition crypt_sector :: "xts_selected \<Rightarrow> dev_hook \<Rightarrow> bool \<Rightarrow> xts_key option \<Rightarrow> nat \<Rightarrow> bytes \<Rightarrow> bytes" where
  "crypt_sector S hook enc key p b = (case key of None \<Rightarrow> b | Some k \<Rightarrow> sector_crypt S enc k (xts_number hook p) b)"

text \<open>The plaintext of sector \<open>p\<close> of a disk, as a snapshot sees it.\<close>

definition plain_sector :: "xts_selected \<Rightarrow> dev_hook \<Rightarrow> io_snapshot \<Rightarrow> nat \<Rightarrow> bytes \<Rightarrow> bytes" where
  "plain_sector S hook sn p disk =
     crypt_sector S hook False (sector_key hook (if sn_trans_io sn then sn_boundary sn else 0) (sn_dsk_key sn) (sn_tmp_key sn) p) p (sec p disk)"

text \<open>A key that \<^verbatim>\<open>xts_set_key\<close> gave, in both directions a map of sectors.\<close>

definition good_key :: "xts_selected \<Rightarrow> xts_key \<Rightarrow> bool" where
  "good_key S k \<longleftrightarrow> (\<exists>es ds. sector_cipher (xts_encrypt S k) (xts_decrypt S k) es ds)"

lemma xts_set_key_good: "aes_core_ok A \<Longrightarrow> xts_set_key key alg skey = (1, skey') \<Longrightarrow> good_key (scalar_selection A) skey'"
  unfolding good_key_def by (metis xts_set_key_sectors)

lemma good_key_sectorwise: "good_key S k \<Longrightarrow> \<exists>g. sectorwise (xts_crypt S enc k) g"
  by (cases enc) (auto simp: good_key_def sector_cipher_def xts_crypt_def)

lemma sector_crypt_eq:
  assumes "sectorwise (xts_crypt S enc k) g" "length b = 512" "n < 2 ^ 55"
  shows "sector_crypt S enc k n b = g (of_nat n) b"
proof -
  have "xts_len_ok b 512" using assms(2) by (simp add: xts_len_ok_def)
  then have "xts_crypt S enc k b 512 (of_nat (512 * n)) = Some (sectors g (of_nat (512 * n) div 512) b 1)"
    using assms(1) by (simp add: sectorwise_def)
  moreover have "(of_nat (512 * n) :: u64) div 512 = of_nat n" using sector_number [of 0 n] assms(3) by simp
  ultimately show ?thesis using assms(2) by (simp add: sector_crypt_def sectors_def sec_def)
qed

lemma good_key_length: "good_key S k \<Longrightarrow> length b = 512 \<Longrightarrow> n < 2 ^ 55 \<Longrightarrow> length (sector_crypt S enc k n b) = 512"
proof -
  assume k: "good_key S k" and b: "length b = 512" "n < 2 ^ 55"
  obtain g where g: "sectorwise (xts_crypt S enc k) g" using good_key_sectorwise [OF k] by blast
  then show "length (sector_crypt S enc k n b) = 512" unfolding sector_crypt_eq [OF g b] using b(1) by (simp add: sectorwise_def)
qed

lemma good_key_inverse: "good_key S k \<Longrightarrow> length b = 512 \<Longrightarrow> n < 2 ^ 55 \<Longrightarrow> sector_crypt S False k n (sector_crypt S True k n b) = b"
proof -
  assume k: "good_key S k" and b: "length b = 512" and n: "n < 2 ^ 55"
  then obtain es ds where "sector_cipher (xts_encrypt S k) (xts_decrypt S k) es ds" by (auto simp: good_key_def)
  then have c: "sectorwise (xts_crypt S True k) es" "sectorwise (xts_crypt S False k) ds" "ds (of_nat n) (es (of_nat n) b) = b" "length (es (of_nat n) b) = 512"
    using b by (auto simp: sector_cipher_def xts_crypt_def sectorwise_def)
  show "sector_crypt S False k n (sector_crypt S True k n b) = b"
    unfolding sector_crypt_eq [OF c(1) b n] sector_crypt_eq [OF c(2) c(4) n] by (rule c(3))
qed

definition pool_ok :: "fc_pool \<Rightarrow> bool" where
  "pool_ok P \<longleftrightarrow> 0 < unat (fc_cpus P) \<and> unat (fc_cpus P) \<le> MAX_CPU_COUNT (fc_x64 P)"

text \<open>The XTS offset of a chunk at sector \<open>r\<close> of the disk.\<close>

definition xts_offset :: "dev_hook \<Rightarrow> u64 \<Rightarrow> u64" where
  "xts_offset hook offset = (if dh_flags hook AND F_NO_REDIRECT \<noteq> 0 then offset - ucast (dh_head_len hook) else offset)"

lemma xts_offset_number:
  assumes "unat p = 512 * r" "dh_flags hook AND F_NO_REDIRECT \<noteq> 0 \<Longrightarrow> unat (dh_head_len hook) \<le> 512 * r" "512 dvd unat (dh_head_len hook)"
  shows "unat (xts_offset hook p) = 512 * xts_number hook r" "i < n \<Longrightarrow> xts_number hook (r + i) = xts_number hook r + i"
proof -
  obtain a where a: "unat (dh_head_len hook) = 512 * a" using assms(3) by auto
  have "unat (p - ucast (dh_head_len hook)) = 512 * (r - a)" if "dh_flags hook AND F_NO_REDIRECT \<noteq> 0"
    using assms(1,2) that a by (simp add: unat_sub word_le_nat_alt right_diff_distrib')
  then show "unat (xts_offset hook p) = 512 * xts_number hook r" using assms(1) a by (simp add: xts_offset_def xts_number_def)
  show "i < n \<Longrightarrow> xts_number hook (r + i) = xts_number hook r + i" using assms(2) a by (auto simp: xts_number_def)
qed

text \<open>A chunk of a buffer, encrypted or decrypted by the pool from one buffer to the other or in place.\<close>

lemma pool_crypt_chunk:
  assumes k: "good_key S k" and P: "pool_ok P" and hl: "512 dvd unat (dh_head_len hook)"
    and p: "unat p = 512 * r" "dh_flags hook AND F_NO_REDIRECT \<noteq> 0 \<Longrightarrow> unat (dh_head_len hook) \<le> 512 * r"
    and l: "0 < unat l" "512 dvd unat l" "unat l + 2048 \<le> 2 ^ 32" "512 * r + unat l \<le> 2 ^ 62"
    and src: "src = (case inp of None \<Rightarrow> out | Some b \<Rightarrow> b)" "unat l \<le> length src" "unat l \<le> length out"
  shows "\<exists>y. pool_crypt S P enc k inp out l (xts_offset hook p) = Some (overlay 0 y out) \<and> length y = unat l \<and>
    (\<forall>i < unat l div 512. sec i y = crypt_sector S hook enc (Some k) (r + i) (sec i src))"
proof -
  obtain g where g: "sectorwise (xts_crypt S enc k) g" using good_key_sectorwise [OF k] by blast
  note n = xts_offset_number [OF p hl]
  let ?n = "xts_number hook r"
  have le: "?n \<le> r" by (simp add: xts_number_def)
  have "unat (xts_offset hook p) + unat l < 2 ^ 64" using n(1) le l(4) by simp
  from fast_crypt_sectors [OF g src(1) l(1,2) src(2,3) P [unfolded pool_ok_def, THEN conjunct1] P [unfolded pool_ok_def, THEN conjunct2] l(3) this, of "fc_mem P"]
  obtain y where y: "pool_crypt S P enc k inp out l (xts_offset hook p) = Some (overlay 0 y out)" "length y = unat l"
      "\<forall>i < unat l div 512. sec i y = g (xts_offset hook p div 512 + of_nat i) (sec i src)" by (auto simp: pool_crypt_def)
  have "sec i y = crypt_sector S hook enc (Some k) (r + i) (sec i src)" if i: "i < unat l div 512" for i
  proof -
    have "xts_offset hook p div 512 = of_nat ?n" using n(1) by (simp add: word_arith_nat_div)
    moreover have "xts_number hook (r + i) = ?n + i" using n(2) [of i "Suc i"] by simp
    moreover have "?n + i < 2 ^ 55" using le i l(4) by auto
    moreover have "length (sec i src) = 512" using i src(2) by (intro length_sec) auto
    ultimately show ?thesis using y(3) i by (simp add: crypt_sector_def sector_crypt_eq [OF g])
  qed
  then show ?thesis using y by blast
qed

text \<open>What a finished read has put into the buffer: the plaintext of every sector from \<open>io_completed\<close> on, and nothing else.\<close>

definition read_done :: "xts_selected \<Rightarrow> dev_hook \<Rightarrow> bytes \<Rightarrow> io_context \<Rightarrow> bytes \<Rightarrow> bool" where
  "read_done S hook d ctx buf \<longleftrightarrow> length buf = length (io_buff ctx) \<and>
     (\<forall>i. 512 * Suc i \<le> length (io_buff ctx) \<longrightarrow> sec i buf =
        (if unat (io_completed ctx) div 512 \<le> i \<and> i < unat (io_length ctx) div 512
         then let p = redirected hook (unat (io_offset ctx) div 512 + i)
              in crypt_sector S hook False (sector_key hook (io_boundary ctx) (io_snapshot_dsk_key ctx) (io_snapshot_tmp_key ctx) p) p (sec p d)
         else sec i (io_buff ctx)))"

text \<open>A request that a read may be asked for.\<close>

definition read_request :: "xts_selected \<Rightarrow> dev_hook \<Rightarrow> bytes \<Rightarrow> io_context \<Rightarrow> bool" where
  "read_request S hook d ctx \<longleftrightarrow> request_ok hook ctx \<and> unat (io_length ctx) \<le> length (io_buff ctx) \<and> unat (io_length ctx) + 2048 \<le> 2 ^ 32 \<and>
     unat (dh_dsk_size hook) \<le> length d \<and>
     (\<forall>k. io_snapshot_dsk_key ctx = Some k \<longrightarrow> good_key S k) \<and> (\<forall>k. io_snapshot_tmp_key ctx = Some k \<longrightarrow> good_key S k) \<and>
     (dh_flags hook AND F_NO_REDIRECT \<noteq> 0 \<longrightarrow>
        (\<forall>i < unat (io_length ctx) div 512. unat (dh_head_len hook) \<le> 512 * redirected hook (unat (io_offset ctx) div 512 + i)))"

lemma sector_key_good:
  "(\<And>k. dk = Some k \<Longrightarrow> good_key S k) \<Longrightarrow> (\<And>k. tk = Some k \<Longrightarrow> good_key S k) \<Longrightarrow> sector_key hook b dk tk p = Some k \<Longrightarrow> good_key S k"
  by (auto simp: sector_key_def split: if_splits)

text \<open>The sectors of a chunk lie on the disk.\<close>

lemma chunk_on_disk:
  assumes "io_layout hook" "unat l = 512 * m" "0 < m" "redirected hook (s + (m - 1)) = redirected hook s + (m - 1)" "512 * (s + (m - 1)) < unat (dh_dsk_size hook)"
  shows "512 * redirected hook s + unat l \<le> unat (dh_dsk_size hook)"
proof -
  obtain n where n: "unat (dh_dsk_size hook) = 512 * n" using assms(1) by (auto simp: io_layout_def elim!: dvdE)
  have "512 * (redirected hook s + (m - 1)) < 512 * n" using redirected_on_disk [OF assms(1,5)] by (simp only: assms(4) n)
  then show ?thesis using assms(2,3) n by simp
qed

text \<open>Decryption of the chunk just read, after everything behind it has been.\<close>

lemma decrypt_chunk:
  assumes P: "pool_ok P" and hl: "512 dvd unat (dh_head_len hook)"
    and key: "\<And>k. key = Some k \<Longrightarrow> good_key S k"
    and p: "unat p = 512 * r" "dh_flags hook AND F_NO_REDIRECT \<noteq> 0 \<Longrightarrow> unat (dh_head_len hook) \<le> 512 * r"
    and l: "unat l = 512 * m" "0 < m" "unat l + 2048 \<le> 2 ^ 32" "512 * r + unat l \<le> 2 ^ 62"
    and buf: "512 * q + unat l \<le> length buf"
    and old: "\<And>i. i < m \<Longrightarrow> sec (q + i) buf = sec (r + i) d"
  shows "\<exists>buf'. (case key of None \<Rightarrow> Some buf
      | Some k \<Rightarrow> Option.bind (pool_crypt S P False k None (drop (512 * q) buf) l (xts_offset hook p)) (\<lambda>z. Some (take (512 * q) buf @ z))) = Some buf' \<and>
    length buf' = length buf \<and>
    (\<forall>i. 512 * Suc i \<le> length buf \<longrightarrow> sec i buf' =
      (if q \<le> i \<and> i < q + m then crypt_sector S hook False key (r + (i - q)) (sec (r + (i - q)) d) else sec i buf))"
proof (cases key)
  case None
  have "sec i buf = sec (r + (i - q)) d" if "q \<le> i \<and> i < q + m" for i
  proof -
    have "i - q < m" "q + (i - q) = i" using that by auto
    then show ?thesis using old [of "i - q"] by simp
  qed
  then show ?thesis using None by (simp add: crypt_sector_def)
next
  case (Some k)
  have "0 < unat l" "512 dvd unat l" "unat l \<le> length (drop (512 * q) buf)" using l buf by simp_all
  from pool_crypt_chunk [OF key [OF Some] P hl p this(1,2) l(3,4) _ this(3) this(3), of None False]
  obtain y where y: "pool_crypt S P False k None (drop (512 * q) buf) l (xts_offset hook p) = Some (overlay 0 y (drop (512 * q) buf))"
    "length y = 512 * m" "\<And>i. i < m \<Longrightarrow> sec i y = crypt_sector S hook False key (r + i) (sec i (drop (512 * q) buf))"
    using l(1) Some by auto
  have "sec i (overlay (512 * q) y buf) = (if q \<le> i \<and> i < q + m then crypt_sector S hook False key (r + (i - q)) (sec (r + (i - q)) d) else sec i buf)"
    if i: "512 * Suc i \<le> length buf" for i
  proof (cases "q \<le> i \<and> i < q + m")
    case True
    then have "sec i (overlay (512 * q) y buf) = sec (i - q) y" using sec_overlay [of y m q buf i] y(2) buf l(1) i by simp
    also have "\<dots> = crypt_sector S hook False key (r + (i - q)) (sec (q + (i - q)) buf)"
      unfolding sec_drop [symmetric] by (rule y(3)) (use True in linarith)
    also have "sec (q + (i - q)) buf = sec (r + (i - q)) d" by (rule old) (use True in linarith)
    finally show ?thesis using True by simp
  next
    case False
    then show ?thesis using sec_overlay [of y m q buf i] y(2) buf l(1) i by auto
  qed
  moreover have "take (512 * q) buf @ overlay 0 y (drop (512 * q) buf) = overlay (512 * q) y buf" using buf by (simp add: overlay_front)
  moreover have "length (overlay (512 * q) y buf) = length buf" using buf l(1) y(2) by (simp add: length_overlay)
  ultimately show ?thesis using Some y(1) by simp
qed

text \<open>One chunk that is read without an error.\<close>

lemma read_chunk_step:
  assumes "io_async_make_chunk conf (depth w) hook True ctx = c" "im_alloc M w = (True, v)"
    "im_call M (drop (unat (io_chunk_offset c)) (io_buff c)) (io_chunk_length c) (io_chunk_diskof c) True v = Some (STATUS_SUCCESS, len, y, u)"
    "c1 = c\<lparr>io_buff := take (unat (io_chunk_offset c)) (io_buff c) @ y, io_completed := io_completed c + io_chunk_length c\<rparr>"
    "(if io_completed c1 < io_length c1 then io_async_read_chunk S P M conf depth hook c1 u else Some (c1, u)) = Some (c2, x)"
    "(case io_chunk_key c of None \<Rightarrow> Some (io_buff c2)
      | Some k \<Rightarrow> Option.bind (pool_crypt S P False k None (drop (unat (io_chunk_offset c)) (io_buff c2)) len (xts_offset hook (io_chunk_diskof c)))
          (\<lambda>z. Some (take (unat (io_chunk_offset c)) (io_buff c2) @ z))) = Some buf"
    "io_completed c2 = io_length c2"
  shows "io_async_read_chunk S P M conf depth hook ctx w = Some (c2\<lparr>io_buff := buf, io_status := STATUS_SUCCESS\<rparr>, x)"
proof -
  have ok: "NT_SUCCESS STATUS_SUCCESS" by (simp add: NT_SUCCESS_def STATUS_SUCCESS_def)
  have upd: "c2\<lparr>io_buff := io_buff c2\<rparr> = c2" by simp
  show ?thesis
    apply (subst io_async_read_chunk.simps)
    apply (simp only: Let_def assms(1,2) prod.case simp_thms if_False Option.bind.simps(2) assms(3) ok if_True assms(4) [symmetric] assms(5))
    using assms(6,7) upd
    apply (cases "io_chunk_key c")
     apply (auto simp: xts_offset_def bind_eq_Some_conv split del: if_split)
    done
qed

context device_stack
begin

lemma read_chunks:
  assumes P: "pool_ok P" and lay: "io_layout hook" and w: "inv w"
  shows "read_request S hook (disk w) ctx \<Longrightarrow> unat (io_completed ctx) < unat (io_length ctx) \<Longrightarrow> 512 dvd unat (io_completed ctx) \<Longrightarrow>
    \<exists>ctx'. io_async_read_chunk S P M conf depth hook ctx w = Some (ctx', w) \<and> io_completed ctx' = io_length ctx \<and> io_length ctx' = io_length ctx \<and>
      io_status ctx' = STATUS_SUCCESS \<and> read_done S hook (disk w) ctx (io_buff ctx')"
proof (induction "unat (io_length ctx) - unat (io_completed ctx)" arbitrary: ctx rule: less_induct)
  case less
  let ?fin = "io_completed ctx" and ?L = "unat (io_length ctx)" and ?s0 = "unat (io_offset ctx) div 512" and ?key = "\<lambda>p. sector_key hook (io_boundary ctx) (io_snapshot_dsk_key ctx) (io_snapshot_tmp_key ctx) p"
  note rq = less.prems(1) [unfolded read_request_def]
  then have req: "request_ok hook ctx" by simp
  obtain q where q: "unat ?fin = 512 * q" using less.prems(3) by auto
  have off: "unat (io_offset ctx) = 512 * ?s0" using req by (simp add: request_ok_def)
  have s: "?s0 + q = (unat (io_offset ctx) + unat ?fin) div 512" using off q by simp
  obtain p l key where c: "io_async_make_chunk conf (depth w) hook True ctx = chunk_set p l ?fin key (in_redirect hook (?s0 + q)) ctx"
    "unat p = 512 * redirected hook (?s0 + q)" "0 < unat l" "unat l \<le> ?L - unat ?fin" "512 dvd unat l"
    "\<And>i. 512 * i < unat l \<Longrightarrow> redirected hook (?s0 + q + i) = redirected hook (?s0 + q) + i \<and> ?key (redirected hook (?s0 + q) + i) = key"
    by (rule make_chunk_spec [OF lay req, of ?fin True "?s0 + q" conf "depth w"]) (use less.prems(2,3) s in auto)
  let ?r = "redirected hook (?s0 + q)"
  obtain m where m: "unat l = 512 * m" "0 < m" using c(3,5) by auto
  have fits: "512 * (q + m) \<le> ?L" "?L \<le> length (io_buff ctx)" using c(4) less.prems(2) q m rq by auto
  have dsk: "512 * ?r + unat l \<le> unat (dh_dsk_size hook)"
    using c(6) [of "m - 1"] m fits req off by (intro chunk_on_disk [OF lay m]) (auto simp: request_ok_def)
  then have onp: "unat p + unat l \<le> length (disk w)" using rq c(2) by linarith
  let ?old = "slice (unat p) (unat l) (disk w)"
  have lold: "length ?old = 512 * m" using onp m by simp
  let ?c1 = "(chunk_set p l ?fin key (in_redirect hook (?s0 + q)) ctx)\<lparr>io_buff := overlay (512 * q) ?old (io_buff ctx), io_completed := ?fin + l\<rparr>"
  have call: "im_call M (drop (unat ?fin) (io_buff ctx)) l p True w = Some (STATUS_SUCCESS, l, overlay 0 ?old (drop (unat ?fin) (io_buff ctx)), w)"
    using fits m q by (intro call_read [OF w onp]) simp
  have fin2: "unat (?fin + l) = 512 * (q + m)" using fits(1) unsigned_less [of "io_length ctx", where ?'a = nat] m q by (subst unat_add_small) simp_all
  have sec1: "sec i (io_buff ?c1) = (if q \<le> i \<and> i < q + m then sec (?r + (i - q)) (disk w) else sec i (io_buff ctx))" if "512 * Suc i \<le> length (io_buff ctx)" for i
    using that sec_overlay [OF lold, of q "io_buff ctx" i] sec_slice [of "i - q" m ?r "disk w"] fits lold c(2) m by auto
  have len1: "length (io_buff ?c1) = length (io_buff ctx)" using lold fits by (simp add: length_overlay)
  have "\<exists>c2. (if io_completed ?c1 < io_length ?c1 then io_async_read_chunk S P M conf depth hook ?c1 w else Some (?c1, w)) = Some (c2, w) \<and>
      io_completed c2 = io_length ctx \<and> io_length c2 = io_length ctx \<and> read_done S hook (disk w) ?c1 (io_buff c2)"
  proof (cases "?fin + l < io_length ctx")
    case True
    have bd: "io_boundary ?c1 = io_boundary ctx" by (simp add: io_boundary_def)
    have small: "?L - unat (?fin + l) < ?L - unat ?fin" using fin2 fits q m by simp
    have "request_ok hook ?c1" using req by (simp add: request_ok_def bd)
    then have "read_request S hook (disk w) ?c1" using rq len1 by (simp add: read_request_def bd)
    then obtain c2 where "io_async_read_chunk S P M conf depth hook ?c1 w = Some (c2, w)" "io_completed c2 = io_length ctx" "io_length c2 = io_length ctx"
        "read_done S hook (disk w) ?c1 (io_buff c2)"
      using less.hyps [of ?c1] small True fin2 by (auto simp: word_less_nat_alt)
    then show ?thesis using True by simp
  next
    case False
    then have "?fin + l = io_length ctx" using fin2 fits(1) by (metis linorder_not_less order_antisym_conv word_le_nat_alt)
    then show ?thesis using fin2 by (auto simp: read_done_def)
  qed
  then obtain c2 where c2: "(if io_completed ?c1 < io_length ?c1 then io_async_read_chunk S P M conf depth hook ?c1 w else Some (?c1, w)) = Some (c2, w)"
    "io_completed c2 = io_length ctx" "io_length c2 = io_length ctx" "read_done S hook (disk w) ?c1 (io_buff c2)" by blast
  have bd: "io_boundary ?c1 = io_boundary ctx" by (simp add: io_boundary_def)
  let ?view = "\<lambda>i. crypt_sector S hook False (?key (redirected hook (?s0 + i))) (redirected hook (?s0 + i)) (sec (redirected hook (?s0 + i)) (disk w))"
  have len2: "length (io_buff c2) = length (io_buff ctx)" using c2(4) len1 by (simp add: read_done_def)
  have sec2: "sec i (io_buff c2) = (if q + m \<le> i \<and> i < ?L div 512 then ?view i else if q \<le> i \<and> i < q + m then sec (?r + (i - q)) (disk w) else sec i (io_buff ctx))"
    if i: "512 * Suc i \<le> length (io_buff ctx)" for i
  proof -
    have "sec i (io_buff c2) = (if q + m \<le> i \<and> i < ?L div 512 then ?view i else sec i (io_buff ?c1))"
      using c2(4) i len1 fin2 bd by (simp add: read_done_def Let_def)
    then show ?thesis using sec1 [OF i] by auto
  qed
  have good: "good_key S k" if "key = Some k" for k
    using sector_key_good [of "io_snapshot_dsk_key ctx" S "io_snapshot_tmp_key ctx"] rq c(6) [of 0] c(3) that by auto
  have nr: "unat (dh_head_len hook) \<le> 512 * ?r" if "dh_flags hook AND F_NO_REDIRECT \<noteq> 0" using rq that fits(1) m by auto
  have "\<exists>buf'. (case key of None \<Rightarrow> Some (io_buff c2)
      | Some k \<Rightarrow> Option.bind (pool_crypt S P False k None (drop (512 * q) (io_buff c2)) l (xts_offset hook p)) (\<lambda>z. Some (take (512 * q) (io_buff c2) @ z))) = Some buf' \<and>
    length buf' = length (io_buff c2) \<and>
    (\<forall>i. 512 * Suc i \<le> length (io_buff c2) \<longrightarrow> sec i buf' =
      (if q \<le> i \<and> i < q + m then crypt_sector S hook False key (?r + (i - q)) (sec (?r + (i - q)) (disk w)) else sec i (io_buff c2)))"
  proof (rule decrypt_chunk [OF P _ good c(2) nr m])
    show "512 dvd unat (dh_head_len hook)" "512 * ?r + unat l \<le> 2 ^ 62" using lay dsk by (simp_all add: io_layout_def)
    show "unat l + 2048 \<le> 2 ^ 32" "512 * q + unat l \<le> length (io_buff c2)" using rq fits m len2 by auto
    show "sec (q + i) (io_buff c2) = sec (?r + i) (disk w)" if "i < m" for i using sec2 [of "q + i"] that fits by simp
  qed
  then obtain buf' where b: "(case key of None \<Rightarrow> Some (io_buff c2)
      | Some k \<Rightarrow> Option.bind (pool_crypt S P False k None (drop (512 * q) (io_buff c2)) l (xts_offset hook p)) (\<lambda>z. Some (take (512 * q) (io_buff c2) @ z))) = Some buf'"
    "length buf' = length (io_buff c2)"
    "\<And>i. 512 * Suc i \<le> length (io_buff c2) \<Longrightarrow> sec i buf' =
      (if q \<le> i \<and> i < q + m then crypt_sector S hook False key (?r + (i - q)) (sec (?r + (i - q)) (disk w)) else sec i (io_buff c2))" by blast
  have "sec i buf' = (if q \<le> i \<and> i < ?L div 512 then ?view i else sec i (io_buff ctx))" if i: "512 * Suc i \<le> length (io_buff ctx)" for i
  proof (cases "q \<le> i \<and> i < q + m")
    case True
    then have "512 * (i - q) < unat l" "?s0 + q + (i - q) = ?s0 + i" using m by auto
    then have "redirected hook (?s0 + i) = ?r + (i - q)" "?key (?r + (i - q)) = key" using c(6) [of "i - q"] by auto
    then show ?thesis using True b(3) [of i] i len2 fits(1) by auto
  next
    case False
    then show ?thesis using b(3) [of i] i len2 sec2 [OF i] by auto
  qed
  then have "read_done S hook (disk w) ctx buf'" using b(2) len2 q by (simp add: read_done_def Let_def)
  moreover have "io_async_read_chunk S P M conf depth hook ctx w = Some (c2\<lparr>io_buff := buf', io_status := STATUS_SUCCESS\<rparr>, w)"
  proof -
    have front: "take (unat ?fin) (io_buff ctx) @ overlay 0 ?old (drop (unat ?fin) (io_buff ctx)) = overlay (512 * q) ?old (io_buff ctx)"
      unfolding q by (rule overlay_front) (use fits in simp)
    let ?c = "chunk_set p l ?fin key (in_redirect hook (?s0 + q)) ctx"
    have fields: "io_chunk_offset ?c = ?fin" "io_chunk_length ?c = l" "io_chunk_diskof ?c = p" "io_chunk_key ?c = key"
        "io_buff ?c = io_buff ctx" "io_completed ?c = ?fin" by simp_all
    show ?thesis
    proof (rule read_chunk_step [where depth = depth, OF c(1) alloc [OF w] _ _ c2(1)])
      show "im_call M (drop (unat (io_chunk_offset ?c)) (io_buff ?c)) (io_chunk_length ?c) (io_chunk_diskof ?c) True w =
          Some (STATUS_SUCCESS, l, overlay 0 ?old (drop (unat ?fin) (io_buff ctx)), w)" unfolding fields by (rule call)
      show "?c1 = ?c\<lparr>io_buff := take (unat (io_chunk_offset ?c)) (io_buff ?c) @ overlay 0 ?old (drop (unat ?fin) (io_buff ctx)),
          io_completed := io_completed ?c + io_chunk_length ?c\<rparr>" unfolding fields front ..
      show "(case io_chunk_key ?c of None \<Rightarrow> Some (io_buff c2)
          | Some k \<Rightarrow> Option.bind (pool_crypt S P False k None (drop (unat (io_chunk_offset ?c)) (io_buff c2)) l (xts_offset hook (io_chunk_diskof ?c)))
              (\<lambda>z. Some (take (unat (io_chunk_offset ?c)) (io_buff c2) @ z))) = Some buf'" unfolding fields q by (rule b(1))
      show "io_completed c2 = io_length c2" using c2(2,3) by simp
    qed
  qed
  ultimately show ?case using c2(2,3) by auto
qed

end

section \<open>Properties\<close>

text \<open>A key that the code can have made.\<close>

definition made_key :: "xts_key option \<Rightarrow> bool" where
  "made_key key \<longleftrightarrow> (\<forall>k. key = Some k \<longrightarrow> (\<exists>dk alg k0. xts_set_key dk alg k0 = (1, k)))"

lemma made_key_good: "aes_core_ok A \<Longrightarrow> made_key key \<Longrightarrow> key = Some k \<Longrightarrow> good_key (scalar_selection A) k"
  unfolding made_key_def by (metis xts_set_key_good)

lemma redirected_behind_head:
  assumes lay: "io_layout hook" and nr: "dh_flags hook AND F_NO_REDIRECT \<noteq> 0" "unat (dh_head_len hook) \<le> unat (dh_tail_off hook)" and s: "unat (dh_head_len hook) \<le> 512 * s"
  shows "unat (dh_head_len hook) \<le> 512 * redirected hook s"
proof -
  obtain e where "unat (dh_tail_off hook) = 512 * e" using lay by (auto simp: io_layout_def elim!: dvdE)
  then show ?thesis using nr s by (auto simp: redirected_def)
qed

text \<open>A request for \<open>n\<close> whole sectors, which are the sectors of the device from \<open>first\<close> on, and a snapshot with keys the code can have made.\<close>

definition io_request :: "dev_hook \<Rightarrow> io_snapshot \<Rightarrow> bytes \<Rightarrow> u64 \<Rightarrow> u32 \<Rightarrow> nat \<Rightarrow> nat \<Rightarrow> bool" where
  "io_request hook sn d offset len first n \<longleftrightarrow> io_layout hook \<and> made_key (sn_dsk_key sn) \<and> made_key (sn_tmp_key sn) \<and>
     (sn_trans_io sn \<longrightarrow> 512 dvd unat (sn_boundary sn)) \<and> unat (dh_dsk_size hook) \<le> length d \<and> 512 dvd length d \<and>
     512 dvd unat offset \<and> unat len = 512 * n \<and> 0 < n \<and> unat len + 2048 \<le> 2 ^ 32 \<and> unat offset + unat len \<le> unat (dh_use_size hook) \<and>
     first = (if dh_flags hook AND F_NO_REDIRECT \<noteq> 0 then unat (dh_head_len hook) div 512 + unat offset div 512 else unat offset div 512) \<and>
     (dh_flags hook AND F_NO_REDIRECT \<noteq> 0 \<longrightarrow> unat (dh_head_len hook) \<le> unat (dh_tail_off hook))"

text \<open>The context such a request starts with.\<close>

lemma request_prepared:
  fixes expect_off :: u64 and buff :: bytes
  assumes rq: "io_request hook sn d offset len first n" and alloc: "im_alloc M w = (True, w)"
  defines "ctx \<equiv> io_context_init hook sn expect_off offset len buff"
  shows "io_prepare M hook sn expect_off True offset len buff w = (Inr ctx, w)" "unat (io_offset ctx) = 512 * first"
    "512 * first + unat len \<le> unat (dh_dsk_size hook)" "io_boundary ctx = (if sn_trans_io sn then sn_boundary sn else 0)"
    "\<not> straddles hook (512 * first) (512 * n) \<Longrightarrow> request_ok hook ctx"
    "dh_flags hook AND F_NO_REDIRECT \<noteq> 0 \<Longrightarrow> unat (dh_head_len hook) \<le> 512 * first"
proof -
  have lay: "io_layout hook" using rq by (simp add: io_request_def)
  obtain s where R: "unat offset = 512 * s" "unat len = 512 * n" "0 < n" "unat offset + unat len \<le> unat (dh_use_size hook)"
    "first = (if dh_flags hook AND F_NO_REDIRECT \<noteq> 0 then unat (dh_head_len hook) div 512 + s else s)"
    "sn_trans_io sn \<longrightarrow> 512 dvd unat (sn_boundary sn)"
    using rq unfolding io_request_def by (auto elim!: dvdE [of 512 "unat offset"])
  have dsk: "unat (dh_dsk_size hook) < 2 ^ 62" "512 dvd unat (dh_head_len hook)" using lay by (auto simp: io_layout_def)
  have len: "len \<noteq> 0" "len AND (of_nat SECTOR_SIZE - 1) = 0"
  proof -
    show "len \<noteq> 0" using R(2,3) by auto
    have "unat (len AND (of_nat SECTOR_SIZE - 1)) = unat len mod 512"
      using unat_and_mask [of len 9] by (simp add: SECTOR_SIZE_def mask_eq_exp_minus_1)
    then have "unat (len AND (of_nat SECTOR_SIZE - 1)) = 0" using R(2) by simp
    then show "len AND (of_nat SECTOR_SIZE - 1) = 0" by (simp add: unat_eq_zero)
  qed
  have sum: "unat (offset + ucast len) = unat offset + unat len" using lay R(4) dsk(1) by (intro trans [OF unat_add_u64]) (auto simp: io_layout_def)
  then have "io_check_request hook True offset len = None" using len R(4) by (simp add: io_check_request_def word_less_nat_alt)
  then show "io_prepare M hook sn expect_off True offset len buff w = (Inr ctx, w)"
    using alloc by (simp add: io_prepare_def ctx_def)
  show off: "unat (io_offset ctx) = 512 * first"
  proof (cases "dh_flags hook AND F_NO_REDIRECT \<noteq> 0")
    case True
    have "unat (offset + ucast (dh_head_len hook)) = unat offset + unat (dh_head_len hook)"
      using lay R(4) dsk(1) True by (intro trans [OF unat_add_u64]) (auto simp: io_layout_def)
    then show ?thesis using True dsk(2) R(1,5) by (simp add: ctx_def io_context_init_def)
  next
    case False
    then show ?thesis using R(1,5) by (simp add: ctx_def io_context_init_def)
  qed
  show on: "512 * first + unat len \<le> unat (dh_dsk_size hook)" using lay R(1,2,4,5) dsk(2) by (auto simp: io_layout_def)
  show bd: "io_boundary ctx = (if sn_trans_io sn then sn_boundary sn else 0)" by (simp add: ctx_def io_boundary_def io_context_init_def)
  have "io_length ctx = len" by (simp add: ctx_def io_context_init_def)
  then show "\<not> straddles hook (512 * first) (512 * n) \<Longrightarrow> request_ok hook ctx"
    unfolding request_ok_def bd using off on R(2,6) by simp
  show "dh_flags hook AND F_NO_REDIRECT \<noteq> 0 \<Longrightarrow> unat (dh_head_len hook) \<le> 512 * first" using R(5) dsk(2) by auto
qed

lemma context_fields:
  "io_length (io_context_init hook sn e offset len buff) = len" "io_buff (io_context_init hook sn e offset len buff) = buff"
  "io_completed (io_context_init hook sn e offset len buff) = 0" "io_encrypted (io_context_init hook sn e offset len buff) = 0"
  "io_snapshot_dsk_key (io_context_init hook sn e offset len buff) = sn_dsk_key sn"
  "io_snapshot_tmp_key (io_context_init hook sn e offset len buff) = sn_tmp_key sn"
  by (simp_all add: io_context_init_def)

context device_stack
begin

lemma read_plain:
  assumes w: "inv w" and A: "aes_core_ok A" and P: "pool_ok P" and rq: "io_request hook sn (disk w) offset len first n"
    and st: "\<not> straddles hook (512 * first) (512 * n)" and "length buff = unat len"
  shows "\<exists>buf. io_encrypted_read (scalar_selection A) P M conf depth hook sn expect_off offset len buff w = Some (STATUS_SUCCESS, buf, w) \<and>
    length buf = unat len \<and> (\<forall>i < n. sec i buf = plain_sector (scalar_selection A) hook sn (redirected hook (first + i)) (disk w))"
proof -
  have lay: "io_layout hook" and key: "made_key (sn_dsk_key sn)" "made_key (sn_tmp_key sn)" using rq by (simp_all add: io_request_def)
  have R: "unat len = 512 * n" "0 < n" "unat len + 2048 \<le> 2 ^ 32" "unat (dh_dsk_size hook) \<le> length (disk w)"
    "dh_flags hook AND F_NO_REDIRECT \<noteq> 0 \<longrightarrow> unat (dh_head_len hook) \<le> unat (dh_tail_off hook)"
    using rq by (simp_all add: io_request_def)
  let ?ctx = "io_context_init hook sn expect_off offset len buff"
  note prep = request_prepared [OF rq alloc [OF w]]
  note flds = context_fields [of hook sn expect_off offset len buff]
  have "unat (dh_head_len hook) \<le> 512 * redirected hook (unat (io_offset ?ctx) div 512 + i)" if "dh_flags hook AND F_NO_REDIRECT \<noteq> 0" for i
    using that R(5) prep(6) prep(2) by (intro redirected_behind_head [OF lay]) auto
  then have rr: "read_request (scalar_selection A) hook (disk w) ?ctx"
    unfolding read_request_def flds using prep(5) [OF st] R(3,4) assms(6) made_key_good [OF A key(1)] made_key_good [OF A key(2)] by simp
  obtain ctx' where run: "io_async_read_chunk (scalar_selection A) P M conf depth hook ?ctx w = Some (ctx', w)" "io_status ctx' = STATUS_SUCCESS"
      "read_done (scalar_selection A) hook (disk w) ?ctx (io_buff ctx')"
    using read_chunks [OF P lay w rr, of conf depth] flds(1,3) R(1,2) by auto
  have "sec i (io_buff ctx') = plain_sector (scalar_selection A) hook sn (redirected hook (first + i)) (disk w)" if "i < n" for i
    using run(3) that prep(2) R(1) assms(6) unfolding read_done_def flds prep(4) by (simp add: plain_sector_def Let_def)
  moreover have "length (io_buff ctx') = unat len" using run(3) assms(6) by (simp add: read_done_def flds)
  moreover have "io_encrypted_read (scalar_selection A) P M conf depth hook sn expect_off offset len buff w = Some (STATUS_SUCCESS, io_buff ctx', w)"
    using run(1,2) prep(1) by (simp add: io_encrypted_read_def final_status_def)
  ultimately show ?thesis by blast
qed

end

text \<open>
  C3 (refinement): what a read of a mounted volume returns.  On a lower driver that completes each request before
  its call returns and does not fail inside the disk, a request for whole sectors inside the usable size, that
  does not reach over the start of the redirected end, ends with success, however it is cut into chunks, and
  sector \<open>i\<close> of the buffer is the plaintext of the place on the disk where that sector of the volume lies: in
  the storage area for the sectors the header took, in its second part for those of the backup header, and in
  place otherwise, under the key that the boundary of the request's snapshot gives that place.
\<close>

theorem read_returns_plain:
  assumes "device_stack M disk ok" and "ok w" and "aes_core_ok A" and "pool_ok P"
    and "io_request hook sn (disk w) offset len first n" and "\<not> straddles hook (512 * first) (512 * n)" and "length buff = unat len"
  shows "\<exists>buf. io_encrypted_read (scalar_selection A) P M conf depth hook sn expect_off offset len buff w = Some (STATUS_SUCCESS, buf, w) \<and>
    length buf = unat len \<and> (\<forall>i < n. sec i buf = plain_sector (scalar_selection A) hook sn (redirected hook (first + i)) (disk w))"
  by (rule device_stack.read_plain [OF assms])

definition read_hook :: dev_hook where
  "read_hook = \<lparr>dh_flags = F_ENABLED, dh_max_chunk = 512, dh_dsk_size = 2048, dh_use_size = 1536, dh_bps = 512, dh_tmp_size = 0, dh_stor_off = 1536,
     dh_stor_len = 512, dh_head_len = 512, dh_tail_off = 0, dh_tail_len = 0, dh_dsk_key = None, dh_tmp_key = None, dh_pnp_state = Started\<rparr>"

definition read_snapshot :: io_snapshot where
  "read_snapshot = \<lparr>sn_trans_io = True, sn_boundary = 1024, sn_dsk_key = Some (snd (xts_set_key (replicate 64 5) CF_SERPENT undefined)), sn_tmp_key = None\<rparr>"

theorem read_returns_plain_witness:
  "\<exists>buf. io_encrypted_read (scalar_selection fips197_core) \<lparr>fc_x64 = True, fc_cpus = 4, fc_mem = True\<rparr> buffer_stack 0 (\<lambda>w. 1) read_hook read_snapshot 0 0 1536
       (replicate 1536 0) \<lparr>b_data = Some (replicate 2048 7), b_size = 2048\<rparr> = Some (STATUS_SUCCESS, buf, \<lparr>b_data = Some (replicate 2048 7), b_size = 2048\<rparr>) \<and>
     sec 0 buf = replicate 512 7 \<and> sec 2 buf = replicate 512 7 \<and>
     sec 1 buf = sector_crypt (scalar_selection fips197_core) False (snd (xts_set_key (replicate 64 5) CF_SERPENT undefined)) 1 (replicate 512 7)"
proof -
  let ?P = "\<lparr>fc_x64 = True, fc_cpus = 4, fc_mem = True\<rparr>" and ?b = "\<lparr>b_data = Some (replicate 2048 7), b_size = 2048\<rparr> :: dc_buffer"
  have set: "xts_set_key (replicate 64 5) CF_SERPENT undefined = (1, snd (xts_set_key (replicate 64 5) CF_SERPENT undefined))"
    by (simp add: xts_set_key_def cf_defs)
  have k: "made_key (sn_dsk_key read_snapshot)" "made_key (sn_tmp_key read_snapshot)"
    using set by (auto simp: made_key_def read_snapshot_def)
  have lay: "io_layout read_hook" by (simp add: io_layout_def read_hook_def f_defs)
  have st: "\<not> straddles read_hook x y" for x y by (simp add: straddles_def read_hook_def)
  have fl: "dh_flags read_hook AND F_NO_REDIRECT = 0" "dh_flags read_hook AND F_HEAD_BACKUP = 0" by (simp_all add: read_hook_def f_defs)
  have inv: "buffer_inv ?b" "buffer_disk ?b = replicate 2048 7" "pool_ok ?P"
    by (simp_all add: buffer_inv_def buffer_disk_def pool_ok_def MAX_CPU_COUNT_def)
  have sz: "unat (dh_dsk_size read_hook) \<le> length (buffer_disk ?b)" unfolding inv(2) by (simp add: read_hook_def)
  have rq: "io_request read_hook read_snapshot (buffer_disk ?b) 0 1536 0 3"
    using lay k sz fl inv(2) by (simp add: io_request_def) (simp add: read_hook_def read_snapshot_def)
  from read_returns_plain [OF buffer_stack.device_stack_axioms inv(1) fips197_core_ok inv(3) rq st, of "replicate 1536 0" 0 "\<lambda>w. 1" 0]
  obtain buf where r: "io_encrypted_read (scalar_selection fips197_core) ?P buffer_stack 0 (\<lambda>w. 1) read_hook read_snapshot 0 0 1536 (replicate 1536 0) ?b = Some (STATUS_SUCCESS, buf, ?b)"
     "\<And>i. i < 3 \<Longrightarrow> sec i buf = plain_sector (scalar_selection fips197_core) read_hook read_snapshot (redirected read_hook i) (buffer_disk ?b)"
    by auto
  have "redirected read_hook 0 = 3" "redirected read_hook 1 = 1" "redirected read_hook 2 = 2" unfolding redirected_def using fl by (simp_all add: read_hook_def)
  moreover have "sec i (buffer_disk ?b) = replicate 512 7" if "i < 4" for i
    unfolding inv(2) using that by (simp add: sec_def slice_def)
  moreover have key: "sector_key read_hook 1024 dk tk p = (if p < 2 then dk else None)" for dk tk p
    by (simp add: sector_key_def word_less_nat_alt) (simp add: read_hook_def f_defs)
  ultimately have plain: "plain_sector (scalar_selection fips197_core) read_hook read_snapshot (redirected read_hook 0) (buffer_disk ?b) = replicate 512 7"
    "plain_sector (scalar_selection fips197_core) read_hook read_snapshot (redirected read_hook 2) (buffer_disk ?b) = replicate 512 7"
    "plain_sector (scalar_selection fips197_core) read_hook read_snapshot (redirected read_hook 1) (buffer_disk ?b) =
       sector_crypt (scalar_selection fips197_core) False (snd (xts_set_key (replicate 64 5) CF_SERPENT undefined)) 1 (replicate 512 7)"
    using fl by (simp_all add: plain_sector_def crypt_sector_def read_snapshot_def xts_number_def)
  have "sec 0 buf = replicate 512 7" "sec 2 buf = replicate 512 7" "sec 1 buf =
      sector_crypt (scalar_selection fips197_core) False (snd (xts_set_key (replicate 64 5) CF_SERPENT undefined)) 1 (replicate 512 7)"
    using r(2) [of 0] r(2) [of 2] r(2) [of 1] unfolding plain by simp_all
  then show ?thesis using r(1) by blast
qed

end
