(* ===== verification/WritePath.thy ===== *)
theory WritePath
  imports ReadPath
begin

text \<open>
  The write requests of a mounted volume (\<^verbatim>\<open>DCrypt/driver/readwrite.c\<close>): chunks are encrypted into a second buffer by
  the thread pool while what is encrypted already is written.  Encryption and writing are driven by completion
  routines that run at any time, on any processor, and share one \<^verbatim>\<open>io_context\<close>: the model is a transition relation
  over the set of activities under way, each step of which runs one activity from one point where another can
  come in between to the next.  The chunk without a key, whose completion routine the code calls in line, is an
  activity like the others here, so the runs of the code are among those of the relation.
\<close>

unbundle bit_operations_syntax

section \<open>The code\<close>

text \<open>
  The activities: a chunk in the thread pool (its place in the buffers, length, key and XTS offset), the rest of
  \<^verbatim>\<open>io_chunk_encrypt_complete\<close> behind the write it started, a call or a work item of \<^verbatim>\<open>io_write_next_chunk\<close>, the
  IRP at the lower driver (the place in the buffer, length and disk offset), and the rest of
  \<^verbatim>\<open>io_chunk_write_complete\<close> behind its lock with its \<^verbatim>\<open>need_write\<close>.
\<close>

datatype wtask =
    Encrypting u32 u32 "xts_key option" u64
  | Encrypted
  | WriteNext
  | Writing u32 u32 u64
  | Written bool

text \<open>
  The context, the activities, \<^verbatim>\<open>ctx->refs\<close>, the statuses the original request has been completed with, and the
  state of the lower driver.
\<close>

record 'w wstate =
  ws_ctx :: io_context
  ws_tasks :: "wtask multiset"
  ws_refs :: int
  ws_done :: "ntstatus list"
  ws_dev :: 'w

definition ws_spawn :: "wtask \<Rightarrow> 'w wstate \<Rightarrow> 'w wstate" where
  "ws_spawn t s = s\<lparr>ws_tasks := add_mset t (ws_tasks s)\<rparr>"

definition ws_addref :: "'w wstate \<Rightarrow> 'w wstate" where
  "ws_addref s = s\<lparr>ws_refs := ws_refs s + 1\<rparr>"

text \<open>
  \<^verbatim>\<open>io_context_deref\<close>: the completion of the original request.  What else the last reference releases is not part of
  the state: \<^verbatim>\<open>trans.pending_io_count\<close> with its event, \<^verbatim>\<open>io_depth\<close>, the remove lock, and the buffers and descriptors.
\<close>

definition ws_deref :: "'w wstate \<Rightarrow> 'w wstate" where
  "ws_deref s = (let s = s\<lparr>ws_refs := ws_refs s - 1\<rparr>
     in if ws_refs s = 0 then s\<lparr>ws_done := ws_done s @ [final_status (io_status (ws_ctx s))]\<rparr> else s)"

definition io_async_encrypt_chunk :: "u32 \<Rightarrow> ('w \<Rightarrow> u32) \<Rightarrow> dev_hook \<Rightarrow> 'w wstate \<Rightarrow> 'w wstate" where
  "io_async_encrypt_chunk conf depth hook s =
     (let ctx = io_async_make_chunk conf (depth (ws_dev s)) hook False (ws_ctx s)
      in ws_spawn (Encrypting (io_encrypted ctx) (io_chunk_length ctx) (io_chunk_key ctx) (xts_offset hook (io_chunk_diskof ctx))) (s\<lparr>ws_ctx := ctx\<rparr>))"

text \<open>The work on a chunk: encrypted by the pool, or copied when it has no key.\<close>

definition encrypt_chunk :: "xts_selected \<Rightarrow> fc_pool \<Rightarrow> u32 \<Rightarrow> u32 \<Rightarrow> xts_key option \<Rightarrow> u64 \<Rightarrow> io_context \<Rightarrow> io_context option" where
  "encrypt_chunk S P pos len key offset ctx =
     (case key of
        Some k \<Rightarrow> do { z \<leftarrow> pool_crypt S P True k (Some (drop (unat pos) (io_buff ctx))) (drop (unat pos) (io_new_buff ctx)) len offset;
                       Some (ctx\<lparr>io_new_buff := take (unat pos) (io_new_buff ctx) @ z\<rparr>) }
      | None \<Rightarrow> do { y \<leftarrow> wr (unat pos) (slice (unat pos) (unat len) (io_buff ctx)) (io_new_buff ctx); Some (ctx\<lparr>io_new_buff := y\<rparr>) })"

definition io_chunk_encrypt_complete :: "'w wstate \<Rightarrow> 'w wstate" where
  "io_chunk_encrypt_complete s =
     (let ctx = ws_ctx s;
          ctx = (if io_chunk_offset ctx = 0 then ctx\<lparr>io_write_offset := io_chunk_diskof ctx\<rparr> else ctx);
          ctx = ctx\<lparr>io_encrypted := io_encrypted ctx + io_chunk_length ctx\<rparr>
      in if \<not> io_write_pending ctx
         then ws_spawn Encrypted (ws_spawn WriteNext (ws_addref (s\<lparr>ws_ctx := ctx\<lparr>io_write_pending := True, io_write_length := io_encrypted ctx - io_completed ctx\<rparr>\<rparr>)))
         else ws_spawn Encrypted (s\<lparr>ws_ctx := ctx\<rparr>))"

definition encrypt_next :: "u32 \<Rightarrow> ('w \<Rightarrow> u32) \<Rightarrow> dev_hook \<Rightarrow> 'w wstate \<Rightarrow> 'w wstate" where
  "encrypt_next conf depth hook s =
     ws_deref (if \<not> io_discontinuous (ws_ctx s) \<and> io_encrypted (ws_ctx s) < io_length (ws_ctx s)
               then io_async_encrypt_chunk conf depth hook (ws_addref s) else s)"

definition io_write_next_chunk :: "'w io_mgr \<Rightarrow> 'w wstate \<Rightarrow> 'w wstate" where
  "io_write_next_chunk M s =
     (let ctx = ws_ctx s; (mdl, w) = im_alloc M (ws_dev s)
      in if \<not> mdl then ws_deref (s\<lparr>ws_ctx := ctx\<lparr>io_status := STATUS_INSUFFICIENT_RESOURCES\<rparr>, ws_dev := w\<rparr>)
         else ws_spawn (Writing (io_completed ctx) (io_write_length ctx) (io_write_offset ctx)) (s\<lparr>ws_dev := w\<rparr>))"

text \<open>
  The completion routine of a write, up to the end of its lock.  The call of \<^verbatim>\<open>dc_bitmap_mark_allocated\<close> before the
  lock is left out: it changes the allocation bitmap of the hook, which no part of the pipeline reads (theory
  \<^verbatim>\<open>AllocBitmap\<close>).
\<close>

definition io_chunk_write_complete :: "ntstatus \<Rightarrow> 'w wstate \<Rightarrow> 'w wstate" where
  "io_chunk_write_complete status s =
     (if NT_SUCCESS status
      then let ctx = ws_ctx s;
               ctx = ctx\<lparr>io_write_offset := io_write_offset ctx + ucast (io_write_length ctx), io_completed := io_completed ctx + io_write_length ctx\<rparr>;
               ctx = ctx\<lparr>io_write_length := io_encrypted ctx - io_completed ctx\<rparr>;
               need_write = (io_write_length ctx \<noteq> 0)
           in ws_spawn (Written need_write) (s\<lparr>ws_ctx := ctx\<lparr>io_write_pending := need_write\<rparr>\<rparr>)
      else ws_deref s)"

definition write_rest :: "u32 \<Rightarrow> ('w \<Rightarrow> u32) \<Rightarrow> dev_hook \<Rightarrow> bool \<Rightarrow> 'w wstate \<Rightarrow> 'w wstate" where
  "write_rest conf depth hook need_write s =
     (let ctx = ws_ctx s;
          s = (if io_discontinuous ctx \<and> io_completed ctx < io_length ctx
               then io_async_encrypt_chunk conf depth hook (ws_addref (s\<lparr>ws_ctx := ctx\<lparr>io_discontinuous := False, io_write_offset := io_offset ctx + ucast (io_completed ctx)\<rparr>\<rparr>))
               else s);
          s = (if need_write then ws_spawn WriteNext (ws_addref s) else s)
      in ws_deref s)"

text \<open>One activity, taken out of the set, to its next point of interference.\<close>

fun run_task :: "xts_selected \<Rightarrow> fc_pool \<Rightarrow> 'w io_mgr \<Rightarrow> u32 \<Rightarrow> ('w \<Rightarrow> u32) \<Rightarrow> dev_hook \<Rightarrow> wtask \<Rightarrow> 'w wstate \<Rightarrow> 'w wstate option" where
  "run_task S P M conf depth hook (Encrypting pos len key offset) s =
     do { ctx \<leftarrow> encrypt_chunk S P pos len key offset (ws_ctx s); Some (io_chunk_encrypt_complete (s\<lparr>ws_ctx := ctx\<rparr>)) }"
| "run_task S P M conf depth hook Encrypted s = Some (encrypt_next conf depth hook s)"
| "run_task S P M conf depth hook WriteNext s = Some (io_write_next_chunk M s)"
| "run_task S P M conf depth hook (Writing pos len offset) s =
     do { (status, info, y, w) \<leftarrow> im_call M (drop (unat pos) (io_new_buff (ws_ctx s))) len offset False (ws_dev s);
          Some (io_chunk_write_complete status (s\<lparr>ws_dev := w\<rparr>)) }"
| "run_task S P M conf depth hook (Written need_write) s = Some (write_rest conf depth hook need_write s)"

inductive write_step :: "xts_selected \<Rightarrow> fc_pool \<Rightarrow> 'w io_mgr \<Rightarrow> u32 \<Rightarrow> ('w \<Rightarrow> u32) \<Rightarrow> dev_hook \<Rightarrow> 'w wstate \<Rightarrow> 'w wstate \<Rightarrow> bool"
  for S P M conf depth hook where
  task: "t \<in># ws_tasks s \<Longrightarrow> run_task S P M conf depth hook t (s\<lparr>ws_tasks := ws_tasks s - {#t#}\<rparr>) = Some s' \<Longrightarrow>
    write_step S P M conf depth hook s s'"

inductive_simps write_step_iff: "write_step S P M conf depth hook s s'"

text \<open>The start of a write: a request that is refused has its status, another one its first chunk in the pool.\<close>

definition io_encrypted_write ::
  "'w io_mgr \<Rightarrow> u32 \<Rightarrow> ('w \<Rightarrow> u32) \<Rightarrow> dev_hook \<Rightarrow> io_snapshot \<Rightarrow> u64 \<Rightarrow> u64 \<Rightarrow> u32 \<Rightarrow> bytes \<Rightarrow> 'w \<Rightarrow> ntstatus \<times> 'w + 'w wstate" where
  "io_encrypted_write M conf depth hook sn expect_off offset len buff w =
     (case io_prepare M hook sn expect_off False offset len buff w of
        (Inl status, w) \<Rightarrow> Inl (final_status status, w)
      | (Inr ctx, w) \<Rightarrow> Inr (io_async_encrypt_chunk conf depth hook \<lparr>ws_ctx = ctx, ws_tasks = {#}, ws_refs = 1, ws_done = [], ws_dev = w\<rparr>))"

section \<open>What every run keeps\<close>

text \<open>Each activity holds one reference; the request is completed when the last one ends.\<close>

definition refs_ok :: "'w wstate \<Rightarrow> bool" where
  "refs_ok s \<longleftrightarrow> ws_refs s = int (size (ws_tasks s)) \<and> (ws_tasks s \<noteq> {#} \<longrightarrow> ws_done s = []) \<and> (ws_tasks s = {#} \<longrightarrow> length (ws_done s) = 1)"

text \<open>\<open>bal n s\<close>: besides the activities in the set, \<open>n\<close> references are held.\<close>

definition bal :: "nat \<Rightarrow> 'w wstate \<Rightarrow> bool" where
  "bal n s \<longleftrightarrow> ws_refs s = int (size (ws_tasks s) + n) \<and> ws_done s = []"

lemma bal_ctx [simp]: "bal n (s\<lparr>ws_ctx := c\<rparr>) = bal n s" "bal n (s\<lparr>ws_dev := w\<rparr>) = bal n s"
  by (simp_all add: bal_def)

lemma bal_spawn: "bal (Suc n) s \<Longrightarrow> bal n (ws_spawn t s)"
  by (simp add: bal_def ws_spawn_def)

lemma bal_addref: "bal n s \<Longrightarrow> bal (Suc n) (ws_addref s)"
  by (simp add: bal_def ws_addref_def)

lemma bal_encrypt: "bal (Suc n) s \<Longrightarrow> bal n (io_async_encrypt_chunk conf depth hook s)"
  by (simp add: io_async_encrypt_chunk_def Let_def bal_spawn)

lemma bal_deref: "bal 1 s \<Longrightarrow> refs_ok (ws_deref s)"
  by (auto simp: bal_def refs_ok_def ws_deref_def Let_def)

lemma bal_end: "bal 0 (ws_spawn t s) \<Longrightarrow> refs_ok (ws_spawn t s)"
  by (simp add: bal_def refs_ok_def ws_spawn_def)

lemma run_task_refs: "bal 1 s \<Longrightarrow> run_task S P M conf depth hook t s = Some s' \<Longrightarrow> refs_ok s'"
  by (cases t)
    (auto simp: io_chunk_encrypt_complete_def encrypt_next_def io_write_next_chunk_def io_chunk_write_complete_def write_rest_def Let_def bind_eq_Some_conv
      intro!: bal_deref bal_end bal_spawn bal_encrypt bal_addref split: prod.splits)

lemma step_refs: "write_step S P M conf depth hook s s' \<Longrightarrow> refs_ok s \<Longrightarrow> refs_ok s'"
proof (erule write_step.cases, clarify)
  fix t
  assume "refs_ok s" and t: "t \<in># ws_tasks s" and r: "run_task S P M conf depth hook t (s\<lparr>ws_tasks := ws_tasks s - {#t#}\<rparr>) = Some s'"
  then have "bal 1 (s\<lparr>ws_tasks := ws_tasks s - {#t#}\<rparr>)" using size_Suc_Diff1 [OF t] by (auto simp: refs_ok_def bal_def)
  then show "refs_ok s'" using r by (rule run_task_refs)
qed

lemma steps_refs: "(write_step S P M conf depth hook)\<^sup>*\<^sup>* s s' \<Longrightarrow> refs_ok s \<Longrightarrow> refs_ok s'"
  by (induction rule: rtranclp_induct) (auto intro: step_refs)

text \<open>Without a failed allocation the status is that of the start, whatever the device answers.\<close>

definition all_ok :: "'w wstate \<Rightarrow> bool" where
  "all_ok s \<longleftrightarrow> io_status (ws_ctx s) = STATUS_SUCCESS \<and> set (ws_done s) \<subseteq> {STATUS_SUCCESS}"

lemma chunk_frame:
  assumes "\<And>c d l disc key. f (c\<lparr>io_chunk_diskof := d\<rparr>) = f c" "\<And>c l. f (c\<lparr>io_chunk_length := l\<rparr>) = f c"
    "\<And>c disc. f (c\<lparr>io_discontinuous := disc\<rparr>) = f c" "\<And>c key. f (c\<lparr>io_chunk_key := key\<rparr>) = f c" "\<And>c o'. f (c\<lparr>io_chunk_offset := o'\<rparr>) = f c"
  shows "f (io_async_make_chunk conf depth hook r ctx) = f ctx"
proof -
  have "f (place_chunk conf depth hook r c) = f c" for c unfolding place_chunk_def Let_def if_distrib [of f] assms if_cancel ..
  moreover have "f (bound_chunk hook c) = f c" for c unfolding bound_chunk_def Let_def if_distrib [of f] assms if_cancel ..
  ultimately show ?thesis unfolding io_async_make_chunk_def Let_def if_distrib [of f] assms if_cancel by (simp only: assms)
qed

lemma make_chunk_frame [simp]:
  "io_status (io_async_make_chunk conf depth hook r ctx) = io_status ctx"
  "io_buff (io_async_make_chunk conf depth hook r ctx) = io_buff ctx"
  "io_new_buff (io_async_make_chunk conf depth hook r ctx) = io_new_buff ctx"
  by (rule chunk_frame; simp)+

lemma all_ok_simps [simp]:
  "all_ok (ws_spawn t s) = all_ok s" "all_ok (ws_addref s) = all_ok s" "all_ok (s\<lparr>ws_dev := w\<rparr>) = all_ok s"
  "all_ok (s\<lparr>ws_tasks := T\<rparr>) = all_ok s" "all_ok s \<Longrightarrow> all_ok (ws_deref s)"
  "all_ok (io_async_encrypt_chunk conf depth hook s) = all_ok s" "io_status c = io_status (ws_ctx s) \<Longrightarrow> all_ok (s\<lparr>ws_ctx := c\<rparr>) = all_ok s"
  by (auto simp: all_ok_def ws_spawn_def ws_addref_def ws_deref_def io_async_encrypt_chunk_def Let_def final_status_def NT_SUCCESS_def STATUS_SUCCESS_def)

lemma run_task_status:
  assumes alloc: "fst (im_alloc M (ws_dev s))"
  shows "all_ok s \<Longrightarrow> run_task S P M conf depth hook t s = Some s' \<Longrightarrow> all_ok s'"
  using alloc
  by (cases t)
    (auto simp: encrypt_chunk_def io_chunk_encrypt_complete_def encrypt_next_def io_write_next_chunk_def io_chunk_write_complete_def write_rest_def Let_def bind_eq_Some_conv
      split: prod.splits option.splits)

lemma steps_status:
  assumes "\<And>w. fst (im_alloc M w)"
  shows "(write_step S P M conf depth hook)\<^sup>*\<^sup>* s s' \<Longrightarrow> all_ok s \<Longrightarrow> all_ok s'"
proof (induction rule: rtranclp_induct)
  case (step s' s'')
  from step.hyps(2) obtain t where "run_task S P M conf depth hook t (s'\<lparr>ws_tasks := ws_tasks s' - {#t#}\<rparr>) = Some s''" by cases
  moreover have "all_ok (s'\<lparr>ws_tasks := ws_tasks s' - {#t#}\<rparr>)" using step.IH [OF step.prems] by simp
  ultimately show ?case by (rule run_task_status [OF assms, rotated])
qed

section \<open>Requests outside the redirected ranges\<close>

text \<open>The work on one chunk.\<close>

lemma encrypt_chunk_spec:
  assumes P: "pool_ok P" and hl: "512 dvd unat (dh_head_len hook)" and key: "\<And>k. key = Some k \<Longrightarrow> good_key S k"
    and p: "unat p = 512 * r" "dh_flags hook AND F_NO_REDIRECT \<noteq> 0 \<Longrightarrow> unat (dh_head_len hook) \<le> 512 * r"
    and l: "unat l = 512 * m" "0 < m" "unat l + 2048 \<le> 2 ^ 32" "512 * r + unat l \<le> 2 ^ 62"
    and q: "unat pos = 512 * q" "512 * q + unat l \<le> length (io_buff ctx)" "512 * q + unat l \<le> length (io_new_buff ctx)"
  shows "\<exists>b. encrypt_chunk S P pos l key (xts_offset hook p) ctx = Some (ctx\<lparr>io_new_buff := b\<rparr>) \<and> length b = length (io_new_buff ctx) \<and>
    (\<forall>i. 512 * Suc i \<le> length (io_new_buff ctx) \<longrightarrow> sec i b =
      (if q \<le> i \<and> i < q + m then crypt_sector S hook True key (r + (i - q)) (sec i (io_buff ctx)) else sec i (io_new_buff ctx)))"
proof -
  have "\<exists>y. encrypt_chunk S P pos l key (xts_offset hook p) ctx = Some (ctx\<lparr>io_new_buff := overlay (512 * q) y (io_new_buff ctx)\<rparr>) \<and> length y = 512 * m \<and>
      (\<forall>i < m. sec i y = crypt_sector S hook True key (r + i) (sec (q + i) (io_buff ctx)))"
  proof (cases key)
    case None
    have "length (slice (512 * q) (512 * m) (io_buff ctx)) = 512 * m" using q l(1) by simp
    then show ?thesis using None q l(1) sec_slice [of _ m q "io_buff ctx"]
      by (intro exI [of _ "slice (512 * q) (512 * m) (io_buff ctx)"]) (simp add: encrypt_chunk_def crypt_sector_def wr_in)
  next
    case (Some k)
    have "0 < unat l" "512 dvd unat l" "unat l \<le> length (drop (512 * q) (io_buff ctx))" "unat l \<le> length (drop (512 * q) (io_new_buff ctx))"
      using l q by simp_all
    from pool_crypt_chunk [OF key [OF Some] P hl p this(1,2) l(3,4) _ this(3,4), of "Some (drop (512 * q) (io_buff ctx))" True]
    obtain y where "pool_crypt S P True k (Some (drop (512 * q) (io_buff ctx))) (drop (512 * q) (io_new_buff ctx)) l (xts_offset hook p) =
        Some (overlay 0 y (drop (512 * q) (io_new_buff ctx)))" "length y = 512 * m"
        "\<forall>i < m. sec i y = crypt_sector S hook True key (r + i) (sec (q + i) (io_buff ctx))"
      using l(1) Some by (auto simp: sec_drop)
    then show ?thesis using Some q by (intro exI [of _ y]) (simp add: encrypt_chunk_def overlay_front)
  qed
  then obtain y where y: "encrypt_chunk S P pos l key (xts_offset hook p) ctx = Some (ctx\<lparr>io_new_buff := overlay (512 * q) y (io_new_buff ctx)\<rparr>)" "length y = 512 * m"
      "\<And>i. i < m \<Longrightarrow> sec i y = crypt_sector S hook True key (r + i) (sec (q + i) (io_buff ctx))" by blast
  have "sec i (overlay (512 * q) y (io_new_buff ctx)) = (if q \<le> i \<and> i < q + m then crypt_sector S hook True key (r + (i - q)) (sec i (io_buff ctx)) else sec i (io_new_buff ctx))"
    if "512 * Suc i \<le> length (io_new_buff ctx)" for i
  proof -
    have "sec i (overlay (512 * q) y (io_new_buff ctx)) = (if q \<le> i \<and> i < q + m then sec (i - q) y else sec i (io_new_buff ctx))"
      using sec_overlay [of y m q "io_new_buff ctx" i] y(2) q(3) l(1) that by simp
    moreover have "sec (i - q) y = crypt_sector S hook True key (r + (i - q)) (sec i (io_buff ctx))" if "q \<le> i \<and> i < q + m"
    proof -
      have "i - q < m" "q + (i - q) = i" using that by auto
      then show ?thesis using y(3) [of "i - q"] by simp
    qed
    ultimately show ?thesis by simp
  qed
  moreover have "length (overlay (512 * q) y (io_new_buff ctx)) = length (io_new_buff ctx)" using q(3) l(1) y(2) by (simp add: length_overlay)
  ultimately show ?thesis using y(1) by blast
qed

text \<open>
  The request \<open>c0\<close> as it was prepared: on the disk, outside the redirected ranges, with good keys; and what its sectors
  become.
\<close>

definition write_request :: "xts_selected \<Rightarrow> dev_hook \<Rightarrow> bytes \<Rightarrow> nat \<Rightarrow> nat \<Rightarrow> io_context \<Rightarrow> bool" where
  "write_request S hook d first n c0 \<longleftrightarrow> request_ok hook c0 \<and> unat (io_offset c0) = 512 * first \<and> unat (io_length c0) = 512 * n \<and> 0 < n \<and>
     length (io_buff c0) = 512 * n \<and> 512 * n + 2048 \<le> 2 ^ 32 \<and> unat (dh_dsk_size hook) \<le> length d \<and> 512 dvd length d \<and>
     (\<forall>k. io_snapshot_dsk_key c0 = Some k \<longrightarrow> good_key S k) \<and> (\<forall>k. io_snapshot_tmp_key c0 = Some k \<longrightarrow> good_key S k) \<and>
     (\<forall>i < n. \<not> in_redirect hook (first + i)) \<and> (dh_flags hook AND F_NO_REDIRECT \<noteq> 0 \<longrightarrow> unat (dh_head_len hook) \<le> 512 * first)"

abbreviation ctx_key :: "dev_hook \<Rightarrow> io_context \<Rightarrow> nat \<Rightarrow> xts_key option" where
  "ctx_key hook c \<equiv> sector_key hook (io_boundary c) (io_snapshot_dsk_key c) (io_snapshot_tmp_key c)"

definition written_sector :: "xts_selected \<Rightarrow> dev_hook \<Rightarrow> nat \<Rightarrow> io_context \<Rightarrow> nat \<Rightarrow> bytes" where
  "written_sector S hook first c0 i = crypt_sector S hook True (ctx_key hook c0 (first + i)) (first + i) (sec i (io_buff c0))"

text \<open>What no activity changes.\<close>

definition same_request :: "io_context \<Rightarrow> io_context \<Rightarrow> bool" where
  "same_request c0 c \<longleftrightarrow> io_buff c = io_buff c0 \<and> io_length c = io_length c0 \<and> io_offset c = io_offset c0 \<and> io_trans_io c = io_trans_io c0 \<and>
     io_trans_boundary c = io_trans_boundary c0 \<and> io_snapshot_dsk_key c = io_snapshot_dsk_key c0 \<and> io_snapshot_tmp_key c = io_snapshot_tmp_key c0"

text \<open>The activity that encrypts: its chunk starts where the encrypted bytes end.\<close>

definition enc_part :: "dev_hook \<Rightarrow> nat \<Rightarrow> io_context \<Rightarrow> wtask multiset \<Rightarrow> bool" where
  "enc_part hook first c T \<longleftrightarrow> T = {#Encrypted#} \<and> unat (io_encrypted c) \<noteq> 0 \<or> T = {#} \<and> io_encrypted c = io_length c \<or>
     (\<exists>m key. T = {#Encrypting (io_encrypted c) (io_chunk_length c) key (xts_offset hook (io_chunk_diskof c))#} \<and> io_chunk_offset c = io_encrypted c \<and>
        unat (io_chunk_diskof c) = 512 * first + unat (io_encrypted c) \<and> unat (io_chunk_length c) = 512 * m \<and> 0 < m \<and>
        unat (io_encrypted c) + 512 * m \<le> unat (io_length c) \<and> (\<forall>i < m. ctx_key hook c (first + unat (io_encrypted c) div 512 + i) = key))"

text \<open>The activity that writes, when there is one: its range lies in what is encrypted.\<close>

definition write_part :: "io_context \<Rightarrow> wtask multiset \<Rightarrow> bool" where
  "write_part c T \<longleftrightarrow>
     (if io_write_pending c
      then 0 < unat (io_write_length c) \<and> 512 dvd unat (io_write_length c) \<and> unat (io_completed c) + unat (io_write_length c) \<le> unat (io_encrypted c) \<and>
        (T = {#WriteNext#} \<or> T = {#Writing (io_completed c) (io_write_length c) (io_write_offset c)#} \<or> T = {#Written True#})
      else T = {#} \<and> io_completed c = io_encrypted c)"

text \<open>Positions, the encrypted bytes and the disk.\<close>

definition data_ok :: "xts_selected \<Rightarrow> dev_hook \<Rightarrow> bytes \<Rightarrow> nat \<Rightarrow> io_context \<Rightarrow> io_context \<Rightarrow> bytes \<Rightarrow> bool" where
  "data_ok S hook d0 first c0 c d \<longleftrightarrow> same_request c0 c \<and> \<not> io_discontinuous c \<and> 512 dvd unat (io_encrypted c) \<and> 512 dvd unat (io_completed c) \<and>
     unat (io_completed c) \<le> unat (io_encrypted c) \<and> unat (io_encrypted c) \<le> unat (io_length c) \<and>
     (unat (io_encrypted c) \<noteq> 0 \<longrightarrow> unat (io_write_offset c) = 512 * first + unat (io_completed c)) \<and>
     length (io_new_buff c) = unat (io_length c) \<and> (\<forall>i < unat (io_encrypted c) div 512. sec i (io_new_buff c) = written_sector S hook first c0 i) \<and>
     length d = length d0 \<and> (\<forall>p < length d0 div 512. sec p d =
       (if first \<le> p \<and> p < first + unat (io_completed c) div 512 then written_sector S hook first c0 (p - first) else sec p d0))"

text \<open>Finished activities of write completions that found nothing more to write may linger.\<close>

definition parts :: "dev_hook \<Rightarrow> nat \<Rightarrow> io_context \<Rightarrow> wtask multiset \<Rightarrow> bool" where
  "parts hook first c T \<longleftrightarrow> (\<exists>E W k. T = E + W + replicate_mset k (Written False) \<and> enc_part hook first c E \<and> write_part c W)"

text \<open>What is left to do, a measure of every run.\<close>

fun weight :: "wtask \<Rightarrow> nat" where
  "weight (Encrypting pos len key offset) = 1"
| "weight Encrypted = 2"
| "weight WriteNext = 2"
| "weight (Writing pos len offset) = 1"
| "weight (Written b) = 3"

definition to_do :: "'w wstate \<Rightarrow> nat" where
  "to_do s = 10 * (unat (io_length (ws_ctx s)) - unat (io_encrypted (ws_ctx s))) + 10 * (unat (io_length (ws_ctx s)) - unat (io_completed (ws_ctx s))) +
     sum_mset (image_mset weight (ws_tasks s))"

lemma not_redirected: "\<not> in_redirect hook p \<Longrightarrow> redirected hook p = p"
  by (auto simp: in_redirect_def redirected_def)

lemma same_request_boundary: "same_request c0 c \<Longrightarrow> io_boundary c = io_boundary c0"
  by (simp add: same_request_def io_boundary_def)

lemma write_part_frame:
  "io_write_pending c' = io_write_pending c \<Longrightarrow> io_write_length c' = io_write_length c \<Longrightarrow> io_completed c' = io_completed c \<Longrightarrow>
   io_encrypted c' = io_encrypted c \<Longrightarrow> io_write_offset c' = io_write_offset c \<Longrightarrow> write_part c' W = write_part c W"
  by (simp add: write_part_def)

lemma enc_part_frame:
  "io_encrypted c' = io_encrypted c \<Longrightarrow> io_chunk_length c' = io_chunk_length c \<Longrightarrow> io_chunk_diskof c' = io_chunk_diskof c \<Longrightarrow>
   io_chunk_offset c' = io_chunk_offset c \<Longrightarrow> io_length c' = io_length c \<Longrightarrow> io_boundary c' = io_boundary c \<Longrightarrow>
   io_snapshot_dsk_key c' = io_snapshot_dsk_key c \<Longrightarrow> io_snapshot_tmp_key c' = io_snapshot_tmp_key c \<Longrightarrow> enc_part hook first c' E = enc_part hook first c E"
  by (simp add: enc_part_def)

lemma data_ok_frame:
  assumes "data_ok S hook d0 first c0 c d" "same_request c c'" "io_discontinuous c' = io_discontinuous c" "io_encrypted c' = io_encrypted c"
    "io_completed c' = io_completed c" "io_write_offset c' = io_write_offset c" "io_new_buff c' = io_new_buff c"
  shows "data_ok S hook d0 first c0 c' d"
proof -
  have "io_length c' = io_length c" "same_request c0 c'" using assms(1,2) by (simp_all add: data_ok_def same_request_def)
  then show ?thesis using assms(1,3-) unfolding data_ok_def by simp
qed

text \<open>The next chunk: one task for the pool, nothing else changes.\<close>

lemma start_chunk:
  assumes lay: "io_layout hook" and req: "write_request S hook d0 first n c0" and data: "data_ok S hook d0 first c0 (ws_ctx u) d"
    and more: "unat (io_encrypted (ws_ctx u)) < unat (io_length (ws_ctx u))"
  shows "\<exists>c t. io_async_encrypt_chunk conf depth hook u = u\<lparr>ws_ctx := c, ws_tasks := add_mset t (ws_tasks u)\<rparr> \<and> weight t = 1 \<and>
    data_ok S hook d0 first c0 c d \<and> enc_part hook first c {#t#} \<and> (\<forall>W. write_part c W = write_part (ws_ctx u) W) \<and>
    io_encrypted c = io_encrypted (ws_ctx u) \<and> io_completed c = io_completed (ws_ctx u)"
proof -
  let ?c = "ws_ctx u"
  note D = data [unfolded data_ok_def] and Q = req [unfolded write_request_def]
  have same: "same_request c0 ?c" "io_boundary ?c = io_boundary c0" using D same_request_boundary by blast+
  have "request_ok hook c0" "io_offset ?c = io_offset c0" "io_length ?c = io_length c0" using Q same by (simp_all add: same_request_def)
  then have rok: "request_ok hook ?c" using same(2) by (simp add: request_ok_def)
  obtain q where q: "unat (io_encrypted ?c) = 512 * q" using D by auto
  have off: "unat (io_offset ?c) = 512 * first" "unat (io_length ?c) = 512 * n" using Q same by (simp_all add: same_request_def)
  have s: "first + q = (unat (io_offset ?c) + unat (io_encrypted ?c)) div 512" using off q by simp
  obtain p l key where mk: "io_async_make_chunk conf (depth (ws_dev u)) hook False ?c = chunk_set p l (io_encrypted ?c) key (in_redirect hook (first + q)) ?c"
    "unat p = 512 * redirected hook (first + q)" "0 < unat l" "unat l \<le> unat (io_length ?c) - unat (io_encrypted ?c)" "512 dvd unat l"
    "\<And>i. 512 * i < unat l \<Longrightarrow> redirected hook (first + q + i) = redirected hook (first + q) + i \<and> ctx_key hook ?c (redirected hook (first + q) + i) = key"
    by (rule make_chunk_spec [OF lay rok, of "io_encrypted ?c" False "first + q" conf "depth (ws_dev u)"]) (use more q s in auto)
  have "q < n" using more q off by simp
  then have nr: "\<not> in_redirect hook (first + q)" using Q by simp
  then have r: "redirected hook (first + q) = first + q" by (rule not_redirected)
  obtain m where m: "unat l = 512 * m" "0 < m" using mk(3,5) by auto
  let ?c' = "chunk_set p l (io_encrypted ?c) key False ?c"
  have "data_ok S hook d0 first c0 ?c' d" by (rule data_ok_frame [OF data]) (use D in \<open>simp_all add: same_request_def\<close>)
  moreover have "enc_part hook first ?c' {#Encrypting (io_encrypted ?c) l key (xts_offset hook p)#}"
    unfolding enc_part_def using m mk(2,4,6) r q more by (intro disjI2 exI [of _ m] exI [of _ key]) (auto simp: io_boundary_def)
  moreover have "io_async_encrypt_chunk conf depth hook u = u\<lparr>ws_ctx := ?c', ws_tasks := add_mset (Encrypting (io_encrypted ?c) l key (xts_offset hook p)) (ws_tasks u)\<rparr>"
    using mk(1) nr by (simp add: io_async_encrypt_chunk_def ws_spawn_def)
  moreover have "write_part ?c' W = write_part ?c W" for W by (rule write_part_frame) simp_all
  ultimately show ?thesis by (intro exI [of _ ?c'] exI [of _ "Encrypting (io_encrypted ?c) l key (xts_offset hook p)"]) simp
qed

context device_stack
begin

definition wi :: "xts_selected \<Rightarrow> dev_hook \<Rightarrow> bytes \<Rightarrow> nat \<Rightarrow> io_context \<Rightarrow> 'w wstate \<Rightarrow> bool" where
  "wi S hook d0 first c0 s \<longleftrightarrow> inv (ws_dev s) \<and> data_ok S hook d0 first c0 (ws_ctx s) (disk (ws_dev s)) \<and> parts hook first (ws_ctx s) (ws_tasks s)"

lemma wi_simps [simp]:
  "wi S hook d0 first c0 (ws_deref s) = wi S hook d0 first c0 s" "wi S hook d0 first c0 (ws_addref s) = wi S hook d0 first c0 s"
  "wi S hook d0 first c0 (s\<lparr>ws_refs := r\<rparr>) = wi S hook d0 first c0 s"
  by (simp_all add: wi_def ws_deref_def ws_addref_def Let_def)

lemma to_do_simps [simp]: "to_do (ws_deref s) = to_do s" "to_do (ws_addref s) = to_do s" "to_do (s\<lparr>ws_refs := r\<rparr>) = to_do s"
    "to_do (ws_spawn t s) = to_do s + weight t"
  by (simp_all add: to_do_def ws_deref_def ws_addref_def ws_spawn_def Let_def)

text \<open>A chunk is done in the pool.\<close>

lemma encrypt_complete_eq:
  fixes s :: "'v wstate" and e :: u32
  assumes "c1 = (ws_ctx s)\<lparr>io_encrypted := io_encrypted (ws_ctx s) + io_chunk_length (ws_ctx s),
      io_write_offset := (if io_chunk_offset (ws_ctx s) = 0 then io_chunk_diskof (ws_ctx s) else io_write_offset (ws_ctx s))\<rparr>"
  shows "io_chunk_encrypt_complete s =
     (if \<not> io_write_pending (ws_ctx s)
      then ws_spawn Encrypted (ws_spawn WriteNext (ws_addref (s\<lparr>ws_ctx := c1\<lparr>io_write_pending := True, io_write_length := io_encrypted c1 - io_completed c1\<rparr>\<rparr>)))
      else ws_spawn Encrypted (s\<lparr>ws_ctx := c1\<rparr>))"
  unfolding assms by (cases "ws_ctx s") (simp add: io_chunk_encrypt_complete_def Let_def)

lemma encrypting_step:
  assumes P: "pool_ok P" and lay: "io_layout hook" and req: "write_request S hook d0 first n c0"
    and inv: "inv (ws_dev u)" and data: "data_ok S hook d0 first c0 (ws_ctx u) (disk (ws_dev u))"
    and enc: "enc_part hook first (ws_ctx u) {#Encrypting pos len key offset#}" and wr: "write_part (ws_ctx u) W"
    and T: "ws_tasks u = W + replicate_mset k (Written False)"
  shows "\<exists>s'. run_task S P M conf depth hook (Encrypting pos len key offset) u = Some s' \<and> wi S hook d0 first c0 s' \<and> to_do s' < to_do u + 1"
proof -
  let ?c = "ws_ctx u"
  note D = data [unfolded data_ok_def] and Q = req [unfolded write_request_def]
  have same: "same_request c0 ?c" "io_boundary ?c = io_boundary c0" using D same_request_boundary by blast+
  obtain q where q: "unat (io_encrypted ?c) = 512 * q" using D by auto
  obtain m where e: "pos = io_encrypted ?c" "len = io_chunk_length ?c" "offset = xts_offset hook (io_chunk_diskof ?c)" "io_chunk_offset ?c = io_encrypted ?c"
    "unat (io_chunk_diskof ?c) = 512 * (first + q)" "unat (io_chunk_length ?c) = 512 * m" "0 < m" "512 * (q + m) \<le> unat (io_length ?c)"
    "\<And>i. i < m \<Longrightarrow> ctx_key hook ?c (first + q + i) = key"
    using enc q unfolding enc_part_def by auto
  have L: "unat (io_length ?c) = 512 * n" "length (io_buff ?c) = 512 * n" using Q same by (simp_all add: same_request_def)
  have keyeq: "ctx_key hook ?c = ctx_key hook c0" using same by (simp add: same_request_def)
  have "key = Some k \<Longrightarrow> good_key S k" for k
    using sector_key_good [of "io_snapshot_dsk_key c0" S "io_snapshot_tmp_key c0"] Q e(9) [of 0] e(7) keyeq by auto
  moreover have "512 * (first + q) + 512 * m \<le> 2 ^ 62"
    using Q e(8) L lay by (auto simp: request_ok_def io_layout_def)
  moreover have "512 * m + 2048 \<le> 2 ^ 32" "512 dvd unat (dh_head_len hook)" using Q e(8) L lay by (auto simp: io_layout_def)
  ultimately obtain b where b: "encrypt_chunk S P pos len key offset ?c = Some (?c\<lparr>io_new_buff := b\<rparr>)" "length b = length (io_new_buff ?c)"
      "\<forall>i. 512 * Suc i \<le> length (io_new_buff ?c) \<longrightarrow> sec i b =
        (if q \<le> i \<and> i < q + m then crypt_sector S hook True key (first + q + (i - q)) (sec i (io_buff ?c)) else sec i (io_new_buff ?c))"
    using encrypt_chunk_spec [OF P, of hook key S "io_chunk_diskof ?c" "first + q" len m pos q ?c] e q L Q D by auto
  have E': "unat (io_encrypted ?c + io_chunk_length ?c) = 512 * (q + m)"
    using q e(6,8) unsigned_less [of "io_length ?c", where ?'a = nat] by (subst unat_add_small) simp_all
  have new: "sec i b = written_sector S hook first c0 i" if i: "i < q + m" for i
  proof (cases "q \<le> i")
    case True
    have "ctx_key hook c0 (first + i) = key" using e(9) [of "i - q"] True i keyeq by simp
    then show ?thesis using b(3) True i e(8) L D same by (simp add: written_sector_def same_request_def)
  next
    case False
    then show ?thesis using b(3) i e(8) L D q by simp
  qed
  let ?c1 = "?c\<lparr>io_new_buff := b, io_encrypted := io_encrypted ?c + io_chunk_length ?c,
      io_write_offset := (if io_chunk_offset ?c = 0 then io_chunk_diskof ?c else io_write_offset ?c)\<rparr>"
  have z: "io_chunk_offset ?c = 0 \<longleftrightarrow> q = 0" using e(4) q by (simp add: unat_eq_zero [symmetric])
  have d1: "data_ok S hook d0 first c0 ?c1 (disk (ws_dev u))"
    using D same E' e(5,8) z q b(2) new by (auto simp: data_ok_def same_request_def)
  have run: "run_task S P M conf depth hook (Encrypting pos len key offset) u = Some (io_chunk_encrypt_complete (u\<lparr>ws_ctx := ?c\<lparr>io_new_buff := b\<rparr>\<rparr>))"
    using b(1) by simp
  note eq = encrypt_complete_eq [of ?c1 "u\<lparr>ws_ctx := ?c\<lparr>io_new_buff := b\<rparr>\<rparr>"]
  have up: "unat (io_encrypted ?c) < unat (io_encrypted ?c1)" "unat (io_encrypted ?c1) \<le> unat (io_length ?c)" using E' q e(7,8) by simp_all
  have enc1: "enc_part hook first c {#Encrypted#}" if "io_encrypted c = io_encrypted ?c1" for c using that up by (simp add: enc_part_def)
  show ?thesis
  proof (cases "io_write_pending ?c")
    case True
    then have s': "io_chunk_encrypt_complete (u\<lparr>ws_ctx := ?c\<lparr>io_new_buff := b\<rparr>\<rparr>) = ws_spawn Encrypted (u\<lparr>ws_ctx := ?c1\<rparr>)"
      by (subst eq) simp_all
    have "0 < q" using wr True q by (auto simp: write_part_def)
    then have "write_part ?c1 W" using wr True up z by (auto simp: write_part_def)
    then have "parts hook first ?c1 (add_mset Encrypted (ws_tasks u))"
      unfolding parts_def T by (intro exI [of _ "{#Encrypted#}"] exI [of _ W] exI [of _ k]) (simp add: enc1)
    then have "wi S hook d0 first c0 (ws_spawn Encrypted (u\<lparr>ws_ctx := ?c1\<rparr>))" using d1 inv by (simp add: wi_def ws_spawn_def)
    moreover have "to_do (ws_spawn Encrypted (u\<lparr>ws_ctx := ?c1\<rparr>)) < to_do u + 1" using up by (simp add: to_do_def ws_spawn_def ws_addref_def)
    ultimately show ?thesis using run s' by simp
  next
    case False
    let ?c2 = "?c1\<lparr>io_write_pending := True, io_write_length := io_encrypted ?c1 - io_completed ?c1\<rparr>"
    have s': "io_chunk_encrypt_complete (u\<lparr>ws_ctx := ?c\<lparr>io_new_buff := b\<rparr>\<rparr>) = ws_spawn Encrypted (ws_spawn WriteNext (ws_addref (u\<lparr>ws_ctx := ?c2\<rparr>)))"
      using False by (subst eq) simp_all
    have C: "io_completed ?c = io_encrypted ?c" "W = {#}" using wr False by (simp_all add: write_part_def)
    have "unat (io_encrypted ?c1 - io_completed ?c1) = 512 * m" using C(1) e(6) by simp
    then have "write_part ?c2 {#WriteNext#}" using C(1) E' q e(7) by (simp add: write_part_def)
    then have "parts hook first ?c2 (add_mset Encrypted (add_mset WriteNext (ws_tasks u)))"
      unfolding parts_def T C(2) by (intro exI [of _ "{#Encrypted#}"] exI [of _ "{#WriteNext#}"] exI [of _ k]) (simp add: enc1)
    moreover have "data_ok S hook d0 first c0 ?c2 (disk (ws_dev u))" by (rule data_ok_frame [OF d1]) (simp_all add: same_request_def)
    ultimately have "wi S hook d0 first c0 (ws_spawn Encrypted (ws_spawn WriteNext (ws_addref (u\<lparr>ws_ctx := ?c2\<rparr>))))"
      using inv by (simp add: wi_def ws_spawn_def ws_addref_def)
    moreover have "to_do (ws_spawn Encrypted (ws_spawn WriteNext (ws_addref (u\<lparr>ws_ctx := ?c2\<rparr>)))) < to_do u + 1" using up by (simp add: to_do_def ws_spawn_def ws_addref_def)
    ultimately show ?thesis using run s' by simp
  qed
qed

text \<open>The rest of the completion of a chunk starts the next one.\<close>

lemma encrypted_step:
  assumes lay: "io_layout hook" and req: "write_request S hook d0 first n c0"
    and inv: "inv (ws_dev u)" and data: "data_ok S hook d0 first c0 (ws_ctx u) (disk (ws_dev u))" and wr: "write_part (ws_ctx u) W"
    and T: "ws_tasks u = W + replicate_mset k (Written False)"
  shows "\<exists>s'. run_task S P M conf depth hook Encrypted u = Some s' \<and> wi S hook d0 first c0 s' \<and> to_do s' < to_do u + 2"
proof (cases "unat (io_encrypted (ws_ctx u)) < unat (io_length (ws_ctx u))")
  case True
  from start_chunk [OF lay req, of "ws_addref u" "disk (ws_dev u)" conf depth] data True
  obtain c t where c: "io_async_encrypt_chunk conf depth hook (ws_addref u) = (ws_addref u)\<lparr>ws_ctx := c, ws_tasks := add_mset t (ws_tasks u)\<rparr>" "weight t = 1"
      "data_ok S hook d0 first c0 c (disk (ws_dev u))" "enc_part hook first c {#t#}" "\<And>W. write_part c W = write_part (ws_ctx u) W"
      "io_encrypted c = io_encrypted (ws_ctx u)" "io_completed c = io_completed (ws_ctx u)"
    by (auto simp: ws_addref_def)
  let ?s = "(ws_addref u)\<lparr>ws_ctx := c, ws_tasks := add_mset t (ws_tasks u)\<rparr>"
  have "parts hook first c (add_mset t (ws_tasks u))"
    unfolding parts_def T using c(4,5) wr by (intro exI [of _ "{#t#}"] exI [of _ W] exI [of _ k]) simp
  then have "wi S hook d0 first c0 ?s" using inv c(3) by (simp add: wi_def ws_addref_def)
  moreover have "io_length c = io_length (ws_ctx u)" using c(3) data by (simp add: data_ok_def same_request_def)
  then have "to_do ?s < to_do u + 2" using c(2,6,7) by (simp add: to_do_def ws_addref_def)
  moreover have "\<not> io_discontinuous (ws_ctx u)" using data by (simp add: data_ok_def)
  then have "encrypt_next conf depth hook u = ws_deref ?s" using c(1) True by (simp add: encrypt_next_def word_less_nat_alt)
  ultimately show ?thesis by simp
next
  case False
  have "unat (io_encrypted (ws_ctx u)) \<le> unat (io_length (ws_ctx u))" using data by (simp add: data_ok_def)
  then have "io_encrypted (ws_ctx u) = io_length (ws_ctx u)" using False by (simp add: word_unat_eq_iff)
  then have "parts hook first (ws_ctx u) (ws_tasks u)"
    unfolding parts_def T using wr by (intro exI [of _ "{#}"] exI [of _ W] exI [of _ k]) (simp add: enc_part_def)
  then have "wi S hook d0 first c0 u" using inv data by (simp add: wi_def)
  then show ?thesis using False by (simp add: encrypt_next_def word_less_nat_alt)
qed

text \<open>A part that is encrypted goes to the lower driver.\<close>

lemma write_next_step:
  assumes inv: "inv (ws_dev u)" and data: "data_ok S hook d0 first c0 (ws_ctx u) (disk (ws_dev u))" and enc: "enc_part hook first (ws_ctx u) E"
    and wr: "write_part (ws_ctx u) {#WriteNext#}" and T: "ws_tasks u = E + replicate_mset k (Written False)"
  shows "\<exists>s'. run_task S P M conf depth hook WriteNext u = Some s' \<and> wi S hook d0 first c0 s' \<and> to_do s' < to_do u + 2"
proof -
  let ?c = "ws_ctx u" and ?t = "Writing (io_completed (ws_ctx u)) (io_write_length (ws_ctx u)) (io_write_offset (ws_ctx u))"
  have "io_write_next_chunk M u = ws_spawn ?t (u\<lparr>ws_dev := ws_dev u\<rparr>)" using alloc [OF inv] by (simp add: io_write_next_chunk_def Let_def)
  moreover have "write_part ?c {#?t#}" using wr by (auto simp: write_part_def split: if_splits)
  then have "parts hook first ?c (add_mset ?t (ws_tasks u))"
    unfolding parts_def T using enc by (intro exI [of _ E] exI [of _ "{#?t#}"] exI [of _ k]) simp
  then have "wi S hook d0 first c0 (ws_spawn ?t (u\<lparr>ws_dev := ws_dev u\<rparr>))" using inv data by (simp add: wi_def ws_spawn_def)
  ultimately show ?thesis by (simp add: to_do_def ws_spawn_def)
qed

text \<open>The lower driver has written a part.\<close>

lemma writing_step:
  assumes lay: "io_layout hook" and req: "write_request S hook d0 first n c0"
    and inv: "inv (ws_dev u)" and data: "data_ok S hook d0 first c0 (ws_ctx u) (disk (ws_dev u))" and enc: "enc_part hook first (ws_ctx u) E"
    and wr: "write_part (ws_ctx u) {#Writing pos len offset#}" and T: "ws_tasks u = E + replicate_mset k (Written False)"
  shows "\<exists>s'. run_task S P M conf depth hook (Writing pos len offset) u = Some s' \<and> wi S hook d0 first c0 s' \<and> to_do s' < to_do u + 1"
proof -
  let ?c = "ws_ctx u"
  note D = data [unfolded data_ok_def] and Q = req [unfolded write_request_def]
  have same: "same_request c0 ?c" using D by blast
  have L: "unat (io_length ?c) = 512 * n" "unat (io_offset ?c) = 512 * first" using Q same by (simp_all add: same_request_def)
  have w: "pos = io_completed ?c" "len = io_write_length ?c" "offset = io_write_offset ?c" "0 < unat len" "512 dvd unat len"
      "unat pos + unat len \<le> unat (io_encrypted ?c)" "io_write_pending ?c"
    using wr by (auto simp: write_part_def split: if_splits)
  obtain q m e where q: "unat pos = 512 * q" "unat len = 512 * m" "unat (io_encrypted ?c) = 512 * e" using D w(1,5) by (auto elim!: dvdE)
  have le: "q + m \<le> e" "0 < m" "e \<le> n" using w(4,6) q D L by auto
  have fit: "512 * q + 512 * m \<le> 512 * n" using le by simp
  have off: "unat offset = 512 * (first + q)" using D w(1,3) q le by simp
  have dsk: "512 * (first + n) \<le> length d0" using Q by (simp add: request_ok_def)
  then have on: "unat offset + unat len \<le> length (disk (ws_dev u))" using off q(2) le D by simp
  have buf: "unat len \<le> length (drop (unat pos) (io_new_buff ?c))" using q fit D L by simp
  from call_write [OF inv on buf] obtain w' where call: "im_call M (drop (unat pos) (io_new_buff ?c)) len offset False (ws_dev u) =
      Some (STATUS_SUCCESS, len, drop (unat pos) (io_new_buff ?c), w')" "inv w'"
      "disk w' = overlay (512 * (first + q)) (slice (512 * q) (512 * m) (io_new_buff ?c)) (disk (ws_dev u))"
    unfolding off q(1,2) by (auto simp: slice_def)
  have C': "unat (io_completed ?c + io_write_length ?c) = 512 * (q + m)"
    using w(1,2) q le unsigned_less [of "io_encrypted ?c", where ?'a = nat] by (subst unat_add_small) simp_all
  have W': "unat (io_write_offset ?c + ucast (io_write_length ?c)) = 512 * (first + (q + m))"
  proof -
    have "unat offset + unat (ucast len :: u64) < 2 ^ 64" using on size [OF inv] by simp
    from unat_add_u64 [OF this] show ?thesis using off q(2) w(2,3) by simp
  qed
  have R': "unat (io_encrypted ?c - (io_completed ?c + io_write_length ?c)) = 512 * (e - (q + m))"
    using C' q(3) le by (subst unat_sub) (simp_all add: word_le_nat_alt right_diff_distrib')
  let ?need = "io_encrypted ?c - (io_completed ?c + io_write_length ?c) \<noteq> 0"
  let ?c1 = "?c\<lparr>io_write_offset := io_write_offset ?c + ucast (io_write_length ?c), io_completed := io_completed ?c + io_write_length ?c,
      io_write_length := io_encrypted ?c - (io_completed ?c + io_write_length ?c), io_write_pending := ?need\<rparr>"
  let ?s = "ws_spawn (Written ?need) (u\<lparr>ws_dev := w', ws_ctx := ?c1\<rparr>)"
  have run: "run_task S P M conf depth hook (Writing pos len offset) u = Some ?s"
    using call(1) by (simp add: io_chunk_write_complete_def Let_def)
  have need: "?need \<longleftrightarrow> q + m < e" using R' le by (auto simp: unat_eq_zero [symmetric] simp del: unat_eq_zero)
  have sl: "length (slice (512 * q) (512 * m) (io_new_buff ?c)) = 512 * m" using q fit D L by simp
  have sect: "sec p (disk w') = (if first \<le> p \<and> p < first + (q + m) then written_sector S hook first c0 (p - first) else sec p d0)"
    if p: "p < length d0 div 512" for p
  proof -
    have p5: "512 * Suc p \<le> length (disk (ws_dev u))" using p D by auto
    have "sec p (disk w') = (if first + q \<le> p \<and> p < first + q + m then sec (p - (first + q)) (slice (512 * q) (512 * m) (io_new_buff ?c)) else sec p (disk (ws_dev u)))"
      unfolding call(3) by (rule sec_overlay [OF sl]) (use on off q(2) sl p5 in simp_all)
    moreover have "sec (p - (first + q)) (slice (512 * q) (512 * m) (io_new_buff ?c)) = written_sector S hook first c0 (p - first)" if "first + q \<le> p" "p < first + q + m"
    proof -
      have i: "p - (first + q) < m" "q + (p - (first + q)) = p - first" "p - first < e" using that le by auto
      have "sec (p - (first + q)) (slice (512 * q) (512 * m) (io_new_buff ?c)) = sec (p - first) (io_new_buff ?c)" unfolding sec_slice [OF i(1)] i(2) ..
      also have "\<dots> = written_sector S hook first c0 (p - first)" using D i(3) q(3) by simp
      finally show ?thesis .
    qed
    moreover have "sec p (disk (ws_dev u)) = (if first \<le> p \<and> p < first + q then written_sector S hook first c0 (p - first) else sec p d0)"
      using D p w(1) q(1) by simp
    ultimately show ?thesis by auto
  qed
  have "length (disk w') = length d0" using call(3) on off q(2) sl D by (simp add: length_overlay)
  then have d1: "data_ok S hook d0 first c0 ?c1 (disk w')"
    using D same C' W' sect le q(3) unfolding data_ok_def same_request_def by simp
  have "parts hook first ?c1 (add_mset (Written ?need) (ws_tasks u))"
  proof -
    have e1: "enc_part hook first ?c1 E" using enc by (rule enc_part_frame [THEN iffD2, rotated -1]) (simp_all add: io_boundary_def)
    show ?thesis
    proof (cases ?need)
      case True
      then have "write_part ?c1 {#Written True#}" using R' C' q(3) need by (simp add: write_part_def)
      then show ?thesis unfolding parts_def T using e1 True by (intro exI [of _ E] exI [of _ "{#Written True#}"] exI [of _ k]) simp
    next
      case False
      then have "io_completed ?c1 = io_encrypted ?c1" by simp
      then have "write_part ?c1 {#}" using False by (simp add: write_part_def)
      then show ?thesis unfolding parts_def T using e1 False by (intro exI [of _ E] exI [of _ "{#}"] exI [of _ "Suc k"]) simp
    qed
  qed
  then have "wi S hook d0 first c0 ?s" using d1 call(2) by (simp add: wi_def ws_spawn_def)
  moreover have "to_do ?s < to_do u + 1"
    using C' q(1) w(1) le L q(3) by (simp add: to_do_def ws_spawn_def)
  ultimately show ?thesis using run by simp
qed

text \<open>The rest of the completion of a write.\<close>

lemma written_step:
  assumes inv: "inv (ws_dev u)" and data: "data_ok S hook d0 first c0 (ws_ctx u) (disk (ws_dev u))" and enc: "enc_part hook first (ws_ctx u) E"
    and T: "ws_tasks u = E + W + replicate_mset k (Written False)" and wr: "if need then W = {#} \<and> write_part (ws_ctx u) {#Written True#} else write_part (ws_ctx u) W"
  shows "\<exists>s'. run_task S P M conf depth hook (Written need) u = Some s' \<and> wi S hook d0 first c0 s' \<and> to_do s' < to_do u + 3"
proof (cases need)
  case False
  then have "wi S hook d0 first c0 u" using inv data enc T wr by (auto simp: wi_def parts_def)
  moreover have "write_rest conf depth hook need u = ws_deref u" using False data by (simp add: write_rest_def data_ok_def)
  ultimately show ?thesis by simp
next
  case True
  then have "write_part (ws_ctx u) {#WriteNext#}" using wr by (auto simp: write_part_def split: if_splits)
  then have "parts hook first (ws_ctx u) (add_mset WriteNext (ws_tasks u))"
    unfolding parts_def T using True wr enc by (intro exI [of _ E] exI [of _ "{#WriteNext#}"] exI [of _ k]) simp
  then have "wi S hook d0 first c0 (ws_spawn WriteNext (ws_addref u))" using inv data by (simp add: wi_def ws_spawn_def ws_addref_def)
  moreover have "write_rest conf depth hook need u = ws_deref (ws_spawn WriteNext (ws_addref u))" using True data by (simp add: write_rest_def data_ok_def)
  ultimately show ?thesis by simp
qed

lemma part_single:
  "enc_part hook first c E \<Longrightarrow> t \<in># E \<Longrightarrow> E = {#t#}" "write_part c W \<Longrightarrow> t \<in># W \<Longrightarrow> W = {#t#}"
  by (auto simp: enc_part_def write_part_def split: if_splits)

text \<open>Every activity can take its step, keeps the invariant and lowers the measure.\<close>

lemma task_step:
  assumes P: "pool_ok P" and lay: "io_layout hook" and req: "write_request S hook d0 first n c0"
    and wi: "wi S hook d0 first c0 s" and t: "t \<in># ws_tasks s"
  shows "\<exists>s'. run_task S P M conf depth hook t (s\<lparr>ws_tasks := ws_tasks s - {#t#}\<rparr>) = Some s' \<and> wi S hook d0 first c0 s' \<and> to_do s' < to_do s"
proof -
  let ?u = "s\<lparr>ws_tasks := ws_tasks s - {#t#}\<rparr>"
  obtain E W k where T: "ws_tasks s = E + W + replicate_mset k (Written False)" and enc: "enc_part hook first (ws_ctx s) E" and wr: "write_part (ws_ctx s) W"
    using wi by (auto simp: wi_def parts_def)
  have I: "inv (ws_dev ?u)" "data_ok S hook d0 first c0 (ws_ctx ?u) (disk (ws_dev ?u))" using wi by (simp_all add: wi_def)
  have todo: "to_do s = to_do ?u + weight t" using t by (auto simp: to_do_def dest!: multi_member_split)
  consider (e) "E = {#t#}" | (w) "W = {#t#}" | (rest) k' where "k = Suc k'" "t = Written False"
  proof -
    consider "t \<in># E" | "t \<in># W" | "t \<in># replicate_mset k (Written False)" using t T by auto
    then show thesis
    proof cases
      case 3
      then show thesis using that(3) by (cases k) (auto split: if_splits)
    qed (use part_single(1) [OF enc, of t] part_single(2) [OF wr, of t] that(1,2) in blast)+
  qed
  then show ?thesis
  proof cases
    case e
    then have T': "ws_tasks ?u = W + replicate_mset k (Written False)" using T by simp
    from e enc have "enc_part hook first (ws_ctx ?u) {#t#}" by simp
    then have et: "enc_part hook first (ws_ctx ?u) {#t#}" .
    then consider "t = Encrypted" | pos len key offset where "t = Encrypting pos len key offset" by (auto simp: enc_part_def)
    then show ?thesis
    proof cases
      case 1
      have "write_part (ws_ctx ?u) W" using wr by simp
      from encrypted_step [OF lay req I this T', where P = P and conf = conf and depth = depth] show ?thesis unfolding todo 1 weight.simps .
    next
      case 2
      have "write_part (ws_ctx ?u) W" using wr by simp
      moreover have "enc_part hook first (ws_ctx ?u) {#Encrypting pos len key offset#}" using et 2 by simp
      ultimately show ?thesis using encrypting_step [OF P lay req I _ _ T', where conf = conf and depth = depth] unfolding todo 2 weight.simps by blast
    qed
  next
    case w
    then have T': "ws_tasks ?u = E + replicate_mset k (Written False)" using T by simp
    have wt: "write_part (ws_ctx ?u) {#t#}" using w wr by simp
    then consider "t = WriteNext" | pos len offset where "t = Writing pos len offset" | "t = Written True" by (auto simp: write_part_def split: if_splits)
    then show ?thesis
    proof cases
      case 1
      then show ?thesis using write_next_step [OF I _ _ T', where P = P and conf = conf and depth = depth] enc wt todo by auto
    next
      case 2
      then show ?thesis using writing_step [OF lay req I _ _ T', where P = P and conf = conf and depth = depth] enc wt todo by auto
    next
      case 3
      then show ?thesis using written_step [OF I, where E = E and W = "{#}" and k = k and need = True and P = P and conf = conf and depth = depth] enc wt todo T' by auto
    qed
  next
    case rest
    then have "ws_tasks ?u = E + W + replicate_mset k' (Written False)" using T by simp
    then show ?thesis using written_step [OF I, where E = E and W = W and k = k' and need = False and P = P and conf = conf and depth = depth] enc wr todo rest by auto
  qed
qed

lemma write_step_wi:
  assumes "pool_ok P" "io_layout hook" "write_request S hook d0 first n c0" "wi S hook d0 first c0 s"
  shows "write_step S P M conf depth hook s s' \<Longrightarrow> wi S hook d0 first c0 s' \<and> to_do s' < to_do s"
    and "ws_tasks s \<noteq> {#} \<Longrightarrow> \<exists>s'. write_step S P M conf depth hook s s'"
proof -
  assume "write_step S P M conf depth hook s s'"
  then obtain t where "t \<in># ws_tasks s" "run_task S P M conf depth hook t (s\<lparr>ws_tasks := ws_tasks s - {#t#}\<rparr>) = Some s'" by cases
  then show "wi S hook d0 first c0 s' \<and> to_do s' < to_do s" using task_step [OF assms, where t = t and conf = conf and depth = depth] by auto
next
  assume "ws_tasks s \<noteq> {#}"
  then obtain t where t: "t \<in># ws_tasks s" by blast
  then show "\<exists>s'. write_step S P M conf depth hook s s'" using task_step [OF assms t, where conf = conf and depth = depth] write_step.task [OF t] by metis
qed

lemma write_run:
  assumes "pool_ok P" "io_layout hook" "write_request S hook d0 first n c0" "wi S hook d0 first c0 s"
  shows "(write_step S P M conf depth hook ^^ k) s s' \<Longrightarrow> wi S hook d0 first c0 s' \<and> to_do s' + k \<le> to_do s"
proof (induction k arbitrary: s')
  case 0
  then show ?case using assms(4) by simp
next
  case (Suc k)
  then obtain v where "(write_step S P M conf depth hook ^^ k) s v" "write_step S P M conf depth hook v s'" by auto
  then show ?case using Suc.IH write_step_wi(1) [OF assms(1-3)] by fastforce
qed

text \<open>When nothing is under way any more, all has been written.\<close>

lemma finished:
  assumes req: "write_request S hook d0 first n c0" and wi: "wi S hook d0 first c0 s" and "ws_tasks s = {#}"
  shows "length (disk (ws_dev s)) = length d0" "p < length d0 div 512 \<Longrightarrow>
    sec p (disk (ws_dev s)) = (if first \<le> p \<and> p < first + n then written_sector S hook first c0 (p - first) else sec p d0)"
proof -
  obtain E W k where T: "{#} = E + W + replicate_mset k (Written False)" and enc: "enc_part hook first (ws_ctx s) E" and wr: "write_part (ws_ctx s) W"
    and D: "data_ok S hook d0 first c0 (ws_ctx s) (disk (ws_dev s))"
    using wi assms(3) by (auto simp: wi_def parts_def)
  then have "E = {#}" "W = {#}" by simp_all
  then have "io_encrypted (ws_ctx s) = io_length (ws_ctx s)" "io_completed (ws_ctx s) = io_encrypted (ws_ctx s)"
    using enc wr by (auto simp: enc_part_def write_part_def split: if_splits)
  moreover have "unat (io_length (ws_ctx s)) = 512 * n" using D req by (simp add: data_ok_def same_request_def write_request_def)
  ultimately have "unat (io_completed (ws_ctx s)) div 512 = n" by simp
  then show "length (disk (ws_dev s)) = length d0" "p < length d0 div 512 \<Longrightarrow>
    sec p (disk (ws_dev s)) = (if first \<le> p \<and> p < first + n then written_sector S hook first c0 (p - first) else sec p d0)"
    using D unfolding data_ok_def by simp_all
qed

end

section \<open>Properties\<close>

lemma not_straddling:
  assumes "io_layout hook" "\<And>i. i < n \<Longrightarrow> \<not> in_redirect hook (first + i)"
  shows "\<not> straddles hook (512 * first) (512 * n)"
proof
  assume st: "straddles hook (512 * first) (512 * n)"
  have "512 dvd unat (dh_dsk_size hook) - unat (dh_tail_len hook)" using assms(1) by (auto simp: io_layout_def intro!: dvd_diff_nat)
  then obtain q where q: "unat (dh_dsk_size hook) - unat (dh_tail_len hook) = 512 * q" by auto
  have "q - first < n" "first + (q - first) = q" using st unfolding straddles_def q by auto
  then have "\<not> in_redirect hook q" using assms(2) [of "q - first"] by simp
  then show False using st unfolding straddles_def in_redirect_def q by auto
qed

text \<open>The disk after a write of \<open>buff\<close> to the sectors from \<open>first\<close> on.\<close>

definition written_disk :: "xts_selected \<Rightarrow> dev_hook \<Rightarrow> io_snapshot \<Rightarrow> nat \<Rightarrow> nat \<Rightarrow> bytes \<Rightarrow> bytes \<Rightarrow> bytes \<Rightarrow> bool" where
  "written_disk S hook sn first n buff d d' \<longleftrightarrow> length d' = length d \<and> (\<forall>p < length d div 512. sec p d' =
     (if first \<le> p \<and> p < first + n
      then crypt_sector S hook True (sector_key hook (if sn_trans_io sn then sn_boundary sn else 0) (sn_dsk_key sn) (sn_tmp_key sn) p) p (sec (p - first) buff)
      else sec p d))"

definition write_state :: "dev_hook \<Rightarrow> io_snapshot \<Rightarrow> u64 \<Rightarrow> u64 \<Rightarrow> u32 \<Rightarrow> bytes \<Rightarrow> 'w \<Rightarrow> 'w wstate" where
  "write_state hook sn expect_off offset len buff w = \<lparr>ws_ctx = io_context_init hook sn expect_off offset len buff\<lparr>io_new_buff := replicate (unat len) 0\<rparr>,
     ws_tasks = {#}, ws_refs = 1, ws_done = [], ws_dev = w\<rparr>"

lemma request_on_disk:
  assumes "io_request hook sn d offset len first n" "i < n"
  shows "512 * (first + i) < unat (dh_dsk_size hook)"
proof -
  obtain k a where k: "unat offset = 512 * k" "unat (dh_head_len hook) = 512 * a" using assms(1) by (auto simp: io_request_def io_layout_def elim!: dvdE)
  have "unat offset + unat len + (if dh_flags hook AND F_NO_REDIRECT = 0 then 0 else unat (dh_head_len hook)) \<le> unat (dh_dsk_size hook)"
    using assms(1) by (simp add: io_request_def io_layout_def)
  moreover have "first = (if dh_flags hook AND F_NO_REDIRECT \<noteq> 0 then a + k else k)" "unat len = 512 * n" using assms(1) k by (simp_all add: io_request_def)
  ultimately show ?thesis using assms(2) k by (simp split: if_splits)
qed

context device_stack
begin

lemma write_start:
  fixes expect_off :: u64
  assumes A: "aes_core_ok A" and w: "inv w" and rq: "io_request hook sn (disk w) offset len first n" and "io_check_request hook False offset len = None"
    and nr: "\<And>i. i < n \<Longrightarrow> \<not> in_redirect hook (first + i)" and buf: "length buff = unat len"
  defines "c0 \<equiv> io_context_init hook sn expect_off offset len buff\<lparr>io_new_buff := replicate (unat len) 0\<rparr>"
  shows "\<exists>s. io_encrypted_write M conf depth hook sn expect_off offset len buff w = Inr s \<and> wi (scalar_selection A) hook (disk w) first c0 s \<and>
    write_request (scalar_selection A) hook (disk w) first n c0 \<and> refs_ok s \<and> all_ok s \<and> to_do s \<le> 20 * unat len + 1"
proof -
  note R = rq [unfolded io_request_def]
  let ?S = "scalar_selection A" and ?u = "write_state hook sn expect_off offset len buff w"
  have u: "ws_ctx ?u = c0" "ws_dev ?u = w" "ws_tasks ?u = {#}" by (simp_all add: write_state_def c0_def)
  have prep: "io_encrypted_write M conf depth hook sn expect_off offset len buff w = Inr (io_async_encrypt_chunk conf depth hook ?u)"
    using alloc [OF w] assms(4) by (simp add: io_encrypted_write_def io_prepare_def write_state_def)
  have flds: "io_length c0 = len" "io_buff c0 = buff" "io_completed c0 = 0" "io_encrypted c0 = 0" "io_snapshot_dsk_key c0 = sn_dsk_key sn"
      "io_snapshot_tmp_key c0 = sn_tmp_key sn" "io_boundary c0 = (if sn_trans_io sn then sn_boundary sn else 0)" "length (io_new_buff c0) = unat len"
      "\<not> io_discontinuous c0" "\<not> io_write_pending c0" "io_status c0 = STATUS_SUCCESS"
    by (simp_all add: c0_def io_context_init_def io_boundary_def)
  obtain k where k: "unat offset = 512 * k" using R by auto
  have dsk: "unat (dh_dsk_size hook) < 2 ^ 62" "512 dvd unat (dh_head_len hook)" using R by (auto simp: io_layout_def)
  have off: "unat (io_offset c0) = 512 * first"
  proof (cases "dh_flags hook AND F_NO_REDIRECT \<noteq> 0")
    case True
    have "unat (offset + ucast (dh_head_len hook)) = unat offset + unat (dh_head_len hook)"
      using R dsk(1) True by (intro trans [OF unat_add_u64]) (auto simp: io_layout_def)
    then show ?thesis using True dsk(2) R k by (simp add: io_context_init_def c0_def)
  next
    case False
    then show ?thesis using R k by (simp add: io_context_init_def c0_def)
  qed
  have "unat (io_offset c0) + unat len \<le> unat (dh_dsk_size hook)" using off R k dsk(2) by (auto simp: io_layout_def)
  then have "request_ok hook c0"
    unfolding request_ok_def flds using off R not_straddling [of hook n first] nr by simp
  moreover have "unat (dh_head_len hook) \<le> 512 * first" if "dh_flags hook AND F_NO_REDIRECT \<noteq> 0" using that R dsk(2) by (auto elim!: dvdE)
  moreover have "good_key ?S k" if "sn_dsk_key sn = Some k \<or> sn_tmp_key sn = Some k" for k using that R made_key_good [OF A] by blast
  ultimately have req: "write_request ?S hook (disk w) first n c0"
    unfolding write_request_def flds using off R nr buf by simp
  have data: "data_ok ?S hook (disk w) first c0 c0 (disk w)"
    by (simp add: data_ok_def same_request_def flds)
  have more: "unat (io_encrypted c0) < unat (io_length c0)" using R by (simp add: flds)
  from start_chunk [OF _ req, of ?u "disk w" conf depth] R data more
  obtain c t where c: "io_async_encrypt_chunk conf depth hook ?u = ?u\<lparr>ws_ctx := c, ws_tasks := add_mset t {#}\<rparr>" "weight t = 1"
    "data_ok ?S hook (disk w) first c0 c (disk w)" "enc_part hook first c {#t#}" "\<And>W. write_part c W = write_part c0 W" "io_encrypted c = 0" "io_completed c = 0"
    by (auto simp: u flds)
  let ?s = "?u\<lparr>ws_ctx := c, ws_tasks := add_mset t {#}\<rparr>"
  have "write_part c {#}" unfolding c(5) by (simp add: write_part_def flds)
  then have "parts hook first c {#t#}" unfolding parts_def using c(4) by (intro exI [of _ "{#t#}"] exI [of _ "{#}"] exI [of _ 0]) simp
  then have "wi ?S hook (disk w) first c0 ?s" using c(3) w by (simp add: wi_def u)
  moreover have "refs_ok ?s" by (simp add: refs_ok_def write_state_def)
  moreover have "io_length c = len" using c(3) flds(1) by (simp add: data_ok_def same_request_def)
  then have "to_do ?s \<le> 20 * unat len + 1" using c(2,6,7) by (simp add: to_do_def)
  moreover have "all_ok ?u" using flds(11) by (simp add: all_ok_def u) (simp add: write_state_def)
  then have "all_ok (io_async_encrypt_chunk conf depth hook ?u)" by simp
  ultimately show ?thesis using prep req c(1) by simp
qed

lemma write_runs:
  assumes "pool_ok P" "io_layout hook" "write_request S hook d0 first n c0" "wi S hook d0 first c0 s0" "refs_ok s0" "all_ok s0"
    and run: "(write_step S P M conf depth hook ^^ k) s0 s"
  shows "wi S hook d0 first c0 s \<and> refs_ok s \<and> all_ok s \<and> k \<le> to_do s0"
proof -
  have "all_ok s \<and> wi S hook d0 first c0 s" using run
  proof (induction k arbitrary: s)
    case (Suc k)
    from Suc.prems obtain v where kv: "(write_step S P M conf depth hook ^^ k) s0 v" "write_step S P M conf depth hook v s" by (rule relpowp_Suc_E)
    then have v: "all_ok v" "wi S hook d0 first c0 v" "write_step S P M conf depth hook v s" using Suc.IH [OF kv(1)] by simp_all
    from v(3) obtain t where t: "run_task S P M conf depth hook t (v\<lparr>ws_tasks := ws_tasks v - {#t#}\<rparr>) = Some s" by cases
    have "fst (im_alloc M (ws_dev (v\<lparr>ws_tasks := ws_tasks v - {#t#}\<rparr>)))" using alloc v(2) by (simp add: wi_def)
    then have "all_ok s" using v(1) by (intro run_task_status [OF _ _ t]) (simp_all only: all_ok_simps)
    then show ?case using write_step_wi(1) [OF assms(1-3) v(2,3)] by simp
  qed (use assms in simp)
  moreover have "refs_ok s" by (rule steps_refs [OF relpowp_imp_rtranclp [OF run] assms(5)])
  ultimately show ?thesis using write_run [OF assms(1-4) run] by simp
qed

text \<open>All of it: what the end of a run is.\<close>


lemma write_ends:
  assumes A: "aes_core_ok A" and w: "inv w" and P: "pool_ok P" and rq: "io_request hook sn (disk w) offset len first n" and chk: "io_check_request hook False offset len = None"
    and nr: "\<And>i. i < n \<Longrightarrow> \<not> in_redirect hook (first + i)" and buf: "length buff = unat len"
  shows "\<exists>s0. io_encrypted_write M conf depth hook sn expect_off offset len buff w = Inr s0 \<and>
    (\<forall>k s. (write_step (scalar_selection A) P M conf depth hook ^^ k) s0 s \<longrightarrow> k \<le> 20 * unat len + 1) \<and>
    (\<forall>s. (write_step (scalar_selection A) P M conf depth hook)\<^sup>*\<^sup>* s0 s \<longrightarrow>
      (ws_tasks s \<noteq> {#} \<longrightarrow> ws_done s = [] \<and> (\<exists>s'. write_step (scalar_selection A) P M conf depth hook s s')) \<and>
      (ws_tasks s = {#} \<longrightarrow> ws_done s = [STATUS_SUCCESS] \<and> inv (ws_dev s) \<and> written_disk (scalar_selection A) hook sn first n buff (disk w) (disk (ws_dev s))))"
proof -
  let ?S = "scalar_selection A"
  let ?c0 = "io_context_init hook sn expect_off offset len buff\<lparr>io_new_buff := replicate (unat len) 0\<rparr>"
  from write_start [OF A w rq chk nr buf, where expect_off = expect_off and conf = conf and depth = depth]
  obtain s0 where s0: "io_encrypted_write M conf depth hook sn expect_off offset len buff w = Inr s0"
    "wi ?S hook (disk w) first ?c0 s0" "write_request ?S hook (disk w) first n ?c0" "refs_ok s0" "all_ok s0" "to_do s0 \<le> 20 * unat len + 1"
    by blast
  have lay: "io_layout hook" using rq by (simp add: io_request_def)
  let ?key = "\<lambda>p. sector_key hook (if sn_trans_io sn then sn_boundary sn else 0) (sn_dsk_key sn) (sn_tmp_key sn) p"
  have wr: "written_sector ?S hook first ?c0 i = crypt_sector ?S hook True (?key (first + i)) (first + i) (sec i buff)" for i
    by (simp add: written_sector_def io_context_init_def io_boundary_def)
  note runs = write_runs [OF P lay s0(3,2,4,5)]
  have run: "wi ?S hook (disk w) first ?c0 s \<and> refs_ok s \<and> all_ok s" if "(write_step ?S P M conf depth hook)\<^sup>*\<^sup>* s0 s" for s
    using rtranclp_imp_relpowp [OF that] runs by blast
  have fin: "ws_done s = [STATUS_SUCCESS] \<and> inv (ws_dev s) \<and> written_disk ?S hook sn first n buff (disk w) (disk (ws_dev s))"
    if r: "(write_step ?S P M conf depth hook)\<^sup>*\<^sup>* s0 s" "ws_tasks s = {#}" for s
  proof -
    have "length (ws_done s) = 1" "set (ws_done s) \<subseteq> {STATUS_SUCCESS}" using run [OF r(1)] r(2) by (simp_all add: refs_ok_def all_ok_def)
    then have "ws_done s = [STATUS_SUCCESS]" by (cases "ws_done s") auto
    then show ?thesis using run [OF r(1)] finished [OF s0(3) _ r(2)] wr by (simp add: wi_def written_disk_def)
  qed
  have go: "ws_done s = [] \<and> (\<exists>s'. write_step ?S P M conf depth hook s s')" if "(write_step ?S P M conf depth hook)\<^sup>*\<^sup>* s0 s" "ws_tasks s \<noteq> {#}" for s
    using run [OF that(1)] that(2) write_step_wi(2) [OF P lay s0(3)] by (simp add: refs_ok_def)
  have bound: "k \<le> 20 * unat len + 1" if "(write_step ?S P M conf depth hook ^^ k) s0 s" for k s using runs [OF that] s0(6) by simp
  show ?thesis using s0(1) bound go fin by blast
qed

end

text \<open>A sample: sectors 1 and 2 of the volume that the reading sample uses, the second behind the boundary.\<close>

lemma runs_end:
  assumes "\<And>k s. (R ^^ k) s0 s \<Longrightarrow> k \<le> (b :: nat)" "\<And>s. R\<^sup>*\<^sup>* s0 s \<Longrightarrow> \<not> fin s \<Longrightarrow> \<exists>s'. R s s'"
  shows "\<exists>s. R\<^sup>*\<^sup>* s0 s \<and> fin s"
proof (rule ccontr)
  assume no: "\<not> ?thesis"
  have "\<exists>s. (R ^^ k) s0 s" for k
  proof (induction k)
    case (Suc k)
    then obtain s where k: "(R ^^ k) s0 s" by blast
    then show ?case using assms(2) [OF relpowp_imp_rtranclp [OF k]] no relpowp_imp_rtranclp [OF k] relpowp_Suc_I by metis
  qed auto
  then show False using assms(1) [of "Suc b"] by fastforce
qed

definition sample_pool :: fc_pool where "sample_pool = \<lparr>fc_x64 = True, fc_cpus = 4, fc_mem = True\<rparr>"

definition sample_disk :: dc_buffer where "sample_disk = \<lparr>b_data = Some (replicate 2048 7), b_size = 2048\<rparr>"

lemma sample_request:
  "buffer_inv sample_disk" "pool_ok sample_pool" "io_request read_hook read_snapshot (buffer_disk sample_disk) 512 1024 1 2"
  "io_check_request read_hook False 512 1024 = None" "i < 2 \<Longrightarrow> \<not> in_redirect read_hook (1 + i)"
proof -
  have fl: "dh_flags read_hook AND F_NO_REDIRECT = 0" "dh_flags read_hook AND F_HEAD_BACKUP = 0" by (simp_all add: read_hook_def f_defs)
  show "buffer_inv sample_disk" "pool_ok sample_pool" by (simp_all add: buffer_inv_def pool_ok_def MAX_CPU_COUNT_def sample_pool_def sample_disk_def)
  have "xts_set_key (replicate 64 5) CF_SERPENT undefined = (1, snd (xts_set_key (replicate 64 5) CF_SERPENT undefined))"
    by (simp add: xts_set_key_def cf_defs)
  then have "made_key (sn_dsk_key read_snapshot)" "made_key (sn_tmp_key read_snapshot)" by (auto simp: made_key_def read_snapshot_def)
  moreover have "io_layout read_hook" by (simp add: io_layout_def read_hook_def f_defs)
  moreover have "length (buffer_disk sample_disk) = 2048" by (simp add: buffer_disk_def sample_disk_def)
  ultimately show "io_request read_hook read_snapshot (buffer_disk sample_disk) 512 1024 1 2"
    unfolding io_request_def using fl by (simp add: read_hook_def read_snapshot_def)
  show "io_check_request read_hook False 512 1024 = None"
    by (simp add: io_check_request_def is_intersect_def read_hook_def f_defs SECTOR_SIZE_def)
  show "i < 2 \<Longrightarrow> \<not> in_redirect read_hook (1 + i)" using fl by (simp add: in_redirect_def) (simp add: read_hook_def)
qed

lemma sample_run:
  obtains s0 s k where "io_encrypted_write buffer_stack 0 (\<lambda>w. 1) read_hook read_snapshot 0 512 1024 (replicate 1024 5) sample_disk = Inr s0"
    "(write_step (scalar_selection fips197_core) sample_pool buffer_stack 0 (\<lambda>w. 1) read_hook ^^ k) s0 s" "ws_tasks s = {#}"
proof -
  let ?R = "write_step (scalar_selection fips197_core) sample_pool buffer_stack 0 (\<lambda>w. 1) read_hook"
  have len: "length (replicate 1024 (5 :: u8)) = unat (1024 :: u32)" by simp
  from buffer_stack.write_ends [OF fips197_core_ok sample_request(1-5) len, of 0 "\<lambda>w. 1" 0] obtain s0 where
    s0: "io_encrypted_write buffer_stack 0 (\<lambda>w. 1) read_hook read_snapshot 0 512 1024 (replicate 1024 5) sample_disk = Inr s0"
      "\<And>k s. (?R ^^ k) s0 s \<Longrightarrow> k \<le> 20 * unat (1024 :: u32) + 1" "\<And>s. ?R\<^sup>*\<^sup>* s0 s \<Longrightarrow> ws_tasks s \<noteq> {#} \<Longrightarrow> \<exists>s'. ?R s s'" by blast
  have "\<exists>s. ?R\<^sup>*\<^sup>* s0 s \<and> ws_tasks s = {#}"
    by (rule runs_end [where b = "20 * unat (1024 :: u32) + 1"]) (rule s0(2), assumption, rule s0(3))
  then obtain s where "?R\<^sup>*\<^sup>* s0 s" "ws_tasks s = {#}" by blast
  then show thesis using that [OF s0(1)] by (blast dest: rtranclp_imp_relpowp)
qed

text \<open>
  C2 (refinement): what a write of a mounted volume does, in every interleaving of the pool, the lower driver and
  the work queue.  For a request outside the redirected ranges, every state a run can reach either has an activity
  that can take its next step and has not completed the request, or it is the end: the request has been completed
  once, with success, exactly its sectors of the disk hold the encrypted bytes, each under the key the boundary of
  its snapshot gives its place, and no other sector has changed.
\<close>

theorem write_pipeline_writes:
  assumes "device_stack M disk ok" and "ok w" and "aes_core_ok A" and "pool_ok P"
    and "io_request hook sn (disk w) offset len first n" and "io_check_request hook False offset len = None"
    and "\<And>i. i < n \<Longrightarrow> \<not> in_redirect hook (first + i)" and "length buff = unat len"
  shows "\<exists>s0. io_encrypted_write M conf depth hook sn expect_off offset len buff w = Inr s0 \<and>
    (\<forall>s. (write_step (scalar_selection A) P M conf depth hook)\<^sup>*\<^sup>* s0 s \<longrightarrow>
      (ws_tasks s \<noteq> {#} \<longrightarrow> ws_done s = [] \<and> (\<exists>s'. write_step (scalar_selection A) P M conf depth hook s s')) \<and>
      (ws_tasks s = {#} \<longrightarrow> ws_done s = [STATUS_SUCCESS] \<and> written_disk (scalar_selection A) hook sn first n buff (disk w) (disk (ws_dev s))))"
  using device_stack.write_ends [OF assms(1,3,2,4-8), of conf depth expect_off] by blast

theorem write_pipeline_writes_witness:
  "\<exists>s0 s. io_encrypted_write buffer_stack 0 (\<lambda>w. 1) read_hook read_snapshot 0 512 1024 (replicate 1024 5) sample_disk = Inr s0 \<and>
    (write_step (scalar_selection fips197_core) sample_pool buffer_stack 0 (\<lambda>w. 1) read_hook)\<^sup>*\<^sup>* s0 s \<and> ws_done s = [STATUS_SUCCESS] \<and>
    written_disk (scalar_selection fips197_core) read_hook read_snapshot 1 2 (replicate 1024 5) (buffer_disk sample_disk) (buffer_disk (ws_dev s))"
proof -
  have len: "length (replicate 1024 (5 :: u8)) = unat (1024 :: u32)" by simp
  obtain s0 s k where s: "io_encrypted_write buffer_stack 0 (\<lambda>w. 1) read_hook read_snapshot 0 512 1024 (replicate 1024 5) sample_disk = Inr s0"
    "(write_step (scalar_selection fips197_core) sample_pool buffer_stack 0 (\<lambda>w. 1) read_hook ^^ k) s0 s" "ws_tasks s = {#}" by (rule sample_run)
  from write_pipeline_writes [OF buffer_stack.device_stack_axioms sample_request(1) fips197_core_ok sample_request(2-5) len, of 0 "\<lambda>w. 1" 0]
  show ?thesis using s relpowp_imp_rtranclp [OF s(2)] by (metis sum.inject(2))
qed

text \<open>
  C4 (termination): no run of such a write goes on for ever: it has at most twenty steps for each byte of the
  request and one more, whatever the scheduler does.
\<close>

theorem write_pipeline_terminates:
  assumes "device_stack M disk ok" and "ok w" and "aes_core_ok A" and "pool_ok P"
    and "io_request hook sn (disk w) offset len first n" and "io_check_request hook False offset len = None"
    and "\<And>i. i < n \<Longrightarrow> \<not> in_redirect hook (first + i)" and "length buff = unat len"
  shows "\<exists>s0. io_encrypted_write M conf depth hook sn expect_off offset len buff w = Inr s0 \<and>
    (\<forall>k s. (write_step (scalar_selection A) P M conf depth hook ^^ k) s0 s \<longrightarrow> k \<le> 20 * unat len + 1)"
  using device_stack.write_ends [OF assms(1,3,2,4-8), of conf depth expect_off] by blast

theorem write_pipeline_terminates_witness:
  "\<exists>s0 s k. io_encrypted_write buffer_stack 0 (\<lambda>w. 1) read_hook read_snapshot 0 512 1024 (replicate 1024 5) sample_disk = Inr s0 \<and>
    (write_step (scalar_selection fips197_core) sample_pool buffer_stack 0 (\<lambda>w. 1) read_hook ^^ k) s0 s \<and> ws_tasks s = {#} \<and> k \<le> 20481"
proof -
  have len: "length (replicate 1024 (5 :: u8)) = unat (1024 :: u32)" by simp
  obtain s0 s k where s: "io_encrypted_write buffer_stack 0 (\<lambda>w. 1) read_hook read_snapshot 0 512 1024 (replicate 1024 5) sample_disk = Inr s0"
    "(write_step (scalar_selection fips197_core) sample_pool buffer_stack 0 (\<lambda>w. 1) read_hook ^^ k) s0 s" "ws_tasks s = {#}" by (rule sample_run)
  from write_pipeline_terminates [OF buffer_stack.device_stack_axioms sample_request(1) fips197_core_ok sample_request(2-5) len, of 0 "\<lambda>w. 1" 0]
  have "k \<le> 20 * unat (1024 :: u32) + 1" using s by (metis sum.inject(2))
  then have "k \<le> 20481" by simp
  then show ?thesis using s by blast
qed

text \<open>
  C1 (roundtrip): what is written is read.  For a request of whole sectors none of which lies in the redirected
  ranges at the head and the end of the volume, on a lower driver that keeps the block device contract: whenever
  its write has finished, in whatever order the activities ran, a read of the same range with the same snapshot,
  and with chunks of its own, returns the bytes that were written.
\<close>

theorem write_then_read:
  assumes "device_stack M disk ok" and "ok w" and "aes_core_ok A" and "pool_ok P"
    and "io_request hook sn (disk w) offset len first n" and "io_check_request hook False offset len = None"
    and "\<And>i. i < n \<Longrightarrow> \<not> in_redirect hook (first + i)" and "length buff = unat len" and "length buff2 = unat len"
  shows "\<exists>s0. io_encrypted_write M conf depth hook sn expect_off offset len buff w = Inr s0 \<and>
    (\<forall>s. (write_step (scalar_selection A) P M conf depth hook)\<^sup>*\<^sup>* s0 s \<longrightarrow> ws_tasks s = {#} \<longrightarrow>
      io_encrypted_read (scalar_selection A) P M conf2 depth hook sn expect_off2 offset len buff2 (ws_dev s) = Some (STATUS_SUCCESS, buff, ws_dev s))"
proof -
  let ?S = "scalar_selection A" and ?key = "\<lambda>p. sector_key hook (if sn_trans_io sn then sn_boundary sn else 0) (sn_dsk_key sn) (sn_tmp_key sn) p"
  note R = assms(5) [unfolded io_request_def]
  have "io_encrypted_read ?S P M conf2 depth hook sn expect_off2 offset len buff2 v = Some (STATUS_SUCCESS, buff, v)"
    if e: "ok v" "written_disk ?S hook sn first n buff (disk w) (disk v)" for v
  proof -
    have rq: "io_request hook sn (disk v) offset len first n" using R e(2) by (simp add: io_request_def written_disk_def)
    have "\<not> straddles hook (512 * first) (512 * n)" by (rule not_straddling [OF _ assms(7)]) (use R in simp_all)
    from device_stack.read_plain [OF assms(1) e(1) assms(3,4) rq this assms(9), of conf2 depth expect_off2]
    obtain buf where r: "io_encrypted_read ?S P M conf2 depth hook sn expect_off2 offset len buff2 v = Some (STATUS_SUCCESS, buf, v)"
      "length buf = unat len" "\<And>i. i < n \<Longrightarrow> sec i buf = plain_sector ?S hook sn (redirected hook (first + i)) (disk v)" by auto
    have "sec i buf = sec i buff" if i: "i < n" for i
    proof -
      have "512 * (first + i) < unat (dh_dsk_size hook)" "unat (dh_dsk_size hook) < 2 ^ 62" "unat (dh_dsk_size hook) \<le> length (disk w)" "512 dvd length (disk w)"
        using request_on_disk [OF assms(5) i] R by (simp_all add: io_layout_def)
      then have p: "first + i < length (disk w) div 512" "first + i < 2 ^ 55" by (auto elim!: dvdE)
      have len: "length (sec i buff) = 512" using i R assms(8) by simp
      have num: "xts_number hook (first + i) < 2 ^ 55" using p(2) less_imp_diff_less by (simp add: xts_number_def)
      have good: "good_key ?S k" if "?key (first + i) = Some k" for k
        using sector_key_good [OF _ _ that] made_key_good [OF assms(3)] R by blast
      have "sec i buf = crypt_sector ?S hook False (?key (first + i)) (first + i) (crypt_sector ?S hook True (?key (first + i)) (first + i) (sec i buff))"
        using r(3) [OF i] e(2) p(1) i not_redirected [OF assms(7) [OF i]] by (simp add: plain_sector_def written_disk_def)
      also have "\<dots> = sec i buff"
      proof (cases "?key (first + i)")
      case (Some k)
      show ?thesis unfolding Some crypt_sector_def option.case by (rule good_key_inverse [OF good [OF Some] len num])
    qed (simp add: crypt_sector_def)
      finally show ?thesis .
    qed
    moreover have "unat len = 512 * n" using R by blast
    ultimately have "buf = buff" using r(2) assms(8) by (intro sec_eqI [of buf n buff]) simp_all
    then show ?thesis using r(1) by simp
  qed
  then show ?thesis using device_stack.write_ends [OF assms(1,3,2,4-8), of conf depth expect_off] by blast
qed

theorem write_then_read_witness:
  "\<exists>s0 s. io_encrypted_write buffer_stack 0 (\<lambda>w. 1) read_hook read_snapshot 0 512 1024 (replicate 1024 5) sample_disk = Inr s0 \<and>
    (write_step (scalar_selection fips197_core) sample_pool buffer_stack 0 (\<lambda>w. 1) read_hook)\<^sup>*\<^sup>* s0 s \<and>
    io_encrypted_read (scalar_selection fips197_core) sample_pool buffer_stack CONF_ENABLE_SSD_OPT (\<lambda>w. 1) read_hook read_snapshot 512 512 1024 (replicate 1024 0) (ws_dev s) =
      Some (STATUS_SUCCESS, replicate 1024 5, ws_dev s)"
proof -
  have len: "length (replicate 1024 x) = unat (1024 :: u32)" for x :: u8 by simp
  obtain s0 s k where s: "io_encrypted_write buffer_stack 0 (\<lambda>w. 1) read_hook read_snapshot 0 512 1024 (replicate 1024 5) sample_disk = Inr s0"
    "(write_step (scalar_selection fips197_core) sample_pool buffer_stack 0 (\<lambda>w. 1) read_hook ^^ k) s0 s" "ws_tasks s = {#}" by (rule sample_run)
  from write_then_read [OF buffer_stack.device_stack_axioms sample_request(1) fips197_core_ok sample_request(2-5) len len, where conf = 0 and depth = "\<lambda>w. 1" and expect_off = 0 and ?conf2.0 = CONF_ENABLE_SSD_OPT and ?expect_off2.0 = 512]
  show ?thesis using s relpowp_imp_rtranclp [OF s(2)] by (metis sum.inject(2))
qed

text \<open>
  C11 (error): an error of the lower driver is lost.  Whatever the lower driver answers, when the small descriptors for
  its requests can be had, every finished write has been completed with success: the completion routine of a
  write that failed does not store its status.
\<close>

theorem write_errors_are_lost:
  assumes "\<And>v. fst (im_alloc M v)" and "io_encrypted_write M conf depth hook sn expect_off offset len buff w = Inr s0"
    and "(write_step S P M conf depth hook)\<^sup>*\<^sup>* s0 s" and "ws_tasks s = {#}"
  shows "ws_done s = [STATUS_SUCCESS]"
proof -
  obtain v where s0: "s0 = io_async_encrypt_chunk conf depth hook (write_state hook sn expect_off offset len buff v)"
    using assms(2) by (auto simp: io_encrypted_write_def io_prepare_def write_state_def split: prod.splits bool.splits option.splits)
  have "all_ok (write_state hook sn expect_off offset len buff v)" by (simp add: all_ok_def write_state_def io_context_init_def)
  then have "all_ok s" using steps_status [OF assms(1,3)] s0 by simp
  moreover have "bal 1 (write_state hook sn expect_off offset len buff v)" by (simp add: bal_def write_state_def)
  then have "refs_ok s0" unfolding s0 io_async_encrypt_chunk_def Let_def by (intro bal_end bal_spawn) simp
  then have "length (ws_done s) = 1" using steps_refs [OF assms(3)] assms(4) by (simp add: refs_ok_def)
  ultimately show ?thesis unfolding all_ok_def by (cases "ws_done s") auto
qed

text \<open>Concrete runs: a schedule names the activities in their order.\<close>

fun run_schedule :: "xts_selected \<Rightarrow> fc_pool \<Rightarrow> 'w io_mgr \<Rightarrow> u32 \<Rightarrow> ('w \<Rightarrow> u32) \<Rightarrow> dev_hook \<Rightarrow> wtask list \<Rightarrow> 'w wstate \<Rightarrow> 'w wstate option" where
  "run_schedule S P M conf depth hook [] s = Some s"
| "run_schedule S P M conf depth hook (t # ts) s =
     (if t \<in># ws_tasks s
      then do { s \<leftarrow> run_task S P M conf depth hook t (s\<lparr>ws_tasks := ws_tasks s - {#t#}\<rparr>); run_schedule S P M conf depth hook ts s }
      else None)"

lemma run_schedule_steps: "run_schedule S P M conf depth hook ts s = Some s' \<Longrightarrow> (write_step S P M conf depth hook)\<^sup>*\<^sup>* s s'"
proof (induction ts arbitrary: s)
  case (Cons t ts)
  then obtain v where "t \<in># ws_tasks s" "run_task S P M conf depth hook t (s\<lparr>ws_tasks := ws_tasks s - {#t#}\<rparr>) = Some v" "run_schedule S P M conf depth hook ts v = Some s'"
    by (auto simp: bind_eq_Some_conv split: if_splits)
  then show ?case using write_step.task Cons.IH by (metis converse_rtranclp_into_rtranclp)
qed simp

text \<open>A lower driver that completes every request with one status and moves no bytes, and a volume whose sectors have no key.\<close>

definition const_stack :: "ntstatus \<Rightarrow> nat io_mgr" where
  "const_stack st = \<lparr>im_build = \<lambda>w. (True, w), im_alloc = \<lambda>w. (True, w), im_call = \<lambda>b l off r w. Some (st, l, b, Suc w)\<rparr>"

definition plain_snapshot :: io_snapshot where
  "plain_snapshot = \<lparr>sn_trans_io = False, sn_boundary = 0, sn_dsk_key = None, sn_tmp_key = None\<rparr>"

lemmas run_simps = ws_spawn_def ws_addref_def ws_deref_def io_async_encrypt_chunk_def io_chunk_encrypt_complete_def encrypt_next_def
  io_write_next_chunk_def io_chunk_write_complete_def write_rest_def encrypt_chunk_def io_async_make_chunk_def place_chunk_def bound_chunk_def io_context_init_def const_stack_def plain_snapshot_def
  read_hook_def f_defs xts_offset_def wr_def final_status_def NT_SUCCESS_def status_defs Let_def

text \<open>The one chunk of a write behind the header.\<close>

theorem write_errors_are_lost_witness:
  "\<exists>s0 s. io_encrypted_write (const_stack STATUS_INSUFFICIENT_RESOURCES) 0 (\<lambda>w. 1) read_hook plain_snapshot 0 512 512 (replicate 512 5) 0 = Inr s0 \<and>
     (write_step undefined undefined (const_stack STATUS_INSUFFICIENT_RESOURCES) 0 (\<lambda>w. 1) read_hook)\<^sup>*\<^sup>* s0 s \<and> ws_dev s = 1 \<and> ws_done s = [STATUS_SUCCESS]"
proof -
  let ?M = "const_stack STATUS_INSUFFICIENT_RESOURCES"
  let ?s0 = "io_async_encrypt_chunk 0 (\<lambda>w. 1) read_hook (write_state read_hook plain_snapshot 0 512 512 (replicate 512 5) (0 :: nat))"
  have W: "io_encrypted_write ?M 0 (\<lambda>w. 1) read_hook plain_snapshot 0 512 512 (replicate 512 5) 0 = Inr ?s0"
    by (simp add: io_encrypted_write_def io_prepare_def const_stack_def io_check_request_def is_intersect_def read_hook_def f_defs SECTOR_SIZE_def write_state_def)
  have "\<exists>s. run_schedule undefined undefined ?M 0 (\<lambda>w. 1) read_hook
      [Encrypting 0 512 None 512, Encrypted, WriteNext, Writing 0 512 512] ?s0 = Some s \<and> ws_tasks s = {#} \<and> ws_dev s = 1"
    by (simp add: write_state_def run_simps)
  then obtain s where s: "(write_step undefined undefined ?M 0 (\<lambda>w. 1) read_hook)\<^sup>*\<^sup>* ?s0 s" "ws_tasks s = {#}" "ws_dev s = 1"
    using run_schedule_steps by blast
  have "fst (im_alloc ?M v)" for v by (simp add: const_stack_def)
  from write_errors_are_lost [OF this W s(1,2)] show ?thesis using W s by blast
qed

end
