(* ===== verification/RequestFaults.thy ===== *)
theory RequestFaults
  imports ReadPath
begin

text \<open>
  Read requests for which \<^verbatim>\<open>DCrypt/driver/readwrite.c\<close> does not do what the theorems of \<^verbatim>\<open>ReadPath\<close> say under their
  hypotheses: a read whose last chunk fails at the lower driver, and a request that reaches over the start of
  the redirected end of the volume.
\<close>

unbundle bit_operations_syntax

section \<open>A sector that cannot be read\<close>





section \<open>Properties\<close>



definition plain_request :: io_snapshot where
  "plain_request = \<lparr>sn_trans_io = False, sn_boundary = 0, sn_dsk_key = None, sn_tmp_key = None\<rparr>"


section \<open>Requests over the start of the redirected end\<close>

text \<open>The only chunk of such a request.\<close>

lemma straddling_chunk:
  fixes expect_off :: u64 and buff :: bytes
  assumes rq: "io_request hook sn d offset len first n" and st: "straddles hook (512 * first) (512 * n)" "\<not> in_redirect hook first"
    and plain: "dh_flags hook AND F_SSD = 0" "\<not> sn_trans_io sn"
  defines "ctx \<equiv> io_context_init hook sn expect_off offset len buff"
  shows "io_async_make_chunk conf depth hook is_read ctx = chunk_set (io_offset ctx) len 0 (sn_dsk_key sn) False ctx"
    "unat (io_offset ctx) = 512 * first"
proof -
  have lay: "io_layout hook" using rq by (simp add: io_request_def)
  have tl: "unat (dh_tail_len hook) \<le> unat (dh_dsk_size hook)" using lay by (simp add: io_layout_def)
  show off: "unat (io_offset ctx) = 512 * first"
    unfolding ctx_def by (rule request_prepared(2) [OF rq, of "\<lparr>im_build = \<lambda>w. (True, w), im_alloc = \<lambda>w. (True, w), im_call = \<lambda>b l off r w. None\<rparr>" "()"]) simp
  have head: "\<not> (dh_flags hook AND F_NO_REDIRECT = 0 \<and> io_offset ctx < ucast (dh_head_len hook))"
    using st(2) off by (auto simp: in_redirect_def word_less_nat_alt)
  have "unat (dh_dsk_size hook - ucast (dh_tail_len hook)) = unat (dh_dsk_size hook) - unat (dh_tail_len hook)"
    using tl by (simp add: unat_sub word_le_nat_alt)
  then have tail: "\<not> dh_dsk_size hook - ucast (dh_tail_len hook) \<le> io_offset ctx"
    using st(1) off by (simp add: straddles_def word_le_nat_alt)
  have fl: "io_completed ctx = 0" "io_encrypted ctx = 0" "io_length ctx = len" "io_snapshot_dsk_key ctx = sn_dsk_key sn" "\<not> io_trans_io ctx"
    using plain(2) by (simp_all add: ctx_def io_context_init_def)
  show "io_async_make_chunk conf depth hook is_read ctx = chunk_set (io_offset ctx) len 0 (sn_dsk_key sn) False ctx"
  proof -
    let ?c0 = "ctx\<lparr>io_chunk_diskof := io_offset ctx, io_chunk_offset := 0, io_chunk_key := sn_dsk_key sn, io_discontinuous := False\<rparr>"
    have fin: "(if is_read then io_completed ctx else io_encrypted ctx) = 0" using fl(1,2) by simp
    have "place_chunk conf depth hook is_read ?c0 = ?c0\<lparr>io_chunk_length := len\<rparr>"
      using head tail fl(3) plain(1) by (auto simp: place_chunk_def)
    moreover have "bound_chunk hook (?c0\<lparr>io_chunk_length := len\<rparr>) = ?c0\<lparr>io_chunk_length := len\<rparr>" using fl(5) by (simp add: bound_chunk_def)
    ultimately show ?thesis unfolding io_async_make_chunk_def fin Let_def by (simp add: fl(3,4))
  qed
qed

context device_stack
begin

lemma read_straddling:
  assumes w: "inv w" and A: "aes_core_ok A" and P: "pool_ok P" and rq: "io_request hook sn (disk w) offset len first n"
    and st: "straddles hook (512 * first) (512 * n)" "\<not> in_redirect hook first"
    and plain: "dh_flags hook AND F_SSD = 0" "\<not> sn_trans_io sn" and buff: "length buff = unat len"
  shows "\<exists>buf. io_encrypted_read (scalar_selection A) P M conf depth hook sn expect_off offset len buff w = Some (STATUS_SUCCESS, buf, w) \<and>
    (\<forall>i < n. sec i buf = plain_sector (scalar_selection A) hook sn (first + i) (disk w))"
proof -
  let ?S = "scalar_selection A" and ?ctx = "io_context_init hook sn expect_off offset len buff" and ?key = "sn_dsk_key sn"
  have lay: "io_layout hook" and key: "made_key (sn_dsk_key sn)" using rq by (simp_all add: io_request_def)
  have R: "unat len = 512 * n" "0 < n" "unat len + 2048 \<le> 2 ^ 32" "unat (dh_dsk_size hook) \<le> length (disk w)" "512 dvd unat (dh_head_len hook)"
    "unat (dh_dsk_size hook) < 2 ^ 62"
    using rq lay by (simp_all add: io_request_def io_layout_def)
  note prep = request_prepared [OF rq alloc [OF w]]
  note c = straddling_chunk [OF rq st plain, where expect_off = expect_off and buff = buff]
  let ?c = "chunk_set (io_offset ?ctx) len 0 ?key False ?ctx"
  let ?old = "slice (512 * first) (unat len) (disk w)"
  have on: "512 * first + unat len \<le> length (disk w)" using prep(3) R(4) by simp
  then have old: "length ?old = unat len" by simp
  have call: "im_call M buff len (io_offset ?ctx) True w = Some (STATUS_SUCCESS, len, ?old, w)"
    using call_read [OF w, of "io_offset ?ctx" len buff] c(2) on buff old by (simp add: overlay_def)
  have sec_old: "sec i ?old = sec (first + i) (disk w)" if "i < n" for i
    using that sec_slice [of i n first "disk w"] R(1) on by simp
  have nr: "unat (dh_head_len hook) \<le> 512 * first" if "dh_flags hook AND F_NO_REDIRECT \<noteq> 0" using prep(6) that by blast
  have good: "good_key ?S k" if "?key = Some k" for k using made_key_good [OF A key that] .
  have bound: "512 * first + unat len \<le> 2 ^ 62" using prep(3) R(6) by simp
  have "\<exists>buf. (case ?key of None \<Rightarrow> Some ?old
      | Some k \<Rightarrow> Option.bind (pool_crypt ?S P False k None (drop (512 * 0) ?old) len (xts_offset hook (io_offset ?ctx))) (\<lambda>z. Some (take (512 * 0) ?old @ z))) = Some buf \<and>
    length buf = length ?old \<and>
    (\<forall>i. 512 * Suc i \<le> length ?old \<longrightarrow> sec i buf =
      (if 0 \<le> i \<and> i < 0 + n then crypt_sector ?S hook False ?key (first + (i - 0)) (sec (first + (i - 0)) (disk w)) else sec i ?old))"
    by (rule decrypt_chunk [OF P R(5) good c(2) nr R(1,2,3) bound]) (use old sec_old in simp_all)
  then obtain buf where b: "(case ?key of None \<Rightarrow> Some ?old
      | Some k \<Rightarrow> Option.bind (pool_crypt ?S P False k None (drop (512 * 0) ?old) len (xts_offset hook (io_offset ?ctx))) (\<lambda>z. Some (take (512 * 0) ?old @ z))) = Some buf"
    "\<And>i. 512 * Suc i \<le> length ?old \<Longrightarrow> sec i buf =
      (if 0 \<le> i \<and> i < 0 + n then crypt_sector ?S hook False ?key (first + (i - 0)) (sec (first + (i - 0)) (disk w)) else sec i ?old)" by blast
  have buf: "sec i buf = crypt_sector ?S hook False ?key (first + i) (sec (first + i) (disk w))" if "i < n" for i
  proof -
    have "512 * Suc i \<le> 512 * n" using that by simp
    then have "512 * Suc i \<le> length ?old" using old R(1) by linarith
    from b(2) [OF this] show ?thesis using that by simp
  qed
  let ?c1 = "?c\<lparr>io_buff := ?old, io_completed := len\<rparr>"
  have "io_async_read_chunk ?S P M conf depth hook ?ctx w = Some (?c1\<lparr>io_buff := buf, io_status := STATUS_SUCCESS\<rparr>, w)"
  proof (rule read_chunk_step [where depth = depth, OF c(1) alloc [OF w]])
    show "im_call M (drop (unat (io_chunk_offset ?c)) (io_buff ?c)) (io_chunk_length ?c) (io_chunk_diskof ?c) True w = Some (STATUS_SUCCESS, len, ?old, w)"
      using call by (simp add: context_fields)
    show "?c1 = ?c\<lparr>io_buff := take (unat (io_chunk_offset ?c)) (io_buff ?c) @ ?old, io_completed := io_completed ?c + io_chunk_length ?c\<rparr>"
      by (simp add: context_fields)
    show "(if io_completed ?c1 < io_length ?c1 then io_async_read_chunk ?S P M conf depth hook ?c1 w else Some (?c1, w)) = Some (?c1, w)"
      by (simp add: context_fields)
    show "io_completed ?c1 = io_length ?c1" by (simp add: context_fields)
    have "io_chunk_key ?c = ?key" "io_buff ?c1 = ?old" "io_chunk_diskof ?c = io_offset ?ctx" "unat (io_chunk_offset ?c) = 512 * 0" by simp_all
    then show "(case io_chunk_key ?c of None \<Rightarrow> Some (io_buff ?c1)
      | Some k \<Rightarrow> Option.bind (pool_crypt ?S P False k None (drop (unat (io_chunk_offset ?c)) (io_buff ?c1)) len (xts_offset hook (io_chunk_diskof ?c)))
          (\<lambda>z. Some (take (unat (io_chunk_offset ?c)) (io_buff ?c1) @ z))) = Some buf" by (simp only: b(1))
  qed
  then have "io_encrypted_read ?S P M conf depth hook sn expect_off offset len buff w = Some (STATUS_SUCCESS, buf, w)"
    using prep(1) by (simp add: io_encrypted_read_def final_status_def)
  moreover have "sec i buf = plain_sector ?S hook sn (first + i) (disk w)" if "i < n" for i
    using buf [OF that] plain(2) by (simp add: plain_sector_def sector_key_def)
  ultimately show ?thesis by blast
qed

end

lemma straddled_sector:
  assumes "io_layout hook" "straddles hook (512 * first) (512 * n)" "unat (dh_tail_off hook) \<noteq> unat (dh_dsk_size hook) - unat (dh_tail_len hook)"
  shows "\<exists>i < n. redirected hook (first + i) \<noteq> first + i"
proof -
  have "512 dvd unat (dh_tail_off hook)" "512 dvd unat (dh_dsk_size hook) - unat (dh_tail_len hook)"
    using assms(1) by (auto simp: io_layout_def intro!: dvd_diff_nat)
  then obtain e q where n: "unat (dh_tail_off hook) = 512 * e" "unat (dh_dsk_size hook) - unat (dh_tail_len hook) = 512 * q"
    by (metis dvdE)
  have st: "first < q" "q < first + n" "dh_flags hook AND F_HEAD_BACKUP \<noteq> 0" "dh_tail_len hook \<noteq> 0"
    using assms(2) unfolding straddles_def n by auto
  have "unat (dh_head_len hook) + unat (dh_tail_len hook) \<le> unat (dh_dsk_size hook)" using assms(1) by (simp add: io_layout_def)
  then have "unat (dh_head_len hook) \<le> 512 * q" using n(2) by linarith
  then have "redirected hook q = e" unfolding redirected_def n using st(3,4) by simp
  moreover have "e \<noteq> q" using assms(3) n by simp
  ultimately show ?thesis using st(1,2) by (intro exI [of _ "q - first"]) auto
qed

text \<open>
  C28 (safety): a chunk is not cut at the start of the redirected end.  A request of whole sectors that begins before
  the redirected end of the volume, outside the redirected head, and reaches into it becomes one chunk in
  place, for a read as for a write (without SSD chunking, and with no boundary of a transcryption).  The read
  succeeds and returns every sector from its own number on the disk; but when the end is stored elsewhere, some
  of the sectors lie elsewhere, so that it returns the backup header for them, and a write overwrites it.
\<close>

theorem tail_is_not_cut:
  assumes "device_stack M disk ok" and "ok w" and "aes_core_ok A" and "pool_ok P"
    and "io_request hook sn (disk w) offset len first n" and "straddles hook (512 * first) (512 * n)" and "\<not> in_redirect hook first"
    and "dh_flags hook AND F_SSD = 0" and "\<not> sn_trans_io sn" and "length buff = unat len"
    and "unat (dh_tail_off hook) \<noteq> unat (dh_dsk_size hook) - unat (dh_tail_len hook)"
  shows "(\<forall>is_read. let c = io_async_make_chunk conf (depth w) hook is_read (io_context_init hook sn expect_off offset len buff)
      in unat (io_chunk_diskof c) = 512 * first \<and> io_chunk_length c = len) \<and>
    (\<exists>buf. io_encrypted_read (scalar_selection A) P M conf depth hook sn expect_off offset len buff w = Some (STATUS_SUCCESS, buf, w) \<and>
      (\<forall>i < n. sec i buf = plain_sector (scalar_selection A) hook sn (first + i) (disk w))) \<and>
    (\<exists>i < n. redirected hook (first + i) \<noteq> first + i)"
proof -
  have lay: "io_layout hook" using assms(5) by (simp add: io_request_def)
  have "let c = io_async_make_chunk conf (depth w) hook is_read (io_context_init hook sn expect_off offset len buff)
      in unat (io_chunk_diskof c) = 512 * first \<and> io_chunk_length c = len" for is_read
    using straddling_chunk [OF assms(5-9), where expect_off = expect_off and buff = buff] by (simp add: Let_def)
  then show ?thesis
    using device_stack.read_straddling [OF assms(1-10)] straddled_sector [OF lay assms(6,11)] by blast
qed

text \<open>
  A volume of eight sectors with a backup header in the last one; its storage file has sectors 4 and 5, and all of it
  is usable.  A read of the last two sectors gives the bytes of the backup header.
\<close>

definition tail_hook :: dev_hook where
  "tail_hook = \<lparr>dh_flags = F_ENABLED OR F_HEAD_BACKUP, dh_max_chunk = 512, dh_dsk_size = 4096, dh_use_size = 4096, dh_bps = 512, dh_tmp_size = 0, dh_stor_off = 2048,
     dh_stor_len = 1024, dh_head_len = 512, dh_tail_off = 2560, dh_tail_len = 512, dh_dsk_key = None, dh_tmp_key = None, dh_pnp_state = Started\<rparr>"

definition tail_disk :: dc_buffer where
  "tail_disk = \<lparr>b_data = Some (replicate 3584 7 @ replicate 512 9), b_size = 4096\<rparr>"

theorem tail_is_not_cut_witness:
  "\<exists>buf. io_encrypted_read (scalar_selection fips197_core) \<lparr>fc_x64 = True, fc_cpus = 4, fc_mem = True\<rparr> buffer_stack 0 (\<lambda>w. 1) tail_hook plain_request 0 3072 1024
     (replicate 1024 0) tail_disk = Some (STATUS_SUCCESS, buf, tail_disk) \<and> sec 1 buf = replicate 512 9 \<and>
     redirected tail_hook 7 = 5 \<and> sec 5 (buffer_disk tail_disk) = replicate 512 7"
proof -
  have fl: "dh_flags tail_hook AND F_NO_REDIRECT = 0" "dh_flags tail_hook AND F_HEAD_BACKUP \<noteq> 0" "dh_flags tail_hook AND F_SSD = 0"
    by (simp_all add: tail_hook_def f_defs)
  have lay: "io_layout tail_hook" using fl unfolding io_layout_def by (simp add: tail_hook_def)
  have st: "straddles tail_hook (512 * 6) (512 * 2)" "\<not> in_redirect tail_hook 6"
    using fl unfolding straddles_def in_redirect_def by (simp_all add: tail_hook_def)
  have red: "redirected tail_hook 7 = 5" using fl unfolding redirected_def by (simp add: tail_hook_def)
  have inv: "buffer_inv tail_disk" "buffer_disk tail_disk = replicate 3584 7 @ replicate 512 9"
    by (simp_all add: buffer_inv_def buffer_disk_def tail_disk_def)
  have rq: "io_request tail_hook plain_request (buffer_disk tail_disk) 3072 1024 6 2"
    unfolding io_request_def inv(2) using lay fl by (simp add: made_key_def) (simp add: tail_hook_def plain_request_def)
  have P: "pool_ok \<lparr>fc_x64 = True, fc_cpus = 4, fc_mem = True\<rparr>" by (simp add: pool_ok_def MAX_CPU_COUNT_def)
  have "\<not> sn_trans_io plain_request" "unat (dh_tail_off tail_hook) \<noteq> unat (dh_dsk_size tail_hook) - unat (dh_tail_len tail_hook)"
    by (simp_all add: plain_request_def tail_hook_def)
  from tail_is_not_cut [OF buffer_stack.device_stack_axioms inv(1) fips197_core_ok P rq st fl(3) this(1) _ this(2), of "replicate 1024 0" 0 "\<lambda>w. 1" 0]
  obtain buf where r: "io_encrypted_read (scalar_selection fips197_core) \<lparr>fc_x64 = True, fc_cpus = 4, fc_mem = True\<rparr> buffer_stack 0 (\<lambda>w. 1) tail_hook plain_request 0 3072 1024
     (replicate 1024 0) tail_disk = Some (STATUS_SUCCESS, buf, tail_disk)"
    "sec 1 buf = plain_sector (scalar_selection fips197_core) tail_hook plain_request 7 (buffer_disk tail_disk)" by auto
  have "plain_sector S tail_hook plain_request 7 d = sec 7 d" for S d
    by (simp add: plain_sector_def crypt_sector_def plain_request_def sector_key_def)
  moreover have "sec 7 (buffer_disk tail_disk) = replicate 512 9" "sec 5 (buffer_disk tail_disk) = replicate 512 7"
    unfolding inv(2) by (simp_all add: sec_def slice_def)
  ultimately show ?thesis using r red by simp
qed

end
