(* ===== verification/DataWipe.thy ===== *)
theory DataWipe
  imports ReadPath
begin

text \<open>
  Wiping of old data (\<^verbatim>\<open>DCrypt/driver/data_wipe.c\<close>): a mode is a list of passes, each of which writes a three-byte
  pattern or a fresh piece of a random key's XTS stream over a range of the disk.
\<close>

unbundle bit_operations_syntax

section \<open>The code\<close>

datatype wipe_type = P_PAT | P_RAND

text \<open>A mode is its passes; the count in the C structure is the number of entries of its table.\<close>

type_synonym wipe_mode = "(wipe_type \<times> bytes) list"

definition dod_mode :: wipe_mode where
  "dod_mode = [(P_PAT, [0x55, 0x55, 0x55]), (P_PAT, [0xAA, 0xAA, 0xAA]), (P_RAND, [0, 0, 0]), (P_PAT, [0, 0, 0]),
     (P_PAT, [0x55, 0x55, 0x55]), (P_PAT, [0xAA, 0xAA, 0xAA]), (P_RAND, [0, 0, 0])]"

definition dod_mode_e :: wipe_mode where
  "dod_mode_e = [(P_PAT, [0, 0, 0]), (P_PAT, [0xFF, 0xFF, 0xFF]), (P_RAND, [0, 0, 0])]"

definition gutmann_mode :: wipe_mode where
  "gutmann_mode =
     [(P_RAND, [0, 0, 0]), (P_RAND, [0, 0, 0]), (P_RAND, [0, 0, 0]), (P_RAND, [0, 0, 0]),
      (P_PAT, [0x55, 0x55, 0x55]), (P_PAT, [0xAA, 0xAA, 0xAA]),
      (P_PAT, [0x92, 0x49, 0x24]), (P_PAT, [0x49, 0x24, 0x92]), (P_PAT, [0x24, 0x92, 0x49]),
      (P_PAT, [0x00, 0x00, 0x00]), (P_PAT, [0x11, 0x11, 0x11]), (P_PAT, [0x22, 0x22, 0x22]), (P_PAT, [0x33, 0x33, 0x33]),
      (P_PAT, [0x44, 0x44, 0x44]), (P_PAT, [0x55, 0x55, 0x55]), (P_PAT, [0x66, 0x66, 0x66]), (P_PAT, [0x77, 0x77, 0x77]),
      (P_PAT, [0x88, 0x88, 0x88]), (P_PAT, [0x99, 0x99, 0x99]), (P_PAT, [0xAA, 0xAA, 0xAA]), (P_PAT, [0xBB, 0xBB, 0xBB]),
      (P_PAT, [0xCC, 0xCC, 0xCC]), (P_PAT, [0xDD, 0xDD, 0xDD]), (P_PAT, [0xEE, 0xEE, 0xEE]), (P_PAT, [0xFF, 0xFF, 0xFF]),
      (P_PAT, [0x92, 0x49, 0x24]), (P_PAT, [0x49, 0x24, 0x92]), (P_PAT, [0x24, 0x92, 0x49]),
      (P_PAT, [0x6D, 0xB6, 0xDB]), (P_PAT, [0xB6, 0xDB, 0x6D]), (P_PAT, [0xDB, 0x6D, 0xB6]),
      (P_RAND, [0, 0, 0]), (P_RAND, [0, 0, 0]), (P_RAND, [0, 0, 0]), (P_RAND, [0, 0, 0])]"

definition wipe_modes :: "wipe_mode option list" where
  "wipe_modes = [None, Some dod_mode_e, Some dod_mode, Some gutmann_mode]"

definition WP_NONE :: int where "WP_NONE = 0"
definition WP_NUM :: int where "WP_NUM = 4"
definition WP_SKIP_UNUSED :: int where "WP_SKIP_UNUSED = 0xFF"

definition ST_INV_WIPE_MODE :: status where "ST_INV_WIPE_MODE = 11"

record wipe_ctx =
  wc_key :: "xts_key option"
  wc_mode :: "wipe_mode option"
  wc_buff :: "bytes option"
  wc_size :: int
  wc_offs :: u64

text \<open>\<^verbatim>\<open>memset(ctx, 0, sizeof(wipe_ctx))\<close>.\<close>

definition wipe_zero :: wipe_ctx where
  "wipe_zero = \<lparr>wc_key = None, wc_mode = None, wc_buff = None, wc_size = 0, wc_offs = 0\<rparr>"

text \<open>
  \<open>bound\<close> is \<^verbatim>\<open>sizeof(wipe_modes) / sizeof(wipe_mode)\<close>: with its flexible array the structure counts as the 4 bytes of its
  first field, so this is 8 with pointers of 8 bytes and 4 with pointers of 4.  An index behind the four entries
  reads what follows the table, which is not defined.  \<open>rnd\<close> is \<^verbatim>\<open>cp_rand_bytes\<close>, \<open>stack\<close> what the stack holds behind
  the 32 bytes of \<^verbatim>\<open>key\<close>, and \<open>skey\<close> the contents of fresh memory for the key.
\<close>

definition wipe_bound :: "bool \<Rightarrow> int" where
  "wipe_bound x64 = (if x64 then 32 else 16) div 4"

definition dc_wipe_init ::
  "bool \<Rightarrow> 'w io_mgr \<Rightarrow> ('w \<Rightarrow> bytes \<times> 'w) \<Rightarrow> bytes \<Rightarrow> xts_key \<Rightarrow> int \<Rightarrow> int \<Rightarrow> int \<Rightarrow> 'w \<Rightarrow> (status \<times> wipe_ctx \<times> 'w) option" where
  "dc_wipe_init x64 M rnd stack skey max_size method cipher w =
     (if method < 0 \<or> wipe_bound x64 < method then Some (ST_INV_WIPE_MODE, wipe_zero, w)
      else if length wipe_modes \<le> nat method then None
      else let ctx = wipe_zero\<lparr>wc_mode := wipe_modes ! nat method\<rparr>
           in case wc_mode ctx of
                None \<Rightarrow> Some (ST_OK, ctx\<lparr>wc_size := max_size\<rparr>, w)
              | Some mode \<Rightarrow>
                  (case im_alloc M w of
                     (False, w) \<Rightarrow> Some (ST_NOMEM, ctx, w)
                   | (True, w) \<Rightarrow>
                       let ctx = ctx\<lparr>wc_buff := Some (replicate (nat max_size) 0)\<rparr>
                       in case im_alloc M w of
                            (False, w) \<Rightarrow> Some (ST_NOMEM, ctx, w)
                          | (True, w) \<Rightarrow>
                              (case rnd w of
                                 (key, w) \<Rightarrow>
                                   (case xts_set_key (take 32 key @ stack) cipher skey of
                                      (ok, skey) \<Rightarrow>
                                        if ok = 0 then Some (ST_INVALID_PARAM, ctx\<lparr>wc_key := Some skey\<rparr>, w)
                                        else Some (ST_OK, ctx\<lparr>wc_key := Some skey, wc_size := max_size\<rparr>, w)))))"

definition dc_wipe_free :: "wipe_ctx \<Rightarrow> wipe_ctx" where
  "dc_wipe_free ctx = ctx\<lparr>wc_buff := None, wc_key := None\<rparr>"

text \<open>One pass; a null pointer is a fault.\<close>

definition wipe_fill :: "xts_selected \<Rightarrow> fc_pool \<Rightarrow> wipe_type \<times> bytes \<Rightarrow> nat \<Rightarrow> wipe_ctx \<Rightarrow> wipe_ctx option" where
  "wipe_fill S P pass len ctx =
     do { buff \<leftarrow> wc_buff ctx;
          case pass of
            (P_PAT, patt) \<Rightarrow> Some (ctx\<lparr>wc_buff := Some (overlay 0 (map (\<lambda>j. patt ! (j mod 3)) [0..<len]) buff)\<rparr>)
          | (P_RAND, _) \<Rightarrow> do {
              key \<leftarrow> wc_key ctx;
              buff \<leftarrow> pool_crypt S P True key None (overlay 0 (replicate len 0) buff) (of_nat len) (wc_offs ctx);
              Some (ctx\<lparr>wc_buff := Some buff, wc_offs := wc_offs ctx + of_nat len\<rparr>) } }"

primrec wipe_passes ::
  "xts_selected \<Rightarrow> fc_pool \<Rightarrow> 'w io_mgr \<Rightarrow> dev_hook \<Rightarrow> wipe_mode \<Rightarrow> nat \<Rightarrow> u64 \<Rightarrow> status \<Rightarrow> wipe_ctx \<Rightarrow> 'w \<Rightarrow> (status \<times> wipe_ctx \<times> 'w) option" where
  "wipe_passes S P M hook [] len offset resl ctx w = Some (resl, ctx, w)"
| "wipe_passes S P M hook (pass # passes) len offset resl ctx w =
     do { ctx \<leftarrow> wipe_fill S P pass len ctx;
          buff \<leftarrow> wc_buff ctx;
          (resl, buff, w) \<leftarrow> io_hook_rw M hook buff (of_nat len) offset False w;
          let ctx = ctx\<lparr>wc_buff := Some buff\<rparr>;
          if resl \<noteq> ST_OK then Some (resl, ctx, w) else wipe_passes S P M hook passes len offset resl ctx w }"

definition dc_wipe_process ::
  "xts_selected \<Rightarrow> fc_pool \<Rightarrow> 'w io_mgr \<Rightarrow> dev_hook \<Rightarrow> wipe_ctx \<Rightarrow> u64 \<Rightarrow> nat \<Rightarrow> 'w \<Rightarrow> (status \<times> wipe_ctx \<times> 'w) option" where
  "dc_wipe_process S P M hook ctx offset len w =
     (if wc_size ctx < int len then Some (ST_INV_DATA_SIZE, ctx, w)
      else case wc_mode ctx of
             None \<Rightarrow> Some (ST_OK, ctx, w)
           | Some mode \<Rightarrow> wipe_passes S P M hook mode len offset ST_OK ctx w)"

section \<open>Wiping stays in its range\<close>

definition outside :: "nat \<Rightarrow> nat \<Rightarrow> bytes \<Rightarrow> bytes \<Rightarrow> bool" where
  "outside p n d d' \<longleftrightarrow> length d' = length d \<and> (\<forall>x. length x = n \<longrightarrow> overlay p x d' = overlay p x d)"

lemma outside_refl [simp]: "outside p n d d"
  by (simp add: outside_def)

lemma outside_trans: "outside p n a b \<Longrightarrow> outside p n b c \<Longrightarrow> outside p n a c"
  by (simp add: outside_def)

lemma overlay_twice: "length x = length y \<Longrightarrow> p + length x \<le> length d \<Longrightarrow> overlay p x (overlay p y d) = overlay p x d"
  by (cases "length d = p") (auto simp: overlay_def min_def)

lemma outside_overlay: "length x = n \<Longrightarrow> p + n \<le> length d \<Longrightarrow> outside p n d (overlay p x d)"
  by (simp add: outside_def length_overlay overlay_twice)

lemma outside_sec:
  assumes "outside (512 * p) (512 * n) d d'" "512 * (p + n) \<le> length d" "512 * Suc i \<le> length d" "i < p \<or> p + n \<le> i"
  shows "sec i d' = sec i d"
proof -
  let ?x = "replicate (512 * n) 0 :: bytes"
  have x: "length ?x = 512 * n" "512 * p + length ?x \<le> length d" using assms(2) by simp_all
  have o: "overlay (512 * p) ?x d' = overlay (512 * p) ?x d" "length d' = length d" using assms(1) by (simp_all add: outside_def)
  have "sec i d' = sec i (overlay (512 * p) ?x d')" using sec_overlay [OF x(1), of p d' i] x(2) o(2) assms(3,4) by auto
  then show ?thesis using sec_overlay [OF x, of i] assms(3,4) o(1) by auto
qed

lemma started_device:
  assumes "device_stack M disk good" "dh_pnp_state hook = Started" "dh_max_chunk hook \<noteq> 0" "good w"
  shows "unat off + unat len \<le> length (disk w) \<Longrightarrow> unat len \<le> length buf \<Longrightarrow>
      io_hook_rw M hook buf len off True w = Some (ST_OK, overlay 0 (slice (unat off) (unat len) (disk w)) buf, w)"
    "unat off + unat len \<le> length (disk w) \<Longrightarrow> unat len \<le> length buf \<Longrightarrow>
      \<exists>w'. io_hook_rw M hook buf len off False w = Some (ST_OK, buf, w') \<and> good w' \<and> disk w' = overlay (unat off) (take (unat len) buf) (disk w)"
  using block_device.rw_read [OF device_stack.hook_device [OF assms(1-3)] assms(4)] block_device.rw_write [OF device_stack.hook_device [OF assms(1-3)] assms(4)]
  by (simp_all add: dc_hook_rw_def)

lemma wipe_fill_ok:
  assumes P: "pool_ok P" and buff: "wc_buff ctx = Some b" "len \<le> length b" and key: "wc_key ctx = Some k" "good_key S k"
    and len: "0 < len" "512 dvd len" "len < 2 ^ 31" and offs: "512 dvd unat (wc_offs ctx)" "unat (wc_offs ctx) + len < 2 ^ 64"
  shows "\<exists>ctx' b'. wipe_fill S P pass len ctx = Some ctx' \<and> wc_buff ctx' = Some b' \<and> length b' = length b \<and> wc_key ctx' = wc_key ctx \<and>
    wc_mode ctx' = wc_mode ctx \<and> wc_size ctx' = wc_size ctx \<and> 512 dvd unat (wc_offs ctx') \<and> unat (wc_offs ctx') \<le> unat (wc_offs ctx) + len"
proof (cases "fst pass")
  case P_PAT
  then show ?thesis using buff offs(1) by (cases pass) (simp add: wipe_fill_def length_overlay)
next
  case P_RAND
  have ul: "unat (of_nat len :: u32) = len" "unat (of_nat len :: u64) = len" using len(3) by simp_all
  let ?b = "overlay 0 (replicate len 0) b"
  have lb: "length ?b = length b" using buff(2) by (simp add: length_overlay)
  obtain g where g: "sectorwise (xts_crypt S True k) g" using good_key_sectorwise [OF key(2)] by blast
  from fast_crypt_sectors [OF g refl _ _ _ _ P [unfolded pool_ok_def, THEN conjunct1] P [unfolded pool_ok_def, THEN conjunct2],
      where inp = None and out = ?b and len = "of_nat len" and offset = "wc_offs ctx" and mem = "fc_mem P"]
  obtain y where "pool_crypt S P True k None ?b (of_nat len) (wc_offs ctx) = Some (overlay 0 y ?b)" "length y = len"
    using len offs(2) lb buff(2) P by (auto simp: pool_crypt_def pool_ok_def ul)
  moreover have "unat (wc_offs ctx + of_nat len) = unat (wc_offs ctx) + len" using offs(2) by (simp add: unat_word_ariths(1) ul)
  ultimately show ?thesis
    using P_RAND buff lb key(1) offs(1) len(2) by (cases pass) (simp add: wipe_fill_def length_overlay)
qed

lemma wipe_passes_inside:
  assumes stack: "device_stack M disk good" "dh_pnp_state hook = Started" "dh_max_chunk hook \<noteq> 0" and P: "pool_ok P" and k: "good_key S k"
    and len: "0 < len" "512 dvd len" "len < 2 ^ 31"
  shows "good w \<Longrightarrow> unat offset + len \<le> length (disk w) \<Longrightarrow> wc_buff ctx = Some b \<Longrightarrow> wc_size ctx \<le> int (length b) \<Longrightarrow> int len \<le> wc_size ctx \<Longrightarrow>
    wc_key ctx = Some k \<Longrightarrow> 512 dvd unat (wc_offs ctx) \<Longrightarrow> unat (wc_offs ctx) + length passes * len < 2 ^ 64 \<Longrightarrow>
    \<exists>ctx' w' b'. wipe_passes S P M hook passes len offset ST_OK ctx w = Some (ST_OK, ctx', w') \<and> good w' \<and>
      outside (unat offset) len (disk w) (disk w') \<and> wc_buff ctx' = Some b' \<and> length b' = length b \<and> wc_key ctx' = Some k \<and>
      wc_mode ctx' = wc_mode ctx \<and> wc_size ctx' = wc_size ctx \<and> 512 dvd unat (wc_offs ctx') \<and> unat (wc_offs ctx') \<le> unat (wc_offs ctx) + length passes * len"
proof (induction passes arbitrary: ctx w b)
  case (Cons pass passes)
  have ul: "unat (of_nat len :: u32) = len" using len(3) by simp
  have "len \<le> length b" "unat (wc_offs ctx) + len < 2 ^ 64" using Cons.prems by auto
  from wipe_fill_ok [OF P Cons.prems(3) this(1) Cons.prems(6) k len Cons.prems(7) this(2), of pass]
  obtain c1 b1 where c1: "wipe_fill S P pass len ctx = Some c1" "wc_buff c1 = Some b1" "length b1 = length b" "wc_key c1 = Some k"
    "wc_mode c1 = wc_mode ctx" "wc_size c1 = wc_size ctx" "512 dvd unat (wc_offs c1)" "unat (wc_offs c1) \<le> unat (wc_offs ctx) + len"
    using Cons.prems(6) by auto
  have "len \<le> length b1" using c1(3) Cons.prems by auto
  then obtain w1 where w1: "io_hook_rw M hook b1 (of_nat len) offset False w = Some (ST_OK, b1, w1)" "good w1"
    "disk w1 = overlay (unat offset) (take len b1) (disk w)"
    using started_device(2) [OF stack Cons.prems(1), of offset "of_nat len" b1] Cons.prems(2) by (auto simp: ul)
  have o1: "outside (unat offset) len (disk w) (disk w1)" unfolding w1(3) using \<open>len \<le> length b1\<close> Cons.prems(2) by (intro outside_overlay) simp_all
  have same: "c1\<lparr>wc_buff := Some b1\<rparr> = c1" using c1(2) by (cases c1) simp
  have "unat offset + len \<le> length (disk w1)" using o1 Cons.prems(2) by (simp add: outside_def)
  moreover have "unat (wc_offs c1) + length passes * len < 2 ^ 64" using c1(8) Cons.prems(8) by simp
  ultimately obtain c2 w2 b2 where c2: "wipe_passes S P M hook passes len offset ST_OK c1 w1 = Some (ST_OK, c2, w2)" "good w2"
      "outside (unat offset) len (disk w1) (disk w2)" "wc_buff c2 = Some b2" "length b2 = length b1" "wc_key c2 = Some k"
      "wc_mode c2 = wc_mode c1" "wc_size c2 = wc_size c1" "512 dvd unat (wc_offs c2)" "unat (wc_offs c2) \<le> unat (wc_offs c1) + length passes * len"
    using Cons.IH [OF w1(2) _ c1(2) _ _ c1(4,7)] c1(3,6) Cons.prems(4,5) by auto
  have "wipe_passes S P M hook (pass # passes) len offset ST_OK ctx w = Some (ST_OK, c2, w2)" by (simp add: c1(1,2) w1(1) same c2(1))
  moreover have "unat (wc_offs c2) \<le> unat (wc_offs ctx) + length (pass # passes) * len" using c2(10) c1(8) by simp
  ultimately show ?case using c1(3,5,6) c2 outside_trans [OF o1 c2(3)] by simp
qed auto

text \<open>Room for one more block in the stream of random data.\<close>

definition wipe_ready :: "xts_selected \<Rightarrow> wipe_ctx \<Rightarrow> nat \<Rightarrow> bool" where
  "wipe_ready S ctx len \<longleftrightarrow> int len \<le> wc_size ctx \<and> (\<forall>mode. wc_mode ctx = Some mode \<longrightarrow>
     (\<exists>b k. wc_buff ctx = Some b \<and> wc_size ctx \<le> int (length b) \<and> wc_key ctx = Some k \<and> good_key S k) \<and>
     512 dvd unat (wc_offs ctx) \<and> unat (wc_offs ctx) + length mode * len < 2 ^ 64)"

lemma wipe_ready_mono: "wipe_ready S ctx n \<Longrightarrow> l \<le> n \<Longrightarrow> wipe_ready S ctx l"
proof -
  assume r: "wipe_ready S ctx n" and l: "l \<le> n"
  have "length mode * l \<le> length mode * n" for mode :: wipe_mode using l by simp
  then have "unat (wc_offs ctx) + length mode * l < 2 ^ 64" if "unat (wc_offs ctx) + length mode * n < 2 ^ 64" for mode :: wipe_mode
    using that by (meson add_left_mono le_less_trans)
  then show "wipe_ready S ctx l" using r l by (fastforce simp: wipe_ready_def)
qed

lemma wipe_process_inside:
  assumes stack: "device_stack M disk good" "dh_pnp_state hook = Started" "dh_max_chunk hook \<noteq> 0" "good w" and P: "pool_ok P" and ready: "wipe_ready S ctx len"
    and len: "0 < len" "512 dvd len" "len < 2 ^ 31" "unat offset + len \<le> length (disk w)"
  shows "\<exists>ctx' w'. dc_wipe_process S P M hook ctx offset len w = Some (ST_OK, ctx', w') \<and> good w' \<and> outside (unat offset) len (disk w) (disk w') \<and>
    wc_mode ctx' = wc_mode ctx \<and> wc_size ctx' = wc_size ctx"
proof (cases "wc_mode ctx")
  case None
  then show ?thesis using ready stack(4) by (simp add: dc_wipe_process_def wipe_ready_def)
next
  case (Some mode)
  then obtain b k where b: "wc_buff ctx = Some b" "wc_size ctx \<le> int (length b)" "wc_key ctx = Some k" "good_key S k"
    "512 dvd unat (wc_offs ctx)" "unat (wc_offs ctx) + length mode * len < 2 ^ 64" "int len \<le> wc_size ctx"
    using ready by (auto simp: wipe_ready_def)
  then show ?thesis
    using wipe_passes_inside [OF stack(1-3) P b(4) len(1-3) stack(4) len(4) b(1,2,7,3,5,6)] Some by (auto simp: dc_wipe_process_def)
qed

end
