(* ===== verification/AllocBitmap.thy ===== *)
theory AllocBitmap
  imports DeviceIo FastCrypt
begin

text \<open>
  The allocation bitmap of a volume (\<^verbatim>\<open>DCrypt/driver/alloc_bitmap.c\<close>): one bit for a group of clusters, set when the
  file system says that a cluster is in use and whenever the volume is written.  Transcryption skips blocks whose
  bits are all clear, so what matters is that a bit that was set stays set and is found again.
\<close>

unbundle bit_operations_syntax

section \<open>The bitmap\<close>

record dc_alloc_bitmap =
  ab_total_clusters :: u64
  ab_cluster_area_size :: u64
  ab_volume_size :: u64
  ab_mft_start :: u64
  ab_mft2_start :: u64
  ab_mft_zone_start :: u64
  ab_mft_zone_end :: u64
  ab_protected_start :: u64
  ab_cluster_size :: u32
  ab_sector_size :: u32
  ab_clusters_per_bit :: u32
  ab_bitmap_size :: u32
  ab_loading :: bool
  ab_bitmap :: bytes

text \<open>The pointer \<^verbatim>\<open>hook->alloc_bitmap\<close>: null, the two sentinels, or a bitmap.\<close>

datatype bitmap_ptr = DC_BITMAP_NONE | DC_BITMAP_LOADING | DC_BITMAP_INIT_FAILED | DC_BITMAP dc_alloc_bitmap

fun DC_BITMAP_IS_VALID :: "bitmap_ptr \<Rightarrow> bool" where
  "DC_BITMAP_IS_VALID (DC_BITMAP bmp) = True"
| "DC_BITMAP_IS_VALID _ = False"

definition bit_mask_of :: "u64 \<Rightarrow> u8" where
  "bit_mask_of bit_index = push_bit (unat (bit_index mod 8)) 1"

definition dc_bitmap_set_bit :: "dc_alloc_bitmap \<Rightarrow> u64 \<Rightarrow> dc_alloc_bitmap" where
  "dc_bitmap_set_bit bmp bit_index =
     (let byte_index = bit_index div 8
      in if byte_index < ucast (ab_bitmap_size bmp)
         then bmp\<lparr>ab_bitmap := (ab_bitmap bmp)[unat byte_index := ab_bitmap bmp ! unat byte_index OR bit_mask_of bit_index]\<rparr>
         else bmp)"

definition dc_bitmap_test_bit :: "dc_alloc_bitmap \<Rightarrow> u64 \<Rightarrow> bool" where
  "dc_bitmap_test_bit bmp bit_index =
     (let byte_index = bit_index div 8
      in if byte_index < ucast (ab_bitmap_size bmp) then ab_bitmap bmp ! unat byte_index AND bit_mask_of bit_index \<noteq> 0 else True)"

definition dc_bitmap_mark_cluster :: "dc_alloc_bitmap \<Rightarrow> u64 \<Rightarrow> dc_alloc_bitmap" where
  "dc_bitmap_mark_cluster bmp cluster =
     (if ab_total_clusters bmp \<le> cluster then bmp else dc_bitmap_set_bit bmp (cluster div ucast (ab_clusters_per_bit bmp)))"

text \<open>The bits \<^verbatim>\<open>for (b = start_bit; b <= end_bit; b++)\<close> runs through.\<close>

definition bit_range :: "dc_alloc_bitmap \<Rightarrow> u64 \<Rightarrow> u32 \<Rightarrow> u64 list" where
  "bit_range bmp offset len =
     (let start_cluster = offset div ucast (ab_cluster_size bmp);
          end_cluster = (offset + ucast len - 1) div ucast (ab_cluster_size bmp);
          start_bit = start_cluster div ucast (ab_clusters_per_bit bmp);
          end_bit = end_cluster div ucast (ab_clusters_per_bit bmp)
      in map of_nat [unat start_bit..<Suc (unat end_bit)])"

definition dc_bitmap_is_allocated :: "bitmap_ptr \<Rightarrow> u64 \<Rightarrow> u32 \<Rightarrow> bool" where
  "dc_bitmap_is_allocated ptr offset len =
     (case ptr of
        DC_BITMAP bmp \<Rightarrow>
          if ab_loading bmp then True
          else if offset < ab_protected_start bmp then True
          else if ab_cluster_area_size bmp \<le> offset \<or> ab_cluster_area_size bmp < offset + ucast len then True
          else list_ex (dc_bitmap_test_bit bmp) (bit_range bmp offset len)
      | _ \<Rightarrow> True)"

text \<open>
  A cluster size of 0 makes the division of \<^verbatim>\<open>dc_bitmap_mark_allocated\<close> a fault; so it would in
  \<^verbatim>\<open>dc_bitmap_is_allocated\<close>, whose value above is of use only for the bitmaps of \<open>bitmap_wf\<close> below.
\<close>

definition dc_bitmap_mark_allocated :: "bitmap_ptr \<Rightarrow> u64 \<Rightarrow> u32 \<Rightarrow> bitmap_ptr option" where
  "dc_bitmap_mark_allocated ptr offset len =
     (case ptr of
        DC_BITMAP bmp \<Rightarrow>
          if ab_cluster_size bmp = 0 \<or> ab_clusters_per_bit bmp = 0 then None
          else Some (DC_BITMAP (fold (\<lambda>b bmp. dc_bitmap_set_bit bmp b) (bit_range bmp offset len) bmp))
      | _ \<Rightarrow> Some ptr)"

section \<open>Bits stay set\<close>

definition bitmap_wf :: "dc_alloc_bitmap \<Rightarrow> bool" where
  "bitmap_wf bmp \<longleftrightarrow> length (ab_bitmap bmp) = unat (ab_bitmap_size bmp) \<and> 0 < ab_cluster_size bmp \<and> 0 < ab_clusters_per_bit bmp"

text \<open>\<open>bmp2\<close> comes from \<open>bmp\<close> by setting bits.\<close>

definition grows :: "dc_alloc_bitmap \<Rightarrow> dc_alloc_bitmap \<Rightarrow> bool" where
  "grows bmp bmp2 \<longleftrightarrow> bmp2\<lparr>ab_bitmap := ab_bitmap bmp, ab_loading := ab_loading bmp\<rparr> = bmp \<and> (ab_loading bmp2 \<longrightarrow> ab_loading bmp) \<and>
     length (ab_bitmap bmp2) = length (ab_bitmap bmp) \<and> (\<forall>b. dc_bitmap_test_bit bmp b \<longrightarrow> dc_bitmap_test_bit bmp2 b)"

lemma grows_fields:
  "grows bmp bmp2 \<Longrightarrow> ab_total_clusters bmp2 = ab_total_clusters bmp \<and> ab_cluster_area_size bmp2 = ab_cluster_area_size bmp \<and>
    ab_protected_start bmp2 = ab_protected_start bmp \<and> ab_cluster_size bmp2 = ab_cluster_size bmp \<and>
    ab_clusters_per_bit bmp2 = ab_clusters_per_bit bmp \<and> ab_bitmap_size bmp2 = ab_bitmap_size bmp"
  by (cases bmp; cases bmp2) (simp add: grows_def)

lemma grows_refl [simp]: "grows bmp bmp"
  by (simp add: grows_def)

lemma grows_trans: "grows a b \<Longrightarrow> grows b c \<Longrightarrow> grows a c"
  by (cases a; cases b; cases c) (auto simp: grows_def)

lemma grows_wf: "grows bmp bmp2 \<Longrightarrow> bitmap_wf bmp \<Longrightarrow> bitmap_wf bmp2"
  using grows_fields [of bmp bmp2] by (auto simp: bitmap_wf_def grows_def)

lemma unat_mod_8: "unat ((b :: u64) mod 8) = unat b mod 8" "unat (b div 8) = unat b div 8"
  by (simp_all add: unat_mod unat_div)

lemma mask_and: "(x :: u8) AND bit_mask_of b \<noteq> 0 \<longleftrightarrow> bit x (unat b mod 8)"
proof -
  have "x AND bit_mask_of b = 0 \<longleftrightarrow> (\<forall>n. \<not> bit (x AND bit_mask_of b) n)" by (metis bit_0_eq bot_apply bot_bool_def bit_word_eqI)
  then show ?thesis by (auto simp: bit_mask_of_def bit_simps unat_mod_8)
qed

lemma test_bit_nth:
  "dc_bitmap_test_bit bmp b = (unat b div 8 < unat (ab_bitmap_size bmp) \<longrightarrow> bit (ab_bitmap bmp ! (unat b div 8)) (unat b mod 8))"
  by (simp add: dc_bitmap_test_bit_def Let_def mask_and word_less_nat_alt unat_mod_8)

lemma set_bit_nth:
  "dc_bitmap_set_bit bmp b = (if unat b div 8 < unat (ab_bitmap_size bmp)
     then bmp\<lparr>ab_bitmap := (ab_bitmap bmp)[unat b div 8 := ab_bitmap bmp ! (unat b div 8) OR bit_mask_of b]\<rparr> else bmp)"
  by (simp add: dc_bitmap_set_bit_def Let_def word_less_nat_alt unat_mod_8)

lemma set_bit_set: "bitmap_wf bmp \<Longrightarrow> dc_bitmap_test_bit (dc_bitmap_set_bit bmp b) b"
  by (auto simp: test_bit_nth set_bit_nth bitmap_wf_def bit_or_iff bit_mask_of_def bit_exp_iff unat_mod_8)

lemma set_bit_only:
  "bitmap_wf bmp \<Longrightarrow> dc_bitmap_test_bit (dc_bitmap_set_bit bmp b) c \<longleftrightarrow> c = b \<or> dc_bitmap_test_bit bmp c"
proof -
  assume wf: "bitmap_wf bmp"
  have "c = b \<longleftrightarrow> unat c div 8 = unat b div 8 \<and> unat c mod 8 = unat b mod 8"
    by (metis div_mult_mod_eq word_unat_eq_iff)
  then show ?thesis using wf
    by (cases "unat b div 8 = unat c div 8")
      (auto simp: test_bit_nth set_bit_nth bitmap_wf_def bit_or_iff bit_mask_of_def bit_exp_iff unat_mod_8 bit_1_iff)
qed

lemma set_bit_grows: "bitmap_wf bmp \<Longrightarrow> grows bmp (dc_bitmap_set_bit bmp b)"
  by (auto simp: grows_def set_bit_only) (simp_all add: set_bit_nth split: if_splits)

lemma mark_cluster_grows: "bitmap_wf bmp \<Longrightarrow> grows bmp (dc_bitmap_mark_cluster bmp c)"
  by (simp add: dc_bitmap_mark_cluster_def set_bit_grows)

lemma fold_set_bits:
  "bitmap_wf bmp \<Longrightarrow> grows bmp (fold (\<lambda>b bmp. dc_bitmap_set_bit bmp b) bs bmp) \<and>
    (\<forall>c. dc_bitmap_test_bit (fold (\<lambda>b bmp. dc_bitmap_set_bit bmp b) bs bmp) c \<longleftrightarrow> c \<in> set bs \<or> dc_bitmap_test_bit bmp c)"
proof (induction bs arbitrary: bmp)
  case (Cons b bs)
  then show ?case
    using set_bit_grows [of bmp b] grows_wf [of bmp "dc_bitmap_set_bit bmp b"] set_bit_only [of bmp b]
    by (auto intro: grows_trans)
qed simp

text \<open>The bits of a range are those of the bytes in it.\<close>

definition bit_of :: "dc_alloc_bitmap \<Rightarrow> nat \<Rightarrow> u64" where
  "bit_of bmp pos = of_nat (pos div unat (ab_cluster_size bmp) div unat (ab_clusters_per_bit bmp))"

lemma unat_bit_of: "pos < 2 ^ 64 \<Longrightarrow> unat (bit_of bmp pos) = pos div unat (ab_cluster_size bmp) div unat (ab_clusters_per_bit bmp)"
proof -
  assume "pos < 2 ^ 64"
  then have "pos div unat (ab_cluster_size bmp) div unat (ab_clusters_per_bit bmp) < 2 ^ 64"
    by (meson div_le_dividend le_less_trans order_trans)
  then show ?thesis by (simp add: bit_of_def unat_word64_small)
qed

lemma bit_range_bytes:
  assumes "unat off + unat len \<le> 2 ^ 64" "0 < len"
  shows "unat off \<le> pos \<Longrightarrow> pos < unat off + unat len \<Longrightarrow> bit_of bmp pos \<in> set (bit_range bmp off len)"
    "b \<in> set (bit_range bmp off len) \<Longrightarrow> bitmap_wf bmp \<Longrightarrow> \<exists>pos. unat off \<le> pos \<and> pos < unat off + unat len \<and> b = bit_of bmp pos"
proof -
  let ?c = "unat (ab_cluster_size bmp)" and ?k = "unat (ab_clusters_per_bit bmp)" and ?last = "unat off + unat len - 1"
  have len: "0 < unat len" using assms(2) by (simp add: word_less_nat_alt)
  have last: "unat (off + ucast len - 1) = ?last"
  proof -
    have "(of_nat ?last :: u64) = off + ucast len - 1" using len by (simp add: of_nat_diff)
    moreover have "?last < 18446744073709551616" using assms(1) len by simp
    ultimately show ?thesis by (metis unat_word64_small)
  qed
  have range: "set (bit_range bmp off len) = of_nat ` {unat off div ?c div ?k..?last div ?c div ?k}"
    by (auto simp: bit_range_def Let_def unat_div last)
  show "unat off \<le> pos \<Longrightarrow> pos < unat off + unat len \<Longrightarrow> bit_of bmp pos \<in> set (bit_range bmp off len)"
    unfolding range bit_of_def by (intro imageI) (auto intro!: div_le_mono)
  assume "b \<in> set (bit_range bmp off len)" "bitmap_wf bmp"
  then obtain n where n: "b = of_nat n" "unat off div ?c div ?k \<le> n" "n \<le> ?last div ?c div ?k" and pos: "0 < ?c" "0 < ?k"
    unfolding range by (auto simp: bitmap_wf_def word_less_nat_alt)
  let ?p = "max (unat off) (n * (?c * ?k))"
  have m: "x div ?c div ?k = x div (?c * ?k)" for x by (simp add: div_mult2_eq)
  have "n * (?c * ?k) \<le> ?last" using n(3) pos unfolding m by (metis div_times_less_eq_dividend le_trans mult_le_mono1)
  then have "?p < unat off + unat len" using len by auto
  moreover have "?p div (?c * ?k) = n"
  proof (cases "unat off \<le> n * (?c * ?k)")
    case True
    then show ?thesis using pos by (simp add: max_def)
  next
    case False
    then have "n * (?c * ?k) div (?c * ?k) \<le> unat off div (?c * ?k)" by (intro div_le_mono) simp
    then have "n \<le> unat off div (?c * ?k)" using pos by simp
    then show ?thesis using False n(2) unfolding m by (simp add: max_def)
  qed
  ultimately show "\<exists>pos. unat off \<le> pos \<and> pos < unat off + unat len \<and> b = bit_of bmp pos"
    using n(1) by (intro exI [of _ ?p]) (simp add: bit_of_def m)
qed

text \<open>What happens to a bitmap while it exists: a write marks a range, the loading thread marks clusters and ends.\<close>

datatype bitmap_op = Mark_Range u64 u32 | Mark_Cluster u64 | End_Loading

fun bitmap_step :: "bitmap_op \<Rightarrow> bitmap_ptr \<Rightarrow> bitmap_ptr option" where
  "bitmap_step (Mark_Range off len) ptr = dc_bitmap_mark_allocated ptr off len"
| "bitmap_step (Mark_Cluster c) (DC_BITMAP bmp) = Some (DC_BITMAP (dc_bitmap_mark_cluster bmp c))"
| "bitmap_step End_Loading (DC_BITMAP bmp) = Some (DC_BITMAP (bmp\<lparr>ab_loading := False\<rparr>))"
| "bitmap_step _ ptr = Some ptr"

fun bitmap_run :: "bitmap_op list \<Rightarrow> bitmap_ptr \<Rightarrow> bitmap_ptr option" where
  "bitmap_run [] ptr = Some ptr"
| "bitmap_run (s # ss) ptr = Option.bind (bitmap_step s ptr) (bitmap_run ss)"

lemma mark_allocated_spec:
  "bitmap_wf bmp \<Longrightarrow> \<exists>bmp2. dc_bitmap_mark_allocated (DC_BITMAP bmp) off len = Some (DC_BITMAP bmp2) \<and> grows bmp bmp2 \<and>
    (\<forall>c. dc_bitmap_test_bit bmp2 c \<longleftrightarrow> c \<in> set (bit_range bmp off len) \<or> dc_bitmap_test_bit bmp c)"
  using fold_set_bits [of bmp "bit_range bmp off len"] by (auto simp: dc_bitmap_mark_allocated_def bitmap_wf_def)

lemma step_grows: "bitmap_wf bmp \<Longrightarrow> \<exists>bmp2. bitmap_step s (DC_BITMAP bmp) = Some (DC_BITMAP bmp2) \<and> grows bmp bmp2"
proof (cases s)
  case (Mark_Range off len)
  assume "bitmap_wf bmp"
  then show ?thesis using mark_allocated_spec [of bmp off len] Mark_Range by auto
next
  case (Mark_Cluster c)
  assume "bitmap_wf bmp"
  then show ?thesis using Mark_Cluster by (simp add: mark_cluster_grows)
next
  case End_Loading
  have "grows bmp (bmp\<lparr>ab_loading := False\<rparr>)" by (cases bmp) (simp add: grows_def dc_bitmap_test_bit_def)
  then show ?thesis using End_Loading by simp
qed

lemma run_grows: "bitmap_wf bmp \<Longrightarrow> \<exists>bmp2. bitmap_run ss (DC_BITMAP bmp) = Some (DC_BITMAP bmp2) \<and> grows bmp bmp2"
proof (induction ss arbitrary: bmp)
  case (Cons s ss)
  obtain b where b: "bitmap_step s (DC_BITMAP bmp) = Some (DC_BITMAP b)" "grows bmp b" using step_grows [OF Cons.prems] by blast
  then obtain b2 where "bitmap_run ss (DC_BITMAP b) = Some (DC_BITMAP b2)" "grows b b2" using Cons.IH [of b] grows_wf Cons.prems by blast
  then show ?case using b grows_trans by auto
qed simp

lemma bit_of_grows: "grows bmp bmp2 \<Longrightarrow> bit_of bmp2 = bit_of bmp"
  using grows_fields [of bmp bmp2] by (simp add: bit_of_def fun_eq_iff)

lemma is_allocated_bit:
  assumes "dc_bitmap_test_bit bmp (bit_of bmp pos)" "unat off \<le> pos" "pos < unat off + unat len" "unat off + unat len \<le> 2 ^ 64"
  shows "dc_bitmap_is_allocated (DC_BITMAP bmp) off len"
proof -
  have "0 < len" using assms(2,3) by (auto simp: word_less_nat_alt)
  then show ?thesis using assms bit_range_bytes(1) [of off len pos bmp] by (auto simp: dc_bitmap_is_allocated_def list_ex_iff)
qed

section \<open>Properties\<close>

text \<open>
  C40 (invariant): what was written is never skipped.  On a bitmap that exists, is as long as its size says and has
  nonzero cluster sizes: once a write has marked a byte range, no sequence of further writes, of clusters the
  loading thread reports, and of the end of loading makes a range that shares a byte with it count as
  unallocated (ranges that end within 64 bits); and none of these operations faults.  A write that comes while
  the pointer is null or a sentinel marks nothing.
\<close>

theorem marked_range_stays_allocated:
  assumes "bitmap_wf bmp"
  shows "\<exists>bmp2. bitmap_run (before @ Mark_Range off len # after) (DC_BITMAP bmp) = Some (DC_BITMAP bmp2) \<and>
    (unat off + unat len \<le> 2 ^ 64 \<longrightarrow> unat off2 + unat len2 \<le> 2 ^ 64 \<longrightarrow>
     max (unat off) (unat off2) < min (unat off + unat len) (unat off2 + unat len2) \<longrightarrow>
     dc_bitmap_is_allocated (DC_BITMAP bmp2) off2 len2)"
proof -
  obtain b1 where b1: "bitmap_run before (DC_BITMAP bmp) = Some (DC_BITMAP b1)" "grows bmp b1" using run_grows [OF assms] by blast
  then have wf1: "bitmap_wf b1" using grows_wf assms by blast
  obtain b2 where b2: "dc_bitmap_mark_allocated (DC_BITMAP b1) off len = Some (DC_BITMAP b2)" "grows b1 b2"
    "\<forall>c. dc_bitmap_test_bit b2 c \<longleftrightarrow> c \<in> set (bit_range b1 off len) \<or> dc_bitmap_test_bit b1 c" using mark_allocated_spec [OF wf1] by blast
  obtain b3 where b3: "bitmap_run after (DC_BITMAP b2) = Some (DC_BITMAP b3)" "grows b2 b3" using run_grows grows_wf wf1 b2(2) by blast
  have "bitmap_run (before @ rest) p = Option.bind (bitmap_run before p) (bitmap_run rest)" for rest p
    by (induction before arbitrary: p) (simp_all cong: Option.bind_cong)
  then have run: "bitmap_run (before @ Mark_Range off len # after) (DC_BITMAP bmp) = Some (DC_BITMAP b3)" using b1(1) b2(1) b3(1) by simp
  have "dc_bitmap_is_allocated (DC_BITMAP b3) off2 len2"
    if "unat off + unat len \<le> 2 ^ 64" "unat off2 + unat len2 \<le> 2 ^ 64" "max (unat off) (unat off2) < min (unat off + unat len) (unat off2 + unat len2)"
  proof -
    let ?p = "max (unat off) (unat off2)"
    have "0 < len" using that(3) by (auto simp: word_less_nat_alt)
    then have "bit_of b1 ?p \<in> set (bit_range b1 off len)" using that bit_range_bytes(1) [of off len ?p b1] by auto
    then have "dc_bitmap_test_bit b3 (bit_of b3 ?p)" using b2(2,3) b3(2) unfolding bit_of_grows [OF b3(2)] bit_of_grows [OF b2(2)] by (simp add: grows_def)
    then show ?thesis by (rule is_allocated_bit) (use that in auto)
  qed
  then show ?thesis using run by blast
qed

definition sample_bitmap :: dc_alloc_bitmap where
  "sample_bitmap = \<lparr>ab_total_clusters = 16, ab_cluster_area_size = 65536, ab_volume_size = 66048, ab_mft_start = 0, ab_mft2_start = 0,
     ab_mft_zone_start = 0, ab_mft_zone_end = 0, ab_protected_start = 4096, ab_cluster_size = 4096, ab_sector_size = 512,
     ab_clusters_per_bit = 1, ab_bitmap_size = 2, ab_loading = True, ab_bitmap = [0, 0]\<rparr>"

theorem marked_range_stays_allocated_witness:
  "\<exists>bmp2. bitmap_run [Mark_Cluster 3, Mark_Range 8192 512, End_Loading] (DC_BITMAP sample_bitmap) = Some (DC_BITMAP bmp2) \<and>
     dc_bitmap_is_allocated (DC_BITMAP bmp2) 8192 4096"
proof -
  have "bitmap_wf sample_bitmap" by (simp add: bitmap_wf_def sample_bitmap_def)
  from marked_range_stays_allocated [OF this, of "[Mark_Cluster 3]" 8192 512 "[End_Loading]" 8192 4096] show ?thesis by simp
qed

end
