(* ===== verification/Transcrypt.thy ===== *)
theory Transcrypt
  imports DataWipe AllocBitmap
begin

text \<open>
  Transcryption of a mounted volume (\<^verbatim>\<open>DCrypt/driver/enc_dec.c\<close>, built with \<^verbatim>\<open>DC_CONCURRENT_TRANSCRYPT\<close>): a step encrypts,
  re-encrypts or decrypts one block and moves the boundary \<^verbatim>\<open>tmp_size\<close>; the last step of a decryption puts the
  redirected sectors back.  The wait for requests that are still pending is \<^const>\<open>None\<close> while there are any.
\<close>

unbundle bit_operations_syntax

section \<open>The code\<close>

definition ENC_BLOCK_SIZE :: u32 where "ENC_BLOCK_SIZE = 1280 * 1024"

text \<open>\<^verbatim>\<open>transcrypt_state\<close>; \<open>tr_idle\<close> and \<open>tr_block_complete\<close> are the events, the number of pending requests is \<open>tr_pending\<close>.\<close>

record transcrypt_state =
  tr_active_start :: u64
  tr_active_end :: u64
  tr_pending :: nat
  tr_in_progress :: bool
  tr_idle :: bool
  tr_block_complete :: bool

text \<open>What a step uses and changes of a device.\<close>

record trans_dev =
  td_hook :: dev_hook
  td_trans :: transcrypt_state
  td_buff :: bytes
  td_wp_ctx :: wipe_ctx
  td_wp_mode :: int
  td_bitmap :: bitmap_ptr

definition dc_lock_disk_range :: "u64 \<Rightarrow> u64 \<Rightarrow> trans_dev \<Rightarrow> trans_dev option" where
  "dc_lock_disk_range start fin t =
     (if 0 < tr_pending (td_trans t) then None
      else Some (t\<lparr>td_trans := (td_trans t)\<lparr>tr_block_complete := False, tr_active_start := start, tr_active_end := fin\<rparr>\<rparr>))"

definition dc_unlock_disk_range :: "trans_dev \<Rightarrow> trans_dev" where
  "dc_unlock_disk_range t = t\<lparr>td_trans := (td_trans t)\<lparr>tr_active_start := - 1, tr_active_end := 0, tr_block_complete := True\<rparr>\<rparr>"

definition set_flags :: "u32 \<Rightarrow> trans_dev \<Rightarrow> trans_dev" where
  "set_flags flags t = t\<lparr>td_hook := (td_hook t)\<lparr>dh_flags := dh_flags (td_hook t) OR flags\<rparr>\<rparr>"

definition clear_flags :: "u32 \<Rightarrow> trans_dev \<Rightarrow> trans_dev" where
  "clear_flags flags t = t\<lparr>td_hook := (td_hook t)\<lparr>dh_flags := dh_flags (td_hook t) AND NOT flags\<rparr>\<rparr>"

text \<open>The size of the next piece of a copy, rounded down to sectors of the device; a sector size of 0 is a fault.\<close>

definition part_chunk :: "u32 \<Rightarrow> u32 \<Rightarrow> u32 \<Rightarrow> u32 option" where
  "part_chunk amount fin bps =
     (if bps = 0 then None
      else let chunk = min (amount - fin) ENC_BLOCK_SIZE
           in Some (ucast (max (ucast chunk div ucast bps * ucast bps :: u64) (ucast bps))))"

text \<open>
  The copying loop of \<^verbatim>\<open>dc_store_part_begin\<close>, \<^verbatim>\<open>dc_restore_part_begin\<close>, \<^verbatim>\<open>dc_store_part_end\<close> and \<^verbatim>\<open>dc_restore_part_end\<close>; \<open>rekey\<close>
  is the key when the sectors are encrypted and so have to be encrypted anew at the other place.
\<close>

partial_function (option) part_loop ::
  "xts_selected \<Rightarrow> fc_pool \<Rightarrow> 'w io_mgr \<Rightarrow> dev_hook \<Rightarrow> u32 \<Rightarrow> u64 \<Rightarrow> u64 \<Rightarrow> xts_key option \<Rightarrow> u32 \<Rightarrow> status \<Rightarrow> bytes \<Rightarrow> 'w \<Rightarrow> (status \<times> bytes \<times> 'w) option" where
  "part_loop S P M hook amount src dst rekey fin resl buff w =
     (if fin < amount then do {
        chunk \<leftarrow> part_chunk amount fin (dh_bps hook);
        (resl, buff, w) \<leftarrow> io_hook_rw M hook buff chunk (src + ucast fin) True w;
        if resl \<noteq> ST_OK then Some (resl, buff, w)
        else do {
          buff \<leftarrow> (case rekey of None \<Rightarrow> Some buff
                   | Some key \<Rightarrow> do { b \<leftarrow> pool_crypt S P False key None buff chunk (src + ucast fin);
                                     pool_crypt S P True key None b chunk (dst + ucast fin) });
          (resl, buff, w) \<leftarrow> io_hook_rw M hook buff chunk (dst + ucast fin) False w;
          if resl \<noteq> ST_OK then Some (resl, buff, w) else part_loop S P M hook amount src dst rekey (fin + chunk) resl buff w } }
      else Some (resl, buff, w))"

definition dc_store_part_begin :: "xts_selected \<Rightarrow> fc_pool \<Rightarrow> 'w io_mgr \<Rightarrow> trans_dev \<Rightarrow> 'w \<Rightarrow> (status \<times> trans_dev \<times> 'w) option" where
  "dc_store_part_begin S P M t w =
     do { t \<leftarrow> dc_lock_disk_range 0 (ucast (dh_head_len (td_hook t))) t;
          let t = clear_flags F_NO_REDIRECT t;
          (resl, buff, w) \<leftarrow> part_loop S P M (td_hook t) (dh_head_len (td_hook t)) 0 (dh_stor_off (td_hook t)) None 0 ST_OK (td_buff t) w;
          Some (resl, dc_unlock_disk_range (t\<lparr>td_buff := buff\<rparr>), w) }"

definition dc_restore_part_begin :: "xts_selected \<Rightarrow> fc_pool \<Rightarrow> 'w io_mgr \<Rightarrow> trans_dev \<Rightarrow> 'w \<Rightarrow> (status \<times> trans_dev \<times> 'w) option" where
  "dc_restore_part_begin S P M t w =
     do { t \<leftarrow> dc_lock_disk_range 0 (ucast (dh_head_len (td_hook t))) t;
          (resl, buff, w) \<leftarrow> part_loop S P M (td_hook t) (dh_head_len (td_hook t)) (dh_stor_off (td_hook t)) 0 None 0 ST_OK (td_buff t) w;
          Some (resl, dc_unlock_disk_range (set_flags F_NO_REDIRECT (t\<lparr>td_buff := buff\<rparr>)), w) }"

definition dc_store_part_end :: "xts_selected \<Rightarrow> fc_pool \<Rightarrow> 'w io_mgr \<Rightarrow> bool \<Rightarrow> trans_dev \<Rightarrow> 'w \<Rightarrow> (status \<times> trans_dev \<times> 'w) option" where
  "dc_store_part_end S P M encrypted t w =
     (if dh_stor_len (td_hook t) < dh_head_len (td_hook t) * 2 then Some (ST_NF_SPACE, t, w)
      else do {
        let hook = td_hook t;
        let hook = hook\<lparr>dh_tail_len := dh_head_len hook, dh_tail_off := dh_stor_off hook + ucast (dh_stor_len hook) - ucast (dh_head_len hook)\<rparr>;
        let end_disk_off = dh_dsk_size hook - ucast (dh_tail_len hook);
        let end_stor_off = dh_stor_off hook + ucast (dh_stor_len hook) - ucast (dh_tail_len hook);
        t \<leftarrow> dc_lock_disk_range end_disk_off (dh_dsk_size hook) (t\<lparr>td_hook := hook\<rparr>);
        let t = set_flags F_HEAD_BACKUP t;
        (resl, buff, w) \<leftarrow> part_loop S P M (td_hook t) (dh_tail_len hook) end_disk_off end_stor_off
          (if encrypted then dh_dsk_key hook else None) 0 ST_OK (td_buff t) w;
        Some (resl, dc_unlock_disk_range (t\<lparr>td_buff := buff\<rparr>), w) })"

definition dc_restore_part_end :: "xts_selected \<Rightarrow> fc_pool \<Rightarrow> 'w io_mgr \<Rightarrow> bool \<Rightarrow> trans_dev \<Rightarrow> 'w \<Rightarrow> (status \<times> trans_dev \<times> 'w) option" where
  "dc_restore_part_end S P M encrypted t w =
     do { let hook = td_hook t;
          let end_stor_off = dh_stor_off hook + ucast (dh_stor_len hook) - ucast (dh_tail_len hook);
          let end_disk_off = dh_dsk_size hook - ucast (dh_tail_len hook);
          t \<leftarrow> dc_lock_disk_range end_disk_off (dh_dsk_size hook) t;
          (resl, buff, w) \<leftarrow> part_loop S P M hook (dh_tail_len hook) end_stor_off end_disk_off
            (if encrypted then dh_dsk_key hook else None) 0 ST_OK (td_buff t) w;
          let t = dc_unlock_disk_range (clear_flags F_HEAD_BACKUP (t\<lparr>td_buff := buff\<rparr>));
          Some (resl, t\<lparr>td_hook := (td_hook t)\<lparr>dh_tail_len := 0, dh_tail_off := 0\<rparr>\<rparr>, w) }"

definition dc_dec_finish :: "xts_selected \<Rightarrow> fc_pool \<Rightarrow> 'w io_mgr \<Rightarrow> trans_dev \<Rightarrow> 'w \<Rightarrow> (status \<times> trans_dev \<times> 'w) option" where
  "dc_dec_finish S P M t w =
     do { (resl, t, w) \<leftarrow> dc_restore_part_begin S P M t w;
          if resl \<noteq> ST_OK then Some (resl, t, w)
          else if dh_flags (td_hook t) AND F_HEAD_BACKUP \<noteq> 0 \<and> \<not> IS_STORAGE_ON_END (dh_flags (td_hook t)) then do {
            (resl, t, w) \<leftarrow> dc_restore_part_end S P M False t w;
            if resl \<noteq> ST_OK then Some (resl, t, w) else Some (ST_FINISHED, t, w) }
          else Some (ST_FINISHED, t, w) }"

text \<open>\<open>start_thread\<close> is the start of the thread that loads the bitmap.\<close>

definition dc_bitmap_start_init :: "('w \<Rightarrow> bool \<times> 'w) \<Rightarrow> trans_dev \<Rightarrow> 'w \<Rightarrow> trans_dev \<times> 'w" where
  "dc_bitmap_start_init start_thread t w =
     (if td_bitmap t \<noteq> DC_BITMAP_NONE then (t, w)
      else case start_thread w of (ok, w) \<Rightarrow> (t\<lparr>td_bitmap := (if ok then DC_BITMAP_LOADING else DC_BITMAP_INIT_FAILED)\<rparr>, w))"

definition trans_idle :: "trans_dev \<Rightarrow> trans_dev" where
  "trans_idle t = t\<lparr>td_trans := (td_trans t)\<lparr>tr_in_progress := False, tr_idle := True\<rparr>\<rparr>"

definition set_tmp_size :: "u64 \<Rightarrow> trans_dev \<Rightarrow> trans_dev" where
  "set_tmp_size b t = t\<lparr>td_hook := (td_hook t)\<lparr>dh_tmp_size := b\<rparr>\<rparr>"

text \<open>The contents of a block that was read, and the wiping of its place; a null key is a fault.\<close>

definition crypt_block ::
  "xts_selected \<Rightarrow> fc_pool \<Rightarrow> 'w io_mgr \<Rightarrow> bool \<Rightarrow> u64 \<Rightarrow> u32 \<Rightarrow> trans_dev \<Rightarrow> 'w \<Rightarrow> (trans_dev \<times> 'w) option" where
  "crypt_block S P M is_decrypt offs len t w =
     (let hook = td_hook t
      in if dh_flags hook AND F_REENCRYPT \<noteq> 0 then do {
           (_, ctx, w) \<leftarrow> dc_wipe_process S P M hook (td_wp_ctx t) offs (unat len) w;
           tmp_key \<leftarrow> dh_tmp_key hook;
           dsk_key \<leftarrow> dh_dsk_key hook;
           b \<leftarrow> pool_crypt S P False tmp_key None (td_buff t) len offs;
           b \<leftarrow> pool_crypt S P True dsk_key None b len offs;
           Some (t\<lparr>td_buff := b, td_wp_ctx := ctx\<rparr>, w) }
         else if \<not> is_decrypt then do {
           dsk_key \<leftarrow> dh_dsk_key hook;
           b \<leftarrow> pool_crypt S P True dsk_key None (td_buff t) len offs;
           (_, ctx, w) \<leftarrow> dc_wipe_process S P M hook (td_wp_ctx t) offs (unat len) w;
           Some (t\<lparr>td_buff := b, td_wp_ctx := ctx\<rparr>, w) }
         else do {
           dsk_key \<leftarrow> dh_dsk_key hook;
           b \<leftarrow> pool_crypt S P False dsk_key None (td_buff t) len offs;
           Some (t\<lparr>td_buff := b\<rparr>, w) })"

definition finish_block :: "bool \<Rightarrow> u64 \<Rightarrow> u32 \<Rightarrow> status \<Rightarrow> trans_dev \<Rightarrow> trans_dev" where
  "finish_block is_decrypt offs len resl t =
     trans_idle (dc_unlock_disk_range
       (if resl = ST_OK \<or> resl = ST_RW_ERR then set_tmp_size (if is_decrypt then offs else offs + ucast len) t else t))"

definition transcrypt_block ::
  "xts_selected \<Rightarrow> fc_pool \<Rightarrow> 'w io_mgr \<Rightarrow> bool \<Rightarrow> u64 \<Rightarrow> u32 \<Rightarrow> trans_dev \<Rightarrow> 'w \<Rightarrow> (status \<times> trans_dev \<times> 'w) option" where
  "transcrypt_block S P M is_decrypt offs len t w =
     (if DC_BITMAP_IS_VALID (td_bitmap t) \<and> \<not> dc_bitmap_is_allocated (td_bitmap t) offs len
      then Some (ST_OK, trans_idle (set_tmp_size (if is_decrypt then offs else offs + ucast len) t), w)
      else do {
        t \<leftarrow> dc_lock_disk_range offs (offs + ucast len) t;
        (resl, buff, w) \<leftarrow> io_hook_rw_skip_bads M (td_hook t) (td_buff t) len offs True w;
        let t = t\<lparr>td_buff := buff\<rparr>;
        if resl \<noteq> ST_OK \<and> resl \<noteq> ST_RW_ERR then Some (resl, finish_block is_decrypt offs len resl t, w)
        else do {
          (t, w) \<leftarrow> crypt_block S P M is_decrypt offs len t w;
          (resl, buff, w) \<leftarrow> io_hook_rw_skip_bads M (td_hook t) (td_buff t) len offs False w;
          Some (resl, finish_block is_decrypt offs len resl (t\<lparr>td_buff := buff\<rparr>), w) } })"

definition data_end :: "dev_hook \<Rightarrow> u64" where
  "data_end hook = (if dh_flags hook AND F_HEAD_BACKUP \<noteq> 0 then dh_dsk_size hook - ucast (dh_tail_len hook) else dh_dsk_size hook)"

definition dc_transcrypt_step ::
  "xts_selected \<Rightarrow> fc_pool \<Rightarrow> 'w io_mgr \<Rightarrow> ('w \<Rightarrow> bool \<times> 'w) \<Rightarrow> bool \<Rightarrow> trans_dev \<Rightarrow> 'w \<Rightarrow> (status \<times> trans_dev \<times> 'w) option" where
  "dc_transcrypt_step S P M start_thread is_decrypt t w =
     (if dh_flags (td_hook t) AND F_SYNC = 0 then Some (ST_ERROR, t, w)
      else
        let t = t\<lparr>td_trans := (td_trans t)\<lparr>tr_idle := False\<rparr>\<rparr>
        in if tr_in_progress (td_trans t) then Some (ST_ERROR, t, w)
           else
             let t = t\<lparr>td_trans := (td_trans t)\<lparr>tr_in_progress := True\<rparr>\<rparr>
             in if dh_flags (td_hook t) AND F_PREVENT_ENC \<noteq> 0 then Some (ST_CANCEL, trans_idle t, w)
                else
                  let (t, w) = (if td_wp_mode t = WP_SKIP_UNUSED \<and> td_bitmap t = DC_BITMAP_NONE then dc_bitmap_start_init start_thread t w else (t, w));
                      data_start = ucast (dh_head_len (td_hook t)) :: u64;
                      stop = data_end (td_hook t);
                      offs = dh_tmp_size (td_hook t)
                  in if \<not> is_decrypt then
                       if stop \<le> offs then Some (ST_FINISHED, trans_idle t, w)
                       else transcrypt_block S P M is_decrypt offs (ucast (min (stop - offs) (ucast ENC_BLOCK_SIZE))) t w
                     else
                       if offs \<le> data_start then do { (resl, t, w) \<leftarrow> dc_dec_finish S P M t w; Some (resl, trans_idle t, w) }
                       else
                         let len = min (offs - data_start) (ucast ENC_BLOCK_SIZE)
                         in transcrypt_block S P M is_decrypt (offs - len) (ucast len) t w)"

section \<open>One block\<close>

lemma skip_bads_ok:
  "io_hook_rw M hook buff len off dir w = Some (ST_OK, y, w') \<Longrightarrow> io_hook_rw_skip_bads M hook buff len off dir w = Some (ST_OK, y, w')"
  by (simp add: io_hook_rw_skip_bads_def ST_OK_def ST_RW_ERR_def)

lemma pool_block:
  assumes k: "good_key S k" and P: "pool_ok P" and at: "unat p = 512 * q" "unat l = 512 * m" "0 < m" "unat l + 2048 \<le> 2 ^ 32" "512 * (q + m) \<le> 2 ^ 62"
    and len: "unat l \<le> length buf"
  shows "\<exists>y. pool_crypt S P enc k None buf l p = Some y \<and> length y = length buf \<and> (\<forall>i < m. sec i y = sector_crypt S enc k (q + i) (sec i buf))"
proof -
  let ?h = "\<lparr>dh_flags = 0, dh_max_chunk = 0, dh_dsk_size = 0, dh_use_size = 0, dh_bps = 0, dh_tmp_size = 0, dh_stor_off = 0,
     dh_stor_len = 0, dh_head_len = 0, dh_tail_off = 0, dh_tail_len = 0, dh_dsk_key = None, dh_tmp_key = None, dh_pnp_state = Started\<rparr>"
  have "xts_offset ?h p = p" "\<And>i. crypt_sector S ?h enc (Some k) i b = sector_crypt S enc k i b" for b
    by (simp_all add: xts_offset_def crypt_sector_def xts_number_def)
  moreover have "\<exists>y. pool_crypt S P enc k None buf l (xts_offset ?h p) = Some (overlay 0 y buf) \<and> length y = unat l \<and>
      (\<forall>i < unat l div 512. sec i y = crypt_sector S ?h enc (Some k) (q + i) (sec i buf))"
    by (rule pool_crypt_chunk [OF k P _ at(1)]) (use at len in simp_all)
  ultimately obtain y where y: "pool_crypt S P enc k None buf l p = Some (overlay 0 y buf)" "length y = 512 * m"
      "\<forall>i < m. sec i y = sector_crypt S enc k (q + i) (sec i buf)" using at(2) by auto
  have "sec i (overlay 0 y buf) = sec i y" if "i < m" for i
    using sec_overlay [of y m 0 buf i] y(2) len at(2) that by auto
  moreover have "length (overlay 0 y buf) = length buf" using y(2) at(2) len by (simp add: length_overlay)
  ultimately show ?thesis using y by auto
qed

text \<open>What a step makes of one sector.\<close>

definition block_op :: "xts_selected \<Rightarrow> dev_hook \<Rightarrow> bool \<Rightarrow> nat \<Rightarrow> bytes \<Rightarrow> bytes" where
  "block_op S hook is_decrypt n b =
     (if dh_flags hook AND F_REENCRYPT \<noteq> 0 then sector_crypt S True (the (dh_dsk_key hook)) n (sector_crypt S False (the (dh_tmp_key hook)) n b)
      else sector_crypt S (\<not> is_decrypt) (the (dh_dsk_key hook)) n b)"

definition trans_keys :: "xts_selected \<Rightarrow> dev_hook \<Rightarrow> bool" where
  "trans_keys S hook \<longleftrightarrow> (\<exists>k. dh_dsk_key hook = Some k \<and> good_key S k) \<and> (dh_flags hook AND F_REENCRYPT \<noteq> 0 \<longrightarrow> (\<exists>k. dh_tmp_key hook = Some k \<and> good_key S k))"

text \<open>The parts of the device a block leaves as they are.\<close>

definition same_frame :: "trans_dev \<Rightarrow> trans_dev \<Rightarrow> bool" where
  "same_frame t t' \<longleftrightarrow> td_wp_mode t' = td_wp_mode t \<and> td_bitmap t' = td_bitmap t \<and> length (td_buff t') = length (td_buff t) \<and>
     wc_mode (td_wp_ctx t') = wc_mode (td_wp_ctx t) \<and> wc_size (td_wp_ctx t') = wc_size (td_wp_ctx t) \<and> tr_pending (td_trans t') = tr_pending (td_trans t)"

lemma same_frame_refl [simp]: "same_frame t t"
  by (simp add: same_frame_def)

lemma crypt_block_spec:
  assumes stack: "device_stack M disk good" "dh_pnp_state (td_hook t) = Started" "dh_max_chunk (td_hook t) \<noteq> 0" "good w" and P: "pool_ok P"
    and k: "trans_keys S (td_hook t)" and at: "unat offs = 512 * q" "unat len = 512 * m" "0 < m" "unat len < 2 ^ 31"
    and fit: "unat offs + unat len \<le> length (disk w)" "length (disk w) < 2 ^ 62" "unat len \<le> length (td_buff t)"
    and ready: "wipe_ready S (td_wp_ctx t) (unat len)"
  shows "\<exists>t' w'. crypt_block S P M is_decrypt offs len t w = Some (t', w') \<and> good w' \<and> outside (unat offs) (unat len) (disk w) (disk w') \<and>
    td_hook t' = td_hook t \<and> td_trans t' = td_trans t \<and> same_frame t t' \<and> (\<forall>i < m. sec i (td_buff t') = block_op S (td_hook t) is_decrypt (q + i) (sec i (td_buff t)))"
proof -
  let ?h = "td_hook t"
  have big: "unat len + 2048 \<le> 2 ^ 32" "512 * (q + m) \<le> 2 ^ 62" using at fit by simp_all
  obtain k1 where k1: "dh_dsk_key ?h = Some k1" "good_key S k1" using k by (auto simp: trans_keys_def)
  have "0 < unat len" "512 dvd unat len" using at by simp_all
  from wipe_process_inside [OF stack P ready this at(4) fit(1)] obtain ctx' w' where
    wipe: "dc_wipe_process S P M ?h (td_wp_ctx t) offs (unat len) w = Some (ST_OK, ctx', w')" "good w'"
      "outside (unat offs) (unat len) (disk w) (disk w')" "wc_mode ctx' = wc_mode (td_wp_ctx t)" "wc_size ctx' = wc_size (td_wp_ctx t)" by blast
  note pool = pool_block [OF _ P at(1-3) big]
  show ?thesis
  proof (cases "dh_flags ?h AND F_REENCRYPT \<noteq> 0")
    case True
    then obtain k2 where k2: "dh_tmp_key ?h = Some k2" "good_key S k2" using k by (auto simp: trans_keys_def)
    obtain y where y: "pool_crypt S P False k2 None (td_buff t) len offs = Some y" "length y = length (td_buff t)"
        "\<forall>i < m. sec i y = sector_crypt S False k2 (q + i) (sec i (td_buff t))" using pool [OF k2(2) fit(3)] by blast
    obtain z where z: "pool_crypt S P True k1 None y len offs = Some z" "length z = length y" "\<forall>i < m. sec i z = sector_crypt S True k1 (q + i) (sec i y)"
      using pool [OF k1(2), of y True] fit(3) y(2) by auto
    show ?thesis using True wipe k1(1) k2(1) y z by (simp add: crypt_block_def Let_def same_frame_def block_op_def)
  next
    case False
    obtain y where y: "pool_crypt S P (\<not> is_decrypt) k1 None (td_buff t) len offs = Some y" "length y = length (td_buff t)"
        "\<forall>i < m. sec i y = sector_crypt S (\<not> is_decrypt) k1 (q + i) (sec i (td_buff t))" using pool [OF k1(2) fit(3)] by blast
    show ?thesis
    proof (cases is_decrypt)
      case True
      then show ?thesis using False k1(1) y stack(4) by (simp add: crypt_block_def Let_def same_frame_def block_op_def)
    next
      case enc: False
      then show ?thesis using False wipe k1(1) y by (simp add: crypt_block_def Let_def same_frame_def block_op_def)
    qed
  qed
qed

lemma finish_block_OK:
  "finish_block is_decrypt offs len ST_OK t = trans_idle (dc_unlock_disk_range (set_tmp_size (if is_decrypt then offs else offs + ucast len) t))"
  by (simp add: finish_block_def)

text \<open>A block that is not skipped.\<close>

lemma transcrypt_block_spec:
  assumes stack: "device_stack M disk good" "dh_pnp_state (td_hook t) = Started" "dh_max_chunk (td_hook t) \<noteq> 0" "good w" and P: "pool_ok P"
    and k: "trans_keys S (td_hook t)" and at: "unat offs = 512 * q" "unat len = 512 * m" "0 < m" "unat len < 2 ^ 31"
    and fit: "unat offs + unat len \<le> length (disk w)" "length (disk w) < 2 ^ 62" "unat len \<le> length (td_buff t)"
    and ready: "wipe_ready S (td_wp_ctx t) (unat len)" and idle: "tr_pending (td_trans t) = 0"
    and alloc: "DC_BITMAP_IS_VALID (td_bitmap t) \<longrightarrow> dc_bitmap_is_allocated (td_bitmap t) offs len"
  shows "\<exists>t' w'. transcrypt_block S P M is_decrypt offs len t w = Some (ST_OK, t', w') \<and> good w' \<and> length (disk w') = length (disk w) \<and>
    td_hook t' = (td_hook t)\<lparr>dh_tmp_size := (if is_decrypt then offs else offs + ucast len)\<rparr> \<and> same_frame t t' \<and> \<not> tr_in_progress (td_trans t') \<and>
    (\<forall>i. 512 * Suc i \<le> length (disk w) \<longrightarrow> sec i (disk w') =
       (if q \<le> i \<and> i < q + m then block_op S (td_hook t) is_decrypt i (sec i (disk w)) else sec i (disk w)))"
proof -
  let ?h = "td_hook t" and ?d = "slice (unat offs) (unat len) (disk w)"
  obtain t1 where t1: "dc_lock_disk_range offs (offs + ucast len) t = Some t1" "td_hook t1 = ?h" "td_buff t1 = td_buff t" "td_wp_ctx t1 = td_wp_ctx t"
      "same_frame t t1" using idle by (simp add: dc_lock_disk_range_def same_frame_def)
  let ?b = "overlay 0 ?d (td_buff t)" and ?t2 = "t1\<lparr>td_buff := overlay 0 ?d (td_buff t)\<rparr>"
  have ld: "length ?d = 512 * m" using fit(1) at(2) by simp
  then have lb: "length ?b = length (td_buff t)" using fit(3) at(2) by (simp add: length_overlay)
  have read: "io_hook_rw_skip_bads M ?h (td_buff t1) len offs True w = Some (ST_OK, ?b, w)"
    unfolding t1(3) by (rule skip_bads_ok, rule started_device(1) [OF stack fit(1,3)])
  have secb: "sec i ?b = sec (q + i) (disk w)" if "i < m" for i
    using sec_overlay [OF ld, of 0 "td_buff t" i] that fit(3) at(1,2) ld sec_slice [OF that, of q "disk w"] by auto
  have "\<exists>t' w'. crypt_block S P M is_decrypt offs len ?t2 w = Some (t', w') \<and> good w' \<and> outside (unat offs) (unat len) (disk w) (disk w') \<and>
    td_hook t' = td_hook ?t2 \<and> td_trans t' = td_trans ?t2 \<and> same_frame ?t2 t' \<and> (\<forall>i < m. sec i (td_buff t') = block_op S (td_hook ?t2) is_decrypt (q + i) (sec i (td_buff ?t2)))"
    by (rule crypt_block_spec [OF stack(1) _ _ stack(4) P _ at fit(1,2)]) (use stack k ready lb fit(3) t1 in simp_all)
  then obtain t3 w3 where c: "crypt_block S P M is_decrypt offs len ?t2 w = Some (t3, w3)" "good w3" "outside (unat offs) (unat len) (disk w) (disk w3)"
    "td_hook t3 = ?h" "same_frame ?t2 t3" "\<forall>i < m. sec i (td_buff t3) = block_op S ?h is_decrypt (q + i) (sec i ?b)" using t1(2) by auto
  have l3: "length (td_buff t3) = length (td_buff t)" "length (disk w3) = length (disk w)" using c(3,5) lb by (simp_all add: same_frame_def outside_def)
  obtain w4 where w4: "io_hook_rw M ?h (td_buff t3) len offs False w3 = Some (ST_OK, td_buff t3, w4)" "good w4"
      "disk w4 = overlay (unat offs) (take (unat len) (td_buff t3)) (disk w3)"
    using started_device(2) [OF stack(1-3) c(2), of offs len "td_buff t3"] fit(1,3) l3 by auto
  let ?y = "take (unat len) (td_buff t3)"
  have ly: "length ?y = 512 * m" "512 * q + length ?y \<le> length (disk w)" using fit l3 at by simp_all
  have d4: "disk w4 = overlay (512 * q) ?y (disk w)" using c(3) w4(3) ly(1) at(1,2) by (simp add: outside_def)
  have secs: "sec i (disk w4) = (if q \<le> i \<and> i < q + m then block_op S ?h is_decrypt i (sec i (disk w)) else sec i (disk w))"
    if i: "512 * Suc i \<le> length (disk w)" for i
  proof (cases "q \<le> i \<and> i < q + m")
    case True
    then have "i - q < m" "q + (i - q) = i" by auto
    then have "sec (i - q) ?y = sec (i - q) (td_buff t3)" using mult_le_mono2 [of "Suc (i - q)" m 512] at(2) by (intro sec_take) simp
    then show ?thesis using True sec_overlay [OF ly i] c(6) secb [of "i - q"] \<open>i - q < m\<close> \<open>q + (i - q) = i\<close> by (simp add: d4)
  next
    case False
    then show ?thesis using sec_overlay [OF ly i] by (auto simp: d4)
  qed
  let ?t4 = "finish_block is_decrypt offs len ST_OK (t3\<lparr>td_buff := td_buff t3\<rparr>)"
  have run: "transcrypt_block S P M is_decrypt offs len t w = Some (ST_OK, ?t4, w4)"
  proof -
    have "\<not> (DC_BITMAP_IS_VALID (td_bitmap t) \<and> \<not> dc_bitmap_is_allocated (td_bitmap t) offs len)" using alloc by simp
    then show ?thesis unfolding transcrypt_block_def using t1(1,2) read c(1,4) skip_bads_ok [OF w4(1)] by (simp only: if_False) simp
  qed
  have t4: "td_hook ?t4 = ?h\<lparr>dh_tmp_size := (if is_decrypt then offs else offs + ucast len)\<rparr>" "\<not> tr_in_progress (td_trans ?t4)"
    using c(4) by (simp_all add: finish_block_OK trans_idle_def dc_unlock_disk_range_def set_tmp_size_def)
  have "same_frame t ?t4" using t1(5) c(5) lb
    by (simp add: same_frame_def finish_block_OK trans_idle_def dc_unlock_disk_range_def set_tmp_size_def)
  moreover have "length (disk w4) = length (disk w)" using d4 ly by (simp add: length_overlay)
  ultimately show ?thesis using run w4(2) t4 secs by blast
qed

section \<open>The view of the volume\<close>

text \<open>The snapshot a request takes while \<^verbatim>\<open>F_SYNC\<close> is set.\<close>

definition sync_snapshot :: "dev_hook \<Rightarrow> io_snapshot" where
  "sync_snapshot hook = \<lparr>sn_trans_io = True, sn_boundary = dh_tmp_size hook, sn_dsk_key = dh_dsk_key hook, sn_tmp_key = dh_tmp_key hook\<rparr>"

text \<open>The plaintext of a sector of the disk as requests see it now.\<close>

definition seen :: "xts_selected \<Rightarrow> dev_hook \<Rightarrow> bytes \<Rightarrow> nat \<Rightarrow> bytes" where
  "seen S hook d p = plain_sector S hook (sync_snapshot hook) p d"

lemma seen_eq:
  "dh_flags hook AND F_NO_REDIRECT = 0 \<Longrightarrow> 0 < dh_tmp_size hook \<Longrightarrow> seen S hook d p =
    (if unat (dh_tmp_size hook) \<le> 512 * p
     then if dh_flags hook AND F_REENCRYPT \<noteq> 0 then case dh_tmp_key hook of None \<Rightarrow> sec p d | Some k \<Rightarrow> sector_crypt S False k p (sec p d) else sec p d
     else case dh_dsk_key hook of None \<Rightarrow> sec p d | Some k \<Rightarrow> sector_crypt S False k p (sec p d))"
  by (simp add: seen_def plain_sector_def sync_snapshot_def sector_key_def crypt_sector_def xts_number_def split: option.splits)

lemma block_keeps_view:
  assumes k: "trans_keys S hook" and nr: "dh_flags hook AND F_NO_REDIRECT = 0"
    and dir: "\<not> (is_decrypt \<and> dh_flags hook AND F_REENCRYPT \<noteq> 0)"
    and lo: "unat (dh_tmp_size hook) = (if is_decrypt then 512 * (q + m) else 512 * q)" "unat b' = (if is_decrypt then 512 * q else 512 * (q + m))" "0 < q" "0 < m"
    and d': "sec p d' = (if q \<le> p \<and> p < q + m then block_op S hook is_decrypt p (sec p d) else sec p d)"
    and p: "512 * Suc p \<le> length d" "length d < 2 ^ 62"
  shows "seen S (hook\<lparr>dh_tmp_size := b'\<rparr>) d' p = seen S hook d p"
proof -
  obtain k1 where k1: "dh_dsk_key hook = Some k1" "good_key S k1" using k by (auto simp: trans_keys_def)
  have pos: "0 < dh_tmp_size hook" "0 < b'" using lo by (auto simp: word_less_nat_alt split: if_splits)
  have s: "length (sec p d) = 512" "p < 2 ^ 55" using p by simp_all
  note inv1 = good_key_inverse [OF k1(2) _ s(2)]
  have view: "seen S (hook\<lparr>dh_tmp_size := b'\<rparr>) d' p = (if unat b' \<le> 512 * p
     then if dh_flags hook AND F_REENCRYPT \<noteq> 0 then case dh_tmp_key hook of None \<Rightarrow> sec p d' | Some k \<Rightarrow> sector_crypt S False k p (sec p d') else sec p d'
     else sector_crypt S False k1 p (sec p d'))" using seen_eq [of "hook\<lparr>dh_tmp_size := b'\<rparr>" S d' p] nr pos k1 by simp
  have old: "seen S hook d p = (if unat (dh_tmp_size hook) \<le> 512 * p
     then if dh_flags hook AND F_REENCRYPT \<noteq> 0 then case dh_tmp_key hook of None \<Rightarrow> sec p d | Some k \<Rightarrow> sector_crypt S False k p (sec p d) else sec p d
     else sector_crypt S False k1 p (sec p d))" using seen_eq [OF nr pos(1)] k1 by simp
  show ?thesis
  proof (cases "q \<le> p \<and> p < q + m")
    case False
    then have "unat b' \<le> 512 * p \<longleftrightarrow> unat (dh_tmp_size hook) \<le> 512 * p" using lo by (auto split: if_splits)
    moreover have "sec p d' = sec p d" using False d' by metis
    ultimately show ?thesis unfolding view old by (cases "dh_tmp_key hook") simp_all
  next
    case True
    then have in': "sec p d' = block_op S hook is_decrypt p (sec p d)" using d' by simp
    show ?thesis
    proof (cases is_decrypt)
      case True
      then have "unat b' \<le> 512 * p" "\<not> unat (dh_tmp_size hook) \<le> 512 * p" "dh_flags hook AND F_REENCRYPT = 0"
        using \<open>q \<le> p \<and> p < q + m\<close> lo dir by auto
      then show ?thesis using view old in' True k1(1) by (simp add: block_op_def)
    next
      case False
      then have b: "\<not> unat b' \<le> 512 * p" "unat (dh_tmp_size hook) \<le> 512 * p" using \<open>q \<le> p \<and> p < q + m\<close> lo by auto
      show ?thesis
      proof (cases "dh_flags hook AND F_REENCRYPT \<noteq> 0")
        case True
        then obtain k2 where k2: "dh_tmp_key hook = Some k2" "good_key S k2" using k by (auto simp: trans_keys_def)
        have "length (sector_crypt S False k2 p (sec p d)) = 512" by (rule good_key_length [OF k2(2) s])
        then show ?thesis using view old in' b True k1(1) k2(1) inv1 by (simp add: block_op_def)
      next
        case noreenc: False
        then show ?thesis using view old in' b False k1(1) inv1 [OF s(1)] by (simp add: block_op_def)
      qed
    qed
  qed
qed

section \<open>A step\<close>

text \<open>
  The state between two steps: keys and buffers are set up, nothing is pending, every length is whole sectors and the
  boundary lies in the data area.  \<open>n\<close> is the length of the disk.
\<close>

definition trans_layout :: "nat \<Rightarrow> dev_hook \<Rightarrow> bool" where
  "trans_layout n hook \<longleftrightarrow> 512 dvd unat (dh_head_len hook) \<and> 512 dvd unat (dh_tail_len hook) \<and> 512 dvd unat (dh_dsk_size hook) \<and>
     512 dvd unat (dh_tmp_size hook) \<and> 0 < unat (dh_head_len hook) \<and> unat (dh_head_len hook) + unat (dh_tail_len hook) \<le> unat (dh_dsk_size hook) \<and>
     unat (dh_dsk_size hook) \<le> n \<and> n < 2 ^ 62 \<and> unat (dh_head_len hook) \<le> unat (dh_tmp_size hook) \<and> unat (dh_tmp_size hook) \<le> unat (data_end hook)"

definition trans_ready :: "xts_selected \<Rightarrow> nat \<Rightarrow> trans_dev \<Rightarrow> bool" where
  "trans_ready S n t \<longleftrightarrow> dh_pnp_state (td_hook t) = Started \<and> dh_max_chunk (td_hook t) \<noteq> 0 \<and> trans_keys S (td_hook t) \<and> trans_layout n (td_hook t) \<and>
     dh_flags (td_hook t) AND F_SYNC \<noteq> 0 \<and> dh_flags (td_hook t) AND F_PREVENT_ENC = 0 \<and>
     tr_pending (td_trans t) = 0 \<and> \<not> tr_in_progress (td_trans t) \<and> unat ENC_BLOCK_SIZE \<le> length (td_buff t) \<and> wipe_ready S (td_wp_ctx t) (unat ENC_BLOCK_SIZE)"

definition step_len :: "bool \<Rightarrow> dev_hook \<Rightarrow> u64" where
  "step_len is_decrypt hook = min (if is_decrypt then dh_tmp_size hook - ucast (dh_head_len hook) else data_end hook - dh_tmp_size hook) (ucast ENC_BLOCK_SIZE)"

definition step_off :: "bool \<Rightarrow> dev_hook \<Rightarrow> u64" where
  "step_off is_decrypt hook = (if is_decrypt then dh_tmp_size hook - step_len is_decrypt hook else dh_tmp_size hook)"

text \<open>There is a block left to do.\<close>

definition unfinished :: "bool \<Rightarrow> dev_hook \<Rightarrow> bool" where
  "unfinished is_decrypt hook \<longleftrightarrow> (if is_decrypt then ucast (dh_head_len hook) < dh_tmp_size hook else dh_tmp_size hook < data_end hook)"

lemma block_size: "unat (ucast ENC_BLOCK_SIZE :: u64) = 512 * 2560" "unat ENC_BLOCK_SIZE = 512 * 2560"
  by (simp_all add: ENC_BLOCK_SIZE_def)

lemma unat_data_end:
  "trans_layout n hook \<Longrightarrow> unat (data_end hook) = unat (dh_dsk_size hook) - (if dh_flags hook AND F_HEAD_BACKUP \<noteq> 0 then unat (dh_tail_len hook) else 0)"
  by (auto simp: trans_layout_def data_end_def unat_sub word_le_nat_alt)

lemma data_end_dvd: "trans_layout n hook \<Longrightarrow> 512 dvd unat (data_end hook) \<and> unat (data_end hook) \<le> n"
  unfolding unat_data_end by (auto simp: trans_layout_def intro!: dvd_diff_nat)

lemma step_range:
  assumes lay: "trans_layout n hook" and un: "unfinished is_decrypt hook"
  obtains q m where "unat (step_off is_decrypt hook) = 512 * q" "unat (step_len is_decrypt hook) = 512 * m" "unat (ucast (step_len is_decrypt hook) :: u32) = 512 * m"
    "0 < q" "0 < m" "m \<le> 2560" "512 * (q + m) \<le> unat (data_end hook)" "unat (dh_head_len hook) \<le> 512 * q"
    "unat (dh_tmp_size hook) = (if is_decrypt then 512 * (q + m) else 512 * q)"
proof -
  let ?l = "step_len is_decrypt hook" and ?tmp = "unat (dh_tmp_size hook)" and ?h = "unat (dh_head_len hook)" and ?e = "unat (data_end hook)"
  define rest where "rest = (if is_decrypt then ?tmp - ?h else ?e - ?tmp)"
  note L = lay [unfolded trans_layout_def]
  have rest: "0 < rest" "512 dvd rest" "rest = unat (if is_decrypt then dh_tmp_size hook - ucast (dh_head_len hook) else data_end hook - dh_tmp_size hook)"
    using un L data_end_dvd [OF lay] by (auto simp: rest_def unfinished_def word_less_nat_alt word_le_nat_alt unat_sub)
  have l: "unat ?l = min rest (512 * 2560)"
    unfolding rest(3) step_len_def using block_size(1) by (simp add: min_def word_le_nat_alt)
  obtain r where r: "rest = 512 * r" using rest(2) by auto
  then have lm: "unat ?l = 512 * min r 2560" using l by (simp add: min_mult_distrib_left)
  have small: "unat (ucast ?l :: u32) = unat ?l" using l by (simp add: unsigned_ucast_eq take_bit_nat_eq_self)
  obtain a h where a: "?tmp = 512 * a" "?h = 512 * h" using L by (auto elim!: dvdE)
  have off: "unat (step_off is_decrypt hook) = (if is_decrypt then ?tmp - unat ?l else ?tmp)"
    using l rest_def by (auto simp: step_off_def unat_sub word_le_nat_alt)
  show thesis
  proof (rule that [of "if is_decrypt then a - min r 2560 else a" "min r 2560"])
    show "unat (step_off is_decrypt hook) = 512 * (if is_decrypt then a - min r 2560 else a)" using off lm a by (cases is_decrypt) (simp_all add: right_diff_distrib')
    show "unat ?l = 512 * min r 2560" "unat (ucast ?l :: u32) = 512 * min r 2560" using lm small by simp_all
    show "0 < min r 2560" "min r 2560 \<le> 2560" using rest(1) r by auto
    have hq: "h \<le> (if is_decrypt then a - min r 2560 else a) \<and> (is_decrypt \<longrightarrow> min r 2560 \<le> a)"
      using r a L by (auto simp: rest_def split: if_splits)
    then show "?h \<le> 512 * (if is_decrypt then a - min r 2560 else a)" using a by simp
    show "0 < (if is_decrypt then a - min r 2560 else a)" using hq a L by (auto intro: gr0I)
    show "?tmp = (if is_decrypt then 512 * ((if is_decrypt then a - min r 2560 else a) + min r 2560) else 512 * (if is_decrypt then a - min r 2560 else a))"
      using hq a by auto
    show "512 * ((if is_decrypt then a - min r 2560 else a) + min r 2560) \<le> ?e"
      using hq a L r by (auto simp: rest_def split: if_splits)
  qed
qed

text \<open>A step that has a block to do does that block.\<close>

definition quiet :: "('w \<Rightarrow> bytes) \<Rightarrow> ('w \<Rightarrow> bool) \<Rightarrow> ('w \<Rightarrow> bool \<times> 'w) \<Rightarrow> bool" where
  "quiet disk good start_thread \<longleftrightarrow> (\<forall>w. good w \<longrightarrow> good (snd (start_thread w)) \<and> disk (snd (start_thread w)) = disk w)"

lemma step_unfold:
  assumes ready: "trans_ready S n t" and un: "unfinished is_decrypt (td_hook t)" and T: "quiet disk good start_thread" "good w"
  obtains t0 w0 where "dc_transcrypt_step S P M start_thread is_decrypt t w =
      transcrypt_block S P M is_decrypt (step_off is_decrypt (td_hook t)) (ucast (step_len is_decrypt (td_hook t))) t0 w0"
    "good w0" "disk w0 = disk w" "td_hook t0 = td_hook t" "td_buff t0 = td_buff t" "td_wp_ctx t0 = td_wp_ctx t" "td_wp_mode t0 = td_wp_mode t"
    "tr_pending (td_trans t0) = 0" "DC_BITMAP_IS_VALID (td_bitmap t0) \<longleftrightarrow> DC_BITMAP_IS_VALID (td_bitmap t)"
    "DC_BITMAP_IS_VALID (td_bitmap t) \<Longrightarrow> td_bitmap t0 = td_bitmap t"
proof -
  let ?t1 = "t\<lparr>td_trans := (td_trans t)\<lparr>tr_idle := False, tr_in_progress := True\<rparr>\<rparr>"
  let ?lazy = "if td_wp_mode t = WP_SKIP_UNUSED \<and> td_bitmap t = DC_BITMAP_NONE then dc_bitmap_start_init start_thread ?t1 w else (?t1, w)"
  obtain t0 w0 where tw: "?lazy = (t0, w0)" by (cases ?lazy)
  have f: "td_hook t0 = td_hook t" "td_buff t0 = td_buff t" "td_wp_ctx t0 = td_wp_ctx t" "td_wp_mode t0 = td_wp_mode t" "tr_pending (td_trans t0) = 0"
    using tw ready by (auto simp: dc_bitmap_start_init_def trans_ready_def split: if_splits prod.splits)
  have w0: "good w0" "disk w0 = disk w"
    using tw T by (auto simp: dc_bitmap_start_init_def quiet_def split: if_splits prod.splits)
  have b: "DC_BITMAP_IS_VALID (td_bitmap t0) \<longleftrightarrow> DC_BITMAP_IS_VALID (td_bitmap t)" "DC_BITMAP_IS_VALID (td_bitmap t) \<Longrightarrow> td_bitmap t0 = td_bitmap t"
    using tw by (auto simp: dc_bitmap_start_init_def split: if_splits prod.splits)
  have "dc_transcrypt_step S P M start_thread is_decrypt t w =
      transcrypt_block S P M is_decrypt (step_off is_decrypt (td_hook t)) (ucast (step_len is_decrypt (td_hook t))) t0 w0"
    using ready un tw f(1) unfolding dc_transcrypt_step_def
    by (cases is_decrypt) (simp_all add: trans_ready_def unfinished_def step_off_def step_len_def Let_def linorder_not_le [symmetric] del: not_le)
  then show thesis using that f w0 b by blast
qed

text \<open>The range the bitmap has to say is in use for a block to be done.\<close>

definition block_skipped :: "bool \<Rightarrow> trans_dev \<Rightarrow> bool" where
  "block_skipped is_decrypt t \<longleftrightarrow> DC_BITMAP_IS_VALID (td_bitmap t) \<and>
     \<not> dc_bitmap_is_allocated (td_bitmap t) (step_off is_decrypt (td_hook t)) (ucast (step_len is_decrypt (td_hook t)))"

definition in_block :: "bool \<Rightarrow> dev_hook \<Rightarrow> nat \<Rightarrow> bool" where
  "in_block is_decrypt hook p \<longleftrightarrow> unat (step_off is_decrypt hook) \<le> 512 * p \<and> 512 * p < unat (step_off is_decrypt hook) + unat (step_len is_decrypt hook)"

definition step_boundary :: "bool \<Rightarrow> dev_hook \<Rightarrow> u64" where
  "step_boundary is_decrypt hook = (if is_decrypt then step_off is_decrypt hook else step_off is_decrypt hook + step_len is_decrypt hook)"

lemma step_spec:
  assumes stack: "device_stack M disk good" "good w" and P: "pool_ok P" and ready: "trans_ready S (length (disk w)) t" and T: "quiet disk good start_thread"
    and un: "unfinished is_decrypt (td_hook t)"
  shows "\<exists>t' w'. dc_transcrypt_step S P M start_thread is_decrypt t w = Some (ST_OK, t', w') \<and> good w' \<and> length (disk w') = length (disk w) \<and>
    td_hook t' = (td_hook t)\<lparr>dh_tmp_size := step_boundary is_decrypt (td_hook t)\<rparr> \<and> \<not> tr_in_progress (td_trans t') \<and> tr_pending (td_trans t') = 0 \<and>
    td_wp_mode t' = td_wp_mode t \<and> length (td_buff t') = length (td_buff t) \<and>
    wc_mode (td_wp_ctx t') = wc_mode (td_wp_ctx t) \<and> wc_size (td_wp_ctx t') = wc_size (td_wp_ctx t) \<and>
    (DC_BITMAP_IS_VALID (td_bitmap t') \<longleftrightarrow> DC_BITMAP_IS_VALID (td_bitmap t)) \<and>
    (\<forall>p. 512 * Suc p \<le> length (disk w) \<longrightarrow> sec p (disk w') =
       (if in_block is_decrypt (td_hook t) p \<and> \<not> block_skipped is_decrypt t then block_op S (td_hook t) is_decrypt p (sec p (disk w)) else sec p (disk w)))"
proof -
  let ?h = "td_hook t" and ?off = "step_off is_decrypt (td_hook t)" and ?len = "ucast (step_len is_decrypt (td_hook t)) :: u32"
  note R = ready [unfolded trans_ready_def]
  have lay: "trans_layout (length (disk w)) ?h" using R by simp
  obtain q m where r: "unat ?off = 512 * q" "unat (step_len is_decrypt ?h) = 512 * m" "unat ?len = 512 * m" "0 < q" "0 < m" "m \<le> 2560" "512 * (q + m) \<le> unat (data_end ?h)"
    using step_range [OF lay un] by metis
  obtain t0 w0 where s: "dc_transcrypt_step S P M start_thread is_decrypt t w = transcrypt_block S P M is_decrypt ?off ?len t0 w0"
    "good w0" "disk w0 = disk w" "td_hook t0 = ?h" "td_buff t0 = td_buff t" "td_wp_ctx t0 = td_wp_ctx t" "td_wp_mode t0 = td_wp_mode t"
    "tr_pending (td_trans t0) = 0" "DC_BITMAP_IS_VALID (td_bitmap t0) \<longleftrightarrow> DC_BITMAP_IS_VALID (td_bitmap t)"
    "DC_BITMAP_IS_VALID (td_bitmap t) \<Longrightarrow> td_bitmap t0 = td_bitmap t" using step_unfold [OF ready un T stack(2)] by metis
  have lens: "ucast ?len = step_len is_decrypt ?h" using r(2,3) by (simp add: word_unat_eq_iff)
  then have bnd: "(if is_decrypt then ?off else ?off + ucast ?len) = step_boundary is_decrypt ?h" by (cases is_decrypt) (simp_all add: step_boundary_def)
  have inb: "in_block is_decrypt ?h p \<longleftrightarrow> q \<le> p \<and> p < q + m" for p by (auto simp: in_block_def r(1,2))
  show ?thesis
  proof (cases "block_skipped is_decrypt t")
    case True
    then have sk: "DC_BITMAP_IS_VALID (td_bitmap t0) \<and> \<not> dc_bitmap_is_allocated (td_bitmap t0) ?off ?len" using s(9,10) by (simp add: block_skipped_def)
    let ?t' = "trans_idle (set_tmp_size (step_boundary is_decrypt ?h) t0)"
    have "dc_transcrypt_step S P M start_thread is_decrypt t w = Some (ST_OK, ?t', w0)"
      using sk unfolding s(1) transcrypt_block_def bnd by (simp only: if_True simp_thms)
    then show ?thesis using s True by (simp add: trans_idle_def set_tmp_size_def)
  next
    case False
    have fit: "unat ?off + unat ?len \<le> length (disk w)" "length (disk w) < 2 ^ 62" "unat ?len \<le> length (td_buff t)" "unat ?len < 2 ^ 31" "unat ?len \<le> unat ENC_BLOCK_SIZE"
      using r R data_end_dvd [OF lay] block_size(2) by (simp_all add: trans_layout_def)
    have wr: "wipe_ready S (td_wp_ctx t) (unat ?len)"
      using wipe_ready_mono [OF _ fit(5)] R by simp
    have al: "DC_BITMAP_IS_VALID (td_bitmap t0) \<longrightarrow> dc_bitmap_is_allocated (td_bitmap t0) ?off ?len" using False s(9,10) by (auto simp: block_skipped_def)
    have "\<exists>t' w'. transcrypt_block S P M is_decrypt ?off ?len t0 w0 = Some (ST_OK, t', w') \<and> good w' \<and> length (disk w') = length (disk w0) \<and>
      td_hook t' = (td_hook t0)\<lparr>dh_tmp_size := (if is_decrypt then ?off else ?off + ucast ?len)\<rparr> \<and> same_frame t0 t' \<and> \<not> tr_in_progress (td_trans t') \<and>
      (\<forall>i. 512 * Suc i \<le> length (disk w0) \<longrightarrow> sec i (disk w') =
         (if q \<le> i \<and> i < q + m then block_op S (td_hook t0) is_decrypt i (sec i (disk w0)) else sec i (disk w0)))"
      by (rule transcrypt_block_spec [OF stack(1) _ _ s(2) P _ r(1,3,5)]) (use R s fit wr al in simp_all)
    then obtain t1 w1 where t1: "dc_transcrypt_step S P M start_thread is_decrypt t w = Some (ST_OK, t1, w1)" "good w1" "length (disk w1) = length (disk w)"
      "td_hook t1 = ?h\<lparr>dh_tmp_size := step_boundary is_decrypt ?h\<rparr>" "same_frame t0 t1" "\<not> tr_in_progress (td_trans t1)"
      "\<forall>i. 512 * Suc i \<le> length (disk w) \<longrightarrow> sec i (disk w1) = (if q \<le> i \<and> i < q + m then block_op S ?h is_decrypt i (sec i (disk w)) else sec i (disk w))"
      unfolding bnd s(1,3,4) by blast
    have "td_bitmap t1 = td_bitmap t0" "td_wp_mode t1 = td_wp_mode t" "length (td_buff t1) = length (td_buff t)" "wc_mode (td_wp_ctx t1) = wc_mode (td_wp_ctx t)"
      "wc_size (td_wp_ctx t1) = wc_size (td_wp_ctx t)" "tr_pending (td_trans t1) = 0" using t1(5) s by (simp_all add: same_frame_def)
    moreover have "\<forall>p. 512 * Suc p \<le> length (disk w) \<longrightarrow> sec p (disk w1) =
       (if in_block is_decrypt ?h p \<and> \<not> block_skipped is_decrypt t then block_op S ?h is_decrypt p (sec p (disk w)) else sec p (disk w))"
      using t1(7) False unfolding inb by simp
    ultimately show ?thesis using t1 s(9) by (intro exI [of _ t1] exI [of _ w1]) simp
  qed
qed

lemma boundary_moves:
  assumes "trans_layout n hook" "unfinished is_decrypt hook"
  shows "trans_layout n (hook\<lparr>dh_tmp_size := step_boundary is_decrypt hook\<rparr>)"
    "if is_decrypt then unat (step_boundary is_decrypt hook) < unat (dh_tmp_size hook) else unat (dh_tmp_size hook) < unat (step_boundary is_decrypt hook)"
proof -
  obtain q m where r: "unat (step_off is_decrypt hook) = 512 * q" "unat (step_len is_decrypt hook) = 512 * m" "0 < q" "0 < m" "512 * (q + m) \<le> unat (data_end hook)"
    "unat (dh_head_len hook) \<le> 512 * q" "unat (dh_tmp_size hook) = (if is_decrypt then 512 * (q + m) else 512 * q)" using step_range [OF assms] by metis
  have "512 * (q + m) < 2 ^ 64" using r(5) data_end_dvd [OF assms(1)] assms(1) by (simp add: trans_layout_def)
  then have b: "unat (step_boundary is_decrypt hook) = (if is_decrypt then 512 * q else 512 * (q + m))"
    using r(1,2) by (cases is_decrypt) (simp_all add: step_boundary_def unat_word_ariths(1))
  show "if is_decrypt then unat (step_boundary is_decrypt hook) < unat (dh_tmp_size hook) else unat (dh_tmp_size hook) < unat (step_boundary is_decrypt hook)"
    using b r by (cases is_decrypt) simp_all
  show "trans_layout n (hook\<lparr>dh_tmp_size := step_boundary is_decrypt hook\<rparr>)"
    using assms(1) b r(5,6) by (cases is_decrypt) (auto simp: trans_layout_def data_end_def)
qed

text \<open>The next step finds the same state; with a wipe mode the stream of random data has to have room for the next block.\<close>

lemma next_ready:
  assumes "trans_ready S n t" "unfinished is_decrypt (td_hook t)" "td_hook t' = (td_hook t)\<lparr>dh_tmp_size := step_boundary is_decrypt (td_hook t)\<rparr>"
    "\<not> tr_in_progress (td_trans t')" "tr_pending (td_trans t') = 0" "length (td_buff t') = length (td_buff t)"
    "wc_mode (td_wp_ctx t') = None" "wc_size (td_wp_ctx t') = wc_size (td_wp_ctx t)"
  shows "trans_ready S n t'"
  using assms boundary_moves(1) [of n "td_hook t" is_decrypt] by (auto simp: trans_ready_def trans_keys_def wipe_ready_def)

lemma step_view:
  assumes "trans_ready S (length d) t" "unfinished is_decrypt (td_hook t)" "dh_flags (td_hook t) AND F_NO_REDIRECT = 0"
    "\<not> (is_decrypt \<and> dh_flags (td_hook t) AND F_REENCRYPT \<noteq> 0)" "512 * Suc p \<le> length d"
    "sec p d' = (if in_block is_decrypt (td_hook t) p \<and> \<not> block_skipped is_decrypt t then block_op S (td_hook t) is_decrypt p (sec p d) else sec p d)"
    "\<not> (in_block is_decrypt (td_hook t) p \<and> block_skipped is_decrypt t)"
  shows "seen S ((td_hook t)\<lparr>dh_tmp_size := step_boundary is_decrypt (td_hook t)\<rparr>) d' p = seen S (td_hook t) d p"
proof -
  let ?h = "td_hook t"
  have R: "trans_layout (length d) ?h" "trans_keys S ?h" using assms(1) by (simp_all add: trans_ready_def)
  obtain q m where r: "unat (step_off is_decrypt ?h) = 512 * q" "unat (step_len is_decrypt ?h) = 512 * m" "0 < q" "0 < m" "512 * (q + m) \<le> unat (data_end ?h)"
    "unat (dh_tmp_size ?h) = (if is_decrypt then 512 * (q + m) else 512 * q)" using step_range [OF R(1) assms(2)] by metis
  have "512 * (q + m) < 2 ^ 64" "length d < 2 ^ 62" using r(5) data_end_dvd [OF R(1)] R(1) by (simp_all add: trans_layout_def)
  then have b: "unat (step_boundary is_decrypt ?h) = (if is_decrypt then 512 * q else 512 * (q + m))"
    using r(1,2) by (cases is_decrypt) (simp_all add: step_boundary_def unat_word_ariths(1))
  have "in_block is_decrypt ?h p \<longleftrightarrow> q \<le> p \<and> p < q + m" by (auto simp: in_block_def r(1,2))
  then have "sec p d' = (if q \<le> p \<and> p < q + m then block_op S ?h is_decrypt p (sec p d) else sec p d)" using assms(6,7) by auto
  then show ?thesis by (rule block_keeps_view [OF R(2) assms(3,4) r(6) b r(3,4) _ assms(5) \<open>length d < 2 ^ 62\<close>])
qed

section \<open>Properties\<close>

text \<open>
  C8 (safety): a step of transcryption is invisible to the requests.  For a volume whose requests are redirected, on a
  lower driver that completes requests in line and does not fail inside the disk, and for a device that is ready
  for a step (in sync mode, not stopped, no step under way, no request pending, keys and buffers set up, whole
  sectors, the boundary inside the data area) with a block left: a step returns with success, changes of the
  device record only the boundary, and every sector of the disk has the plaintext it had before, seen with the
  new boundary, whether the step encrypts, re-encrypts (wiping the block first when that is asked for) or
  decrypts a volume that is not being re-encrypted.  Nothing is said of the sectors of a block that the
  allocation bitmap lets it skip.
\<close>

theorem transcrypt_step_keeps_plain:
  assumes "device_stack M disk good" and "good w" and "pool_ok P" and "quiet disk good start_thread"
    and "trans_ready S (length (disk w)) t" and "unfinished is_decrypt (td_hook t)" and "dh_flags (td_hook t) AND F_NO_REDIRECT = 0"
    and "\<not> (is_decrypt \<and> dh_flags (td_hook t) AND F_REENCRYPT \<noteq> 0)"
  shows "\<exists>t' w'. dc_transcrypt_step S P M start_thread is_decrypt t w = Some (ST_OK, t', w') \<and> good w' \<and> length (disk w') = length (disk w) \<and>
    td_hook t' = (td_hook t)\<lparr>dh_tmp_size := step_boundary is_decrypt (td_hook t)\<rparr> \<and> \<not> tr_in_progress (td_trans t') \<and>
    (\<forall>p. 512 * Suc p \<le> length (disk w) \<longrightarrow> \<not> (in_block is_decrypt (td_hook t) p \<and> block_skipped is_decrypt t) \<longrightarrow>
       seen S (td_hook t') (disk w') p = seen S (td_hook t) (disk w) p)"
proof -
  obtain t' w' where s: "dc_transcrypt_step S P M start_thread is_decrypt t w = Some (ST_OK, t', w')" "good w'" "length (disk w') = length (disk w)"
    "td_hook t' = (td_hook t)\<lparr>dh_tmp_size := step_boundary is_decrypt (td_hook t)\<rparr>" "\<not> tr_in_progress (td_trans t')"
    "\<forall>p. 512 * Suc p \<le> length (disk w) \<longrightarrow> sec p (disk w') =
       (if in_block is_decrypt (td_hook t) p \<and> \<not> block_skipped is_decrypt t then block_op S (td_hook t) is_decrypt p (sec p (disk w)) else sec p (disk w))"
    using step_spec [OF assms(1,2,3,5,4,6)] by blast
  have "seen S (td_hook t') (disk w') p = seen S (td_hook t) (disk w) p"
    if "512 * Suc p \<le> length (disk w)" "\<not> (in_block is_decrypt (td_hook t) p \<and> block_skipped is_decrypt t)" for p
    unfolding s(4) using s(6) that by (intro step_view [OF assms(5-8)]) blast+
  then show ?thesis using s(1-5) by blast
qed

text \<open>A volume of four sectors, the first of which holds the header, at the start of its encryption.\<close>

definition trans_hook :: dev_hook where
  "trans_hook = \<lparr>dh_flags = F_ENABLED OR F_SYNC, dh_max_chunk = 512, dh_dsk_size = 2048, dh_use_size = 1536, dh_bps = 512, dh_tmp_size = 512,
     dh_stor_off = 1536, dh_stor_len = 512, dh_head_len = 512, dh_tail_off = 0, dh_tail_len = 0,
     dh_dsk_key = Some (snd (xts_set_key (replicate 64 5) CF_SERPENT undefined)), dh_tmp_key = None, dh_pnp_state = Started\<rparr>"

definition trans_sample :: trans_dev where
  "trans_sample = \<lparr>td_hook = trans_hook,
     td_trans = \<lparr>tr_active_start = - 1, tr_active_end = 0, tr_pending = 0, tr_in_progress = False, tr_idle = True, tr_block_complete = True\<rparr>,
     td_buff = replicate (unat ENC_BLOCK_SIZE) 0, td_wp_ctx = wipe_zero\<lparr>wc_size := int (unat ENC_BLOCK_SIZE)\<rparr>, td_wp_mode = WP_NONE, td_bitmap = DC_BITMAP_NONE\<rparr>"

definition trans_disk :: dc_buffer where
  "trans_disk = \<lparr>b_data = Some (replicate 2048 7), b_size = 2048\<rparr>"

definition trans_pool :: fc_pool where
  "trans_pool = \<lparr>fc_x64 = True, fc_cpus = 4, fc_mem = True\<rparr>"

lemma trans_hook_flags:
  "dh_flags trans_hook AND F_NO_REDIRECT = 0" "dh_flags trans_hook AND F_REENCRYPT = 0" "dh_flags trans_hook AND F_HEAD_BACKUP = 0"
  "dh_flags trans_hook AND F_SYNC \<noteq> 0" "dh_flags trans_hook AND F_PREVENT_ENC = 0"
  by (simp_all add: trans_hook_def f_defs)

lemma trans_disk_ok: "buffer_inv trans_disk" "buffer_disk trans_disk = replicate 2048 7" "pool_ok trans_pool" "quiet buffer_disk buffer_inv (\<lambda>w. (True, w))"
  by (simp_all add: buffer_inv_def buffer_disk_def trans_disk_def trans_pool_def pool_ok_def MAX_CPU_COUNT_def quiet_def)

lemma trans_sample_ready: "trans_ready (scalar_selection fips197_core) 2048 trans_sample" "unfinished False trans_hook" "data_end trans_hook = 2048"
proof -
  have set: "xts_set_key (replicate 64 5) CF_SERPENT undefined = (1, snd (xts_set_key (replicate 64 5) CF_SERPENT undefined))"
    by (simp add: xts_set_key_def cf_defs)
  have "good_key (scalar_selection fips197_core) (snd (xts_set_key (replicate 64 5) CF_SERPENT undefined))"
    by (rule xts_set_key_good [OF fips197_core_ok set])
  then have k: "trans_keys (scalar_selection fips197_core) trans_hook" using trans_hook_flags(2) by (simp add: trans_keys_def) (simp add: trans_hook_def)
  show e: "data_end trans_hook = 2048" using trans_hook_flags(3) by (simp add: data_end_def) (simp add: trans_hook_def)
  then have "trans_layout 2048 trans_hook" by (simp add: trans_layout_def) (simp add: trans_hook_def)
  moreover have "dh_pnp_state trans_hook = Started" "dh_max_chunk trans_hook \<noteq> 0" by (simp_all add: trans_hook_def)
  ultimately show "trans_ready (scalar_selection fips197_core) 2048 trans_sample"
    using k trans_hook_flags by (simp add: trans_ready_def trans_sample_def wipe_ready_def wipe_zero_def)
  show "unfinished False trans_hook" using e by (simp add: unfinished_def) (simp add: trans_hook_def)
qed

lemma trans_seen: "p < 4 \<Longrightarrow> 0 < p \<Longrightarrow> seen (scalar_selection fips197_core) trans_hook (buffer_disk trans_disk) p = replicate 512 7"
proof -
  assume p: "p < 4" "0 < p"
  have "sec p (replicate 2048 (7 :: u8)) = replicate 512 7" using p by (simp add: sec_def slice_def)
  moreover have "dh_tmp_size trans_hook = 512" by (simp add: trans_hook_def)
  ultimately show ?thesis
    using p seen_eq [OF trans_hook_flags(1), of "scalar_selection fips197_core" "buffer_disk trans_disk" p] trans_hook_flags(2) by (simp add: trans_disk_ok(2))
qed

theorem transcrypt_step_keeps_plain_witness:
  "\<exists>t' w'. dc_transcrypt_step (scalar_selection fips197_core) trans_pool buffer_stack (\<lambda>w. (True, w)) False trans_sample trans_disk = Some (ST_OK, t', w') \<and>
     seen (scalar_selection fips197_core) (td_hook t') (buffer_disk w') 1 = replicate 512 7"
proof -
  have h: "td_hook trans_sample = trans_hook" "length (buffer_disk trans_disk) = 2048" "\<not> block_skipped False trans_sample"
    by (simp_all add: trans_sample_def trans_disk_ok(2) block_skipped_def)
  from transcrypt_step_keeps_plain [OF buffer_stack.device_stack_axioms trans_disk_ok(1,3,4), of "scalar_selection fips197_core" trans_sample False]
  show ?thesis using trans_sample_ready trans_hook_flags trans_seen [of 1] h by auto
qed

text \<open>The client of the driver repeats the step until it returns something else than success.\<close>

primrec transcrypt_run ::
  "xts_selected \<Rightarrow> fc_pool \<Rightarrow> 'w io_mgr \<Rightarrow> ('w \<Rightarrow> bool \<times> 'w) \<Rightarrow> bool \<Rightarrow> nat \<Rightarrow> trans_dev \<Rightarrow> 'w \<Rightarrow> (status \<times> trans_dev \<times> 'w) option" where
  "transcrypt_run S P M start_thread is_decrypt 0 t w = Some (ST_OK, t, w)"
| "transcrypt_run S P M start_thread is_decrypt (Suc n) t w =
     do { (resl, t, w) \<leftarrow> dc_transcrypt_step S P M start_thread is_decrypt t w;
          if resl = ST_OK then transcrypt_run S P M start_thread is_decrypt n t w else Some (resl, t, w) }"

definition work_left :: "bool \<Rightarrow> dev_hook \<Rightarrow> nat" where
  "work_left is_decrypt hook =
     (if is_decrypt then unat (dh_tmp_size hook) - unat (dh_head_len hook) else unat (data_end hook) - unat (dh_tmp_size hook))"

lemma work_decreases:
  assumes lay: "trans_layout n hook" and un: "unfinished is_decrypt hook"
  shows "work_left is_decrypt (hook\<lparr>dh_tmp_size := step_boundary is_decrypt hook\<rparr>) = work_left is_decrypt hook - unat ENC_BLOCK_SIZE"
proof -
  obtain q m where r: "unat (step_off is_decrypt hook) = 512 * q" "unat (step_len is_decrypt hook) = 512 * m" "0 < q" "0 < m" "512 * (q + m) \<le> unat (data_end hook)"
    "unat (dh_head_len hook) \<le> 512 * q" "unat (dh_tmp_size hook) = (if is_decrypt then 512 * (q + m) else 512 * q)" using step_range [OF assms] by metis
  have "512 * (q + m) < 2 ^ 64" using r(5) data_end_dvd [OF lay] lay by (simp add: trans_layout_def)
  then have b: "unat (step_boundary is_decrypt hook) = (if is_decrypt then 512 * q else 512 * (q + m))"
    using r(1,2) by (cases is_decrypt) (simp_all add: step_boundary_def unat_word_ariths(1))
  have "unat (step_len is_decrypt hook) = min (work_left is_decrypt hook) (unat ENC_BLOCK_SIZE)"
    using lay un block_size
    by (cases is_decrypt) (auto simp: step_len_def work_left_def unfinished_def trans_layout_def min_def word_le_nat_alt word_less_nat_alt unat_sub)
  then show ?thesis using b r by (cases is_decrypt) (auto simp: work_left_def data_end_def)
qed

lemma unfinished_work: "trans_layout n hook \<Longrightarrow> unfinished is_decrypt hook \<longleftrightarrow> 0 < work_left is_decrypt hook"
  by (auto simp: unfinished_def work_left_def word_less_nat_alt)

text \<open>Without wiping and without a bitmap, steps go on as long as there is work, and all of them together are invisible.\<close>

lemma run_spec:
  assumes stack: "device_stack M disk good" and P: "pool_ok P" and T: "quiet disk good start_thread"
  shows "good w \<Longrightarrow> trans_ready S (length (disk w)) t \<Longrightarrow> dh_flags (td_hook t) AND F_NO_REDIRECT = 0 \<Longrightarrow>
    \<not> (is_decrypt \<and> dh_flags (td_hook t) AND F_REENCRYPT \<noteq> 0) \<Longrightarrow> wc_mode (td_wp_ctx t) = None \<Longrightarrow> \<not> DC_BITMAP_IS_VALID (td_bitmap t) \<Longrightarrow>
    work_left is_decrypt (td_hook t) \<le> k * unat ENC_BLOCK_SIZE \<Longrightarrow>
    \<exists>j t' w'. j \<le> k \<and> transcrypt_run S P M start_thread is_decrypt (Suc k) t w = transcrypt_run S P M start_thread is_decrypt (Suc (k - j)) t' w' \<and>
      good w' \<and> length (disk w') = length (disk w) \<and> trans_ready S (length (disk w)) t' \<and> \<not> unfinished is_decrypt (td_hook t') \<and>
      td_hook t' = (td_hook t)\<lparr>dh_tmp_size := dh_tmp_size (td_hook t')\<rparr> \<and>
      (\<forall>p. 512 * Suc p \<le> length (disk w) \<longrightarrow> seen S (td_hook t') (disk w') p = seen S (td_hook t) (disk w) p)"
proof (induction k arbitrary: t w)
  case 0
  then have "\<not> unfinished is_decrypt (td_hook t)" using unfinished_work [of "length (disk w)" "td_hook t"] by (simp add: trans_ready_def)
  then show ?case using 0 by (intro exI [of _ 0] exI [of _ t] exI [of _ w]) simp
next
  case (Suc k)
  show ?case
  proof (cases "unfinished is_decrypt (td_hook t)")
    case False
    then show ?thesis using Suc.prems by (intro exI [of _ 0] exI [of _ t] exI [of _ w]) simp
  next
    case True
    let ?h1 = "(td_hook t)\<lparr>dh_tmp_size := step_boundary is_decrypt (td_hook t)\<rparr>"
    obtain t1 w1 where s: "dc_transcrypt_step S P M start_thread is_decrypt t w = Some (ST_OK, t1, w1)" "good w1" "length (disk w1) = length (disk w)"
      "td_hook t1 = ?h1" "\<not> tr_in_progress (td_trans t1)" "tr_pending (td_trans t1) = 0" "length (td_buff t1) = length (td_buff t)"
      "wc_mode (td_wp_ctx t1) = None" "wc_size (td_wp_ctx t1) = wc_size (td_wp_ctx t)" "\<not> DC_BITMAP_IS_VALID (td_bitmap t1)"
      "\<forall>p. 512 * Suc p \<le> length (disk w) \<longrightarrow> sec p (disk w1) =
         (if in_block is_decrypt (td_hook t) p \<and> \<not> block_skipped is_decrypt t then block_op S (td_hook t) is_decrypt p (sec p (disk w)) else sec p (disk w))"
      using step_spec [OF stack Suc.prems(1) P Suc.prems(2) T True] Suc.prems(5,6) by auto
    have "\<not> block_skipped is_decrypt t" using Suc.prems(6) by (simp add: block_skipped_def)
    then have view: "seen S ?h1 (disk w1) p = seen S (td_hook t) (disk w) p" if "512 * Suc p \<le> length (disk w)" for p
      using step_view [OF Suc.prems(2) True Suc.prems(3,4) that, of "disk w1"] s(11) that by simp
    have lay: "trans_layout (length (disk w)) (td_hook t)" using Suc.prems(2) by (simp add: trans_ready_def)
    have "trans_ready S (length (disk w)) t1" by (rule next_ready [OF Suc.prems(2) True s(4-9)])
    moreover have "work_left is_decrypt ?h1 \<le> k * unat ENC_BLOCK_SIZE" using Suc.prems(7) work_decreases [OF lay True] by simp
    ultimately obtain j t' w' where r: "j \<le> k" "transcrypt_run S P M start_thread is_decrypt (Suc k) t1 w1 = transcrypt_run S P M start_thread is_decrypt (Suc (k - j)) t' w'"
      "good w'" "length (disk w') = length (disk w)" "trans_ready S (length (disk w)) t'" "\<not> unfinished is_decrypt (td_hook t')"
      "td_hook t' = ?h1\<lparr>dh_tmp_size := dh_tmp_size (td_hook t')\<rparr>" "\<forall>p. 512 * Suc p \<le> length (disk w) \<longrightarrow> seen S (td_hook t') (disk w') p = seen S ?h1 (disk w1) p"
      using Suc.IH [OF s(2), of t1] s(3,4,8,10) Suc.prems(3,4) by auto
    have "transcrypt_run S P M start_thread is_decrypt (Suc (Suc k)) t w = transcrypt_run S P M start_thread is_decrypt (Suc k) t1 w1"
      by (subst transcrypt_run.simps(2)) (simp add: s(1) del: transcrypt_run.simps(2))
    then have "transcrypt_run S P M start_thread is_decrypt (Suc (Suc k)) t w = transcrypt_run S P M start_thread is_decrypt (Suc (Suc k - Suc j)) t' w'" using r(2) by simp
    moreover have "td_hook t' = (td_hook t)\<lparr>dh_tmp_size := dh_tmp_size (td_hook t')\<rparr>" using r(7) by simp
    ultimately show ?thesis using r view by (intro exI [of _ "Suc j"] exI [of _ t'] exI [of _ w']) auto
  qed
qed

text \<open>
  C9 (liveness): encryption and re-encryption come to their end.  Under the same conditions, with no wipe mode and no
  loaded allocation bitmap, repeated steps return \<^verbatim>\<open>ST_FINISHED\<close> after at most one step for each 1280 KiB that were
  left and one more; then the boundary is the end of the data area, and every sector before it, decrypted with
  the volume's key, is what requests saw there when the steps began.
\<close>

theorem encryption_finishes:
  assumes "device_stack M disk good" and "good w" and "pool_ok P" and "quiet disk good start_thread"
    and "trans_ready S (length (disk w)) t" and "dh_flags (td_hook t) AND F_NO_REDIRECT = 0"
    and "wc_mode (td_wp_ctx t) = None" and "\<not> DC_BITMAP_IS_VALID (td_bitmap t)" and "work_left False (td_hook t) \<le> k * unat ENC_BLOCK_SIZE"
  shows "\<exists>t' w'. transcrypt_run S P M start_thread False (Suc k) t w = Some (ST_FINISHED, t', w') \<and> good w' \<and> length (disk w') = length (disk w) \<and>
    dh_tmp_size (td_hook t') = data_end (td_hook t) \<and>
    (\<forall>p. 512 * p < unat (data_end (td_hook t)) \<longrightarrow>
       sector_crypt S False (the (dh_dsk_key (td_hook t))) p (sec p (disk w')) = seen S (td_hook t) (disk w) p)"
proof -
  obtain j t1 w1 where r: "transcrypt_run S P M start_thread False (Suc k) t w = transcrypt_run S P M start_thread False (Suc (k - j)) t1 w1"
      "good w1" "length (disk w1) = length (disk w)" "trans_ready S (length (disk w)) t1" "\<not> unfinished False (td_hook t1)"
      "td_hook t1 = (td_hook t)\<lparr>dh_tmp_size := dh_tmp_size (td_hook t1)\<rparr>"
      "\<forall>p. 512 * Suc p \<le> length (disk w) \<longrightarrow> seen S (td_hook t1) (disk w1) p = seen S (td_hook t) (disk w) p"
    using run_spec [OF assms(1,3,4,2,5,6) _ assms(7-9)] by auto
  have lay: "trans_layout (length (disk w)) (td_hook t1)" "trans_keys S (td_hook t1)" using r(4) by (simp_all add: trans_ready_def)
  have de: "data_end (td_hook t1) = data_end (td_hook t)" and keys: "dh_dsk_key (td_hook t1) = dh_dsk_key (td_hook t)"
      "dh_flags (td_hook t1) = dh_flags (td_hook t)"
    by (subst r(6), simp add: data_end_def)+
  have tmp: "dh_tmp_size (td_hook t1) = data_end (td_hook t)"
    using r(5) lay(1) de by (intro antisym) (simp_all add: unfinished_def trans_layout_def word_le_nat_alt word_less_nat_alt)
  obtain t2 w2 where step: "dc_transcrypt_step S P M start_thread False t1 w1 = Some (ST_FINISHED, t2, w2)" "td_hook t2 = td_hook t1" "good w2" "disk w2 = disk w1"
  proof -
    let ?t1 = "t1\<lparr>td_trans := (td_trans t1)\<lparr>tr_idle := False, tr_in_progress := True\<rparr>\<rparr>"
    let ?lazy = "if td_wp_mode t1 = WP_SKIP_UNUSED \<and> td_bitmap t1 = DC_BITMAP_NONE then dc_bitmap_start_init start_thread ?t1 w1 else (?t1, w1)"
    obtain t0 w0 where tw: "?lazy = (t0, w0)" by (cases ?lazy)
    have "td_hook t0 = td_hook t1" using tw by (auto simp: dc_bitmap_start_init_def split: if_splits prod.splits)
    moreover have "good w0" "disk w0 = disk w1"
      using tw assms(4) r(2) by (auto simp: dc_bitmap_start_init_def quiet_def split: if_splits prod.splits)
    moreover have "dc_transcrypt_step S P M start_thread False t1 w1 = Some (ST_FINISHED, trans_idle t0, w0)"
      using r(4) tw tmp de calculation(1) unfolding dc_transcrypt_step_def by (simp add: trans_ready_def Let_def)
    ultimately show thesis using that [of "trans_idle t0" w0] by (simp add: trans_idle_def)
  qed
  obtain k1 where k1: "dh_dsk_key (td_hook t) = Some k1" using lay(2) keys by (auto simp: trans_keys_def)
  have e: "512 dvd unat (data_end (td_hook t))" "unat (data_end (td_hook t)) \<le> length (disk w)" "0 < unat (dh_tmp_size (td_hook t1))"
    using data_end_dvd [OF lay(1)] lay(1) de by (auto simp: trans_layout_def)
  have "sector_crypt S False k1 p (sec p (disk w2)) = seen S (td_hook t) (disk w) p" if p: "512 * p < unat (data_end (td_hook t))" for p
  proof -
    have "seen S (td_hook t1) (disk w1) p = sector_crypt S False k1 p (sec p (disk w1))"
      using seen_eq [of "td_hook t1" S "disk w1" p] assms(6) keys k1 tmp p e(3) by (simp add: word_less_nat_alt)
    moreover have "512 * Suc p \<le> length (disk w)" using p e by (auto elim!: dvdE)
    ultimately show ?thesis using r(7) step(4) by simp
  qed
  moreover have "ST_FINISHED \<noteq> ST_OK" by (simp add: ST_FINISHED_def ST_OK_def)
  ultimately show ?thesis using r(1) step tmp k1 r(3) by simp
qed

theorem encryption_finishes_witness:
  "\<exists>t' w'. transcrypt_run (scalar_selection fips197_core) trans_pool buffer_stack (\<lambda>w. (True, w)) False 2 trans_sample trans_disk = Some (ST_FINISHED, t', w') \<and>
     sector_crypt (scalar_selection fips197_core) False (the (dh_dsk_key trans_hook)) 1 (sec 1 (buffer_disk w')) = replicate 512 7"
proof -
  have h: "td_hook trans_sample = trans_hook" "length (buffer_disk trans_disk) = 2048" "wc_mode (td_wp_ctx trans_sample) = None"
    "\<not> DC_BITMAP_IS_VALID (td_bitmap trans_sample)"
    by (simp_all add: trans_sample_def trans_disk_ok(2) wipe_zero_def)
  have left: "work_left False trans_hook \<le> 1 * unat ENC_BLOCK_SIZE"
    using trans_sample_ready(3) by (simp add: work_left_def block_size)
  from encryption_finishes [OF buffer_stack.device_stack_axioms trans_disk_ok(1,3,4), of "scalar_selection fips197_core" trans_sample 1,
      unfolded h(1,2), OF trans_sample_ready(1) trans_hook_flags(1) h(3,4) left]
  obtain t' w' where r: "transcrypt_run (scalar_selection fips197_core) trans_pool buffer_stack (\<lambda>w. (True, w)) False (Suc 1) trans_sample trans_disk = Some (ST_FINISHED, t', w')"
    "\<forall>p. 512 * p < unat (data_end trans_hook) \<longrightarrow> sector_crypt (scalar_selection fips197_core) False (the (dh_dsk_key trans_hook)) p (sec p (buffer_disk w')) =
       seen (scalar_selection fips197_core) trans_hook (buffer_disk trans_disk) p" by blast
  have "512 * 1 < unat (data_end trans_hook)" using trans_sample_ready(3) by simp
  then have "sector_crypt (scalar_selection fips197_core) False (the (dh_dsk_key trans_hook)) 1 (sec 1 (buffer_disk w')) = replicate 512 7"
    using r(2) trans_seen [of 1] by (simp del: One_nat_def)
  moreover have "Suc 1 = 2" by simp
  ultimately show ?thesis using r(1) by metis
qed

end
