(* ===== verification/TranscryptFinish.thy ===== *)
theory TranscryptFinish
  imports Transcrypt
begin

text \<open>
  The end of a decryption (\<^verbatim>\<open>dc_dec_finish\<close> of \<^verbatim>\<open>DCrypt/driver/enc_dec.c\<close>): the sectors that the headers took are copied
  back from the storage area, and the disk is the plain volume again.
\<close>

unbundle bit_operations_syntax

section \<open>Copying a part of the volume\<close>

lemma part_chunk_spec:
  assumes "bps \<noteq> 0" "fin < amount" "unat bps dvd unat amount" "unat bps dvd unat fin" "unat bps \<le> unat ENC_BLOCK_SIZE"
  obtains c where "part_chunk amount fin bps = Some c" "0 < unat c" "unat c \<le> unat amount - unat fin" "unat c \<le> unat ENC_BLOCK_SIZE" "unat bps dvd unat c"
proof -
  let ?m = "min (amount - fin) ENC_BLOCK_SIZE" and ?b = "unat bps"
  have b: "0 < ?b" using assms(1) by (simp add: unat_gt_0)
  have m: "unat ?m = min (unat amount - unat fin) (unat ENC_BLOCK_SIZE)" using assms(2) by (simp add: min_def word_le_nat_alt unat_sub word_less_nat_alt)
  have rest: "0 < unat amount - unat fin" "?b dvd unat amount - unat fin" using assms(2-4) by (simp_all add: word_less_nat_alt dvd_diff_nat)
  then have bm: "?b \<le> unat ?m" using m assms(5) by (simp add: dvd_imp_le)
  have div: "unat (ucast ?m div ucast bps :: u64) = unat ?m div ?b" by (simp add: unat_div)
  have le: "unat ?m div ?b * ?b \<le> unat ?m" by simp
  then have "unat (ucast ?m div ucast bps * ucast bps :: u64) = unat ?m div ?b * ?b"
  proof -
    have "unat ?m div ?b * ?b < 2 ^ 64" by (rule le_less_trans [OF le]) (use unsigned_less [of ?m, where ?'a = nat] in simp)
    then show ?thesis using div by (simp add: unat_word_ariths(2))
  qed
  moreover have "?b \<le> unat ?m div ?b * ?b" 
  proof -
    have "1 \<le> unat ?m div ?b" using bm b by (simp add: Suc_le_eq div_greater_zero_iff)
    from mult_le_mono1 [OF this, of ?b] show ?thesis unfolding nat_mult_1 .
  qed
  ultimately have "(ucast bps :: u64) \<le> ucast ?m div ucast bps * ucast bps" by (simp only: word_le_nat_alt ucast_u32)
  with \<open>unat (ucast ?m div ucast bps * ucast bps :: u64) = unat ?m div ?b * ?b\<close>
  have max: "unat (max (ucast ?m div ucast bps * ucast bps :: u64) (ucast bps)) = unat ?m div ?b * ?b" by (simp only: max_absorb1)
  then have c: "unat (ucast (max (ucast ?m div ucast bps * ucast bps :: u64) (ucast bps)) :: u32) = unat ?m div ?b * ?b"
  proof -
    have "unat ?m div ?b * ?b < 2 ^ 32" by (rule le_less_trans [OF le]) (use unsigned_less [of ?m, where ?'a = nat] in simp)
    then show ?thesis using max by (simp add: unsigned_ucast_eq take_bit_nat_eq_self)
  qed
  show thesis
  proof (rule that)
    show "part_chunk amount fin bps = Some (ucast (max (ucast ?m div ucast bps * ucast bps :: u64) (ucast bps)))"
      using assms(1) by (simp add: part_chunk_def Let_def)
    show "unat (ucast (max (ucast ?m div ucast bps * ucast bps :: u64) (ucast bps)) :: u32) \<le> unat amount - unat fin"
      "unat (ucast (max (ucast ?m div ucast bps * ucast bps :: u64) (ucast bps)) :: u32) \<le> unat ENC_BLOCK_SIZE"
      unfolding c using le m by linarith+
    show "0 < unat (ucast (max (ucast ?m div ucast bps * ucast bps :: u64) (ucast bps)) :: u32)" unfolding c using \<open>?b \<le> unat ?m div ?b * ?b\<close> b by linarith
    show "?b dvd unat (ucast (max (ucast ?m div ucast bps * ucast bps :: u64) (ucast bps)) :: u32)" unfolding c by simp
  qed
qed

lemma slice_overlay_apart:
  "length x = n \<Longrightarrow> p + n \<le> length d \<Longrightarrow> q + l \<le> length d \<Longrightarrow> q + l \<le> p \<or> p + n \<le> q \<Longrightarrow> slice q l (overlay p x d) = slice q l d"
  by (intro slice_overlay_other) auto

lemma part_loop_copies:
  assumes stack: "device_stack M disk good" "dh_pnp_state hook = Started" "dh_max_chunk hook \<noteq> 0"
    and bps: "dh_bps hook \<noteq> 0" "unat (dh_bps hook) dvd unat amount" "unat (dh_bps hook) \<le> unat ENC_BLOCK_SIZE"
    and range: "unat src + unat amount \<le> length D" "unat dst + unat amount \<le> length D" "unat src + unat amount \<le> unat dst \<or> unat dst + unat amount \<le> unat src"
  shows "good w \<Longrightarrow> unat ENC_BLOCK_SIZE \<le> length buff \<Longrightarrow> unat fin \<le> unat amount \<Longrightarrow> unat (dh_bps hook) dvd unat fin \<Longrightarrow>
    disk w = overlay (unat dst) (slice (unat src) (unat fin) D) D \<Longrightarrow>
    \<exists>b w'. part_loop S P M hook amount src dst None fin ST_OK buff w = Some (ST_OK, b, w') \<and> good w' \<and> length b = length buff \<and>
      disk w' = overlay (unat dst) (slice (unat src) (unat amount) D) D"
proof (induction "unat amount - unat fin" arbitrary: fin buff w rule: less_induct)
  case less
  show ?case
  proof (cases "fin < amount")
    case False
    then have "unat fin = unat amount" using less.prems(3) by (simp add: word_less_nat_alt)
    then show ?thesis using False less.prems by (subst part_loop.simps) simp
  next
    case True
    obtain c where c: "part_chunk amount fin (dh_bps hook) = Some c" "0 < unat c" "unat c \<le> unat amount - unat fin" "unat c \<le> unat ENC_BLOCK_SIZE"
        "unat (dh_bps hook) dvd unat c" using part_chunk_spec [OF bps(1) True bps(2) less.prems(4) bps(3)] by blast
    let ?f = "unat fin" and ?s = "unat src" and ?t = "unat dst"
    have sl: "length (slice ?s ?f D) = ?f" using range(1) less.prems(3) by simp
    have lw: "length (disk w) = length D" using less.prems(3,5) range(2) sl by (simp add: length_overlay)
    have small: "length D < 2 ^ 64" using device_stack.size [OF stack(1) less.prems(1)] lw by simp
    have fc: "unat (fin + c) = ?f + unat c" using c(3) True by (intro unat_add_small) (use unsigned_less [of amount, where ?'a = nat] in \<open>simp add: word_less_nat_alt\<close>)
    have at: "unat (src + ucast fin) = ?s + ?f" "unat (dst + ucast fin) = ?t + ?f"
      using range less.prems(3) small by (simp_all add: unat_add_u64)
    let ?x = "slice (?s + ?f) (unat c) D"
    have lx: "length ?x = unat c" using range(1) c(3) True by (simp add: word_less_nat_alt)
    have old: "slice (?s + ?f) (unat c) (disk w) = ?x"
      unfolding less.prems(5) using range c(3) less.prems(3) True by (intro slice_overlay_apart [OF sl]) (auto simp: word_less_nat_alt)
    let ?b = "overlay 0 ?x buff"
    have lb: "length ?b = length buff" "take (unat c) ?b = ?x" using lx c(4) less.prems(2) by (simp_all add: length_overlay) (simp add: overlay_def)
    have fits: "?s + ?f + unat c \<le> length (disk w)" "?t + ?f + unat c \<le> length (disk w)" "unat c \<le> length buff"
      using range c(3,4) True less.prems(2) lw by (simp_all add: word_less_nat_alt)
    have read: "io_hook_rw M hook buff c (src + ucast fin) True w = Some (ST_OK, ?b, w)"
      using started_device(1) [OF stack less.prems(1), of "src + ucast fin" c buff] fits old by (simp add: at)
    obtain w1 where w1: "io_hook_rw M hook ?b c (dst + ucast fin) False w = Some (ST_OK, ?b, w1)" "good w1" "disk w1 = overlay (?t + ?f) ?x (disk w)"
      using started_device(2) [OF stack less.prems(1), of "dst + ucast fin" c ?b] fits lb by (auto simp: at)
    have d1: "disk w1 = overlay ?t (slice ?s (unat (fin + c)) D) D"
      using overlay_adjacent [of ?t "slice ?s ?f D" ?x D] slice_adjacent [of ?s ?f D "unat c"] sl lx fits(2) lw unfolding w1(3) less.prems(5) fc by simp
    have "unat amount - unat (fin + c) < unat amount - unat fin" "unat (fin + c) \<le> unat amount" "unat (dh_bps hook) dvd unat (fin + c)"
      using c(2,3,5) fc True less.prems(4) by (auto simp: word_less_nat_alt)
    from less.hyps [OF this(1) w1(2) _ this(2,3) d1, of ?b] obtain b w' where
      r: "part_loop S P M hook amount src dst None (fin + c) ST_OK ?b w1 = Some (ST_OK, b, w')" "good w'" "length b = length ?b"
        "disk w' = overlay ?t (slice ?s (unat amount) D) D" using lb less.prems(2) by auto
    have "part_loop S P M hook amount src dst None fin ST_OK buff w = Some (ST_OK, b, w')"
      using True c(1) read w1(1) r(1) by (subst part_loop.simps) simp
    then show ?thesis using r lb by auto
  qed
qed

text \<open>From the start.\<close>

lemma part_loop_start:
  assumes stack: "device_stack M disk good" "dh_pnp_state hook = Started" "dh_max_chunk hook \<noteq> 0" "good w"
    and bps: "dh_bps hook \<noteq> 0" "unat (dh_bps hook) dvd unat amount" "unat (dh_bps hook) \<le> unat ENC_BLOCK_SIZE"
    and range: "unat src + unat amount \<le> length (disk w)" "unat dst + unat amount \<le> length (disk w)" "unat src + unat amount \<le> unat dst \<or> unat dst + unat amount \<le> unat src"
    and buff: "unat ENC_BLOCK_SIZE \<le> length buff"
  shows "\<exists>b w'. part_loop S P M hook amount src dst None 0 ST_OK buff w = Some (ST_OK, b, w') \<and> good w' \<and> length b = length buff \<and>
      disk w' = overlay (unat dst) (slice (unat src) (unat amount) (disk w)) (disk w)"
  using part_loop_copies [OF stack(1-3) bps range stack(4) buff, of 0] by (simp add: slice_def)

section \<open>Restoring the ends\<close>

text \<open>
  A layout in which the storage area lies inside the data area, behind the sectors the header took, with room for both
  parts; the sector size of the device divides what is copied.
\<close>

definition restore_layout :: "nat \<Rightarrow> dev_hook \<Rightarrow> bool" where
  "restore_layout n hook \<longleftrightarrow> trans_layout n hook \<and> dh_flags hook AND F_NO_REDIRECT = 0 \<and> (dh_flags hook AND F_HEAD_BACKUP = 0 \<longrightarrow> dh_tail_len hook = 0) \<and>
     dh_bps hook \<noteq> 0 \<and> unat (dh_bps hook) dvd unat (dh_head_len hook) \<and> unat (dh_bps hook) dvd unat (dh_tail_len hook) \<and>
     unat (dh_bps hook) \<le> unat ENC_BLOCK_SIZE \<and> 512 dvd unat (dh_stor_off hook) \<and> 512 dvd unat (dh_stor_len hook) \<and>
     (dh_tail_len hook \<noteq> 0 \<longrightarrow> dh_tail_off hook = dh_stor_off hook + ucast (dh_stor_len hook) - ucast (dh_tail_len hook)) \<and>
     unat (dh_head_len hook) \<le> unat (dh_stor_off hook) \<and> unat (dh_head_len hook) + unat (dh_tail_len hook) \<le> unat (dh_stor_len hook) \<and>
     unat (dh_stor_off hook) + unat (dh_stor_len hook) \<le> unat (data_end hook)"

lemma data_end_tmp [simp]: "data_end (hook\<lparr>dh_tmp_size := b\<rparr>) = data_end hook"
  by (simp add: data_end_def)

lemma restore_layout_tmp: "restore_layout n hook \<Longrightarrow> trans_layout n (hook\<lparr>dh_tmp_size := b\<rparr>) \<Longrightarrow> restore_layout n (hook\<lparr>dh_tmp_size := b\<rparr>)"
  by (simp add: restore_layout_def)

lemma tail_place:
  assumes "restore_layout n hook"
  shows "unat (dh_stor_off hook + ucast (dh_stor_len hook) - ucast (dh_tail_len hook)) = unat (dh_stor_off hook) + unat (dh_stor_len hook) - unat (dh_tail_len hook)"
    "unat (dh_dsk_size hook - ucast (dh_tail_len hook)) = unat (dh_dsk_size hook) - unat (dh_tail_len hook)"
    "unat (data_end hook) = unat (dh_dsk_size hook) - unat (dh_tail_len hook)"
    "unat (dh_stor_off hook) + unat (dh_stor_len hook) \<le> unat (dh_dsk_size hook) - unat (dh_tail_len hook)"
proof -
  note L = assms [unfolded restore_layout_def trans_layout_def]
  have "trans_layout n hook" using assms by (simp add: restore_layout_def)
  then show e: "unat (data_end hook) = unat (dh_dsk_size hook) - unat (dh_tail_len hook)" using L by (auto simp: unat_data_end)
  then show le: "unat (dh_stor_off hook) + unat (dh_stor_len hook) \<le> unat (dh_dsk_size hook) - unat (dh_tail_len hook)" using L by simp
  then have "unat (dh_stor_off hook + ucast (dh_stor_len hook)) = unat (dh_stor_off hook) + unat (dh_stor_len hook)"
  proof (intro trans [OF unat_add_u64])
    have "unat (dh_dsk_size hook) \<le> n" "n < 2 ^ 62" using L by blast+
    then show "unat (dh_stor_off hook) + unat (ucast (dh_stor_len hook) :: u64) < 2 ^ 64" using le by simp
  qed simp
  then show "unat (dh_stor_off hook + ucast (dh_stor_len hook) - ucast (dh_tail_len hook)) = unat (dh_stor_off hook) + unat (dh_stor_len hook) - unat (dh_tail_len hook)"
    using L by (simp add: unat_sub word_le_nat_alt)
  show "unat (dh_dsk_size hook - ucast (dh_tail_len hook)) = unat (dh_dsk_size hook) - unat (dh_tail_len hook)"
    using L by (simp add: unat_sub word_le_nat_alt)
qed

lemma restored_sectors:
  assumes lay: "restore_layout (length d) hook"
    and d1: "d1 = overlay 0 (slice (unat (dh_stor_off hook)) (unat (dh_head_len hook)) d) d"
    and d2: "d2 = overlay (unat (dh_dsk_size hook) - unat (dh_tail_len hook)) (slice (unat (dh_stor_off hook + ucast (dh_stor_len hook) - ucast (dh_tail_len hook))) (unat (dh_tail_len hook)) d1) d1"
    and s: "512 * Suc s \<le> unat (dh_dsk_size hook)"
  shows "sec s d2 = sec (redirected hook s) d" "unat (dh_head_len hook) \<le> 512 * redirected hook s" "512 * Suc (redirected hook s) \<le> length d" "length d2 = length d"
proof -
  note L = lay [unfolded restore_layout_def trans_layout_def] and tp = tail_place [OF lay]
  have "512 dvd unat (dh_head_len hook)" "512 dvd unat (dh_stor_off hook)" "512 dvd unat (dh_stor_len hook)" "512 dvd unat (dh_tail_len hook)"
    "512 dvd unat (dh_dsk_size hook)" using L by blast+
  then obtain h st sl tl n where e: "unat (dh_head_len hook) = 512 * h" "unat (dh_stor_off hook) = 512 * st" "unat (dh_stor_len hook) = 512 * sl"
      "unat (dh_tail_len hook) = 512 * tl" "unat (dh_dsk_size hook) = 512 * n" by (elim dvdE) (rule that)
  have le0: "h \<le> st" "h + tl \<le> sl" "st + sl \<le> n - tl" "tl \<le> n" "0 < h" "512 * n \<le> length d" "s < n"
    using L tp(4) s unfolding e by (simp_all add: right_diff_distrib' [symmetric])
  obtain m where m: "n = m + tl" using le0(4) by (metis le_add_diff_inverse2)
  obtain u where u: "st + sl = u + tl" using le0(2) by (metis le_add_diff_inverse2 trans_le_add2 le_add2 order_trans)
  have le: "h \<le> u" "u + tl \<le> m" "0 < h" "512 * (m + tl) \<le> length d" "s < m + tl" "h \<le> st" "st + h \<le> m"
  proof -
    have nm: "n - tl = m" using m by simp
    show "h \<le> u" "u + tl \<le> m" "0 < h" "512 * (m + tl) \<le> length d" "s < m + tl" "h \<le> st" "st + h \<le> m"
      using le0 [unfolded nm] u m by simp_all
  qed
  have off: "unat (dh_stor_off hook + ucast (dh_stor_len hook) - ucast (dh_tail_len hook)) = 512 * u" "unat (dh_dsk_size hook) - unat (dh_tail_len hook) = 512 * m"
    using tp(1) u m unfolding e by simp_all
  have l1: "length (slice (512 * st) (512 * h) d) = 512 * h" "512 * 0 + length (slice (512 * st) (512 * h) d) \<le> length d" using le by simp_all
  then have ld1: "length d1 = length d" unfolding d1 e by (simp add: length_overlay)
  have s1: "sec i d1 = (if i < h then sec (st + i) d else sec i d)" if "512 * Suc i \<le> length d" for i
    using sec_overlay [OF l1 that] sec_slice [of i h st d] unfolding d1 e by simp
  have l2: "length (slice (512 * u) (512 * tl) d1) = 512 * tl" "512 * m + length (slice (512 * u) (512 * tl) d1) \<le> length d1"
    using le ld1 by simp_all
  then show ld2: "length d2 = length d" unfolding d2 unfolding off unfolding e by (simp add: length_overlay ld1)
  have fit: "512 * Suc s \<le> length d" using le by simp
  have s2: "sec s d2 = (if m \<le> s then sec (u + (s - m)) d1 else sec s d1)"
    using sec_overlay [OF l2, of s] sec_slice [of "s - m" tl u d1] le ld1 fit unfolding d2 unfolding off unfolding e by auto
  have red: "redirected hook s = (if s < h then st + s else if m \<le> s then u + (s - m) else s)"
  proof (cases "tl = 0")
    case True
    then show ?thesis using L le e u m by (auto simp: redirected_def unat_eq_zero)
  next
    case False
    then have "dh_tail_len hook \<noteq> 0" "dh_flags hook AND F_HEAD_BACKUP \<noteq> 0" using L e(4) by auto
    moreover from this have "unat (dh_tail_off hook) = 512 * u" using L off(1) by simp
    ultimately show ?thesis using L off(2) m unfolding redirected_def e by simp
  qed
  have in_d: "512 * Suc (u + (s - m)) \<le> length d" if "m \<le> s" using that le by simp
  have hm: "h \<le> m" using le by linarith
  show "sec s d2 = sec (redirected hook s) d"
  proof (cases "m \<le> s")
    case True
    then have "\<not> s < h" "\<not> u + (s - m) < h" using hm le by linarith+
    then show ?thesis using True s2 s1 [OF in_d [OF True]] red by simp
  next
    case False
    then show ?thesis using s2 s1 [OF fit] red by simp
  qed
  show "unat (dh_head_len hook) \<le> 512 * redirected hook s" "512 * Suc (redirected hook s) \<le> length d" using red le unfolding e by auto
qed

lemma and_not_disjoint: "(x :: u32) AND b = 0 \<Longrightarrow> x AND NOT b = x"
proof -
  assume "x AND b = 0"
  moreover have "x AND (b OR NOT b) = x AND b OR x AND NOT b" by (rule bit.conj_disj_distrib)
  ultimately show "x AND NOT b = x" by simp
qed

lemma dec_finish_spec:
  assumes stack: "device_stack M disk good" "dh_pnp_state (td_hook t) = Started" "dh_max_chunk (td_hook t) \<noteq> 0" "good w"
    and lay: "restore_layout (length (disk w)) (td_hook t)" and idle: "tr_pending (td_trans t) = 0" and buff: "unat ENC_BLOCK_SIZE \<le> length (td_buff t)"
  shows "\<exists>t' w'. dc_dec_finish S P M t w = Some (ST_FINISHED, t', w') \<and> good w' \<and> length (disk w') = length (disk w) \<and>
    dh_flags (td_hook t') = (dh_flags (td_hook t) OR F_NO_REDIRECT) AND NOT F_HEAD_BACKUP \<and> dh_head_len (td_hook t') = dh_head_len (td_hook t) \<and>
    (\<forall>s. 512 * Suc s \<le> unat (dh_dsk_size (td_hook t)) \<longrightarrow> sec s (disk w') = sec (redirected (td_hook t) s) (disk w))"
proof -
  let ?h = "td_hook t"
  note L = lay [unfolded restore_layout_def trans_layout_def] and tp = tail_place [OF lay]
  have fit: "unat (dh_stor_off ?h) + unat (dh_head_len ?h) \<le> length (disk w)" "unat (dh_head_len ?h) \<le> length (disk w)"
    "unat (dh_head_len ?h) \<le> unat (dh_stor_off ?h)"
  proof -
    have l: "unat (dh_dsk_size ?h) \<le> length (disk w)" "unat (dh_head_len ?h) + unat (dh_tail_len ?h) \<le> unat (dh_dsk_size ?h)"
      "unat (dh_head_len ?h) + unat (dh_tail_len ?h) \<le> unat (dh_stor_len ?h)" using L by blast+
    show "unat (dh_stor_off ?h) + unat (dh_head_len ?h) \<le> length (disk w)" "unat (dh_head_len ?h) \<le> length (disk w)" using l tp(4) by linarith+
    show "unat (dh_head_len ?h) \<le> unat (dh_stor_off ?h)" using L by blast
  qed
  obtain t1 where t1: "dc_lock_disk_range 0 (ucast (dh_head_len ?h)) t = Some t1" "td_hook t1 = ?h" "td_buff t1 = td_buff t" "tr_pending (td_trans t1) = 0"
    using idle by (simp add: dc_lock_disk_range_def)
  obtain b1 w1 where w1: "part_loop S P M ?h (dh_head_len ?h) (dh_stor_off ?h) 0 None 0 ST_OK (td_buff t) w = Some (ST_OK, b1, w1)" "good w1"
      "length b1 = length (td_buff t)" "disk w1 = overlay 0 (slice (unat (dh_stor_off ?h)) (unat (dh_head_len ?h)) (disk w)) (disk w)"
    using part_loop_start [OF stack, where amount = "dh_head_len ?h" and src = "dh_stor_off ?h" and dst = 0 and buff = "td_buff t" and S = S and P = P] L fit buff by auto
  let ?t2 = "dc_unlock_disk_range (set_flags F_NO_REDIRECT (t1\<lparr>td_buff := b1\<rparr>))"
  have begin': "dc_restore_part_begin S P M t w = Some (ST_OK, ?t2, w1)" using t1 w1(1) by (simp add: dc_restore_part_begin_def)
  have h2: "td_hook ?t2 = ?h\<lparr>dh_flags := dh_flags ?h OR F_NO_REDIRECT\<rparr>" "td_buff ?t2 = b1" "tr_pending (td_trans ?t2) = 0"
    using t1 by (simp_all add: dc_unlock_disk_range_def set_flags_def)
  have on_end: "\<not> IS_STORAGE_ON_END (dh_flags (td_hook ?t2))" unfolding h2(1)
    by (simp add: IS_STORAGE_ON_END_def bit.conj_disj_distrib2) (simp add: f_defs)
  have backup: "dh_flags (td_hook ?t2) AND F_HEAD_BACKUP = dh_flags ?h AND F_HEAD_BACKUP"
    unfolding h2(1) by (simp add: bit.conj_disj_distrib2) (simp add: f_defs)
  have l1: "length (disk w1) = length (disk w)" unfolding w1(4) using fit by (simp add: length_overlay)
  show ?thesis
  proof (cases "dh_flags ?h AND F_HEAD_BACKUP = 0")
    case True
    then have tl: "dh_tail_len ?h = 0" using L by simp
    have "disk w1 = overlay (unat (dh_dsk_size ?h) - unat (dh_tail_len ?h)) (slice (unat (dh_stor_off ?h + ucast (dh_stor_len ?h) - ucast (dh_tail_len ?h))) (unat (dh_tail_len ?h)) (disk w1)) (disk w1)"
      by (simp add: tl slice_def overlay_def)
    note secs = restored_sectors(1) [OF lay w1(4) this]
    have "(dh_flags ?h OR F_NO_REDIRECT) AND NOT F_HEAD_BACKUP = dh_flags ?h OR F_NO_REDIRECT"
    proof (rule and_not_disjoint)
      have "F_NO_REDIRECT AND F_HEAD_BACKUP = 0" by (simp add: f_defs)
      then show "(dh_flags ?h OR F_NO_REDIRECT) AND F_HEAD_BACKUP = 0" using True by (simp add: bit.conj_disj_distrib2)
    qed
    moreover have "dc_dec_finish S P M t w = Some (ST_FINISHED, ?t2, w1)" using begin' True backup by (simp add: dc_dec_finish_def)
    ultimately show ?thesis using w1(2) l1 secs h2(1) by simp
  next
    case False
    let ?src = "dh_stor_off ?h + ucast (dh_stor_len ?h) - ucast (dh_tail_len ?h)" and ?dst = "dh_dsk_size ?h - ucast (dh_tail_len ?h)"
    obtain t3 where t3: "dc_lock_disk_range ?dst (dh_dsk_size ?h) ?t2 = Some t3" "td_hook t3 = td_hook ?t2" "td_buff t3 = b1"
      using h2 by (simp add: dc_lock_disk_range_def)
    have fit2: "unat ?src + unat (dh_tail_len ?h) \<le> length (disk w1)" "unat ?dst + unat (dh_tail_len ?h) \<le> length (disk w1)" "unat ?src + unat (dh_tail_len ?h) \<le> unat ?dst"
      proof -
      have l: "unat (dh_dsk_size ?h) \<le> length (disk w)" "unat (dh_head_len ?h) + unat (dh_tail_len ?h) \<le> unat (dh_dsk_size ?h)"
        "unat (dh_head_len ?h) + unat (dh_tail_len ?h) \<le> unat (dh_stor_len ?h)" using L by blast+
      show "unat ?src + unat (dh_tail_len ?h) \<le> length (disk w1)" "unat ?dst + unat (dh_tail_len ?h) \<le> length (disk w1)" "unat ?src + unat (dh_tail_len ?h) \<le> unat ?dst"
        unfolding tp(1,2) l1 using l tp(4) by linarith+
    qed
    have st2: "dh_pnp_state (td_hook ?t2) = Started" "dh_max_chunk (td_hook ?t2) \<noteq> 0" using stack(2,3) h2(1) by simp_all
    obtain b2 w2 where w2: "part_loop S P M (td_hook ?t2) (dh_tail_len ?h) ?src ?dst None 0 ST_OK b1 w1 = Some (ST_OK, b2, w2)" "good w2"
        "disk w2 = overlay (unat ?dst) (slice (unat ?src) (unat (dh_tail_len ?h)) (disk w1)) (disk w1)"
      using part_loop_start [OF stack(1) st2 w1(2), where amount = "dh_tail_len ?h" and src = ?src and dst = ?dst and buff = b1 and S = S and P = P] L fit2 buff w1(3) h2(1) by auto
    note secs = restored_sectors [OF lay w1(4) w2(3) [unfolded tp(2)]]
    let ?t4 = "dc_unlock_disk_range (clear_flags F_HEAD_BACKUP (t3\<lparr>td_buff := b2\<rparr>))"
    let ?t5 = "?t4\<lparr>td_hook := (td_hook ?t4)\<lparr>dh_tail_len := 0, dh_tail_off := 0\<rparr>\<rparr>"
    have "dc_restore_part_end S P M False ?t2 w1 = Some (ST_OK, ?t5, w2)"
      using t3 w2(1) h2(1,2) by (simp add: dc_restore_part_end_def Let_def)
    then have "dc_dec_finish S P M t w = Some (ST_FINISHED, ?t5, w2)" using begin' False backup on_end by (simp add: dc_dec_finish_def)
    moreover have "length (disk w2) = length (disk w)" using w2(3) fit2(1,2) l1 by (simp add: length_overlay)
    ultimately show ?thesis using w2(2) secs(1) h2(1) t3(2) by (simp add: dc_unlock_disk_range_def clear_flags_def)
  qed
qed

section \<open>Properties\<close>

text \<open>A whole decryption: the steps, and the last one that restores the ends.\<close>

lemma decrypt_run:
  assumes stack: "device_stack M disk good" "good w" and P: "pool_ok P" and T: "quiet disk good start_thread"
    and ready: "trans_ready S (length (disk w)) t" and lay: "restore_layout (length (disk w)) (td_hook t)" and re: "dh_flags (td_hook t) AND F_REENCRYPT = 0"
    and wp: "wc_mode (td_wp_ctx t) = None" "\<not> DC_BITMAP_IS_VALID (td_bitmap t)" and k: "work_left True (td_hook t) \<le> k * unat ENC_BLOCK_SIZE"
  shows "\<exists>t' w'. transcrypt_run S P M start_thread True (Suc k) t w = Some (ST_FINISHED, t', w') \<and> good w' \<and> length (disk w') = length (disk w) \<and>
    dh_flags (td_hook t') = (dh_flags (td_hook t) OR F_NO_REDIRECT) AND NOT F_HEAD_BACKUP \<and> dh_head_len (td_hook t') = dh_head_len (td_hook t) \<and>
    (\<forall>s. 512 * Suc s \<le> unat (dh_dsk_size (td_hook t)) \<longrightarrow> sec s (disk w') = seen S (td_hook t) (disk w) (redirected (td_hook t) s))"
proof -
  have nr: "dh_flags (td_hook t) AND F_NO_REDIRECT = 0" using lay by (simp add: restore_layout_def)
  obtain j t1 w1 where r: "transcrypt_run S P M start_thread True (Suc k) t w = transcrypt_run S P M start_thread True (Suc (k - j)) t1 w1"
      "good w1" "length (disk w1) = length (disk w)" "trans_ready S (length (disk w)) t1" "\<not> unfinished True (td_hook t1)"
      "td_hook t1 = (td_hook t)\<lparr>dh_tmp_size := dh_tmp_size (td_hook t1)\<rparr>"
      "\<forall>p. 512 * Suc p \<le> length (disk w) \<longrightarrow> seen S (td_hook t1) (disk w1) p = seen S (td_hook t) (disk w) p"
    using run_spec [OF stack(1) P T stack(2) ready nr _ wp k] re by auto
  have lay1: "trans_layout (length (disk w)) (td_hook t1)" using r(4) by (simp add: trans_ready_def)
  have flds: "dh_flags (td_hook t1) = dh_flags (td_hook t)" "dh_head_len (td_hook t1) = dh_head_len (td_hook t)" "dh_dsk_size (td_hook t1) = dh_dsk_size (td_hook t)"
      "redirected (td_hook t1) = redirected (td_hook t)" "restore_layout (length (disk w)) (td_hook t1)"
    subgoal by (subst r(6)) simp
    subgoal by (subst r(6)) simp
    subgoal by (subst r(6)) simp
    subgoal by (subst r(6)) (simp add: redirected_def fun_eq_iff)
    subgoal using restore_layout_tmp [OF lay] lay1 r(6) by metis
    done
  have tmp: "unat (dh_tmp_size (td_hook t1)) = unat (dh_head_len (td_hook t))"
    using r(5) lay1 flds(2) by (simp add: unfinished_def trans_layout_def word_less_nat_alt)
  obtain t0 w0 where t0: "td_hook t0 = td_hook t1" "td_buff t0 = td_buff t1" "tr_pending (td_trans t0) = 0" "good w0" "disk w0 = disk w1"
      "dc_transcrypt_step S P M start_thread True t1 w1 = Option.bind (dc_dec_finish S P M t0 w0) (\<lambda>(resl, t, w). Some (resl, trans_idle t, w))"
  proof -
    let ?t1 = "t1\<lparr>td_trans := (td_trans t1)\<lparr>tr_idle := False, tr_in_progress := True\<rparr>\<rparr>"
    let ?lazy = "if td_wp_mode t1 = WP_SKIP_UNUSED \<and> td_bitmap t1 = DC_BITMAP_NONE then dc_bitmap_start_init start_thread ?t1 w1 else (?t1, w1)"
    obtain t0 w0 where tw: "?lazy = (t0, w0)" by (cases ?lazy)
    have f: "td_hook t0 = td_hook t1" "td_buff t0 = td_buff t1" "tr_pending (td_trans t0) = 0"
      using tw r(4) by (auto simp: dc_bitmap_start_init_def trans_ready_def split: if_splits prod.splits)
    have g: "good w0" "disk w0 = disk w1" using tw T r(2) by (auto simp: dc_bitmap_start_init_def quiet_def split: if_splits prod.splits)
    have "dh_tmp_size (td_hook t1) \<le> ucast (dh_head_len (td_hook t1))" using r(5) by (simp add: unfinished_def)
    then have "dc_transcrypt_step S P M start_thread True t1 w1 = Option.bind (dc_dec_finish S P M t0 w0) (\<lambda>(resl, t, w). Some (resl, trans_idle t, w))"
      using r(4) tw f(1) unfolding dc_transcrypt_step_def by (simp add: trans_ready_def Let_def)
    then show thesis using that f g by blast
  qed
  have R: "dh_pnp_state (td_hook t0) = Started" "dh_max_chunk (td_hook t0) \<noteq> 0" "unat ENC_BLOCK_SIZE \<le> length (td_buff t0)"
    using r(4) t0(1,2) by (simp_all add: trans_ready_def)
  have "restore_layout (length (disk w0)) (td_hook t0)" using flds(5) t0(1,5) r(3) by simp
  from dec_finish_spec [OF stack(1) R(1,2) t0(4) this t0(3) R(3)] obtain t2 w2 where f: "dc_dec_finish S P M t0 w0 = Some (ST_FINISHED, t2, w2)" "good w2"
      "length (disk w2) = length (disk w)" "dh_flags (td_hook t2) = (dh_flags (td_hook t) OR F_NO_REDIRECT) AND NOT F_HEAD_BACKUP" "dh_head_len (td_hook t2) = dh_head_len (td_hook t)"
      "\<forall>s. 512 * Suc s \<le> unat (dh_dsk_size (td_hook t)) \<longrightarrow> sec s (disk w2) = sec (redirected (td_hook t) s) (disk w1)"
    unfolding t0(1,5) flds(1-4) r(3) by blast
  have "sec s (disk w2) = seen S (td_hook t) (disk w) (redirected (td_hook t) s)" if s: "512 * Suc s \<le> unat (dh_dsk_size (td_hook t))" for s
  proof -
    note p = restored_sectors(2,3) [OF lay refl refl s]
    have "0 < dh_tmp_size (td_hook t1)" using tmp lay by (simp add: restore_layout_def trans_layout_def word_less_nat_alt)
    then have "seen S (td_hook t1) (disk w1) (redirected (td_hook t) s) = sec (redirected (td_hook t) s) (disk w1)"
      using seen_eq [of "td_hook t1" S "disk w1" "redirected (td_hook t) s"] flds(1) nr re tmp p(1) by simp
    then show ?thesis using f(6) s r(7) p(2) by simp
  qed
  moreover have "ST_FINISHED \<noteq> ST_OK" by (simp add: ST_FINISHED_def ST_OK_def)
  ultimately show ?thesis using r(1) t0(6) f by (simp add: trans_idle_def)
qed

text \<open>
  C10 (refinement): decryption gives the plain volume back.  For a redirected volume that is not being re-encrypted,
  whose storage area lies in the data area behind the header and has room for both parts, on a lower driver
  that completes requests in line and does not fail inside the disk, with no request pending, no wipe mode and
  no loaded allocation bitmap: repeated decryption steps end with \<^verbatim>\<open>ST_FINISHED\<close>, after at most one step for each
  1280 KiB that were left and one more, and then every sector of the disk, read without the driver, holds what
  requests saw in that sector of the volume when the steps began: the sectors of the two headers come back from
  the storage area, all others are decrypted in place.
\<close>

theorem decryption_restores_volume:
  assumes "device_stack M disk good" and "good w" and "pool_ok P" and "quiet disk good start_thread"
    and "trans_ready S (length (disk w)) t" and "restore_layout (length (disk w)) (td_hook t)" and "dh_flags (td_hook t) AND F_REENCRYPT = 0"
    and "wc_mode (td_wp_ctx t) = None" and "\<not> DC_BITMAP_IS_VALID (td_bitmap t)" and "work_left True (td_hook t) \<le> k * unat ENC_BLOCK_SIZE"
  shows "\<exists>t' w'. transcrypt_run S P M start_thread True (Suc k) t w = Some (ST_FINISHED, t', w') \<and> good w' \<and> length (disk w') = length (disk w) \<and>
    (\<forall>s. 512 * Suc s \<le> unat (dh_dsk_size (td_hook t)) \<longrightarrow> sec s (disk w') = seen S (td_hook t) (disk w) (redirected (td_hook t) s))"
  using decrypt_run [OF assms] by blast

text \<open>The sample volume, encrypted, at the start of its decryption.\<close>

definition dec_sample :: trans_dev where
  "dec_sample = trans_sample\<lparr>td_hook := trans_hook\<lparr>dh_tmp_size := 2048\<rparr>\<rparr>"

lemma dec_sample_ready:
  "trans_ready (scalar_selection fips197_core) (length (buffer_disk trans_disk)) dec_sample"
  "restore_layout (length (buffer_disk trans_disk)) (td_hook dec_sample)" "dh_flags (td_hook dec_sample) AND F_REENCRYPT = 0"
  "wc_mode (td_wp_ctx dec_sample) = None" "\<not> DC_BITMAP_IS_VALID (td_bitmap dec_sample)" "work_left True (td_hook dec_sample) \<le> 1 * unat ENC_BLOCK_SIZE"
proof -
  have n: "length (buffer_disk trans_disk) = 2048" by (simp add: trans_disk_ok(2))
  have de: "data_end (trans_hook\<lparr>dh_tmp_size := 2048\<rparr>) = 2048" using trans_sample_ready(3) by simp
  then have lay: "trans_layout 2048 (trans_hook\<lparr>dh_tmp_size := 2048\<rparr>)" by (simp add: trans_layout_def) (simp add: trans_hook_def)
  then show "trans_ready (scalar_selection fips197_core) (length (buffer_disk trans_disk)) dec_sample"
    using trans_sample_ready(1) unfolding n by (simp add: trans_ready_def dec_sample_def trans_keys_def) (simp add: trans_sample_def trans_hook_def)
  have h: "dh_bps trans_hook = 512" "dh_stor_off trans_hook = 1536" "dh_stor_len trans_hook = 512" "dh_head_len trans_hook = 512" "dh_tail_len trans_hook = 0"
      "dh_tail_off trans_hook = 0" by (simp_all add: trans_hook_def)
  show "restore_layout (length (buffer_disk trans_disk)) (td_hook dec_sample)"
    using lay de trans_hook_flags h unfolding n by (simp add: restore_layout_def dec_sample_def block_size)
  show "dh_flags (td_hook dec_sample) AND F_REENCRYPT = 0" using trans_hook_flags by (simp add: dec_sample_def)
  show "wc_mode (td_wp_ctx dec_sample) = None" "\<not> DC_BITMAP_IS_VALID (td_bitmap dec_sample)" by (simp_all add: dec_sample_def trans_sample_def wipe_zero_def)
  show "work_left True (td_hook dec_sample) \<le> 1 * unat ENC_BLOCK_SIZE" by (simp add: work_left_def dec_sample_def block_size)
qed

lemma dec_sample_view:
  "seen (scalar_selection fips197_core) (td_hook dec_sample) (buffer_disk trans_disk) (redirected (td_hook dec_sample) 0) =
     sector_crypt (scalar_selection fips197_core) False (the (dh_dsk_key trans_hook)) 3 (replicate 512 7)"
proof -
  have fl: "dh_flags (td_hook dec_sample) AND F_NO_REDIRECT = 0" "0 < dh_tmp_size (td_hook dec_sample)" "dh_tmp_size (td_hook dec_sample) = 2048"
    using trans_hook_flags by (simp_all add: dec_sample_def)
  have "sec 3 (replicate 2048 (7 :: u8)) = replicate 512 7" by (simp add: sec_def slice_def)
  moreover have "dh_dsk_key (td_hook dec_sample) = Some (the (dh_dsk_key trans_hook))" by (simp add: dec_sample_def) (simp add: trans_hook_def)
  moreover have "redirected (td_hook dec_sample) 0 = 3" using fl(1) by (simp add: redirected_def) (simp add: dec_sample_def trans_hook_def)
  ultimately show ?thesis using fl by (simp add: seen_eq trans_disk_ok(2))
qed

theorem decryption_restores_volume_witness:
  "\<exists>t' w'. transcrypt_run (scalar_selection fips197_core) trans_pool buffer_stack (\<lambda>w. (True, w)) True 2 dec_sample trans_disk = Some (ST_FINISHED, t', w') \<and>
     sec 0 (buffer_disk w') = sector_crypt (scalar_selection fips197_core) False (the (dh_dsk_key trans_hook)) 3 (replicate 512 7)"
proof -
  from decryption_restores_volume [OF buffer_stack.device_stack_axioms trans_disk_ok(1,3,4) dec_sample_ready]
  obtain t' w' where r: "transcrypt_run (scalar_selection fips197_core) trans_pool buffer_stack (\<lambda>w. (True, w)) True (Suc 1) dec_sample trans_disk = Some (ST_FINISHED, t', w')"
    "\<forall>s. 512 * Suc s \<le> unat (dh_dsk_size (td_hook dec_sample)) \<longrightarrow> sec s (buffer_disk w') =
       seen (scalar_selection fips197_core) (td_hook dec_sample) (buffer_disk trans_disk) (redirected (td_hook dec_sample) s)" by blast
  have "512 * Suc 0 \<le> unat (dh_dsk_size (td_hook dec_sample))" by (simp add: dec_sample_def trans_hook_def)
  then have "sec 0 (buffer_disk w') = sector_crypt (scalar_selection fips197_core) False (the (dh_dsk_key trans_hook)) 3 (replicate 512 7)"
    using r(2) dec_sample_view by simp
  moreover have "Suc 1 = 2" by simp
  ultimately show ?thesis using r(1) by metis
qed

text \<open>
  From the end of a decryption to the unmount, requests go astray.  The step that restores the ends sets
  \<^verbatim>\<open>F_NO_REDIRECT\<close> on a device that is still enabled, so a request that comes before the volume is unmounted is
  moved up by the length of the header: its first chunk lies at its offset plus \<^verbatim>\<open>head_len\<close>, on a disk that holds
  the plain volume in place.
\<close>

theorem requests_shift_after_decryption:
  assumes "device_stack M disk good" and "good w" and "pool_ok P" and "quiet disk good start_thread"
    and "trans_ready S (length (disk w)) t" and "restore_layout (length (disk w)) (td_hook t)" and "dh_flags (td_hook t) AND F_REENCRYPT = 0"
    and "wc_mode (td_wp_ctx t) = None" and "\<not> DC_BITMAP_IS_VALID (td_bitmap t)" and "work_left True (td_hook t) \<le> k * unat ENC_BLOCK_SIZE"
  shows "\<exists>t' w'. transcrypt_run S P M start_thread True (Suc k) t w = Some (ST_FINISHED, t', w') \<and>
    (\<forall>s. 512 * Suc s \<le> unat (dh_dsk_size (td_hook t)) \<longrightarrow> sec s (disk w') = seen S (td_hook t) (disk w) (redirected (td_hook t) s)) \<and>
    (\<forall>conf depth is_read expect_off offset len buff.
       io_chunk_diskof (io_async_make_chunk conf depth (td_hook t') is_read (io_context_init (td_hook t') (sync_snapshot (td_hook t')) expect_off offset len buff)) =
       offset + ucast (dh_head_len (td_hook t)))"
proof -
  obtain t' w' where r: "transcrypt_run S P M start_thread True (Suc k) t w = Some (ST_FINISHED, t', w')"
    "dh_flags (td_hook t') = (dh_flags (td_hook t) OR F_NO_REDIRECT) AND NOT F_HEAD_BACKUP" "dh_head_len (td_hook t') = dh_head_len (td_hook t)"
    "\<forall>s. 512 * Suc s \<le> unat (dh_dsk_size (td_hook t)) \<longrightarrow> sec s (disk w') = seen S (td_hook t) (disk w) (redirected (td_hook t) s)"
    using decrypt_run [OF assms] by blast
  have hb: "dh_flags (td_hook t') AND F_HEAD_BACKUP = 0" unfolding r(2) by (simp add: and.assoc)
  have nr: "dh_flags (td_hook t') AND F_NO_REDIRECT \<noteq> 0"
  proof -
    have "((f OR F_NO_REDIRECT) AND NOT F_HEAD_BACKUP) AND F_NO_REDIRECT = F_NO_REDIRECT" for f
    proof (rule bit_eqI)
      show "bit (((f OR F_NO_REDIRECT) AND NOT F_HEAD_BACKUP) AND F_NO_REDIRECT) n = bit F_NO_REDIRECT n" if "possible_bit TYPE(u32) n" for n
      proof -
        have "F_NO_REDIRECT AND F_HEAD_BACKUP = 0" by (simp add: f_defs)
        then have "\<not> bit (F_NO_REDIRECT AND F_HEAD_BACKUP) n" by simp
        then show ?thesis using that by (auto simp: bit_and_iff bit_or_iff bit_not_iff)
      qed
    qed
    moreover have "F_NO_REDIRECT \<noteq> 0" by (simp add: F_NO_REDIRECT_def)
    ultimately show ?thesis unfolding r(2) by metis
  qed
  have "io_chunk_diskof (io_async_make_chunk conf depth (td_hook t') is_read (io_context_init (td_hook t') (sync_snapshot (td_hook t')) expect_off offset len buff)) =
      offset + ucast (dh_head_len (td_hook t))" for conf depth is_read expect_off offset len buff
    using hb nr r(3) by (simp add: io_async_make_chunk_def place_chunk_def bound_chunk_def io_context_init_def Let_def)
  then show ?thesis using r(1,4) by blast
qed

theorem requests_shift_after_decryption_witness:
  "\<exists>t' w'. transcrypt_run (scalar_selection fips197_core) trans_pool buffer_stack (\<lambda>w. (True, w)) True 2 dec_sample trans_disk = Some (ST_FINISHED, t', w') \<and>
     io_chunk_diskof (io_async_make_chunk 0 1 (td_hook t') True (io_context_init (td_hook t') (sync_snapshot (td_hook t')) 0 0 512 [])) = 512"
proof -
  from requests_shift_after_decryption [OF buffer_stack.device_stack_axioms trans_disk_ok(1,3,4) dec_sample_ready]
  obtain t' w' where r: "transcrypt_run (scalar_selection fips197_core) trans_pool buffer_stack (\<lambda>w. (True, w)) True (Suc 1) dec_sample trans_disk = Some (ST_FINISHED, t', w')"
    "io_chunk_diskof (io_async_make_chunk 0 1 (td_hook t') True (io_context_init (td_hook t') (sync_snapshot (td_hook t')) 0 0 512 [])) =
       0 + ucast (dh_head_len (td_hook dec_sample))" by blast
  moreover have "ucast (dh_head_len (td_hook dec_sample)) = (512 :: u64)" by (simp add: dec_sample_def trans_hook_def)
  moreover have "Suc 1 = 2" by simp
  ultimately show ?thesis by (metis add_0)
qed

end
